(* ===== verification/Go_Prelude.thy ===== *)
theory Go_Prelude
  imports Main "HOL-Library.Char_ord" "HOL-Library.List_Lexorder" "HOL-Library.Code_Target_Numeral"
begin

text \<open>
  The prelude of the development: the part of Go and of its standard library that the modelled
  packages share, and the generic lemmas about it.

  A Go string is a list of bytes, \<open>string\<close> in HOL.  The order that \<^verbatim>\<open>slices.Sort\<close> and
  \<^verbatim>\<open>strings.Compare\<close> use is the bytewise lexicographic one, which the theories
  \<open>Char_ord\<close> and \<open>List_Lexorder\<close> install as the order of type \<open>string\<close>, so \<open>sort\<close> is
  \<^verbatim>\<open>slices.Sort\<close>.  A Go \<^verbatim>\<open>int\<close> is 64 bits wide; it is an \<open>int\<close> here, and \<open>int64\<close> writes the
  wrap-around out at the places where it can happen.
\<close>

section \<open>Collections of simplification rules\<close>

named_theorems go_string \<open>facts about the string functions\<close>
named_theorems go_list \<open>facts about the list idioms (dedupe, first match)\<close>

section \<open>Package strings\<close>

text \<open>\<^verbatim>\<open>strings.Split(s, sep)\<close> for a separator of one byte; never empty.\<close>

fun split_on :: "char \<Rightarrow> string \<Rightarrow> string list" where
  "split_on c [] = [[]]"
| "split_on c (x # xs) =
     (if x = c then [] # split_on c xs
      else case split_on c xs of [] \<Rightarrow> [[x]] | w # ws \<Rightarrow> (x # w) # ws)"

text \<open>\<^verbatim>\<open>strings.Join\<close>.\<close>

fun join_with :: "string \<Rightarrow> string list \<Rightarrow> string" where
  "join_with sep [] = []"
| "join_with sep [w] = w"
| "join_with sep (w # v # ws) = w @ sep @ join_with sep (v # ws)"

definition has_prefix :: "string \<Rightarrow> string \<Rightarrow> bool" where
  "has_prefix p s \<longleftrightarrow> take (length p) s = p"

definition has_suffix :: "string \<Rightarrow> string \<Rightarrow> bool" where
  "has_suffix p s \<longleftrightarrow> has_prefix (rev p) (rev s)"

definition trim_prefix :: "string \<Rightarrow> string \<Rightarrow> string" where
  "trim_prefix p s = (if has_prefix p s then drop (length p) s else s)"

definition trim_suffix :: "string \<Rightarrow> string \<Rightarrow> string" where
  "trim_suffix p s = (if has_suffix p s then take (length s - length p) s else s)"

text \<open>\<^verbatim>\<open>strings.Contains\<close>.\<close>

fun contains_str :: "string \<Rightarrow> string \<Rightarrow> bool" where
  "contains_str p [] = (p = [])"
| "contains_str p (x # xs) = (has_prefix p (x # xs) \<or> contains_str p xs)"

text \<open>\<^verbatim>\<open>strings.Cut\<close> at a byte: the text before and after it, \<open>None\<close> when it is missing.\<close>

definition cut_at :: "char \<Rightarrow> string \<Rightarrow> (string \<times> string) option" where
  "cut_at c s = (if c \<in> set s
     then Some (takeWhile (\<lambda>x. x \<noteq> c) s, tl (dropWhile (\<lambda>x. x \<noteq> c) s)) else None)"

text \<open>The same at the last occurrence (\<^verbatim>\<open>strings.LastIndexByte\<close> and two slices).\<close>

definition cut_last :: "char \<Rightarrow> string \<Rightarrow> (string \<times> string) option" where
  "cut_last c s = (case cut_at c (rev s) of None \<Rightarrow> None
     | Some (post, pre) \<Rightarrow> Some (rev pre, rev post))"

text \<open>
  \<^verbatim>\<open>strings.TrimSpace\<close>: the ASCII spaces and the UTF-8 encodings of the other code points
  with Unicode's White_Space property.
\<close>

definition ascii_space :: "char \<Rightarrow> bool" where
  "ascii_space c \<longleftrightarrow> of_char c \<in> {9::nat, 10, 11, 12, 13, 32}"

definition unicode_spaces :: "string list" where
  "unicode_spaces = map (map char_of)
     [[0xC2::nat, 0x85], [0xC2, 0xA0], [0xE1, 0x9A, 0x80], [0xE2, 0x80, 0x80], [0xE2, 0x80, 0x81],
      [0xE2, 0x80, 0x82], [0xE2, 0x80, 0x83], [0xE2, 0x80, 0x84], [0xE2, 0x80, 0x85],
      [0xE2, 0x80, 0x86], [0xE2, 0x80, 0x87], [0xE2, 0x80, 0x88], [0xE2, 0x80, 0x89],
      [0xE2, 0x80, 0x8A], [0xE2, 0x80, 0xA8], [0xE2, 0x80, 0xA9], [0xE2, 0x80, 0xAF],
      [0xE2, 0x81, 0x9F], [0xE3, 0x80, 0x80]]"

definition strip_one :: "string list \<Rightarrow> string \<Rightarrow> string option" where
  "strip_one seqs s = (case s of [] \<Rightarrow> None
     | c # cs \<Rightarrow> if ascii_space c then Some cs
       else map_option (\<lambda>q. drop (length q) s) (find (\<lambda>q. q \<noteq> [] \<and> has_prefix q s) seqs))"

text \<open>Every round strips at least one byte, so \<open>length s\<close> rounds strip all there is.\<close>

fun strip_rounds :: "nat \<Rightarrow> string list \<Rightarrow> string \<Rightarrow> string" where
  "strip_rounds 0 seqs s = s"
| "strip_rounds (Suc n) seqs s =
     (case strip_one seqs s of None \<Rightarrow> s | Some s' \<Rightarrow> strip_rounds n seqs s')"

definition trim_left_space :: "string list \<Rightarrow> string \<Rightarrow> string" where
  "trim_left_space seqs s = strip_rounds (length s) seqs s"

definition trim_space :: "string \<Rightarrow> string" where
  "trim_space s =
     rev (trim_left_space (map rev unicode_spaces) (rev (trim_left_space unicode_spaces s)))"

text \<open>\<^verbatim>\<open>strings.Trim\<close> with a set of ASCII characters.\<close>

definition trim_set :: "char list \<Rightarrow> string \<Rightarrow> string" where
  "trim_set cs s = rev (dropWhile (\<lambda>c. c \<in> set cs) (rev (dropWhile (\<lambda>c. c \<in> set cs) s)))"

text \<open>\<^verbatim>\<open>strings.ToLower\<close>: written out for ASCII texts, \<open>ulow\<close> for the others.\<close>

definition lower_char :: "char \<Rightarrow> char" where
  "lower_char c = (if CHR ''A'' \<le> c \<and> c \<le> CHR ''Z'' then char_of (of_char c + 32 :: nat) else c)"

definition to_lower :: "(string \<Rightarrow> string) \<Rightarrow> string \<Rightarrow> string" where
  "to_lower ulow s = (if list_all (\<lambda>c. of_char c < (128::nat)) s then map lower_char s else ulow s)"

section \<open>Package strconv and the width of int\<close>

definition digit_char :: "nat \<Rightarrow> char" where
  "digit_char d = ''0123456789abcdef'' ! d"

fun nat_str :: "nat \<Rightarrow> string" where
  "nat_str n = (if n < 10 then [digit_char n] else nat_str (n div 10) @ [digit_char (n mod 10)])"

fun hex_str :: "nat \<Rightarrow> string" where
  "hex_str n = (if n < 16 then [digit_char n] else hex_str (n div 16) @ [digit_char (n mod 16)])"

declare nat_str.simps [simp del] hex_str.simps [simp del]

text \<open>\<^verbatim>\<open>strconv.Itoa\<close>, and \<^verbatim>\<open>%x\<close> of an int.\<close>

definition itoa :: "int \<Rightarrow> string" where
  "itoa i = (if i < 0 then CHR ''-'' # nat_str (nat (- i)) else nat_str (nat i))"

definition hexa :: "int \<Rightarrow> string" where
  "hexa i = (if i < 0 then CHR ''-'' # hex_str (nat (- i)) else hex_str (nat i))"

definition is_digit :: "char \<Rightarrow> bool" where
  "is_digit c \<longleftrightarrow> CHR ''0'' \<le> c \<and> c \<le> CHR ''9''"

definition digit_val :: "char \<Rightarrow> nat" where
  "digit_val c = of_char c - 48"

definition digits_val :: "string \<Rightarrow> nat" where
  "digits_val = foldl (\<lambda>acc c. 10 * acc + digit_val c) 0"

text \<open>\<^verbatim>\<open>strconv.Atoi\<close>: an optional sign, at least one digit, a value that fits 64 bits.\<close>

definition atoi :: "string \<Rightarrow> int option" where
  "atoi s =
     (let neg = has_prefix ''-'' s;
          ds = (if neg \<or> has_prefix ''+'' s then tl s else s);
          v = (if neg then - int (digits_val ds) else int (digits_val ds))
      in if ds \<noteq> [] \<and> list_all is_digit ds \<and> - (2 ^ 63) \<le> v \<and> v < 2 ^ 63
         then Some v else None)"

text \<open>A 64-bit two's complement result.\<close>

definition int64 :: "int \<Rightarrow> int" where
  "int64 i = (i + 2 ^ 63) mod 2 ^ 64 - 2 ^ 63"

section \<open>List idioms\<close>

text \<open>
  The loop \<^verbatim>\<open>for _, x := range xs { if seen[x] { continue }; seen[x] = true; out = append(out, x) }\<close>:
  the first of equal elements stays, in order.
\<close>

fun dedupe_acc :: "'a list \<Rightarrow> 'a list \<Rightarrow> 'a list" where
  "dedupe_acc seen [] = []"
| "dedupe_acc seen (x # xs) =
     (if x \<in> set seen then dedupe_acc seen xs else x # dedupe_acc (x # seen) xs)"

abbreviation dedupe_first :: "'a list \<Rightarrow> 'a list" where
  "dedupe_first \<equiv> dedupe_acc []"

text \<open>\<^verbatim>\<open>slices.Compact\<close>: runs of equal elements become one.\<close>

fun compact :: "'a list \<Rightarrow> 'a list" where
  "compact [] = []"
| "compact [x] = [x]"
| "compact (x # y # xs) = (if x = y then compact (y # xs) else x # compact (y # xs))"

text \<open>
  The index loop \<^verbatim>\<open>for i, x := range xs { if p(x) { return i } }\<close>.
\<close>

fun find_index :: "('a \<Rightarrow> bool) \<Rightarrow> 'a list \<Rightarrow> nat option" where
  "find_index p [] = None"
| "find_index p (x # xs) = (if p x then Some 0 else map_option Suc (find_index p xs))"

section \<open>Lemmas\<close>

subsection \<open>Split and join\<close>

lemma split_on_nonempty [simp]: "split_on c s \<noteq> []"
  by (induction s) (auto split: list.splits)

lemma join_with_Cons: "ws \<noteq> [] \<Longrightarrow> join_with sep (w # ws) = w @ sep @ join_with sep ws"
  by (cases ws) auto

lemma join_split_on [simp, go_string]: "join_with [c] (split_on c s) = s"
proof (induction s)
  case (Cons x xs)
  show ?case
  proof (cases "split_on c xs")
    case Nil
    then show ?thesis by simp
  next
    case (Cons w ws)
    with Cons.IH show ?thesis by (cases ws) auto
  qed
qed simp

lemma split_on_no_sep [go_string]: "c \<notin> set w \<Longrightarrow> split_on c w = [w]"
  by (induction w) auto

lemma split_on_append_sep [go_string]:
  "c \<notin> set w \<Longrightarrow> split_on c (w @ c # s) = w # split_on c s"
  by (induction w) auto

lemma split_on_append [go_string]: "split_on c (s @ c # t) = split_on c s @ split_on c t"
  by (induction s) (auto split: list.splits)

lemma split_join_with [go_string]:
  "ws \<noteq> [] \<Longrightarrow> (\<And>w. w \<in> set ws \<Longrightarrow> c \<notin> set w) \<Longrightarrow> split_on c (join_with [c] ws) = ws"
proof (induction ws)
  case (Cons w ws)
  then show ?case
    by (cases "ws = []") (auto simp: join_with_Cons split_on_append_sep split_on_no_sep)
qed simp

lemma split_on_parts: "w \<in> set (split_on c s) \<Longrightarrow> c \<notin> set w \<and> set w \<subseteq> set s"
  by (induction s arbitrary: w) (fastforce split: if_splits list.splits)+

subsection \<open>Prefixes\<close>

lemma has_prefix_iff [go_string]: "has_prefix p s \<longleftrightarrow> (\<exists>t. s = p @ t)"
  unfolding has_prefix_def by (metis append_eq_conv_conj append_take_drop_id)

lemma has_prefix_append [simp]: "has_prefix p (p @ t)"
  by (simp add: has_prefix_def)

lemma trim_prefix_append [simp]: "trim_prefix p (p @ t) = t"
  by (simp add: trim_prefix_def)

lemma trim_set_Nil: "trim_set cs s = [] \<longleftrightarrow> set s \<subseteq> set cs"
proof -
  let ?d = "dropWhile (\<lambda>c. c \<in> set cs) s"
  have "trim_set cs s = [] \<longleftrightarrow> (\<forall>x \<in> set ?d. x \<in> set cs)" by (simp add: trim_set_def dropWhile_eq_Nil_conv)
  moreover have "?d \<noteq> [] \<Longrightarrow> hd ?d \<notin> set cs \<and> hd ?d \<in> set ?d" using hd_dropWhile [of "\<lambda>c. c \<in> set cs" s] by auto
  moreover have "?d = [] \<longleftrightarrow> set s \<subseteq> set cs" by (auto simp: dropWhile_eq_Nil_conv)
  ultimately show ?thesis by fastforce
qed

lemma set_trim_set: "set (trim_set cs s) \<subseteq> set s"
  by (auto simp: trim_set_def dest!: set_dropWhileD)

lemma has_suffix_iff [go_string]: "has_suffix p s \<longleftrightarrow> (\<exists>t. s = t @ p)"
  by (metis has_prefix_iff has_suffix_def rev_append rev_rev_ident)

subsection \<open>Decimal digits\<close>

lemma digit_char_inverse: "d < 10 \<Longrightarrow> digit_val (digit_char d) = d \<and> is_digit (digit_char d)"
proof -
  assume "d < 10"
  then have "d \<in> {0, 1, 2, 3, 4, 5, 6, 7, 8, 9}" by auto
  then show ?thesis
    by (auto simp: digit_char_def digit_val_def is_digit_def less_eq_char_def)
qed

lemma nat_str_nonempty [simp]: "nat_str n \<noteq> []"
  by (subst nat_str.simps) simp

lemma digits_val_append: "digits_val (ds @ [c]) = 10 * digits_val ds + digit_val c"
  by (simp add: digits_val_def)

lemma nat_str_digits: "list_all is_digit (nat_str n)"
proof (induction n rule: nat_str.induct)
  case (1 n)
  show ?case
    by (subst nat_str.simps) (use 1 in \<open>simp add: digit_char_inverse\<close>)
qed

lemma digits_val_nat_str [go_string]: "digits_val (nat_str n) = n"
proof (induction n rule: nat_str.induct)
  case (1 n)
  show ?case
  proof (cases "n < 10")
    case True
    then show ?thesis
      by (subst nat_str.simps) (simp add: digits_val_def digit_char_inverse)
  next
    case False
    with 1 show ?thesis
      by (subst nat_str.simps) (simp add: digits_val_append digit_char_inverse)
  qed
qed

lemma nat_str_inject [simp]: "nat_str m = nat_str n \<longleftrightarrow> m = n"
  by (metis digits_val_nat_str)

lemma is_digit_not [go_string]:
  "is_digit c \<Longrightarrow> c \<noteq> CHR ''-'' \<and> c \<noteq> CHR ''+'' \<and> c \<noteq> CHR ''.'' \<and> c \<noteq> CHR '':'' \<and> c \<noteq> CHR ''/''"
  by (auto simp: is_digit_def less_eq_char_def)

lemma nat_str_no_char: "\<not> is_digit c \<Longrightarrow> c \<notin> set (nat_str n)"
  using nat_str_digits [of n] by (auto simp: list_all_iff)

lemma nat_str_hd_not: "\<not> is_digit c \<Longrightarrow> hd (nat_str n) \<noteq> c"
  using nat_str_no_char [of c n] hd_in_set [OF nat_str_nonempty [of n]] by auto

lemma atoi_nat_str: "int n < 2 ^ 63 \<Longrightarrow> atoi (nat_str n) = Some (int n)"
proof -
  assume n: "int n < 2 ^ 63"
  have "\<not> has_prefix ''-'' (nat_str n)" "\<not> has_prefix ''+'' (nat_str n)"
    using nat_str_hd_not [of "CHR ''-''" n] nat_str_hd_not [of "CHR ''+''" n]
    by (cases "nat_str n"; simp add: has_prefix_def is_digit_def less_eq_char_def)+
  with n show ?thesis
    by (simp add: atoi_def Let_def nat_str_digits digits_val_nat_str)
qed

lemma itoa_inject [simp]: "itoa i = itoa j \<longleftrightarrow> i = j"
proof -
  have "CHR ''-'' \<notin> set (nat_str n)" for n
    by (rule nat_str_no_char) (simp add: is_digit_def less_eq_char_def)
  then have "CHR ''-'' # w \<noteq> nat_str n" "nat_str n \<noteq> CHR ''-'' # w" for w n
    by (metis list.set_intros(1))+
  then show ?thesis
    by (auto simp: itoa_def)
qed

subsection \<open>Width\<close>

lemma int64_id: "- (2 ^ 63) \<le> i \<Longrightarrow> i < 2 ^ 63 \<Longrightarrow> int64 i = i"
  by (simp add: int64_def)

lemma int64_range: "- (2 ^ 63) \<le> int64 i \<and> int64 i < 2 ^ 63"
proof -
  have "0 \<le> (i + 2 ^ 63) mod 2 ^ 64" "(i + 2 ^ 63) mod 2 ^ 64 < 2 ^ 64"
    by simp_all
  then show ?thesis unfolding int64_def by auto
qed

subsection \<open>Lists\<close>

lemma set_dedupe_acc [go_list]: "set (dedupe_acc seen xs) = set xs - set seen"
  by (induction xs arbitrary: seen) auto

lemma distinct_dedupe_acc [go_list]: "distinct (dedupe_acc seen xs)"
  by (induction xs arbitrary: seen) (auto simp: set_dedupe_acc)

lemma dedupe_acc_id: "distinct xs \<Longrightarrow> set xs \<inter> set seen = {} \<Longrightarrow> dedupe_acc seen xs = xs"
  by (induction xs arbitrary: seen) auto

lemma set_compact [simp]: "set (compact xs) = set xs"
  by (induction xs rule: compact.induct) auto

lemma sorted_distinct_compact: "sorted xs \<Longrightarrow> sorted (compact xs) \<and> distinct (compact xs)"
  by (induction xs rule: compact.induct) (auto simp: order.order_iff_strict)

lemma find_index_None: "find_index p xs = None \<longleftrightarrow> (\<forall>x \<in> set xs. \<not> p x)"
  by (induction xs) auto

lemma find_index_Some:
  "find_index p xs = Some i \<longleftrightarrow> i < length xs \<and> p (xs ! i) \<and> (\<forall>j < i. \<not> p (xs ! j))"
proof (induction xs arbitrary: i)
  case (Cons x xs)
  show ?case
    by (cases i) (auto simp: Cons less_Suc_eq_0_disj)
qed simp

end
