(* ===== verification/Errs.thy ===== *)
theory Errs
  imports Go_Prelude
begin

text \<open>
  The error vocabulary of \<^verbatim>\<open>internal/service/errs/errs.go\<close>.  A Go \<^verbatim>\<open>error\<close> result is an
  \<open>err option\<close>, \<open>None\<close> for \<^verbatim>\<open>nil\<close>.  A formatted message is kept as its format and its
  arguments; \<open>Plain\<close> is \<^verbatim>\<open>errors.New\<close> or \<^verbatim>\<open>fmt.Errorf\<close> without \<^verbatim>\<open>%w\<close>, \<open>Wrap\<close> is \<^verbatim>\<open>fmt.Errorf\<close> with it and
  \<open>Joined\<close> is \<^verbatim>\<open>errors.Join\<close>.  \<open>ConflictV\<close> is a Conflict whose message ends in a printed error (\<^verbatim>\<open>%v\<close>),
  which is not wrapped.
\<close>

type_synonym msg = "string \<times> string list"

datatype err =
    ErrNotFound
  | ErrRefused
  | ErrBusy
  | Conflict msg
  | ConflictV msg err
  | Refused msg
  | Invalid (inv_field: string) (inv_label: string) (inv_msg: msg) (inv_line: int)
  | Unset (unset_param: string)
  | NeedsApproval (na_stack: string) (na_what: string)
  | TooLarge msg
  | Plain msg
  | Wrap msg err
  | Joined "err list"

type_synonym error = "err option"

definition Refusedf :: "string \<Rightarrow> string list \<Rightarrow> err" where
  "Refusedf f args = Refused (f, args)"

definition Conflictf :: "string \<Rightarrow> string list \<Rightarrow> err" where
  "Conflictf f args = Conflict (f, args)"

definition Invalidf :: "string \<Rightarrow> string \<Rightarrow> string list \<Rightarrow> err" where
  "Invalidf field f args = Invalid field '''' (f, args) 0"

abbreviation Errorf :: "string \<Rightarrow> string list \<Rightarrow> err" where
  "Errorf f args \<equiv> Plain (f, args)"

text \<open>
  \<^verbatim>\<open>errors.As\<close>: the first error of the wanted kind, the error itself before what it
  wraps, the joined ones from left to right.
\<close>

fun errors_As :: "(err \<Rightarrow> 'a option) \<Rightarrow> err \<Rightarrow> 'a option"
and errors_As_list :: "(err \<Rightarrow> 'a option) \<Rightarrow> err list \<Rightarrow> 'a option" where
  "errors_As pick e =
     (case pick e of Some v \<Rightarrow> Some v
      | None \<Rightarrow> (case e of Wrap m e' \<Rightarrow> errors_As pick e'
                 | Joined es \<Rightarrow> errors_As_list pick es
                 | _ \<Rightarrow> None))"
| "errors_As_list pick [] = None"
| "errors_As_list pick (e # es) =
     (case errors_As pick e of Some v \<Rightarrow> Some v | None \<Rightarrow> errors_As_list pick es)"

definition IsInvalid :: "err \<Rightarrow> err option" where
  "IsInvalid = errors_As (\<lambda>e. case e of Invalid _ _ _ _ \<Rightarrow> Some e | _ \<Rightarrow> None)"

definition IsConflict :: "err \<Rightarrow> msg option" where
  "IsConflict = errors_As (\<lambda>e. case e of Conflict m \<Rightarrow> Some m | ConflictV m _ \<Rightarrow> Some m | _ \<Rightarrow> None)"

definition IsTooLarge :: "err \<Rightarrow> msg option" where
  "IsTooLarge = errors_As (\<lambda>e. case e of TooLarge m \<Rightarrow> Some m | _ \<Rightarrow> None)"

definition IsUnset :: "err \<Rightarrow> string option" where
  "IsUnset = errors_As (\<lambda>e. case e of Unset p \<Rightarrow> Some p | _ \<Rightarrow> None)"

definition IsNeedsApproval :: "err \<Rightarrow> (string \<times> string) option" where
  "IsNeedsApproval = errors_As (\<lambda>e. case e of NeedsApproval s w \<Rightarrow> Some (s, w) | _ \<Rightarrow> None)"

text \<open>\<^verbatim>\<open>errors.Is(err, ErrNotFound)\<close>.\<close>

definition is_not_found :: "err \<Rightarrow> bool" where
  "is_not_found e \<longleftrightarrow> errors_As (\<lambda>x. if x = ErrNotFound then Some () else None) e \<noteq> None"

text \<open>\<^verbatim>\<open>errors.Is(err, ErrRefused)\<close>, with \<^verbatim>\<open>Refused.Is\<close>.\<close>

definition Is_ErrRefused :: "err \<Rightarrow> bool" where
  "Is_ErrRefused e \<longleftrightarrow>
     errors_As (\<lambda>e. case e of ErrRefused \<Rightarrow> Some () | Refused _ \<Rightarrow> Some () | _ \<Rightarrow> None) e \<noteq> None"

text \<open>\<^verbatim>\<open>Invalids\<close>: every \<open>Invalid\<close>, through wrapping and joining, in order.\<close>

fun Invalids :: "err \<Rightarrow> err list" where
  "Invalids (Invalid f l m n) = [Invalid f l m n]"
| "Invalids (Wrap m e) = Invalids e"
| "Invalids (Joined es) = concat (map Invalids es)"
| "Invalids e = []"

text \<open>\<^verbatim>\<open>errors.Join\<close>.\<close>

definition errors_Join :: "error list \<Rightarrow> error" where
  "errors_Join es = (case List.map_filter id es of [] \<Rightarrow> None | e # es' \<Rightarrow> Some (Joined (e # es')))"

section \<open>Lemmas\<close>

text \<open>The first error \<open>IsInvalid\<close> answers is the head of what \<open>Invalids\<close> collects.\<close>

lemma As_Invalid_list:
  "errors_As (\<lambda>e. case e of Invalid _ _ _ _ \<Rightarrow> Some e | _ \<Rightarrow> None) e
     = (case Invalids e of [] \<Rightarrow> None | x # _ \<Rightarrow> Some x)"
  "errors_As_list (\<lambda>e. case e of Invalid _ _ _ _ \<Rightarrow> Some e | _ \<Rightarrow> None) es
     = (case concat (map Invalids es) of [] \<Rightarrow> None | x # _ \<Rightarrow> Some x)"
proof (induction "\<lambda>e. case e of Invalid _ _ _ _ \<Rightarrow> Some e | _ \<Rightarrow> None" e
    and "\<lambda>e. case e of Invalid _ _ _ _ \<Rightarrow> Some e | _ \<Rightarrow> None" es rule: errors_As_errors_As_list.induct)
  case (1 e)
  then show ?case by (cases e) auto
next
  case (3 e es)
  then show ?case
    by (cases "Invalids e") (simp_all del: errors_As.simps concat_eq_Nil_conv)
qed simp

lemma Invalids_are_Invalid: "x \<in> set (Invalids e) \<Longrightarrow> \<exists>f l m n. x = Invalid f l m n"
  by (induction e rule: Invalids.induct) auto

lemma errors_Join_None [simp]: "errors_Join (map Some es) = None \<longleftrightarrow> es = []"
proof -
  have "List.map_filter id (map Some es) = es" by (induction es) (simp_all add: map_filter_simps)
  then show ?thesis by (simp add: errors_Join_def split: list.splits)
qed

end
