(* ===== verification/Authz.thy ===== *)
theory Authz
  imports Errs
begin

text \<open>
  \<^verbatim>\<open>internal/authz/authz.go\<close>: who may do what.  The level ladder, the verb table, the
  principal, and the one decision \<open>Can\<close>.
\<close>

section \<open>Model\<close>

datatype level = LevelRead | LevelWrite | LevelOwner | LevelAdmin

text \<open>The Go type is an int with \<^verbatim>\<open>iota\<close> values; the ladder is its order.\<close>

fun level_rank :: "level \<Rightarrow> nat" where
  "level_rank LevelRead = 0"
| "level_rank LevelWrite = 1"
| "level_rank LevelOwner = 2"
| "level_rank LevelAdmin = 3"

lemma level_rank_inject: "level_rank a = level_rank b \<longleftrightarrow> a = b"
  by (cases a; cases b) simp_all

instantiation level :: linorder
begin

definition less_eq_level :: "level \<Rightarrow> level \<Rightarrow> bool" where
  "a \<le> b \<longleftrightarrow> level_rank a \<le> level_rank b"

definition less_level :: "level \<Rightarrow> level \<Rightarrow> bool" where
  "a < b \<longleftrightarrow> level_rank a < level_rank b"

instance
  by standard (auto simp: less_eq_level_def less_level_def level_rank_inject)

end

type_synonym verb = string

definition verbLevels :: "(verb \<times> level) list" where
  "verbLevels =
    [(''org.read'', LevelRead), (''member.list'', LevelRead),
     (''registry.image.list'', LevelRead), (''org.config.export'', LevelRead),
     (''deployment.read'', LevelRead), (''share.read'', LevelRead), (''tile.read'', LevelRead),
     (''stack.create'', LevelWrite), (''stack.write'', LevelWrite), (''env.write'', LevelWrite),
     (''env.lock'', LevelWrite), (''tile.write'', LevelWrite), (''variable.write'', LevelWrite),
     (''domain.write'', LevelWrite), (''backup.write'', LevelWrite),
     (''destination.write'', LevelWrite), (''sharelink.mint'', LevelWrite),
     (''stackplan.plan'', LevelWrite), (''stackplan.approve'', LevelWrite),
     (''org.graph.write'', LevelWrite), (''connector.write'', LevelWrite),
     (''deployment.cancel'', LevelWrite),
     (''org.owner.read'', LevelOwner), (''org.write'', LevelOwner),
     (''member.manage'', LevelOwner), (''org.config.bind'', LevelOwner),
     (''orgdefaults.set'', LevelOwner), (''orgplan.approve'', LevelOwner),
     (''registry.credential.write'', LevelOwner), (''registry.tag.delete'', LevelOwner),
     (''domain.resource'', LevelOwner), (''managed.allow'', LevelOwner),
     (''org.setup.step'', LevelOwner), (''org.setup.domain'', LevelOwner),
     (''org.setup.connector'', LevelOwner), (''share.write'', LevelOwner),
     (''tier.write'', LevelOwner), (''env.logs.purge'', LevelOwner),
     (''placement.write'', LevelOwner), (''dns.manage'', LevelOwner),
     (''connector.manage'', LevelOwner),
     (''admin.read'', LevelAdmin), (''serverdefaults.set'', LevelAdmin),
     (''node.manage'', LevelAdmin), (''container.admin'', LevelAdmin),
     (''proxy.admin'', LevelAdmin), (''user.admin'', LevelAdmin), (''org.create'', LevelAdmin),
     (''route.admin'', LevelAdmin), (''hostgrant.approve'', LevelAdmin),
     (''audit.read'', LevelAdmin), (''serverconfig.bind'', LevelAdmin),
     (''serverplan.approve'', LevelAdmin), (''connector.admin'', LevelAdmin),
     (''serverparams.write'', LevelAdmin)]"

record user =
  ID :: string
  Admin :: bool
  Active :: bool
  Roles :: "string \<rightharpoonup> string"
  Key :: bool
  KeyOrg :: string
  KeyCapped :: bool
  KeyLevel :: level
  KeyStack :: string

record resource =
  OrgID :: string
  StackID :: string

text \<open>\<^verbatim>\<open>RoleLevel\<close> answers a level and whether the role is one at all.\<close>

definition RoleLevel :: "string \<Rightarrow> level \<times> bool" where
  "RoleLevel role =
     (if role = ''owner'' then (LevelOwner, True)
      else if role = ''member'' then (LevelWrite, True)
      else if role = ''viewer'' then (LevelRead, True)
      else (LevelRead, False))"

definition ParseLevel :: "string \<Rightarrow> level \<times> bool" where
  "ParseLevel s = (if s = ''admin'' then (LevelAdmin, True) else RoleLevel s)"

definition LevelOf :: "verb \<Rightarrow> level" where
  "LevelOf v = (case map_of verbLevels v of Some l \<Rightarrow> l | None \<Rightarrow> LevelAdmin)"

definition KnownVerb :: "verb \<Rightarrow> bool" where
  "KnownVerb v \<longleftrightarrow> map_of verbLevels v \<noteq> None"

fun roleOf :: "level \<Rightarrow> string" where
  "roleOf LevelRead = ''viewer''"
| "roleOf LevelWrite = ''member''"
| "roleOf LevelOwner = ''owner''"
| "roleOf LevelAdmin = ''admin''"

text \<open>A missing key of a Go map reads as the zero value, here \<^verbatim>\<open>""\<close>.\<close>

definition role_in :: "user \<Rightarrow> string \<Rightarrow> string" where
  "role_in u org = (case Roles u org of Some r \<Rightarrow> r | None \<Rightarrow> '''')"

definition user_level :: "user \<Rightarrow> string \<Rightarrow> level \<times> bool" where
  "user_level u org = (if Admin u then (LevelAdmin, True) else RoleLevel (role_in u org))"

definition Self :: "user \<Rightarrow> error" where
  "Self u = (if ID u = '''' \<or> \<not> Active u then Some ErrRefused else None)"

definition Can :: "user \<Rightarrow> verb \<Rightarrow> resource \<Rightarrow> error" where
  "Can u v r =
    (if Self u \<noteq> None then Self u
     else let need = LevelOf v in
       if need = LevelAdmin then
         (if \<not> Admin u then Some (Refusedf ''admin commands need a stackr admin account'' [])
          else if KeyOrg u \<noteq> '''' then
            Some (Refusedf ''this key is limited to one org; admin commands need a key from stackr login'' [])
          else if KeyStack u \<noteq> '''' then Some (Refusedf ''this key is limited to one stack'' [])
          else if KeyCapped u \<and> KeyLevel u < LevelAdmin then
            Some (Refusedf ''this key is capped below admin'' [])
          else None)
       else if KeyOrg u \<noteq> '''' \<and> KeyOrg u \<noteq> OrgID r then Some ErrNotFound
       else (case user_level u (OrgID r) of (lv, member) \<Rightarrow>
         if \<not> member then Some ErrNotFound
         else let have_lv = (if KeyCapped u then min lv (KeyLevel u) else lv) in
           if KeyStack u \<noteq> '''' \<and> StackID r = '''' then
             Some (Refusedf ''this key is limited to one stack'' [])
           else if KeyStack u \<noteq> '''' \<and> StackID r \<noteq> KeyStack u then Some ErrNotFound
           else if have_lv < need then Some (Refusedf ''%s needs %s access'' [v, roleOf need])
           else None))"

definition StandingChanged :: "string \<Rightarrow> string \<Rightarrow> string \<Rightarrow> bool \<times> string" where
  "StandingChanged orgID from_role to_role =
     (let fromLevel = fst (RoleLevel from_role);
          (tl0, ok) = RoleLevel to_role;
          toLevel = (if ok then tl0 else LevelRead)
      in if orgID \<noteq> '''' \<and> (fromLevel < LevelWrite \<or> toLevel \<ge> LevelWrite)
         then (False, '''') else (True, orgID))"

section \<open>What the gate promises\<close>

text \<open>
  The policy, stated apart from the code: a live account, inside the scope its key was cut for,
  holding in the org at least the level the verb needs, its key's ceiling counted.
\<close>

definition live :: "user \<Rightarrow> bool" where
  "live u \<longleftrightarrow> ID u \<noteq> '''' \<and> Active u"

definition in_key_scope :: "user \<Rightarrow> resource \<Rightarrow> bool" where
  "in_key_scope u r \<longleftrightarrow>
     (KeyOrg u = '''' \<or> KeyOrg u = OrgID r) \<and> (KeyStack u = '''' \<or> KeyStack u = StackID r)"

definition standing :: "user \<Rightarrow> string \<Rightarrow> level option" where
  "standing u org =
     (if Admin u then Some LevelAdmin
      else if role_in u org = ''owner'' then Some LevelOwner
      else if role_in u org = ''member'' then Some LevelWrite
      else if role_in u org = ''viewer'' then Some LevelRead else None)"

definition ceiling :: "user \<Rightarrow> level" where
  "ceiling u = (if KeyCapped u then KeyLevel u else LevelAdmin)"

definition policy_allows :: "user \<Rightarrow> verb \<Rightarrow> resource \<Rightarrow> bool" where
  "policy_allows u v r \<longleftrightarrow> live u \<and>
     (if LevelOf v = LevelAdmin
      then Admin u \<and> KeyOrg u = '''' \<and> KeyStack u = '''' \<and> ceiling u = LevelAdmin
      else in_key_scope u r \<and>
        (\<exists>l. standing u (OrgID r) = Some l \<and> LevelOf v \<le> l \<and> LevelOf v \<le> ceiling u))"

text \<open>The same principal without its key's limits: a browser session.\<close>

definition as_session :: "user \<Rightarrow> user" where
  "as_session u = u\<lparr>Key := False, KeyOrg := '''', KeyCapped := False, KeyStack := ''''\<rparr>"

section \<open>Lemmas\<close>

lemma LevelAdmin_top [simp]: "(l::level) \<le> LevelAdmin" "\<not> LevelAdmin < l"
  by (cases l; simp add: less_eq_level_def less_level_def)+

lemma LevelRead_bot [simp]: "LevelRead \<le> (l::level)" "\<not> l < LevelRead"
  by (cases l; simp add: less_eq_level_def less_level_def)+

lemma less_LevelAdmin [simp]: "l < LevelAdmin \<longleftrightarrow> l \<noteq> LevelAdmin"
  by (cases l) (simp_all add: less_level_def)

lemma Self_None [simp]: "Self u = None \<longleftrightarrow> live u"
  by (simp add: Self_def live_def)

lemma user_level_standing:
  "user_level u org = (case standing u org of Some l \<Rightarrow> (l, True) | None \<Rightarrow> (LevelRead, False))"
  by (simp add: user_level_def standing_def RoleLevel_def)

lemma effective_level:
  "(if KeyCapped u then min l (KeyLevel u) else l) < n \<longleftrightarrow> \<not> (n \<le> l \<and> n \<le> ceiling u)"
  by (auto simp: ceiling_def min_def not_le)

lemmas authz_unfold = Can_def user_level_standing in_key_scope_def Let_def effective_level

lemma StackID_nonempty: "KeyStack u \<noteq> '''' \<Longrightarrow> KeyStack u = s \<Longrightarrow> s \<noteq> ''''"
  by simp

section \<open>Properties\<close>

text \<open>
  C2: the gate implements the policy.  \<open>Can\<close> answers nil exactly when the account is live and,
  for an admin verb, is a stackr admin with no org, stack or level limit on its key, and, for
  every other verb, is inside its key's org and stack and holds in the resource's org a level,
  capped by its key, of at least what the verb needs.
\<close>

theorem Can_refines_policy: "Can u v r = None \<longleftrightarrow> policy_allows u v r"
proof (cases "live u \<and> LevelOf v \<noteq> LevelAdmin")
  case True
  then show ?thesis
    by (auto simp: authz_unfold policy_allows_def split: option.splits)
next
  case False
  then show ?thesis
    by (auto simp: Can_def policy_allows_def Let_def ceiling_def Self_def live_def)
qed

text \<open>
  Outside the org the gate never answers anything but "not found".  For a live account that
  is not a stackr admin and has no role in the resource's org, and for any key bound to another
  org, every verb below admin is ErrNotFound, so the answer does not tell a missing id from
  another org's.
\<close>

theorem Can_hides_other_orgs:
  assumes "live u" and "LevelOf v \<noteq> LevelAdmin"
    and "standing u (OrgID r) = None \<or> (KeyOrg u \<noteq> '''' \<and> KeyOrg u \<noteq> OrgID r)"
  shows "Can u v r = Some ErrNotFound"
  using assms by (auto simp: authz_unfold split: option.splits)

definition demo_user :: user where
  "demo_user = \<lparr>ID = ''u1'', Admin = False, Active = True, Roles = [''acme'' \<mapsto> ''member''],
     Key = True, KeyOrg = ''acme'', KeyCapped = False, KeyLevel = LevelRead, KeyStack = ''''\<rparr>"

definition demo_other :: resource where
  "demo_other = \<lparr>OrgID = ''rival'', StackID = ''s''\<rparr>"

theorem Can_hides_other_orgs_witness: "Can demo_user ''tile.write'' demo_other = Some ErrNotFound"
  by (rule Can_hides_other_orgs)
     (simp_all add: live_def demo_user_def demo_other_def LevelOf_def verbLevels_def standing_def role_in_def)

text \<open>
  A key never adds rights.  Whatever a key request passes, the same user's session passes:
  the org binding, the stack binding and the ceiling only ever take away.
\<close>

theorem key_never_adds_rights: "Can u v r = None \<longrightarrow> Can (as_session u) v r = None"
  unfolding Can_refines_policy
  by (auto simp: policy_allows_def as_session_def live_def in_key_scope_def standing_def
      ceiling_def role_in_def)

theorem key_never_adds_rights_witness:
  "Can demo_user ''tile.write'' \<lparr>OrgID = ''acme'', StackID = ''s''\<rparr> = None
   \<and> Can (as_session demo_user) ''tile.write'' \<lparr>OrgID = ''acme'', StackID = ''s''\<rparr> = None"
proof -
  have "Can demo_user ''tile.write'' \<lparr>OrgID = ''acme'', StackID = ''s''\<rparr> = None"
    by (simp add: Can_refines_policy policy_allows_def live_def demo_user_def LevelOf_def verbLevels_def
        in_key_scope_def standing_def role_in_def ceiling_def)
  then show ?thesis using key_never_adds_rights by simp
qed

text \<open>
  revocation matches the gate.  For a live non-admin user without a capped or bound key,
  \<open>StandingChanged\<close> on a change of role from \<open>from_role\<close> to \<open>to_role\<close> in an org closes the
  sessions and keys exactly when a write verb on the org passed before and no longer passes.
\<close>

theorem StandingChanged_iff_write_lost:
  assumes "live u" and "\<not> Admin u" and "\<not> KeyCapped u" and "KeyOrg u = ''''" and "KeyStack u = ''''"
    and "org \<noteq> ''''" and "LevelOf v = LevelWrite"
  shows "fst (StandingChanged org from_role to_role) \<longleftrightarrow>
     Can (u\<lparr>Roles := (Roles u)(org \<mapsto> from_role)\<rparr>) v \<lparr>OrgID = org, StackID = st\<rparr> = None \<and>
     Can (u\<lparr>Roles := (Roles u)(org \<mapsto> to_role)\<rparr>) v \<lparr>OrgID = org, StackID = st\<rparr> \<noteq> None"
  using assms unfolding Can_refines_policy
  by (auto simp: StandingChanged_def RoleLevel_def policy_allows_def live_def in_key_scope_def
      standing_def role_in_def ceiling_def less_level_def less_eq_level_def)

theorem StandingChanged_iff_write_lost_witness:
  "fst (StandingChanged ''acme'' ''member'' ''viewer'') \<longleftrightarrow>
     Can (as_session demo_user\<lparr>Roles := (Roles (as_session demo_user))(''acme'' \<mapsto> ''member'')\<rparr>)
       ''tile.write'' \<lparr>OrgID = ''acme'', StackID = ''s''\<rparr> = None \<and>
     Can (as_session demo_user\<lparr>Roles := (Roles (as_session demo_user))(''acme'' \<mapsto> ''viewer'')\<rparr>)
       ''tile.write'' \<lparr>OrgID = ''acme'', StackID = ''s''\<rparr> \<noteq> None"
  by (rule StandingChanged_iff_write_lost)
     (simp_all add: live_def as_session_def demo_user_def LevelOf_def verbLevels_def)

end
