(* ===== verification/Slug.thy ===== *)
theory Slug
  imports Go_Prelude
begin

text \<open>
  \<^verbatim>\<open>internal/service/internal/slug/slug.go\<close>: the one grammar of names.  The two regular
  expressions are written as executable checks; \<open>slug_lang\<close> is the language of the slug
  expression as a regular expression reads it, and \<open>Valid_iff_slug_lang\<close> shows that the
  check decides it.  The locale \<open>segments\<close> is what the packages that put names between
  separators (addresses, allow lists, parameter references) rely on.
\<close>

section \<open>Runes\<close>

text \<open>
  Ranging over a Go string decodes UTF-8: one rune per well-formed sequence, \<^verbatim>\<open>U+FFFD\<close> for
  each byte that starts none.  The result is the rune and the number of bytes after the
  first that belong to it.
\<close>

definition rune_error :: nat where
  "rune_error = 0xFFFD"

definition is_cont :: "nat \<Rightarrow> nat \<Rightarrow> nat \<Rightarrow> bool" where
  "is_cont lo hi b \<longleftrightarrow> lo \<le> b \<and> b \<le> hi"

definition decode_rune :: "nat \<Rightarrow> nat list \<Rightarrow> nat \<times> nat" where
  "decode_rune b bs =
     (if b < 0x80 then (b, 0)
      else if 0xC2 \<le> b \<and> b \<le> 0xDF then
        (case bs of b1 # _ \<Rightarrow> if is_cont 0x80 0xBF b1 then ((b - 0xC0) * 64 + (b1 - 0x80), 1) else (rune_error, 0)
         | _ \<Rightarrow> (rune_error, 0))
      else if 0xE0 \<le> b \<and> b \<le> 0xEF then
        (case bs of b1 # b2 # _ \<Rightarrow>
           if is_cont (if b = 0xE0 then 0xA0 else 0x80) (if b = 0xED then 0x9F else 0xBF) b1 \<and> is_cont 0x80 0xBF b2
           then ((b - 0xE0) * 4096 + (b1 - 0x80) * 64 + (b2 - 0x80), 2) else (rune_error, 0)
         | _ \<Rightarrow> (rune_error, 0))
      else if 0xF0 \<le> b \<and> b \<le> 0xF4 then
        (case bs of b1 # b2 # b3 # _ \<Rightarrow>
           if is_cont (if b = 0xF0 then 0x90 else 0x80) (if b = 0xF4 then 0x8F else 0xBF) b1
              \<and> is_cont 0x80 0xBF b2 \<and> is_cont 0x80 0xBF b3
           then ((b - 0xF0) * 262144 + (b1 - 0x80) * 4096 + (b2 - 0x80) * 64 + (b3 - 0x80), 3)
           else (rune_error, 0)
         | _ \<Rightarrow> (rune_error, 0))
      else (rune_error, 0))"

fun runes_of :: "nat list \<Rightarrow> nat list" where
  "runes_of [] = []"
| "runes_of (b # bs) = fst (decode_rune b bs) # runes_of (drop (snd (decode_rune b bs)) bs)"

definition runes :: "string \<Rightarrow> nat list" where
  "runes s = runes_of (map of_char s)"

text \<open>
  \<^verbatim>\<open>unicode.ToLower\<close>: written out for ASCII; \<open>ulow\<close> is Unicode's table for the rest, and
  the facts below hold for every table.
\<close>

definition rune_lower :: "(nat \<Rightarrow> nat) \<Rightarrow> nat \<Rightarrow> nat" where
  "rune_lower ulow r = (if r < 0x80 then if 65 \<le> r \<and> r \<le> 90 then r + 32 else r else ulow r)"

section \<open>Model\<close>

definition is_lower :: "char \<Rightarrow> bool" where
  "is_lower c \<longleftrightarrow> CHR ''a'' \<le> c \<and> c \<le> CHR ''z''"

definition is_upper :: "char \<Rightarrow> bool" where
  "is_upper c \<longleftrightarrow> CHR ''A'' \<le> c \<and> c \<le> CHR ''Z''"

definition slug_char :: "char \<Rightarrow> bool" where
  "slug_char c \<longleftrightarrow> is_lower c \<or> is_digit c"

definition name_char :: "char \<Rightarrow> bool" where
  "name_char c \<longleftrightarrow> is_lower c \<or> is_upper c \<or> is_digit c \<or> c = CHR ''_''"

text \<open>The test of \<^verbatim>\<open>Make\<close> and \<^verbatim>\<open>Suggest\<close> on a rune.\<close>

definition slug_rune :: "nat \<Rightarrow> bool" where
  "slug_rune r \<longleftrightarrow> (97 \<le> r \<and> r \<le> 122) \<or> (48 \<le> r \<and> r \<le> 57)"

definition alnum_rune :: "nat \<Rightarrow> bool" where
  "alnum_rune r \<longleftrightarrow> (97 \<le> r \<and> r \<le> 122) \<or> (65 \<le> r \<and> r \<le> 90) \<or> (48 \<le> r \<and> r \<le> 57)"

fun make_loop :: "bool \<Rightarrow> string \<Rightarrow> nat list \<Rightarrow> string" where
  "make_loop dash b [] = b"
| "make_loop dash b (r # rs) =
     (if slug_rune r
      then make_loop False ((if dash \<and> b \<noteq> [] then b @ ''-'' else b) @ [char_of r]) rs
      else make_loop True b rs)"

definition Make :: "(nat \<Rightarrow> nat) \<Rightarrow> string \<Rightarrow> string" where
  "Make ulow name = make_loop False [] (map (rune_lower ulow) (runes name))"

text \<open>\<^verbatim>\<open>^[a-z0-9]+(-[a-z0-9]+)*$\<close>\<close>

definition Valid :: "string \<Rightarrow> bool" where
  "Valid s \<longleftrightarrow> list_all (\<lambda>w. w \<noteq> [] \<and> list_all slug_char w) (split_on CHR ''-'' s)"

definition Reserved :: "string \<Rightarrow> bool" where
  "Reserved s \<longleftrightarrow> s = ''params'' \<or> s = ''all''"

definition routeReserved :: "string list" where
  "routeReserved =
     [''metrics'', ''admin'', ''login'', ''logout'', ''api'', ''hooks'', ''join'', ''invite'',
      ''cli'', ''account'', ''static'', ''dev'', ''settings'', ''setup'', ''-'']"

definition RouteReserved :: "string \<Rightarrow> bool" where
  "RouteReserved s \<longleftrightarrow> s \<in> set routeReserved"

text \<open>\<^verbatim>\<open>^[A-Za-z_][A-Za-z0-9_]*$\<close>\<close>

definition ValidEnvKey :: "string \<Rightarrow> bool" where
  "ValidEnvKey s \<longleftrightarrow> s \<noteq> [] \<and> \<not> is_digit (hd s) \<and> list_all name_char s"

definition ValidName :: "string \<Rightarrow> bool" where
  "ValidName s \<longleftrightarrow> ValidEnvKey s"

definition trim_underscores :: "string \<Rightarrow> string" where
  "trim_underscores s =
     rev (dropWhile (\<lambda>c. c = CHR ''_'') (rev (dropWhile (\<lambda>c. c = CHR ''_'') s)))"

definition Suggest :: "string \<Rightarrow> string" where
  "Suggest s =
     (let out = trim_underscores
                  (map (\<lambda>r. if alnum_rune r then char_of r else CHR ''_'') (runes s))
      in if out = [] then ''my_value''
         else if is_digit (hd out) then ''_'' @ out else out)"

definition OfHost :: "string \<Rightarrow> string" where
  "OfHost host = (case cut_at CHR ''.'' (trim_prefix ''*.'' host) of
     None \<Rightarrow> '''' | Some (label, _) \<Rightarrow> label)"

section \<open>The language of the slug expression\<close>

inductive slug_lang :: "string \<Rightarrow> bool" where
  word: "w \<noteq> [] \<Longrightarrow> list_all slug_char w \<Longrightarrow> slug_lang w"
| dash: "slug_lang s \<Longrightarrow> w \<noteq> [] \<Longrightarrow> list_all slug_char w \<Longrightarrow> slug_lang (s @ CHR ''-'' # w)"

inductive_cases slug_langE: "slug_lang s"

section \<open>The contract of separated names\<close>

locale segments =
  fixes ok :: "string \<Rightarrow> bool" and sep :: char
  assumes ok_no_sep: "ok w \<Longrightarrow> sep \<notin> set w"
begin

lemma split_join_ok: "ws \<noteq> [] \<Longrightarrow> list_all ok ws \<Longrightarrow> split_on sep (join_with [sep] ws) = ws"
  by (rule split_join_with) (auto simp: list_all_iff ok_no_sep)

lemma join_ok_inject:
  "\<lbrakk>vs \<noteq> []; ws \<noteq> []; list_all ok vs; list_all ok ws\<rbrakk>
   \<Longrightarrow> join_with [sep] vs = join_with [sep] ws \<longleftrightarrow> vs = ws"
  using split_join_ok by metis

end

section \<open>Lemmas\<close>

subsection \<open>Characters\<close>

lemmas char_classes = is_lower_def is_upper_def is_digit_def slug_char_def name_char_def
  less_eq_char_def

lemma slug_char_not [simp]:
  "\<not> slug_char CHR ''-''" "\<not> slug_char CHR '':''" "\<not> slug_char CHR ''.''"
  "\<not> slug_char CHR ''*''" "\<not> slug_char CHR ''[''" "\<not> slug_char CHR '']''"
  "\<not> slug_char CHR ''$''"
  by (simp_all add: char_classes)

lemma slug_rune_of_char: "slug_rune (of_char c) \<longleftrightarrow> slug_char c"
  by (auto simp: slug_rune_def char_classes)

lemma slug_char_char_of: "slug_rune r \<Longrightarrow> slug_char (char_of r)"
  using slug_rune_of_char [of "char_of r"] by (auto simp: slug_rune_def of_char_of)

lemma rune_lower_slug: "slug_char c \<Longrightarrow> rune_lower ulow (of_char c) = of_char c"
  by (auto simp: rune_lower_def char_classes)

lemma runes_ascii: "(\<And>c. c \<in> set s \<Longrightarrow> of_char c < (0x80::nat)) \<Longrightarrow> runes s = map of_char s"
  unfolding runes_def by (induction s) (auto simp: decode_rune_def)

subsection \<open>The slug check decides the slug language\<close>

lemma slug_lang_nonempty [simp]: "\<not> slug_lang []"
  by (auto elim: slug_lang.cases)

lemma slug_lang_chars: "slug_lang s \<Longrightarrow> c \<in> set s \<Longrightarrow> slug_char c \<or> c = CHR ''-''"
  by (induction rule: slug_lang.induct) (auto simp: list_all_iff)

lemma split_slug_word: "list_all slug_char w \<Longrightarrow> split_on CHR ''-'' w = [w]"
  by (rule split_on_no_sep) (auto simp: list_all_iff)

lemma slug_lang_Valid: "slug_lang s \<Longrightarrow> Valid s"
  by (induction rule: slug_lang.induct) (auto simp: Valid_def split_slug_word split_on_append)

lemma join_snoc: "ws \<noteq> [] \<Longrightarrow> join_with [c] (ws @ [w]) = join_with [c] ws @ c # w"
proof (induction ws)
  case (Cons a ws)
  then show ?case by (cases "ws = []") (simp_all add: join_with_Cons)
qed simp

lemma slug_lang_join:
  "ws \<noteq> [] \<Longrightarrow> list_all (\<lambda>w. w \<noteq> [] \<and> list_all slug_char w) ws \<Longrightarrow> slug_lang (join_with ''-'' ws)"
proof (induction ws rule: rev_induct)
  case (snoc w ws)
  then show ?case
    by (cases "ws = []") (auto simp: join_snoc intro: slug_lang.intros)
qed simp

lemma Valid_slug_lang: "Valid s \<longleftrightarrow> slug_lang s"
proof
  assume "Valid s"
  then have "slug_lang (join_with ''-'' (split_on CHR ''-'' s))"
    by (intro slug_lang_join) (simp_all add: Valid_def)
  then show "slug_lang s" by simp
qed (rule slug_lang_Valid)

lemma slug_lang_snoc: "slug_lang s \<Longrightarrow> slug_char c \<Longrightarrow> slug_lang (s @ [c])"
proof (induction rule: slug_lang.induct)
  case (word w)
  then show ?case by (intro slug_lang.word) auto
next
  case (dash s w)
  then have "slug_lang (s @ CHR ''-'' # (w @ [c]))" by (intro slug_lang.dash) auto
  then show ?case by simp
qed

subsection \<open>What Valid promises to the packages that separate names\<close>

lemma Valid_chars: "Valid s \<Longrightarrow> c \<in> set s \<Longrightarrow> slug_char c \<or> c = CHR ''-''"
  by (simp add: Valid_slug_lang slug_lang_chars)

lemma Valid_nonempty [simp]: "\<not> Valid ''''"
  by (simp add: Valid_slug_lang)

lemma Valid_not_in:
  "Valid s \<Longrightarrow> CHR '':'' \<notin> set s" "Valid s \<Longrightarrow> CHR ''.'' \<notin> set s" "Valid s \<Longrightarrow> CHR ''$'' \<notin> set s"
  "Valid s \<Longrightarrow> CHR ''*'' \<notin> set s" "Valid s \<Longrightarrow> CHR '']'' \<notin> set s"
  by (auto dest: Valid_chars)

lemma ValidEnvKey_not_in: "ValidEnvKey s \<Longrightarrow> CHR ''.'' \<notin> set s \<and> CHR ''['' \<notin> set s \<and> CHR '']'' \<notin> set s"
  by (auto simp: ValidEnvKey_def list_all_iff char_classes)

interpretation slug_colon: segments Valid "CHR '':''"
  by unfold_locales (rule Valid_not_in)

interpretation slug_dot: segments Valid "CHR ''.''"
  by unfold_locales (rule Valid_not_in)

interpretation name_dot: segments ValidName "CHR ''.''"
  by unfold_locales (simp add: ValidName_def ValidEnvKey_not_in)

subsection \<open>The loop of Make\<close>

lemma make_loop_slug:
  "b = [] \<or> slug_lang b \<Longrightarrow> make_loop dash b rs = [] \<or> slug_lang (make_loop dash b rs)"
proof (induction rs arbitrary: dash b)
  case (Cons r rs)
  show ?case
  proof (cases "slug_rune r")
    case True
    let ?c = "char_of r :: char"
    have c: "slug_char ?c" by (rule slug_char_char_of [OF True])
    have "slug_lang ((if dash \<and> b \<noteq> [] then b @ ''-'' else b) @ [?c])"
      using Cons.prems c slug_lang_snoc [of b ?c] slug_lang.dash [of b "[?c]"]
      by (auto intro: slug_lang.word)
    with True Cons.IH show ?thesis by simp
  qed (use Cons in simp)
qed simp

lemma make_loop_word:
  "list_all slug_char w \<Longrightarrow> make_loop False b (map of_char w @ rs) = make_loop False (b @ w) rs"
  by (induction w arbitrary: b) (auto simp: slug_rune_of_char char_of_char)

lemma make_loop_lang:
  "slug_lang s \<Longrightarrow> make_loop False [] (map of_char s @ rs) = make_loop False s rs"
proof (induction arbitrary: rs rule: slug_lang.induct)
  case (word w)
  then show ?case by (simp add: make_loop_word)
next
  case (dash s w)
  from dash.hyps obtain c cs where w: "w = c # cs" "slug_char c" "list_all slug_char cs"
    by (cases w) auto
  have "s \<noteq> []" using dash.hyps by auto
  with dash.IH w show ?case
    by (simp add: slug_rune_of_char char_of_char make_loop_word) (simp add: slug_rune_def)
qed

subsection \<open>Suggest\<close>

lemma name_char_char_of: "alnum_rune r \<Longrightarrow> name_char (char_of r)"
  by (auto simp: alnum_rune_def char_classes of_char_of)

lemma set_trim_underscores: "set (trim_underscores s) \<subseteq> set s"
  unfolding trim_underscores_def by (metis set_dropWhileD set_rev subsetI)

section \<open>Properties\<close>

text \<open>
  the slug check decides the regular expression.  A string passes \<open>Valid\<close> exactly when it is a
  word of \<^verbatim>\<open>[a-z0-9]+(-[a-z0-9]+)*\<close>, given as a language by its two productions.
\<close>

theorem Valid_iff_slug_lang: "Valid s \<longleftrightarrow> slug_lang s"
  by (rule Valid_slug_lang)

text \<open>
  \<open>Make\<close> normalises.  Whatever bytes a display name holds and whatever Unicode's lower-case
  table says, its slug is empty or valid, and making a slug of a slug changes nothing.
\<close>

theorem Make_normalises:
  "(Make ulow name = '''' \<or> Valid (Make ulow name)) \<and> (Valid s \<longrightarrow> Make ulow s = s)"
proof
  show "Make ulow name = '''' \<or> Valid (Make ulow name)"
    unfolding Make_def Valid_slug_lang by (rule make_loop_slug) simp
  show "Valid s \<longrightarrow> Make ulow s = s"
  proof
    assume "Valid s"
    then have lang: "slug_lang s" by (simp add: Valid_slug_lang)
    have "of_char c < (0x80::nat)" if "c \<in> set s" for c
      using slug_lang_chars [OF lang that] by (auto simp: char_classes)
    then have runes: "runes s = map of_char s" by (rule runes_ascii)
    have "rune_lower ulow (of_char c) = of_char c" if "c \<in> set s" for c
      using slug_lang_chars [OF lang that]
      by (auto simp: rune_lower_slug) (simp add: rune_lower_def)
    then have low: "map (rune_lower ulow) (map of_char s) = map of_char s" by simp
    show "Make ulow s = s"
      unfolding Make_def runes low using make_loop_lang [OF lang, of "[]"] by simp
  qed
qed

theorem Make_normalises_witness: "Make id ''My Org!'' = ''my-org'' \<and> Make id ''my-org'' = ''my-org''"
proof -
  have "Valid ''my-org''" by code_simp
  then have "Make id ''my-org'' = ''my-org''" using Make_normalises by blast
  moreover have "Make id ''My Org!'' = ''my-org''" by code_simp
  ultimately show ?thesis by simp
qed

text \<open>
  the name a refusal suggests is itself accepted: \<open>Suggest\<close> answers a valid parameter name for
  every input, empty, non-ASCII and malformed ones included.
\<close>

theorem Suggest_valid: "ValidName (Suggest s)"
proof -
  let ?m = "map (\<lambda>r. if alnum_rune r then char_of r else CHR ''_'') (runes s)"
  let ?out = "trim_underscores ?m"
  have "list_all name_char ?m"
    by (auto simp: list_all_iff name_char_char_of) (simp add: name_char_def)
  then have "list_all name_char ?out"
    using set_trim_underscores [of ?m] by (auto simp: list_all_iff)
  then show ?thesis
    by (auto simp: Suggest_def Let_def ValidName_def ValidEnvKey_def char_classes list_all_iff)
qed

end
