(* ===== verification/Address.thy ===== *)
theory Address
  imports Errs Slug
begin

text \<open>
  \<^verbatim>\<open>internal/service/internal/address/address.go\<close>: a tile's address, the allow list of a
  managed tile, and where a slice tile's \<^verbatim>\<open>provision_from\<close> lands.  Every function is one of the
  file's; \<open>glob\<close> is the meaning of an allow entry as the package comment gives it.
\<close>

section \<open>Model\<close>

definition star :: string where
  "star = ''*''"

record address =
  Org :: string
  Stack :: string
  Env :: string
  Tile :: string

definition segs :: "address \<Rightarrow> string list" where
  "segs a = [Org a, Stack a, Env a, Tile a]"

definition Address_String :: "address \<Rightarrow> string" where
  "Address_String a = join_with '':'' (segs a)"

text \<open>A Pattern is an array of four segments.\<close>

datatype pattern = Pattern (psegs: "string list")

definition parsePattern :: "string \<Rightarrow> string \<Rightarrow> err + pattern" where
  "parsePattern orgSlug entry =
     (let ss = split_on CHR '':'' entry in
      if '''' \<in> set ss then
        Inl (Invalidf ''allow'' ''A part is empty. Use org:stack:env:tile, or end with *.'' [])
      else if hd ss \<noteq> orgSlug then Inl (Invalidf ''allow'' ''Start with this org, %s.'' [orgSlug])
      else if length ss > 4 then
        Inl (Invalidf ''allow'' ''Use at most four parts, org:stack:env:tile.'' [])
      else case find (\<lambda>s. s \<noteq> star \<and> \<not> Valid s) ss of
        Some s \<Rightarrow> Inl (Invalidf ''allow'' ''%q is not a name. Use lower-case letters, digits and single hyphens, or *.'' [s])
      | None \<Rightarrow>
        if length ss < 4 \<and> last ss \<noteq> star then
          Inl (Invalidf ''allow'' ''Use four parts, org:stack:env:tile, or end with *.'' [])
        else Inr (Pattern (take 4 ss @ replicate (4 - length ss) star)))"

fun ParseAllow :: "string \<Rightarrow> string list \<Rightarrow> err + pattern list" where
  "ParseAllow orgSlug [] = Inr []"
| "ParseAllow orgSlug (entry # es) =
     (case parsePattern orgSlug entry of Inl e \<Rightarrow> Inl e
      | Inr p \<Rightarrow> (case ParseAllow orgSlug es of Inl e \<Rightarrow> Inl e | Inr ps \<Rightarrow> Inr (p # ps)))"

definition pattern_match :: "pattern \<Rightarrow> address \<Rightarrow> bool" where
  "pattern_match p a \<longleftrightarrow> list_all2 (\<lambda>s got. s = star \<or> s = got) (psegs p) (segs a)"

definition Match :: "pattern list \<Rightarrow> address \<Rightarrow> bool" where
  "Match ps a \<longleftrightarrow> list_ex (\<lambda>p. pattern_match p a) ps"

definition Allowed :: "string \<Rightarrow> string list \<Rightarrow> address \<Rightarrow> address \<Rightarrow> err + bool" where
  "Allowed orgSlug lst self a =
     (case ParseAllow orgSlug lst of Inl e \<Rightarrow> Inl e
      | Inr ps \<Rightarrow>
        if Org a = Org self \<and> Stack a = Stack self \<and> Env a = Env self then Inr True
        else Inr (Match ps a))"

record target =
  t_Stack :: string
  t_Env :: string
  t_Tile :: string

text \<open>The switch of \<^verbatim>\<open>ParseTarget\<close> on one segment: \<open>None\<close> passes.\<close>

definition target_seg_err :: "string \<Rightarrow> string \<Rightarrow> err option" where
  "target_seg_err s seg =
     (if seg = '''' then Some (Invalidf ''provision_from'' ''%s: a segment is empty'' [s])
      else if contains_str ''${{'' seg then None
      else if \<not> Valid seg then
        Some (Invalidf ''provision_from'' ''%s: %q is not a slug (lower-case letters, digits and single hyphens)'' [s, seg])
      else None)"

definition ParseTarget :: "string \<Rightarrow> err + target" where
  "ParseTarget s =
     (case split_on CHR '':'' s of
        [a, b, c] \<Rightarrow>
          (case List.map_filter (target_seg_err s) [a, b, c] of
             e # _ \<Rightarrow> Inl e
           | [] \<Rightarrow> Inr \<lparr>t_Stack = a, t_Env = b, t_Tile = c\<rparr>)
      | _ \<Rightarrow> Inl (Invalidf ''provision_from'' ''%s: three segments, <stack>:<env>:<tile>'' [s]))"

record host =
  TileID :: string
  Managed :: bool
  Ready :: bool
  Allow :: "string list"

text \<open>
  The maps of \<^verbatim>\<open>Place\<close> as association lists; a nil \<^verbatim>\<open>*Host\<close> is \<open>None\<close>.
\<close>

record place =
  p_Stack :: string
  Pairs :: "(string \<times> string) list"
  Envs :: "(string \<times> host option) list"

definition pair_of :: "place \<Rightarrow> string \<Rightarrow> string" where
  "pair_of pl n = (case map_of (Pairs pl) n of Some e \<Rightarrow> e | None \<Rightarrow> '''')"

text \<open>The first half of \<^verbatim>\<open>Resolve\<close>: the env of the target stack.\<close>

definition resolve_env :: "address \<Rightarrow> string \<Rightarrow> target \<Rightarrow> place \<Rightarrow> err + string" where
  "resolve_env me base tg pl =
     (let names = t_Env tg # (if t_Env tg = Env me \<and> base \<noteq> '''' then [base] else []) in
      if Pairs pl \<noteq> [] then
        (case find (\<lambda>n. pair_of pl n \<noteq> '''') names of
           None \<Rightarrow> Inl (Conflictf ''%s's %s has no env pair for %s'' [p_Stack pl, t_Tile tg, t_Env tg])
         | Some n \<Rightarrow>
           if map_of (Envs pl) (pair_of pl n) = None
           then Inl (Conflictf ''%s has no environment %s'' [p_Stack pl, pair_of pl n])
           else Inr (pair_of pl n))
      else
        (case find (\<lambda>n. map_of (Envs pl) n \<noteq> None) names of
           None \<Rightarrow> Inl (Conflictf ''%s has no environment %s'' [p_Stack pl, t_Env tg])
         | Some n \<Rightarrow> Inr n))"

definition Resolve :: "string \<Rightarrow> address \<Rightarrow> string \<Rightarrow> target \<Rightarrow> place \<Rightarrow> err + string" where
  "Resolve orgSlug me base tg pl =
     (case resolve_env me base tg pl of Inl e \<Rightarrow> Inl e
      | Inr env \<Rightarrow>
        let at = p_Stack pl @ ''/'' @ env in
        (case map_of (Envs pl) env of
           Some (Some h) \<Rightarrow>
             if \<not> Managed h then Inl (Conflictf ''%s/%s is not a managed tile'' [at, t_Tile tg])
             else if \<not> Ready h then
               Inl (Conflictf ''%s/%s has no instance yet; deploy it first'' [at, t_Tile tg])
             else
               (case Allowed orgSlug (Allow h)
                       \<lparr>Org = orgSlug, Stack = p_Stack pl, Env = env, Tile = t_Tile tg\<rparr> me of
                  Inl e \<Rightarrow> Inl (ConflictV (''%s/%s: %v'', [at, t_Tile tg]) e)
                | Inr ok \<Rightarrow>
                  if \<not> ok then
                    Inl (Conflictf ''%s/%s does not allow %s; add it to the Allow list of %s''
                           [at, t_Tile tg, Address_String me, t_Tile tg])
                  else Inr env)
         | _ \<Rightarrow> Inl (Conflictf ''%s has no tile called %s to cut it from'' [at, t_Tile tg])))"

definition RenameSeg :: "string \<Rightarrow> nat \<Rightarrow> string list \<Rightarrow> string \<Rightarrow> string \<Rightarrow> string \<times> bool" where
  "RenameSeg ref pos abv old nu =
     (let ss = split_on CHR '':'' ref in
      if old = nu \<or> length ss \<le> pos \<or> ss ! pos \<noteq> old \<or> take pos ss \<noteq> abv then (ref, False)
      else (join_with '':'' (ss[pos := nu]), True))"

section \<open>What an allow entry means\<close>

text \<open>
  The package comment: a \<open>*\<close> in the middle matches exactly one segment, a \<open>*\<close> as the last written
  segment swallows the rest.
\<close>

fun glob :: "string list \<Rightarrow> string list \<Rightarrow> bool" where
  "glob [] xs = (xs = [])"
| "glob [s] xs = (if s = star then xs \<noteq> [] else xs = [s])"
| "glob (s # t # ss) xs = (case xs of [] \<Rightarrow> False | x # xs' \<Rightarrow> (s = star \<or> s = x) \<and> glob (t # ss) xs')"

section \<open>Lemmas\<close>

lemma parsePattern_Inr:
  assumes "parsePattern orgSlug entry = Inr p"
  shows "let ss = split_on CHR '':'' entry in
     p = Pattern (ss @ replicate (4 - length ss) star) \<and> ss \<noteq> [] \<and> hd ss = orgSlug \<and> length ss \<le> 4
     \<and> (length ss = 4 \<or> last ss = star) \<and> list_all (\<lambda>s. s = star \<or> Valid s) ss"
  using assms unfolding parsePattern_def
  by (auto simp: Let_def find_None_iff list_all_iff split: if_splits option.splits)

lemma ParseAllow_Inr_mem:
  "ParseAllow orgSlug es = Inr ps \<Longrightarrow> p \<in> set ps \<Longrightarrow> \<exists>e \<in> set es. parsePattern orgSlug e = Inr p"
  by (induction es arbitrary: ps) (fastforce split: sum.splits)+

lemma glob_pad:
  "ss \<noteq> [] \<Longrightarrow> length ss \<le> length xs \<Longrightarrow> length ss = length xs \<or> last ss = star \<Longrightarrow>
   list_all2 (\<lambda>s got. s = star \<or> s = got) (ss @ replicate (length xs - length ss) star) xs
     \<longleftrightarrow> glob ss xs"
proof (induction ss xs rule: glob.induct)
  case (2 s xs)
  then obtain y ys where "xs = y # ys" by (cases xs) auto
  moreover have "list_all2 (\<lambda>s got. s = star \<or> s = got) (replicate (length ys) star) ys"
    by (simp add: list_all2_conv_all_nth)
  ultimately show ?case using 2 by auto
next
  case (3 s t ss xs)
  then show ?case by (cases xs) (auto simp: Suc_diff_le)
qed simp

lemma length_segs [simp]: "length (segs a) = 4"
  by (simp add: segs_def)

lemma pattern_match_own_org:
  assumes "Valid orgSlug" and "parsePattern orgSlug entry = Inr p" and "pattern_match p a"
  shows "Org a = orgSlug"
proof -
  let ?ss = "split_on CHR '':'' entry"
  from parsePattern_Inr [OF assms(2)] have p: "p = Pattern (?ss @ replicate (4 - length ?ss) star)"
    and hd: "hd ?ss = orgSlug" by (simp_all add: Let_def)
  obtain s ss where ss: "?ss = s # ss" by (cases ?ss) simp_all
  have "s \<noteq> star" using hd ss assms(1) by (auto simp: star_def Valid_def list_all_iff char_classes)
  with assms(3) p hd ss show ?thesis
    by (simp add: pattern_match_def segs_def)
qed

lemma target_seg_ok: "Valid w \<Longrightarrow> target_seg_err s w = None"
  by (auto simp: target_seg_err_def)

section \<open>Properties\<close>

text \<open>
  C29: an allow entry means what its grammar says.  When \<open>parsePattern\<close> accepts an entry, the
  pattern it builds admits an address exactly when the entry, as written, matches it: one
  segment for a middle star, everything left for a trailing one.
\<close>

theorem pattern_is_glob:
  assumes "parsePattern orgSlug entry = Inr p"
  shows "pattern_match p a \<longleftrightarrow> glob (split_on CHR '':'' entry) (segs a)"
proof -
  let ?ss = "split_on CHR '':'' entry"
  from parsePattern_Inr [OF assms]
  have "p = Pattern (?ss @ replicate (4 - length ?ss) star)" "length ?ss \<le> 4"
    "length ?ss = 4 \<or> last ?ss = star"
    by (simp_all add: Let_def)
  then show ?thesis
    using glob_pad [of ?ss "segs a"] by (simp add: pattern_match_def)
qed

definition demo_addr :: address where
  "demo_addr = \<lparr>Org = ''acme'', Stack = ''web'', Env = ''prod'', Tile = ''api''\<rparr>"

theorem pattern_is_glob_witness:
  "pattern_match (Pattern [''acme'', ''web'', star, star]) demo_addr
     \<longleftrightarrow> glob (split_on CHR '':'' ''acme:web:*'') (segs demo_addr)"
  by (rule pattern_is_glob [of "''acme''"]) code_simp

text \<open>
  An allow list never reaches outside its org.  If the list of a managed tile lets an address
  in, the address is in the tile's own environment or in the org the list belongs to.
\<close>

theorem Allowed_stays_in_org:
  assumes "Valid orgSlug" and "Allowed orgSlug lst self a = Inr True"
  shows "Org a = orgSlug \<or> (Org a = Org self \<and> Stack a = Stack self \<and> Env a = Env self)"
proof -
  from assms(2) obtain ps where ps: "ParseAllow orgSlug lst = Inr ps"
    and "Match ps a \<or> (Org a = Org self \<and> Stack a = Stack self \<and> Env a = Env self)"
    by (auto simp: Allowed_def split: sum.splits if_splits)
  then show ?thesis
    using ParseAllow_Inr_mem [OF ps] pattern_match_own_org [OF assms(1)]
    by (auto simp: Match_def list_ex_iff)
qed

theorem Allowed_stays_in_org_witness:
  "Allowed ''acme'' [''acme:*''] (demo_addr\<lparr>Stack := ''db''\<rparr>) demo_addr = Inr True \<and>
   (Org demo_addr = ''acme'' \<or> (Org demo_addr = Org (demo_addr\<lparr>Stack := ''db''\<rparr>) \<and>
      Stack demo_addr = Stack (demo_addr\<lparr>Stack := ''db''\<rparr>) \<and> Env demo_addr = Env (demo_addr\<lparr>Stack := ''db''\<rparr>)))"
proof -
  have v: "Valid ''acme''" by code_simp
  have a: "Allowed ''acme'' [''acme:*''] (demo_addr\<lparr>Stack := ''db''\<rparr>) demo_addr = Inr True" by code_simp
  show ?thesis using a Allowed_stays_in_org [OF v a] by simp
qed

text \<open>
  \<open>Resolve\<close> lands a slice only where it may.  A success names an environment of the target
  stack whose tile is managed and has its instance, and which admits the slice's address: its own
  environment or an entry of the tile's allow list, parsed as a whole.
\<close>

theorem Resolve_success:
  assumes "Resolve orgSlug me base tg pl = Inr env"
  shows "\<exists>h. map_of (Envs pl) env = Some (Some h) \<and> Managed h \<and> Ready h \<and>
     Allowed orgSlug (Allow h) \<lparr>Org = orgSlug, Stack = p_Stack pl, Env = env, Tile = t_Tile tg\<rparr> me = Inr True \<and>
     (Pairs pl = [] \<longrightarrow> env = t_Env tg \<or> (env = base \<and> t_Env tg = Env me)) \<and>
     (Pairs pl \<noteq> [] \<longrightarrow> env = pair_of pl (t_Env tg) \<or> (env = pair_of pl base \<and> t_Env tg = Env me))"
  using assms unfolding Resolve_def resolve_env_def
  by (auto simp: Let_def split: sum.splits option.splits if_splits)

definition demo_place :: place where
  "demo_place = \<lparr>p_Stack = ''data'', Pairs = [(''prod'', ''live'')],
     Envs = [(''live'', Some \<lparr>TileID = ''t'', Managed = True, Ready = True, Allow = [''acme:web:*'']\<rparr>)]\<rparr>"

theorem Resolve_success_witness:
  "\<exists>h. map_of (Envs demo_place) ''live'' = Some (Some h) \<and> Managed h \<and> Ready h \<and>
     Allowed ''acme'' (Allow h) \<lparr>Org = ''acme'', Stack = p_Stack demo_place, Env = ''live'',
       Tile = t_Tile \<lparr>t_Stack = ''data'', t_Env = ''prod'', t_Tile = ''pg''\<rparr>\<rparr> demo_addr = Inr True"
proof -
  have "Resolve ''acme'' demo_addr '''' \<lparr>t_Stack = ''data'', t_Env = ''prod'', t_Tile = ''pg''\<rparr> demo_place
          = Inr ''live''"
    by code_simp
  from Resolve_success [OF this] show ?thesis by blast
qed

text \<open>
  \<open>provision_from\<close> round trip.  Three slugs joined with colons parse back to themselves, and
  whatever \<open>ParseTarget\<close> accepts prints back to the text it was read from.
\<close>

theorem ParseTarget_roundtrip:
  "(Valid a \<and> Valid b \<and> Valid c \<longrightarrow>
      ParseTarget (join_with '':'' [a, b, c]) = Inr \<lparr>t_Stack = a, t_Env = b, t_Tile = c\<rparr>) \<and>
   (ParseTarget s = Inr t \<longrightarrow> join_with '':'' [t_Stack t, t_Env t, t_Tile t] = s)"
proof
  show "Valid a \<and> Valid b \<and> Valid c \<longrightarrow>
      ParseTarget (join_with '':'' [a, b, c]) = Inr \<lparr>t_Stack = a, t_Env = b, t_Tile = c\<rparr>"
  proof
    assume v: "Valid a \<and> Valid b \<and> Valid c"
    then have "split_on CHR '':'' (join_with '':'' [a, b, c]) = [a, b, c]"
      by (intro slug_colon.split_join_ok) simp_all
    with v show "ParseTarget (join_with '':'' [a, b, c]) = Inr \<lparr>t_Stack = a, t_Env = b, t_Tile = c\<rparr>"
      unfolding ParseTarget_def by (simp add: target_seg_ok map_filter_simps del: join_with.simps)
  qed
  show "ParseTarget s = Inr t \<longrightarrow> join_with '':'' [t_Stack t, t_Env t, t_Tile t] = s"
  proof
    assume "ParseTarget s = Inr t"
    then have "split_on CHR '':'' s = [t_Stack t, t_Env t, t_Tile t]"
      by (auto simp: ParseTarget_def split: list.splits)
    then show "join_with '':'' [t_Stack t, t_Env t, t_Tile t] = s"
      using join_split_on [of "CHR '':''" s] by simp
  qed
qed

theorem ParseTarget_roundtrip_witness:
  "ParseTarget (join_with '':'' [''data'', ''prod'', ''pg''])
     = Inr \<lparr>t_Stack = ''data'', t_Env = ''prod'', t_Tile = ''pg''\<rparr>"
proof -
  have "Valid ''data'' \<and> Valid ''prod'' \<and> Valid ''pg''" by code_simp
  then show ?thesis using ParseTarget_roundtrip by blast
qed

text \<open>
  a rename is exact and reversible.  \<open>RenameSeg\<close> on a reference whose segments are free of
  colons either leaves it alone or changes the one segment named, and renaming back restores the
  reference.
\<close>

theorem RenameSeg_reversible:
  assumes "RenameSeg ref pos abv old nu = (ref', True)" and "CHR '':'' \<notin> set nu"
  shows "split_on CHR '':'' ref' = (split_on CHR '':'' ref)[pos := nu]
     \<and> RenameSeg ref' pos abv nu old = (ref, True)"
proof -
  let ?ss = "split_on CHR '':'' ref"
  from assms(1) have g: "old \<noteq> nu" "pos < length ?ss" "?ss ! pos = old" "take pos ?ss = abv"
    and ref': "ref' = join_with '':'' (?ss[pos := nu])"
    by (auto simp: RenameSeg_def Let_def split: if_splits)
  have seg: "CHR '':'' \<notin> set w" if "w \<in> set (?ss[pos := nu])" for w
    using that assms(2) set_update_subset_insert [of ?ss pos nu] split_on_parts by fastforce
  have sp: "split_on CHR '':'' ref' = ?ss[pos := nu]"
    unfolding ref' by (rule split_join_with) (use seg in auto)
  have "RenameSeg ref' pos abv nu old = (join_with '':'' (?ss[pos := nu, pos := old]), True)"
    unfolding RenameSeg_def sp using g by simp
  also have "?ss[pos := nu, pos := old] = ?ss" using g(3) list_update_id [of ?ss pos] by simp
  finally show ?thesis using sp by simp
qed

theorem RenameSeg_reversible_witness:
  "split_on CHR '':'' ''acme:shop:prod:*'' = (split_on CHR '':'' ''acme:web:prod:*'')[1 := ''shop'']
   \<and> RenameSeg ''acme:shop:prod:*'' 1 [''acme''] ''shop'' ''web'' = (''acme:web:prod:*'', True)"
  by (rule RenameSeg_reversible) code_simp+

end
