(* ===== verification/Netip.thy ===== *)
theory Netip
  imports Go_Prelude "HOL-Library.Word"
begin

text \<open>
  The part of Go's \<^verbatim>\<open>net/netip\<close> that the mesh, the exits and the firewall packages use: addresses
  and prefixes as values, their text forms, and the containment and classification tests.
  An IPv4 address is a 32-bit word, an IPv6 address a 128-bit word with a zone; the zero Addr is
  \<open>AddrZero\<close>.  An invalid Prefix is one without a length.
\<close>

section \<open>Values\<close>

datatype addr = AddrZero | Addr4 "32 word" | Addr6 "128 word" string

datatype pfx = Pfx (pfx_addr: addr) (pfx_bits: "nat option")

definition addr_IsValid :: "addr \<Rightarrow> bool" where
  "addr_IsValid a \<longleftrightarrow> a \<noteq> AddrZero"

fun Is4 :: "addr \<Rightarrow> bool" where
  "Is4 (Addr4 _) = True"
| "Is4 _ = False"

fun Is6 :: "addr \<Rightarrow> bool" where
  "Is6 (Addr6 _ _) = True"
| "Is6 _ = False"

fun BitLen :: "addr \<Rightarrow> nat" where
  "BitLen AddrZero = 0"
| "BitLen (Addr4 _) = 32"
| "BitLen (Addr6 _ _) = 128"

fun addr_zone :: "addr \<Rightarrow> string" where
  "addr_zone (Addr6 _ z) = z"
| "addr_zone _ = []"

fun Is4In6 :: "addr \<Rightarrow> bool" where
  "Is4In6 (Addr6 w _) = (drop_bit 32 w = 0xFFFF)"
| "Is4In6 _ = False"

fun Unmap :: "addr \<Rightarrow> addr" where
  "Unmap (Addr6 w z) = (if drop_bit 32 w = 0xFFFF then Addr4 (ucast w) else Addr6 w z)"
| "Unmap a = a"

definition pfx_IsValid :: "pfx \<Rightarrow> bool" where
  "pfx_IsValid p \<longleftrightarrow> pfx_bits p \<noteq> None"

fun withoutZone :: "addr \<Rightarrow> addr" where
  "withoutZone (Addr6 w _) = Addr6 w []"
| "withoutZone a = a"

definition PrefixFrom :: "addr \<Rightarrow> nat \<Rightarrow> pfx" where
  "PrefixFrom a b = Pfx (withoutZone a) (if addr_IsValid a \<and> b \<le> BitLen a then Some b else None)"

fun mask_addr :: "nat \<Rightarrow> addr \<Rightarrow> addr" where
  "mask_addr b (Addr4 w) = Addr4 (push_bit (32 - b) (drop_bit (32 - b) w))"
| "mask_addr b (Addr6 w z) = Addr6 (push_bit (128 - b) (drop_bit (128 - b) w)) []"
| "mask_addr b AddrZero = AddrZero"

definition Masked :: "pfx \<Rightarrow> pfx" where
  "Masked p = (case pfx_bits p of None \<Rightarrow> Pfx AddrZero None
     | Some b \<Rightarrow> Pfx (mask_addr b (pfx_addr p)) (Some b))"

definition Contains :: "pfx \<Rightarrow> addr \<Rightarrow> bool" where
  "Contains p a =
     (case pfx_bits p of None \<Rightarrow> False
      | Some b \<Rightarrow>
        (case (pfx_addr p, a) of
           (Addr4 n, Addr4 w) \<Rightarrow> drop_bit (32 - b) n = drop_bit (32 - b) w
         | (Addr6 n _, Addr6 w z) \<Rightarrow> z = [] \<and> drop_bit (128 - b) n = drop_bit (128 - b) w
         | _ \<Rightarrow> False))"

text \<open>The classes an address may be in.\<close>

fun IsUnspecified :: "addr \<Rightarrow> bool" where
  "IsUnspecified (Addr4 w) = (w = 0)"
| "IsUnspecified (Addr6 w z) = (w = 0 \<and> z = [])"
| "IsUnspecified AddrZero = False"

fun IsLoopback :: "addr \<Rightarrow> bool" where
  "IsLoopback (Addr4 w) = (drop_bit 24 w = 127)"
| "IsLoopback (Addr6 w z) = (if drop_bit 32 w = 0xFFFF then drop_bit 24 (ucast w :: 32 word) = 127 else w = 1)"
| "IsLoopback AddrZero = False"

fun IsMulticast :: "addr \<Rightarrow> bool" where
  "IsMulticast (Addr4 w) = (drop_bit 28 w = 0xE)"
| "IsMulticast (Addr6 w z) = (if drop_bit 32 w = 0xFFFF then drop_bit 28 (ucast w :: 32 word) = 0xE
     else drop_bit 120 w = 0xFF)"
| "IsMulticast AddrZero = False"

fun IsLinkLocalUnicast :: "addr \<Rightarrow> bool" where
  "IsLinkLocalUnicast (Addr4 w) = (drop_bit 16 w = 0xA9FE)"
| "IsLinkLocalUnicast (Addr6 w z) = (if drop_bit 32 w = 0xFFFF then drop_bit 16 (ucast w :: 32 word) = 0xA9FE
     else drop_bit 118 w = 0x3FA)"
| "IsLinkLocalUnicast AddrZero = False"

text \<open>224.0.0.0/24, and ff02 with any flags in the second nibble.\<close>

fun IsLinkLocalMulticast :: "addr \<Rightarrow> bool" where
  "IsLinkLocalMulticast (Addr4 w) = (drop_bit 8 w = 0xE00000)"
| "IsLinkLocalMulticast (Addr6 w z) = (if drop_bit 32 w = 0xFFFF then drop_bit 8 (ucast w :: 32 word) = 0xE00000
     else drop_bit 120 w = 0xFF \<and> unat (drop_bit 112 w) mod 16 = 2)"
| "IsLinkLocalMulticast AddrZero = False"

fun IsPrivate :: "addr \<Rightarrow> bool" where
  "IsPrivate (Addr4 w) = (drop_bit 24 w = 10 \<or> drop_bit 20 w = 0xAC1 \<or> drop_bit 16 w = 0xC0A8)"
| "IsPrivate (Addr6 w z) = (if drop_bit 32 w = 0xFFFF
     then drop_bit 24 (ucast w :: 32 word) = 10 \<or> drop_bit 20 (ucast w :: 32 word) = 0xAC1
          \<or> drop_bit 16 (ucast w :: 32 word) = 0xC0A8
     else drop_bit 121 w = 0x7E)"
| "IsPrivate AddrZero = False"

section \<open>Text\<close>

text \<open>The bytes of a number, most significant first.\<close>

definition bytes_val :: "nat list \<Rightarrow> nat" where
  "bytes_val = foldl (\<lambda>acc b. 256 * acc + b) 0"

definition octet :: "string \<Rightarrow> nat option" where
  "octet w = (if w \<noteq> [] \<and> list_all is_digit w \<and> (length w = 1 \<or> hd w \<noteq> CHR ''0'') \<and> digits_val w \<le> 255
     then Some (digits_val w) else None)"

text \<open>\<^verbatim>\<open>parseIPv4Fields\<close>: four decimal octets, no leading zero.\<close>

definition ipv4_fields :: "string \<Rightarrow> nat list option" where
  "ipv4_fields s = (let os = map octet (split_on CHR ''.'' s) in
     if length os = 4 \<and> None \<notin> set os then Some (map the os) else None)"

definition parseIPv4 :: "string \<Rightarrow> addr option" where
  "parseIPv4 s = map_option (\<lambda>bs. Addr4 (of_nat (bytes_val bs))) (ipv4_fields s)"

definition hex_val :: "char \<Rightarrow> nat option" where
  "hex_val c =
     (if is_digit c then Some (of_char c - 48)
      else if CHR ''a'' \<le> c \<and> c \<le> CHR ''f'' then Some (of_char c - 87)
      else if CHR ''A'' \<le> c \<and> c \<le> CHR ''F'' then Some (of_char c - 55) else None)"

definition hexes_val :: "string \<Rightarrow> nat" where
  "hexes_val = foldl (\<lambda>acc c. 16 * acc + the (hex_val c)) 0"

text \<open>
  The loop of \<^verbatim>\<open>parseIPv6\<close>.  \<open>n\<close> counts the two-byte groups there is still room for, so
  the loop's \<^verbatim>\<open>i\<close> is \<open>length ip\<close> and its bound \<^verbatim>\<open>i < 16\<close> is \<open>n > 0\<close>; \<open>ell\<close> is the position
  of the ellipsis.  The result is what is left of the text, the bytes and the ellipsis.
\<close>

fun ipv6_loop :: "nat \<Rightarrow> string \<Rightarrow> nat list \<Rightarrow> nat option \<Rightarrow> (string \<times> nat list \<times> nat option) option" where
  "ipv6_loop 0 s ip ell = Some (s, ip, ell)"
| "ipv6_loop (Suc n) s ip ell =
     (let ds = takeWhile (\<lambda>c. hex_val c \<noteq> None) s; rest = drop (length ds) s;
          ip' = ip @ [hexes_val ds div 256, hexes_val ds mod 256] in
      if length ds > 4 \<or> ds = [] then None
      else if rest \<noteq> [] \<and> hd rest = CHR ''.'' then
        (if ell = None \<and> length ip \<noteq> 12 \<or> length ip + 4 > 16 then None
         else map_option (\<lambda>bs. ([], ip @ bs, ell)) (ipv4_fields s))
      else if rest = [] then Some ([], ip', ell)
      else if hd rest \<noteq> CHR '':'' \<or> length rest = 1 then None
      else let s1 = tl rest in
        if hd s1 = CHR '':'' then
          (if ell \<noteq> None then None
           else if tl s1 = [] then Some ([], ip', Some (length ip'))
           else ipv6_loop n (tl s1) ip' (Some (length ip')))
        else ipv6_loop n s1 ip' ell)"

definition ipv6_expand :: "string \<times> nat list \<times> nat option \<Rightarrow> nat list option" where
  "ipv6_expand r = (case r of (s, ip, ell) \<Rightarrow>
     if s \<noteq> [] then None
     else if length ip < 16 then
       (case ell of None \<Rightarrow> None
        | Some e \<Rightarrow> Some (take e ip @ replicate (16 - length ip) 0 @ drop e ip))
     else if ell \<noteq> None then None else Some ip)"

definition parseIPv6 :: "string \<Rightarrow> addr option" where
  "parseIPv6 inp =
     (let (s, zone, bad) = (case cut_at CHR ''%'' inp of None \<Rightarrow> (inp, [], False)
              | Some (s, z) \<Rightarrow> (s, z, z = [])) in
      if bad then None
      else if has_prefix ''::'' s then
        (if drop 2 s = [] then Some (Addr6 0 zone)
         else map_option (\<lambda>ip. Addr6 (of_nat (bytes_val ip)) zone)
                (Option.bind (ipv6_loop 8 (drop 2 s) [] (Some 0)) ipv6_expand))
      else map_option (\<lambda>ip. Addr6 (of_nat (bytes_val ip)) zone)
             (Option.bind (ipv6_loop 8 s [] None) ipv6_expand))"

definition ParseAddr :: "string \<Rightarrow> addr option" where
  "ParseAddr s = (case find (\<lambda>c. c \<in> {CHR ''.'', CHR '':'', CHR ''%''}) s of
     None \<Rightarrow> None
   | Some c \<Rightarrow> if c = CHR ''.'' then parseIPv4 s else if c = CHR '':'' then parseIPv6 s else None)"

definition ParsePrefix :: "string \<Rightarrow> pfx option" where
  "ParsePrefix s = (case cut_last CHR ''/'' s of None \<Rightarrow> None
   | Some (ip, bits) \<Rightarrow>
     (case ParseAddr ip of None \<Rightarrow> None
      | Some a \<Rightarrow>
        if addr_zone a \<noteq> [] then None
        else if length bits > 1 \<and> \<not> (CHR ''1'' \<le> hd bits \<and> hd bits \<le> CHR ''9'') then None
        else (case atoi bits of None \<Rightarrow> None
              | Some n \<Rightarrow> if n < 0 \<or> n > int (BitLen a) then None else Some (PrefixFrom a (nat n)))))"

definition v4_bytes :: "32 word \<Rightarrow> nat list" where
  "v4_bytes w = [unat w div 2 ^ 24, unat w div 2 ^ 16 mod 256, unat w div 2 ^ 8 mod 256, unat w mod 256]"

definition string4 :: "32 word \<Rightarrow> string" where
  "string4 w = join_with ''.'' (map nat_str (v4_bytes w))"

definition v6_groups :: "128 word \<Rightarrow> nat list" where
  "v6_groups w = map (\<lambda>i. unat w div 2 ^ (16 * (7 - i)) mod 2 ^ 16) [0..<8]"

text \<open>The first longest run of at least two zero groups, as its start and length.\<close>

definition zero_run :: "nat list \<Rightarrow> nat \<times> nat" where
  "zero_run gs = foldl (\<lambda>(st, len) i.
       let l = length (takeWhile (\<lambda>g. g = 0) (drop i gs)) in
       if l \<ge> 2 \<and> l > len then (i, l) else (st, len)) (0, 0) [0..<length gs]"

definition string6 :: "128 word \<Rightarrow> string" where
  "string6 w = (let gs = v6_groups w; (st, len) = zero_run gs; txt = \<lambda>hs. join_with '':'' (map hex_str hs) in
     if len = 0 then txt gs else txt (take st gs) @ ''::'' @ txt (drop (st + len) gs))"

fun addr_String :: "addr \<Rightarrow> string" where
  "addr_String AddrZero = ''invalid IP''"
| "addr_String (Addr4 w) = string4 w"
| "addr_String (Addr6 w z) =
     (if drop_bit 32 w = 0xFFFF then ''::ffff:'' @ string4 (ucast w) else string6 w)
     @ (if z = [] then [] else ''%'' @ z)"

definition pfx_String :: "pfx \<Rightarrow> string" where
  "pfx_String p = (case pfx_bits p of None \<Rightarrow> ''invalid Prefix''
     | Some b \<Rightarrow> addr_String (pfx_addr p) @ ''/'' @ nat_str b)"

text \<open>\<^verbatim>\<open>netip.AddrFrom4\<close>, and the constants \<^verbatim>\<open>MustParsePrefix\<close> gives.\<close>

definition ip4 :: "nat \<Rightarrow> nat \<Rightarrow> nat \<Rightarrow> nat \<Rightarrow> addr" where
  "ip4 a b c d = Addr4 (of_nat (bytes_val [a, b, c, d]))"

definition net4 :: "nat \<Rightarrow> nat \<Rightarrow> nat \<Rightarrow> nat \<Rightarrow> nat \<Rightarrow> pfx" where
  "net4 a b c d n = PrefixFrom (ip4 a b c d) n"

section \<open>Lemmas\<close>

lemma octet_nat_str: "n \<le> 255 \<Longrightarrow> octet (nat_str n) = Some n"
proof -
  assume n: "n \<le> 255"
  have "length (nat_str n) = 1 \<or> hd (nat_str n) \<noteq> CHR ''0''"
  proof (cases "n < 10")
    case True
    then show ?thesis by (subst nat_str.simps) simp
  next
    case False
    have "hd (nat_str m) \<noteq> CHR ''0''" if "0 < m" for m
      using that
    proof (induction m rule: nat_str.induct)
      case (1 m)
      show ?case
      proof (cases "m < 10")
        case True
        with "1.prems" have "m \<in> {1, 2, 3, 4, 5, 6, 7, 8, 9}" by auto
        with True show ?thesis by (subst nat_str.simps) (auto simp: digit_char_def)
      next
        case False
        with 1 show ?thesis by (subst nat_str.simps) simp
      qed
    qed
    with False show ?thesis by simp
  qed
  with n show ?thesis by (simp add: octet_def nat_str_digits digits_val_nat_str)
qed

lemma v4_bytes_val: "of_nat (bytes_val (v4_bytes w)) = w"
proof -
  have step: "256 * (n div (k * 256)) + n div k mod 256 = n div k" for n k :: nat
    by (simp add: div_mult2_eq)
  have "bytes_val (v4_bytes w) = unat w"
    using step [of "unat w" "2 ^ 16"] step [of "unat w" "2 ^ 8"] step [of "unat w" 1]
    unfolding bytes_val_def v4_bytes_def by simp
  then show ?thesis by simp
qed

lemma v4_bytes_le: "b \<in> set (v4_bytes w) \<Longrightarrow> b \<le> 255"
proof -
  have "unat w < 2 ^ 32" using unsigned_less [of w] by simp
  then show "b \<in> set (v4_bytes w) \<Longrightarrow> b \<le> 255"
    by (auto simp: v4_bytes_def)
qed

lemma ipv4_fields_string4: "ipv4_fields (string4 w) = Some (v4_bytes w)"
proof -
  have "CHR ''.'' \<notin> set (nat_str n)" for n
    by (rule nat_str_no_char) (simp add: is_digit_def less_eq_char_def)
  then have "split_on CHR ''.'' (string4 w) = map nat_str (v4_bytes w)"
    unfolding string4_def by (intro split_join_with) (auto simp: v4_bytes_def)
  moreover have "map octet (map nat_str (v4_bytes w)) = map Some (v4_bytes w)"
    by (simp add: octet_nat_str v4_bytes_le)
  ultimately show ?thesis
    unfolding ipv4_fields_def Let_def by (auto simp: v4_bytes_def)
qed

lemma find_after: "(\<And>x. x \<in> set xs \<Longrightarrow> \<not> P x) \<Longrightarrow> P y \<Longrightarrow> find P (xs @ y # ys) = Some y"
  by (induction xs) auto

lemma find_dot_string4:
  "find (\<lambda>c. c \<in> {CHR ''.'', CHR '':'', CHR ''%''}) (nat_str n @ CHR ''.'' # s) = Some CHR ''.''"
proof (rule find_after)
  fix c assume "c \<in> set (nat_str n)"
  then have "is_digit c" using nat_str_digits [of n] by (simp add: list_all_iff)
  then show "c \<notin> {CHR ''.'', CHR '':'', CHR ''%''}" by (auto simp: is_digit_def less_eq_char_def)
qed simp

text \<open>Printing an IPv4 address and parsing it again is the identity.\<close>

lemma ParseAddr_string4 [go_string]: "ParseAddr (string4 w) = Some (Addr4 w)"
proof -
  obtain b s where "string4 w = nat_str b @ CHR ''.'' # s"
    by (simp add: string4_def v4_bytes_def)
  then have "find (\<lambda>c. c \<in> {CHR ''.'', CHR '':'', CHR ''%''}) (string4 w) = Some CHR ''.''"
    by (simp only: find_dot_string4)
  then show ?thesis
    by (simp add: ParseAddr_def parseIPv4_def ipv4_fields_string4 v4_bytes_val)
qed

lemma ParseAddr_String4: "Is4 a \<Longrightarrow> ParseAddr (addr_String a) = Some a"
  by (cases a) (simp_all add: ParseAddr_string4)

lemma drop_push_drop: "drop_bit n (push_bit n (drop_bit n w)) = drop_bit n (w :: 'a::len word)"
  by (rule bit_word_eqI) (auto simp: bit_simps dest: bit_imp_le_length)

lemma Contains_Masked: "pfx_IsValid p \<Longrightarrow> Is4 (pfx_addr p) \<Longrightarrow> Contains (Masked p) a \<longleftrightarrow> Contains p a"
  by (cases p; cases "pfx_addr p"; cases a)
     (auto simp: Contains_def Masked_def pfx_IsValid_def drop_push_drop split: option.splits)

lemma Contains_self4: "Contains (PrefixFrom (Addr4 w) b) (Addr4 w) \<longleftrightarrow> b \<le> 32"
  by (simp add: Contains_def PrefixFrom_def addr_IsValid_def)

lemma Contains_32: "Contains (PrefixFrom (Addr4 w) 32) a \<longleftrightarrow> a = Addr4 w"
  by (cases a) (auto simp: Contains_def PrefixFrom_def addr_IsValid_def)

lemma Unmap_idem [simp]: "Unmap (Unmap a) = Unmap a"
  by (cases a) auto

lemma Contains_Is4: "Contains p a \<Longrightarrow> Is4 (pfx_addr p) \<Longrightarrow> Is4 a"
  by (cases "pfx_addr p"; cases a) (auto simp: Contains_def split: option.splits)

end
