(* ===== verification/Mesh.thy ===== *)
theory Mesh
  imports Netip Errs "HOL-Library.Product_Lexorder" "HOL-Library.Multiset"
begin

text \<open>
  \<^verbatim>\<open>internal/mesh/mesh.go\<close>: the controller's logic of the WireGuard mesh: the address plan and the
  transit addresses, the filter of reported endpoints, a node's peer list, and the next hops of
  nodes without a direct tunnel.
\<close>

section \<open>Model: the address plan\<close>

definition Supernet :: pfx where
  "Supernet = net4 10 208 0 0 12"

definition Transit :: pfx where
  "Transit = net4 10 207 255 0 24"

definition ExitNet :: pfx where
  "ExitNet = net4 10 251 0 0 22"

definition ControllerTransit :: addr where
  "ControllerTransit = ip4 10 207 255 6"

definition ErrNoTransit :: err where
  "ErrNoTransit = Errorf ''mesh: no free transit address left'' []"

definition AllocTransit :: "addr list \<Rightarrow> err + addr" where
  "AllocTransit taken =
     (case find (\<lambda>c. c \<noteq> ControllerTransit \<and> c \<notin> set taken) (map (ip4 10 207 255) [1..<255]) of
        Some c \<Rightarrow> Inr c
      | None \<Rightarrow> Inl ErrNoTransit)"

text \<open>\<^verbatim>\<open>As4\<close> on an IPv4 address; \<^verbatim>\<open>Slot\<close> calls it only there.\<close>

fun last_byte :: "addr \<Rightarrow> nat" where
  "last_byte (Addr4 w) = unat w mod 256"
| "last_byte _ = 0"

definition Slot :: "addr \<Rightarrow> nat" where
  "Slot a = (if \<not> Contains Transit a then 0 else last_byte a)"

section \<open>Model: reported endpoints\<close>

definition metadata :: addr where
  "metadata = ip4 169 254 169 254"

definition UsableEndpoint :: "addr \<Rightarrow> bool" where
  "UsableEndpoint a0 =
     (let a = Unmap a0 in
      if \<not> addr_IsValid a \<or> IsUnspecified a \<or> IsLoopback a \<or> IsMulticast a \<or>
         IsLinkLocalUnicast a \<or> IsLinkLocalMulticast a \<or> a = metadata then False
      else \<not> Contains Supernet a \<and> \<not> Contains Transit a \<and> \<not> Contains ExitNet a)"

definition FilterAddrs :: "addr list \<Rightarrow> addr list" where
  "FilterAddrs inp = dedupe_first (filter UsableEndpoint (map Unmap inp))"

record node =
  n_ID :: string
  n_PublicKey :: string
  n_Transit :: addr
  n_Subnets :: "pfx list"
  n_Port :: nat
  n_Ifaces :: "pfx list"
  n_Public :: "addr list"

record peer =
  p_NodeID :: string
  p_PublicKey :: string
  p_AllowedIPs :: "pfx list"
  p_Candidates :: "(addr \<times> nat) list"

definition lanAddrs :: "node \<Rightarrow> node \<Rightarrow> addr list" where
  "lanAddrs self other = filter (\<lambda>a. UsableEndpoint a \<and> IsPrivate a \<and>
       list_ex (\<lambda>mine. Contains (Masked mine) a \<and> Unmap (pfx_addr mine) \<noteq> a) (n_Ifaces self))
     (map (\<lambda>p. Unmap (pfx_addr p)) (n_Ifaces other))"

definition SameLAN :: "node \<Rightarrow> node \<Rightarrow> bool" where
  "SameLAN a b \<longleftrightarrow> length (lanAddrs a b) > 0"

definition HasV6 :: "node \<Rightarrow> bool" where
  "HasV6 n = list_ex Is6 (FilterAddrs (n_Public n))"

definition Candidates :: "node \<Rightarrow> node \<Rightarrow> (addr \<times> nat) list" where
  "Candidates self other = dedupe_first (map (\<lambda>a. (a, n_Port other))
     (lanAddrs self other @ filter (\<lambda>a. Is4 a \<or> HasV6 self) (FilterAddrs (n_Public other))))"

section \<open>Model: peer lists\<close>

text \<open>\<open>next\<close> is the NextHop, the empty text when the two connect directly (or NextHop is nil).\<close>

definition own_nets :: "node \<Rightarrow> pfx list" where
  "own_nets o' = n_Subnets o' @ [PrefixFrom (n_Transit o') 32]"

definition is_peer :: "node \<Rightarrow> node \<Rightarrow> bool" where
  "is_peer self o' \<longleftrightarrow> \<not> (n_ID o' = n_ID self \<or> n_PublicKey o' = [] \<or> \<not> Contains Transit (n_Transit o'))"

definition relayed :: "(string \<Rightarrow> string \<Rightarrow> string) \<Rightarrow> node \<Rightarrow> node \<Rightarrow> bool" where
  "relayed hop self o' \<longleftrightarrow> hop (n_ID self) (n_ID o') \<noteq> [] \<and> hop (n_ID self) (n_ID o') \<noteq> n_ID o'"

definition peer_of :: "(string \<Rightarrow> string \<Rightarrow> string) \<Rightarrow> node \<Rightarrow> node \<Rightarrow> peer" where
  "peer_of hop self o' = \<lparr>p_NodeID = n_ID o', p_PublicKey = n_PublicKey o',
     p_AllowedIPs = (if relayed hop self o' then [] else own_nets o'), p_Candidates = Candidates self o'\<rparr>"

text \<open>\<^verbatim>\<open>idx\<close>: the position of a node's entry, the last one when an id repeats.\<close>

definition peer_idx :: "peer list \<Rightarrow> string \<Rightarrow> nat option" where
  "peer_idx out' i = map_of (rev (zip (map p_NodeID out') [0..<length out'])) i"

definition move_to :: "peer list \<Rightarrow> string \<times> pfx list \<Rightarrow> peer list" where
  "move_to out' m = (case peer_idx out' (fst m) of None \<Rightarrow> out'
     | Some i \<Rightarrow> out'[i := (out' ! i)\<lparr>p_AllowedIPs := p_AllowedIPs (out' ! i) @ snd m\<rparr>])"

definition Peers :: "node \<Rightarrow> node list \<Rightarrow> (string \<Rightarrow> string \<Rightarrow> string) \<Rightarrow> peer list" where
  "Peers self all hop =
     (let os = filter (is_peer self) all;
          moves = map (\<lambda>o'. (hop (n_ID self) (n_ID o'), own_nets o')) (filter (relayed hop self) os)
      in foldl move_to (map (peer_of hop self) os) moves)"

section \<open>Model: next hops\<close>

text \<open>The order neighbours are tried in: public nodes first, then by id.\<close>

definition hop_order :: "(string \<Rightarrow> bool) \<Rightarrow> string list \<Rightarrow> string list" where
  "hop_order pub ids = sort_key (\<lambda>i. (\<not> pub i, i)) ids"

definition visit :: "(string \<Rightarrow> string \<Rightarrow> bool) \<Rightarrow> string \<Rightarrow> (string \<rightharpoonup> nat) \<times> string list \<Rightarrow> string \<Rightarrow> (string \<rightharpoonup> nat) \<times> string list" where
  "visit up x = (\<lambda>(dist, queue) y.
     if dist y = None \<and> y \<noteq> x \<and> up x y then (dist(y \<mapsto> the (dist x) + 1), queue @ [y]) else (dist, queue))"

definition unseen :: "string list \<Rightarrow> (string \<rightharpoonup> nat) \<Rightarrow> nat" where
  "unseen order dist = card {y \<in> set order. dist y = None}"

lemma visit_measure:
  "foldl (visit up x) (dist, queue) ys = (dist', queue') \<Longrightarrow> set ys \<subseteq> set order \<Longrightarrow>
   length queue' + unseen order dist' \<le> length queue + unseen order dist"
proof (induction ys arbitrary: dist queue)
  case (Cons y ys)
  obtain d1 q1 where v: "visit up x (dist, queue) y = (d1, q1)" by fastforce
  have "length q1 + unseen order d1 \<le> length queue + unseen order dist"
  proof (cases "dist y = None \<and> y \<noteq> x \<and> up x y")
    case True
    then have d1: "d1 = dist(y \<mapsto> the (dist x) + 1)" "q1 = queue @ [y]" using v by (auto simp: visit_def)
    have "{z \<in> set order. d1 z = None} = {z \<in> set order. dist z = None} - {y}" using d1 by auto
    moreover have "y \<in> {z \<in> set order. dist z = None}" using True Cons.prems by simp
    ultimately have "Suc (unseen order d1) = unseen order dist" by (simp add: unseen_def card_Suc_Diff1 del: card_Diff_insert)
    with d1 show ?thesis by simp
  qed (use v in \<open>auto simp: visit_def\<close>)
  moreover have "length queue' + unseen order dist' \<le> length q1 + unseen order d1"
    using Cons v by (intro Cons.IH) simp_all
  ultimately show ?case by simp
qed simp

function bfs :: "string list \<Rightarrow> (string \<Rightarrow> string \<Rightarrow> bool) \<Rightarrow> (string \<rightharpoonup> nat) \<Rightarrow> string list \<Rightarrow> (string \<rightharpoonup> nat)" where
  "bfs order up dist [] = dist"
| "bfs order up dist (x # queue) =
     (case foldl (visit up x) (dist, queue) order of (dist', queue') \<Rightarrow> bfs order up dist' queue')"
  by pat_completeness auto

termination bfs
proof (relation "measure (\<lambda>(order, up, dist, queue). length queue + unseen order dist)", goal_cases)
  case (2 order up dist x queue dist' queue')
  then have "foldl (visit up x) (dist, queue) order = (dist', queue')" by simp
  from visit_measure [OF this, of order] show ?case by simp
qed simp

definition hops :: "string list \<Rightarrow> (string \<Rightarrow> string \<Rightarrow> bool) \<Rightarrow> (string \<Rightarrow> bool) \<Rightarrow> string \<Rightarrow> string \<rightharpoonup> nat" where
  "hops ids up pub dst = bfs (hop_order pub ids) up [dst \<mapsto> 0] [dst]"

text \<open>\<^verbatim>\<open>Routes\<close>: the entry of the pair, \<open>None\<close> when the map has none.\<close>

definition Routes :: "string list \<Rightarrow> (string \<Rightarrow> string \<Rightarrow> bool) \<Rightarrow> (string \<Rightarrow> bool) \<Rightarrow> string \<times> string \<rightharpoonup> string" where
  "Routes ids up pub = (\<lambda>(src, dst).
     if src \<notin> set ids \<or> dst \<notin> set ids then None
     else (case hops ids up pub dst src of None \<Rightarrow> None
       | Some d \<Rightarrow> if d < 2 then None
         else find (\<lambda>n. hops ids up pub dst n = Some (d - 1) \<and> up src n) (hop_order pub ids)))"

definition PairKey :: "string \<Rightarrow> string \<Rightarrow> string \<times> string" where
  "PairKey a b = (if a > b then (b, a) else (a, b))"

section \<open>Lemmas\<close>

subsection \<open>Addresses\<close>

lemma Transit_octets: "i < 256 \<Longrightarrow> Contains Transit (ip4 10 207 255 i) \<and> last_byte (ip4 10 207 255 i) = i"
proof -
  have "list_all (\<lambda>i. Contains Transit (ip4 10 207 255 i) \<and> last_byte (ip4 10 207 255 i) = i) [0..<256]" by code_simp
  then show "i < 256 \<Longrightarrow> ?thesis" by (simp add: list_all_iff)
qed

lemma find_split: "find P xs = Some x \<Longrightarrow> \<exists>i < length xs. x = xs ! i \<and> P x \<and> (\<forall>j < i. \<not> P (xs ! j))"
  by (auto simp: find_Some_iff)

lemma set_FilterAddrs: "set (FilterAddrs inp) = {a \<in> Unmap ` set inp. UsableEndpoint a}"
  by (auto simp: FilterAddrs_def go_list)

lemma set_lanAddrs: "a \<in> set (lanAddrs self other) \<Longrightarrow> UsableEndpoint a \<and> IsPrivate a"
  by (auto simp: lanAddrs_def)

lemma UsableEndpoint_outside:
  "UsableEndpoint a \<Longrightarrow> \<not> Contains Supernet (Unmap a) \<and> \<not> Contains Transit (Unmap a) \<and> \<not> Contains ExitNet (Unmap a)"
  by (auto simp: UsableEndpoint_def Let_def split: if_splits)

subsection \<open>Peers\<close>

lemma peer_idx_less: "peer_idx out' i = Some k \<Longrightarrow> k < length out' \<and> p_NodeID (out' ! k) = i"
  by (auto simp: peer_idx_def in_set_zip dest!: map_of_SomeD)

lemma peer_idx_None: "peer_idx out' i = None \<longleftrightarrow> i \<notin> p_NodeID ` set out'"
proof -
  have "fst ` set (zip (map p_NodeID out') [0..<length out']) = p_NodeID ` set out'"
    by (metis length_map length_upt list.set_map map_fst_zip minus_nat.diff_0)
  then show ?thesis by (simp add: peer_idx_def map_of_eq_None_iff)
qed

abbreviation allowed :: "peer list \<Rightarrow> pfx multiset" where
  "allowed ps \<equiv> mset (concat (map p_AllowedIPs ps))"

lemma allowed_update: "i < length ps \<Longrightarrow> allowed (ps[i := (ps ! i)\<lparr>p_AllowedIPs := p_AllowedIPs (ps ! i) @ ns\<rparr>]) = allowed ps + mset ns"
proof (induction ps arbitrary: i)
  case (Cons p ps)
  then show ?case by (cases i) (simp_all add: ac_simps)
qed simp

lemma move_to_ids: "map p_NodeID (move_to ps m) = map p_NodeID ps"
  by (auto simp: move_to_def map_update split: option.splits dest: peer_idx_less)
     (metis list_update_id map_update peer_idx_less)

lemma allowed_move_to:
  "allowed (move_to ps m) = allowed ps + (if fst m \<in> p_NodeID ` set ps then mset (snd m) else {#})"
proof (cases "peer_idx ps (fst m)")
  case None
  with peer_idx_None [of ps "fst m"] show ?thesis by (auto simp: move_to_def)
next
  case (Some i)
  then have "fst m \<in> p_NodeID ` set ps" using peer_idx_None [of ps "fst m"] by auto
  with Some show ?thesis using peer_idx_less [OF Some] by (simp add: move_to_def allowed_update)
qed

lemma foldl_move_to_ids: "map p_NodeID (foldl move_to ps ms) = map p_NodeID ps"
  by (induction ms arbitrary: ps) (simp_all add: move_to_ids)

lemma allowed_foldl:
  "allowed (foldl move_to ps ms) = allowed ps + mset (concat (map snd (filter (\<lambda>m. fst m \<in> p_NodeID ` set ps) ms)))"
proof (induction ms arbitrary: ps)
  case (Cons m ms)
  have "p_NodeID ` set (move_to ps m) = p_NodeID ` set ps" using move_to_ids [of ps m] by (metis list.set_map)
  with Cons [of "move_to ps m"] show ?case by (simp add: allowed_move_to)
qed simp

subsection \<open>Breadth-first search\<close>

text \<open>A walk of \<open>n\<close> working tunnels from \<open>dst\<close>, over the listed nodes.\<close>

inductive walk :: "string set \<Rightarrow> (string \<Rightarrow> string \<Rightarrow> bool) \<Rightarrow> string \<Rightarrow> nat \<Rightarrow> string \<Rightarrow> bool"
  for V up dst where
  walk_0: "walk V up dst 0 dst"
| walk_Suc: "walk V up dst n x \<Longrightarrow> y \<in> V \<Longrightarrow> y \<noteq> x \<Longrightarrow> up x y \<Longrightarrow> walk V up dst (Suc n) y"

inductive_cases walk_SucE: "walk V up dst (Suc n) y"

lemma visit_all:
  assumes "dist x = Some dx"
  shows "\<exists>new. foldl (visit up x) (dist, queue) ys = (\<lambda>y. if y \<in> set new then Some (dx + 1) else dist y, queue @ new) \<and>
    set new = {y \<in> set ys. dist y = None \<and> y \<noteq> x \<and> up x y}"
  using assms
proof (induction ys arbitrary: dist queue)
  case (Cons y ys)
  show ?case
  proof (cases "dist y = None \<and> y \<noteq> x \<and> up x y")
    case True
    let ?d = "dist(y \<mapsto> dx + 1)"
    have "?d x = Some dx" using True Cons.prems by auto
    from Cons.IH [of ?d "queue @ [y]", OF this] obtain new where
      n: "foldl (visit up x) (?d, queue @ [y]) ys = (\<lambda>z. if z \<in> set new then Some (dx + 1) else ?d z, (queue @ [y]) @ new)"
      "set new = {z \<in> set ys. ?d z = None \<and> z \<noteq> x \<and> up x z}" by blast
    have "(\<lambda>z. if z \<in> set new then Some (dx + 1) else ?d z) = (\<lambda>z. if z \<in> set (y # new) then Some (dx + 1) else dist z)"
      by auto
    with n True Cons.prems show ?thesis by (intro exI [of _ "y # new"]) (auto simp: visit_def)
  next
    case False
    with Cons.IH [of dist queue, OF Cons.prems] show ?thesis by (auto simp: visit_def)
  qed
qed (auto intro: exI [of _ "[]"])

definition bfs_inv :: "string list \<Rightarrow> (string \<Rightarrow> string \<Rightarrow> bool) \<Rightarrow> string \<Rightarrow> (string \<rightharpoonup> nat) \<Rightarrow> string list \<Rightarrow> bool" where
  "bfs_inv order up dst dist queue \<longleftrightarrow>
     dist dst = Some 0 \<and>
     (\<forall>y d. dist y = Some d \<longrightarrow> walk (set order) up dst d y) \<and>
     (\<forall>x d y. dist x = Some d \<longrightarrow> x \<notin> set queue \<longrightarrow> y \<in> set order \<longrightarrow> y \<noteq> x \<longrightarrow> up x y \<longrightarrow>
        (\<exists>d' \<le> d + 1. dist y = Some d')) \<and>
     set queue \<subseteq> dom dist \<and> sorted (map (the \<circ> dist) queue) \<and>
     (queue \<noteq> [] \<longrightarrow> (\<forall>y d. dist y = Some d \<longrightarrow> d \<le> the (dist (hd queue)) + 1))"

lemma bfs_inv_step:
  assumes inv: "bfs_inv order up dst dist (x # queue)" and v: "foldl (visit up x) (dist, queue) order = (dist', queue')"
  shows "bfs_inv order up dst dist' queue'"
proof -
  from inv obtain dx where dx: "dist x = Some dx" by (auto simp: bfs_inv_def)
  from visit_all [of dist x dx up queue order, OF dx] v obtain new where
    d': "dist' = (\<lambda>y. if y \<in> set new then Some (dx + 1) else dist y)" and q': "queue' = queue @ new"
    and new: "set new = {y \<in> set order. dist y = None \<and> y \<noteq> x \<and> up x y}" by auto
  have seen: "dist y = Some d \<Longrightarrow> d \<le> dx + 1" for y d using inv dx by (auto simp: bfs_inv_def)
  have old: "dist y = Some d \<Longrightarrow> dist' y = Some d" for y d using new d' by auto
  have le': "dist' y = Some d \<Longrightarrow> d \<le> dx + 1" for y d using seen d' by (auto split: if_splits)
  have q: "y \<in> set queue \<Longrightarrow> \<exists>d. dist y = Some d \<and> dx \<le> d \<and> d \<le> dx + 1" for y
  proof -
    assume y: "y \<in> set queue"
    with inv obtain d where d: "dist y = Some d" by (auto simp: bfs_inv_def)
    have "\<forall>z \<in> set queue. the (dist x) \<le> the (dist z)" using inv by (simp add: bfs_inv_def)
    with y d dx have "dx \<le> d" by force
    with d seen [OF d] show ?thesis by blast
  qed
  have wk: "walk (set order) up dst d y" if "dist' y = Some d" for y d
  proof (cases "y \<in> set new")
    case True
    have "walk (set order) up dst dx x" using inv dx by (simp add: bfs_inv_def)
    then have "walk (set order) up dst (Suc dx) y" using True new by (intro walk_Suc) auto
    with True that d' show ?thesis by simp
  qed (use that d' inv in \<open>auto simp: bfs_inv_def\<close>)
  have fin: "\<exists>e \<le> d + 1. dist' y = Some e"
    if "dist' z = Some d" "z \<notin> set queue'" "y \<in> set order" "y \<noteq> z" "up z y" for z d y
  proof (cases "z = x")
    case True
    with that dx old have d: "d = dx" by force
    show ?thesis
    proof (cases "dist y")
      case None
      with that True new have "y \<in> set new" by simp
      with d d' show ?thesis by simp
    qed (use old seen d in auto)
  next
    case False
    from that have "dist z = Some d" "z \<notin> set (x # queue)" using d' q' False by (auto split: if_splits)
    with that inv obtain e where "e \<le> d + 1" "dist y = Some e" unfolding bfs_inv_def by blast
    with old show ?thesis by blast
  qed
  have ds: "set queue' \<subseteq> dom dist'" using q' d' q by fastforce
  have mq: "map (the \<circ> dist') queue = map (the \<circ> dist) queue" using q old by fastforce
  have "sorted (map (the \<circ> dist') queue)" unfolding mq using inv by (simp add: bfs_inv_def)
  moreover have "\<forall>z \<in> set queue. the (dist' z) \<le> dx + 1" using q old by fastforce
  moreover have "map (the \<circ> dist') new = replicate (length new) (dx + 1)"
    unfolding map_replicate_const [symmetric] by (rule map_cong) (simp_all add: d')
  ultimately have so: "sorted (map (the \<circ> dist') queue')"
    using q' by (simp add: sorted_append)
  have hd: "d \<le> the (dist' (hd queue')) + 1" if "queue' \<noteq> []" "dist' y = Some d" for y d
  proof -
    have "dx \<le> the (dist' (hd queue'))"
    proof (cases queue)
      case Nil
      with that q' have "hd queue' \<in> set new" by (cases new) auto
      with d' show ?thesis by simp
    next
      case (Cons z zs)
      with q [of z] old q' show ?thesis by fastforce
    qed
    with le' [OF that(2)] show ?thesis by simp
  qed
  show ?thesis
    unfolding bfs_inv_def using old [of dst] inv wk fin ds so hd by (auto simp: bfs_inv_def)
qed

lemma bfs_inv_final: "bfs_inv order up dst dist queue \<Longrightarrow> bfs_inv order up dst (bfs order up dist queue) []"
proof (induction order up dist queue rule: bfs.induct)
  case (2 order up dist x queue)
  then show ?case by (auto split: prod.splits dest: bfs_inv_step)
qed simp

lemma hops_inv: "bfs_inv (hop_order pub ids) up dst (hops ids up pub dst) []"
  unfolding hops_def by (rule bfs_inv_final) (auto simp: bfs_inv_def walk_0)

lemma set_hop_order [simp]: "set (hop_order pub ids) = set ids"
  by (simp add: hop_order_def)

lemma hops_walk: "hops ids up pub dst y = Some d \<Longrightarrow> walk (set ids) up dst d y"
  using hops_inv [of pub ids up dst] by (simp add: bfs_inv_def)

lemma hops_le: "walk (set ids) up dst n y \<Longrightarrow> \<exists>d \<le> n. hops ids up pub dst y = Some d"
proof (induction rule: walk.induct)
  case walk_0
  then show ?case using hops_inv [of pub ids up dst] by (simp add: bfs_inv_def)
next
  case (walk_Suc n x y)
  then obtain d where d: "d \<le> n" "hops ids up pub dst x = Some d" by blast
  have "\<forall>x d y. hops ids up pub dst x = Some d \<longrightarrow> y \<in> set ids \<longrightarrow> y \<noteq> x \<longrightarrow> up x y \<longrightarrow> (\<exists>d' \<le> d + 1. hops ids up pub dst y = Some d')"
    using hops_inv [of pub ids up dst] by (simp add: bfs_inv_def)
  with walk_Suc d obtain e where "e \<le> d + 1" "hops ids up pub dst y = Some e" by blast
  with d(1) show ?case by (intro exI [of _ e]) simp
qed

text \<open>
  What forwarding along the next hops does: a node with a tunnel to \<open>dst\<close> sends there, another
  to its next hop; \<open>deliver d\<close> is arriving after exactly \<open>d\<close> hops, over working tunnels only.
\<close>

fun deliver :: "string list \<Rightarrow> (string \<Rightarrow> string \<Rightarrow> bool) \<Rightarrow> (string \<Rightarrow> bool) \<Rightarrow> string \<Rightarrow> nat \<Rightarrow> string \<Rightarrow> bool" where
  "deliver ids up pub dst 0 x = (x = dst)"
| "deliver ids up pub dst (Suc k) x =
     (if up x dst then k = 0
      else (case Routes ids up pub (x, dst) of None \<Rightarrow> False | Some n \<Rightarrow> up x n \<and> deliver ids up pub dst k n))"

lemma walk_in: "walk V up dst n x \<Longrightarrow> n > 0 \<Longrightarrow> x \<in> V"
  by (cases n) (auto elim: walk_SucE)

lemma next_hop_exists:
  assumes sym: "\<And>a b. up a b = up b a" and d: "hops ids up pub dst src = Some (Suc (Suc k))" and ids: "dst \<in> set ids"
  shows "\<not> up src dst \<and> (\<exists>n. Routes ids up pub (src, dst) = Some n \<and> up src n \<and> hops ids up pub dst n = Some (Suc k))"
proof -
  have src: "src \<in> set ids" using walk_in [OF hops_walk [OF d]] by simp
  have far: "\<not> walk (set ids) up dst m src" if "m < Suc (Suc k)" for m
    using hops_le [of ids up dst m src pub] d that by auto
  have nu: "\<not> up src dst"
  proof
    assume "up src dst"
    then have "up dst src" using sym by simp
    moreover have "src \<noteq> dst" using far [of 0] walk_0 by auto
    ultimately have "walk (set ids) up dst (Suc 0) src" using src by (intro walk_Suc [OF walk_0]) auto
    with far [of "Suc 0"] show False by simp
  qed
  from hops_walk [OF d] obtain x where x: "walk (set ids) up dst (Suc k) x" "src \<noteq> x" "up x src" by (auto elim: walk_SucE)
  obtain e where e: "e \<le> Suc k" "hops ids up pub dst x = Some e" using hops_le [OF x(1)] by blast
  have "walk (set ids) up dst (Suc e) src" using hops_walk [OF e(2)] src x by (intro walk_Suc) auto
  with far [of "Suc e"] e(1) have "e = Suc k" by force
  then have "x \<in> set (hop_order pub ids) \<and> hops ids up pub dst x = Some (Suc (Suc k) - 1) \<and> up src x"
    using e walk_in [OF x(1)] x sym by simp
  then obtain n where "find (\<lambda>n. hops ids up pub dst n = Some (Suc (Suc k) - 1) \<and> up src n) (hop_order pub ids) = Some n"
    by (cases "find (\<lambda>n. hops ids up pub dst n = Some (Suc (Suc k) - 1) \<and> up src n) (hop_order pub ids)")
       (auto simp: find_None_iff)
  moreover from this have "hops ids up pub dst n = Some (Suc k) \<and> up src n" by (auto simp: find_Some_iff)
  ultimately show ?thesis using nu src ids d by (simp add: Routes_def)
qed

lemma hops_deliver:
  assumes sym: "\<And>a b. up a b = up b a" and ids: "dst \<in> set ids"
  shows "hops ids up pub dst src = Some d \<Longrightarrow> deliver ids up pub dst d src"
proof (induction d arbitrary: src)
  case 0
  then show ?case using hops_walk [OF 0] by (auto elim: walk.cases)
next
  case (Suc k)
  show ?case
  proof (cases k)
    case 0
    with hops_walk [OF Suc.prems] have "up dst src" by (auto elim!: walk_SucE elim: walk.cases)
    with 0 sym show ?thesis by simp
  next
    case (Suc j)
    with next_hop_exists [where up = up, OF sym _ ids, of pub src j] Suc.prems Suc.IH show ?thesis by auto
  qed
qed

section \<open>Properties\<close>

text \<open>
  AllocTransit gives the lowest transit address that is neither the controller's nor
  taken, one whose slot is its own last byte from 1 to 254, and refuses exactly when every other one is taken.
\<close>

theorem AllocTransit_lowest_free:
  "case AllocTransit taken of
     Inr c \<Rightarrow> c \<noteq> ControllerTransit \<and> c \<notin> set taken \<and> c = ip4 10 207 255 (Slot c) \<and> 1 \<le> Slot c \<and> Slot c \<le> 254 \<and>
       (\<forall>j. 1 \<le> j \<and> j < Slot c \<longrightarrow> ip4 10 207 255 j = ControllerTransit \<or> ip4 10 207 255 j \<in> set taken)
   | Inl e \<Rightarrow> e = ErrNoTransit \<and> (\<forall>j. 1 \<le> j \<and> j \<le> 254 \<and> j \<noteq> 6 \<longrightarrow> ip4 10 207 255 j \<in> set taken)"
proof (cases "find (\<lambda>c. c \<noteq> ControllerTransit \<and> c \<notin> set taken) (map (ip4 10 207 255) [1..<255])")
  case None
  then have n: "ip4 10 207 255 j \<in> set taken \<or> ip4 10 207 255 j = ControllerTransit" if "1 \<le> j" "j \<le> 254" for j
    using that by (auto simp: find_None_iff)
  have "ip4 10 207 255 j \<noteq> ControllerTransit" if "j \<noteq> 6" "j \<le> 254" for j
    using Transit_octets [of j] Transit_octets [of 6] that by (auto simp: ControllerTransit_def)
  with n None show ?thesis by (auto simp: AllocTransit_def)
next
  case (Some c)
  from find_split [OF this] obtain i where i: "i < 254" "c = ip4 10 207 255 (Suc i)" "c \<noteq> ControllerTransit" "c \<notin> set taken"
    "\<forall>j < i. ip4 10 207 255 (Suc j) = ControllerTransit \<or> ip4 10 207 255 (Suc j) \<in> set taken" by auto
  then have "Slot c = Suc i" using Transit_octets [of "Suc i"] by (simp add: Slot_def)
  moreover have "ip4 10 207 255 j = ControllerTransit \<or> ip4 10 207 255 j \<in> set taken" if "1 \<le> j" "j < Suc i" for j
    using i(5) that by (cases j) auto
  ultimately show ?thesis using Some i by (simp add: AllocTransit_def)
qed

theorem AllocTransit_lowest_free_witness:
  "\<exists>c. AllocTransit [ip4 10 207 255 1, ip4 10 207 255 3] = Inr c \<and> Slot c = 2 \<and> c \<noteq> ControllerTransit"
proof -
  have "AllocTransit [ip4 10 207 255 1, ip4 10 207 255 3] = Inr (ip4 10 207 255 2)" "Slot (ip4 10 207 255 2) = 2" by code_simp+
  with AllocTransit_lowest_free [of "[ip4 10 207 255 1, ip4 10 207 255 3]"] show ?thesis by auto
qed

text \<open>
  Every endpoint a node is told to try is usable: not unspecified, loopback, multicast,
  link-local or the metadata address, and not inside the mesh's own nets, so the mesh never
  tunnels through itself; none repeats, each has the other node's port, and private addresses are
  only those of a shared subnet or reported public.
\<close>

theorem Candidates_usable:
  "distinct (Candidates self other) \<and>
   (\<forall>(a, p) \<in> set (Candidates self other). p = n_Port other \<and> UsableEndpoint a \<and>
      (a \<in> set (lanAddrs self other) \<or> a \<in> Unmap ` set (n_Public other) \<and> (Is4 a \<or> HasV6 self)) \<and>
      \<not> Contains Supernet (Unmap a) \<and> \<not> Contains Transit (Unmap a) \<and> \<not> Contains ExitNet (Unmap a))"
proof -
  have "\<forall>a \<in> set (lanAddrs self other @ filter (\<lambda>a. Is4 a \<or> HasV6 self) (FilterAddrs (n_Public other))).
      UsableEndpoint a \<and> (a \<in> set (lanAddrs self other) \<or> a \<in> Unmap ` set (n_Public other) \<and> (Is4 a \<or> HasV6 self))"
    using set_lanAddrs [of _ self other] set_FilterAddrs [of "n_Public other"] by auto
  moreover have "set (Candidates self other) = (\<lambda>a. (a, n_Port other)) `
      set (lanAddrs self other @ filter (\<lambda>a. Is4 a \<or> HasV6 self) (FilterAddrs (n_Public other)))"
    unfolding Candidates_def set_dedupe_acc by (simp add: image_Un)
  moreover have "distinct (Candidates self other)" unfolding Candidates_def by (rule distinct_dedupe_acc)
  ultimately show ?thesis using UsableEndpoint_outside by fast
qed

definition ex_node :: "string \<Rightarrow> nat \<Rightarrow> node" where
  "ex_node i k = \<lparr>n_ID = i, n_PublicKey = ''key'', n_Transit = ip4 10 207 255 k, n_Subnets = [net4 10 208 k 0 24], n_Port = 51871,
     n_Ifaces = [net4 192 168 1 k 24], n_Public = [ip4 203 0 113 k]\<rparr>"

theorem Candidates_usable_witness:
  "Candidates (ex_node ''a'' 1) (ex_node ''b'' 2) = [(ip4 192 168 1 2, 51871), (ip4 203 0 113 2, 51871)] \<and>
   UsableEndpoint (ip4 192 168 1 2)"
proof -
  have "Candidates (ex_node ''a'' 1) (ex_node ''b'' 2) = [(ip4 192 168 1 2, 51871), (ip4 203 0 113 2, 51871)]" by code_simp
  with Candidates_usable [of "ex_node ''a'' 1" "ex_node ''b'' 2"] show ?thesis by simp
qed

text \<open>
  On one interface no network is in two peers' AllowedIPs more often than nodes have it:
  the AllowedIPs of all the peers together are exactly the networks and transit addresses of the
  nodes that are direct or whose next hop is itself a peer, each once.
\<close>

theorem Peers_partition_networks:
  "mset (concat (map p_AllowedIPs (Peers self all hop))) =
   mset (concat (map own_nets (filter (\<lambda>o'. \<not> relayed hop self o' \<or>
      hop (n_ID self) (n_ID o') \<in> n_ID ` set (filter (is_peer self) all)) (filter (is_peer self) all))))"
proof -
  define os where "os = filter (is_peer self) all"
  have ids: "p_NodeID ` set (map (peer_of hop self) os) = n_ID ` set os" by (auto simp: peer_of_def image_image)
  have direct: "allowed (map (peer_of hop self) xs) = mset (concat (map own_nets (filter (\<lambda>o'. \<not> relayed hop self o') xs)))" for xs
    by (induction xs) (simp_all add: peer_of_def)
  have moved: "mset (concat (map own_nets (filter (\<lambda>o'. \<not> relayed hop self o') xs))) +
      mset (concat (map snd (filter (\<lambda>m. fst m \<in> I) (map (\<lambda>o'. (hop (n_ID self) (n_ID o'), own_nets o')) (filter (relayed hop self) xs))))) =
      mset (concat (map own_nets (filter (\<lambda>o'. \<not> relayed hop self o' \<or> hop (n_ID self) (n_ID o') \<in> I) xs)))" for I xs
    by (induction xs) (auto simp: ac_simps)
  show ?thesis
    unfolding Peers_def Let_def os_def [symmetric] allowed_foldl ids direct moved by simp
qed

text \<open>
  C18: With tunnels that work both ways, forwarding along the next hops delivers: from any node
  connected to dst it arrives over working tunnels only, in as few hops as any walk has, so
  without a loop; no entry is made for a pair that is up or that nothing connects.
\<close>

theorem Routes_deliver_shortest:
  assumes "\<forall>a b. up a b = up b a" and "dst \<in> set ids" and "src \<in> set ids"
  shows "(\<forall>m. walk (set ids) up dst m src \<longrightarrow> (\<exists>d \<le> m. deliver ids up pub dst d src)) \<and>
    (Routes ids up pub (src, dst) \<noteq> None \<longleftrightarrow> src \<noteq> dst \<and> \<not> up src dst \<and> (\<exists>m. walk (set ids) up dst m src))"
proof -
  have sym: "up a b = up b a" for a b using assms(1) by blast
  have "\<exists>d \<le> m. deliver ids up pub dst d src" if "walk (set ids) up dst m src" for m
    using hops_le [OF that, of pub] hops_deliver [where up = up, OF sym assms(2), of pub src] by blast
  moreover have "Routes ids up pub (src, dst) \<noteq> None \<longleftrightarrow> src \<noteq> dst \<and> \<not> up src dst \<and> (\<exists>m. walk (set ids) up dst m src)"
  proof (cases "hops ids up pub dst src")
    case None
    then show ?thesis using hops_le [of ids up dst _ src pub] by (auto simp: Routes_def)
  next
    case (Some d)
    note w = hops_walk [OF Some]
    consider "d = 0" | "d = 1" | k where "d = Suc (Suc k)" by (metis One_nat_def not0_implies_Suc)
    then show ?thesis
    proof cases
      case 1
      with w have "src = dst" by (auto elim: walk.cases)
      with Some 1 show ?thesis by (simp add: Routes_def)
    next
      case 2
      with w have "up dst src" by (auto elim!: walk_SucE elim: walk.cases)
      with Some 2 sym [of src] show ?thesis by (simp add: Routes_def)
    next
      case 3
      with next_hop_exists [where up = up, OF sym _ assms(2), of pub src k] Some have "\<not> up src dst" "Routes ids up pub (src, dst) \<noteq> None" by auto
      moreover have "src \<noteq> dst" using Some 3 hops_le [of ids up dst 0 dst pub] walk_0 by fastforce
      ultimately show ?thesis using w by blast
    qed
  qed
  ultimately show ?thesis by blast
qed

definition ex_up :: "string \<Rightarrow> string \<Rightarrow> bool" where
  "ex_up a b \<longleftrightarrow> PairKey a b \<in> {(''a'', ''b''), (''b'', ''c'')}"

theorem Routes_deliver_shortest_witness:
  "Routes [''a'', ''b'', ''c''] ex_up (\<lambda>_. False) (''a'', ''c'') = Some ''b'' \<and>
   (\<exists>d \<le> 2. deliver [''a'', ''b'', ''c''] ex_up (\<lambda>_. False) ''c'' d ''a'')"
proof -
  have r: "Routes [''a'', ''b'', ''c''] ex_up (\<lambda>_. False) (''a'', ''c'') = Some ''b''"
    and u: "ex_up ''c'' ''b''" "ex_up ''b'' ''a''" by code_simp+
  have "\<forall>a b. ex_up a b = ex_up b a" by (auto simp: ex_up_def PairKey_def)
  moreover have "walk (set [''a'', ''b'', ''c'']) ex_up ''c'' (Suc (Suc 0)) ''a''"
    using u by (intro walk_Suc [OF walk_Suc [OF walk_0]]) simp_all
  ultimately show ?thesis
    using Routes_deliver_shortest [of ex_up "''c''" "[''a'', ''b'', ''c'']" "''a''" "\<lambda>_. False"] r by (simp add: numeral_2_eq_2)
qed

text \<open>Node c is reached through b: b's entry holds the networks of both, and none is lost.\<close>

theorem Peers_partition_networks_witness:
  "mset (concat (map p_AllowedIPs (Peers (ex_node ''a'' 1) [ex_node ''a'' 1, ex_node ''b'' 2, ex_node ''c'' 3]
       (\<lambda>self dst. if dst = ''c'' then ''b'' else [])))) =
   mset (own_nets (ex_node ''b'' 2) @ own_nets (ex_node ''c'' 3))"
proof -
  let ?all = "[ex_node ''a'' 1, ex_node ''b'' 2, ex_node ''c'' 3]" and ?hop = "\<lambda>self dst. if dst = ''c'' then ''b'' else []"
  have "filter (is_peer (ex_node ''a'' 1)) ?all = [ex_node ''b'' 2, ex_node ''c'' 3]"
    using Transit_octets [of 2] Transit_octets [of 3] by (simp add: is_peer_def ex_node_def)
  then show ?thesis
    using Peers_partition_networks [of "ex_node ''a'' 1" ?all ?hop] by (simp add: relayed_def ex_node_def)
qed

end
