(* ===== verification/Sha1.thy ===== *)
theory Sha1
  imports Go_Prelude "HOL-Library.Word"
begin

unbundle bit_operations_syntax

text \<open>
  Go's \<^verbatim>\<open>crypto/sha1\<close> (FIPS 180-4), which names the exit interfaces: \<open>sha1_hex\<close> is
  \<^verbatim>\<open>hex.EncodeToString\<close> of the sum.
\<close>

type_synonym u32 = "32 word"

text \<open>The message, a one bit, zeros, and the length in bits as eight bytes.\<close>

definition be_bytes :: "nat \<Rightarrow> nat \<Rightarrow> nat list" where
  "be_bytes k n = map (\<lambda>i. n div 256 ^ (k - 1 - i) mod 256) [0..<k]"

definition sha1_pad :: "nat list \<Rightarrow> nat list" where
  "sha1_pad bs = bs @ [128] @ replicate ((119 - length bs mod 64) mod 64) 0 @ be_bytes 8 (8 * length bs)"

fun be_words :: "nat list \<Rightarrow> u32 list" where
  "be_words (a # b # c # d # r) =
     (of_nat a * 0x1000000 + of_nat b * 0x10000 + of_nat c * 0x100 + of_nat d) # be_words r"
| "be_words _ = []"

fun chunks16 :: "nat \<Rightarrow> u32 list \<Rightarrow> u32 list list" where
  "chunks16 0 ws = []"
| "chunks16 (Suc n) ws = (if ws = [] then [] else take 16 ws # chunks16 n (drop 16 ws))"

definition rotl32 :: "nat \<Rightarrow> u32 \<Rightarrow> u32" where
  "rotl32 n w = (push_bit n w) OR (drop_bit (32 - n) w)"

text \<open>The message schedule, newest word first.\<close>

fun expand_block :: "nat \<Rightarrow> u32 list \<Rightarrow> u32 list" where
  "expand_block 0 ws = ws"
| "expand_block (Suc n) ws =
     expand_block n (rotl32 1 ((ws ! 2) XOR (ws ! 7) XOR (ws ! 13) XOR (ws ! 15)) # ws)"

definition sha1_f :: "nat \<Rightarrow> u32 \<Rightarrow> u32 \<Rightarrow> u32 \<Rightarrow> u32" where
  "sha1_f t b c d =
     (if t < 20 then (b AND c) OR ((NOT b) AND d)
      else if t < 40 then b XOR c XOR d
      else if t < 60 then (b AND c) OR (b AND d) OR (c AND d)
      else b XOR c XOR d)"

definition sha1_k :: "nat \<Rightarrow> u32" where
  "sha1_k t = (if t < 20 then 0x5A827999 else if t < 40 then 0x6ED9EBA1
     else if t < 60 then 0x8F1BBCDC else 0xCA62C1D6)"

fun sha1_rounds :: "nat \<Rightarrow> u32 list \<Rightarrow> u32 list \<Rightarrow> u32 list" where
  "sha1_rounds t [] h = h"
| "sha1_rounds t (w # ws) [a, b, c, d, e] =
     sha1_rounds (Suc t) ws [rotl32 5 a + sha1_f t b c d + e + sha1_k t + w, a, rotl32 30 b, c, d]"
| "sha1_rounds t (w # ws) h = h"

definition sha1_block :: "u32 list \<Rightarrow> u32 list \<Rightarrow> u32 list" where
  "sha1_block h blk = map2 (+) h (sha1_rounds 0 (rev (expand_block 64 (rev blk))) h)"

definition sha1_sum :: "nat list \<Rightarrow> u32 list" where
  "sha1_sum bs = (let ws = be_words (sha1_pad bs) in
     foldl sha1_block [0x67452301, 0xEFCDAB89, 0x98BADCFE, 0x10325476, 0xC3D2E1F0]
       (chunks16 (length ws) ws))"

definition hex8 :: "u32 \<Rightarrow> string" where
  "hex8 w = map (\<lambda>i. digit_char (unat (drop_bit (28 - 4 * i) w) mod 16)) [0..<8]"

definition sha1_hex :: "string \<Rightarrow> string" where
  "sha1_hex s = concat (map hex8 (sha1_sum (map of_char s)))"

section \<open>Lemmas\<close>

lemma length_hex8 [simp]: "length (hex8 w) = 8"
  by (simp add: hex8_def)

lemma length_sha1_rounds: "length h = 5 \<Longrightarrow> length (sha1_rounds t ws h) = 5"
  by (induction t ws h rule: sha1_rounds.induct) auto

lemma length_sha1_block: "length h = 5 \<Longrightarrow> length (sha1_block h blk) = 5"
  by (simp add: sha1_block_def length_sha1_rounds)

lemma length_foldl_sha1: "length h = 5 \<Longrightarrow> length (foldl sha1_block h bs) = 5"
  by (induction bs arbitrary: h) (auto simp: length_sha1_block)

lemma length_sha1_sum [simp]: "length (sha1_sum bs) = 5"
  by (simp add: sha1_sum_def Let_def length_foldl_sha1)

lemma length_sha1_hex [simp]: "length (sha1_hex s) = 40"
proof -
  have "length (concat (map hex8 ws)) = 8 * length ws" for ws
    by (induction ws) auto
  then show ?thesis by (simp add: sha1_hex_def)
qed

lemma hex8_chars: "c \<in> set (hex8 w) \<Longrightarrow> c \<in> set ''0123456789abcdef''"
proof -
  have "digit_char (n mod 16) \<in> set ''0123456789abcdef''" for n :: nat
    unfolding digit_char_def by (rule nth_mem) simp
  then show "c \<in> set (hex8 w) \<Longrightarrow> c \<in> set ''0123456789abcdef''"
    unfolding hex8_def by (auto simp del: set_simps)
qed

lemma sha1_hex_chars: "c \<in> set (sha1_hex s) \<Longrightarrow> c \<in> set ''0123456789abcdef''"
  unfolding sha1_hex_def using hex8_chars by (auto simp del: set_simps)

end
