(* ===== verification/Exits_Plan.thy ===== *)
theory Exits_Plan
  imports Errs Netip Sha1
begin

text \<open>
  \<^verbatim>\<open>internal/exits/resolve.go\<close> and \<^verbatim>\<open>internal/exits/plan.go\<close>: which exit ladder a tile uses, and the
  command plans of an exit link, of its serving side, of a subject's policy rules and of the
  fence.  Commands go through a \<^verbatim>\<open>Runner\<close>, here a function \<open>run\<close> from a world and an argv to the
  next world and an error.
\<close>

section \<open>Model: which ladder a tile uses\<close>

record levels =
  lv_Tile :: "string list"
  lv_Env :: "string list"
  lv_Stack :: "string list"
  lv_Org :: "string list"
  lv_Node :: "string list"

record resolution =
  r_Source :: string
  r_Nodes :: "string list"

definition dedupe :: "string list \<Rightarrow> string list" where
  "dedupe ns = dedupe_first (filter (\<lambda>n. n \<noteq> '''') ns)"

definition exits_Resolve :: "levels \<Rightarrow> string list \<Rightarrow> resolution" where
  "exits_Resolve l def =
     (case find (\<lambda>(src, ns). dedupe ns \<noteq> [])
        [(''tile'', lv_Tile l), (''env'', lv_Env l), (''stack'', lv_Stack l), (''org'', lv_Org l),
         (''node'', lv_Node l), (''default'', def)] of
        Some (src, ns) \<Rightarrow> \<lparr>r_Source = src, r_Nodes = dedupe ns\<rparr>
      | None \<Rightarrow> \<lparr>r_Source = ''none'', r_Nodes = []\<rparr>)"

definition Routed :: "resolution \<Rightarrow> string \<Rightarrow> bool" where
  "Routed r self \<longleftrightarrow> list_ex (\<lambda>n. n \<noteq> self) (r_Nodes r)"

section \<open>Model: steps and the runner\<close>

type_synonym argv = "string list"
type_synonym 'w runner = "'w \<Rightarrow> argv \<Rightarrow> 'w \<times> error"

record step =
  Argv :: argv
  Check :: "argv option"
  IgnoreErr :: bool

fun Apply :: "'w runner \<Rightarrow> 'w \<Rightarrow> step list \<Rightarrow> 'w \<times> error" where
  "Apply run w [] = (w, None)"
| "Apply run w (s # ss) =
     (let (w1, done) = (case Check s of None \<Rightarrow> (w, False)
              | Some c \<Rightarrow> (case run w c of (w', e) \<Rightarrow> (w', e = None))) in
      if done then Apply run w1 ss
      else (case run w1 (Argv s) of (w2, e) \<Rightarrow>
        (case e of Some er \<Rightarrow> if IgnoreErr s then Apply run w2 ss else (w2, Some (Wrap (''%v: %w'', Argv s) er))
         | None \<Rightarrow> Apply run w2 ss)))"

definition Refused_nets :: "string list" where
  "Refused_nets = [''10.0.0.0/8'', ''172.16.0.0/12'', ''192.168.0.0/16'', ''100.64.0.0/10'', ''169.254.0.0/16'']"

definition exits_Iface :: "string \<Rightarrow> string" where
  "exits_Iface peerNodeID = ''wgx-'' @ take 10 (sha1_hex peerNodeID)"

definition ServeIface :: "string \<Rightarrow> string" where
  "ServeIface clientNodeID = exits_Iface (''serve:'' @ clientNodeID)"

definition cmd :: "argv \<Rightarrow> step" where
  "cmd a = \<lparr>Argv = a, Check = None, IgnoreErr = False\<rparr>"

definition quiet :: "argv \<Rightarrow> step" where
  "quiet a = \<lparr>Argv = a, Check = None, IgnoreErr = True\<rparr>"

definition ipt :: "string \<Rightarrow> argv \<Rightarrow> argv" where
  "ipt table rule = [''iptables'', ''-t'', table] @ rule"

definition once :: "string \<Rightarrow> string \<Rightarrow> string \<Rightarrow> argv \<Rightarrow> step" where
  "once table chain pos rule =
     \<lparr>Argv = (if pos \<noteq> '''' then ipt table [''-I'', chain, pos] else ipt table [''-A'', chain]) @ rule,
      Check = Some (ipt table ([''-C'', chain] @ rule)), IgnoreErr = False\<rparr>"

definition prefixes :: "string list \<Rightarrow> error" where
  "prefixes inp =
     (if inp = [] then Some (Errorf ''exits: no source ranges'' [])
      else map_option (\<lambda>s. Errorf ''exits: bad range %q: %w'' [s]) (find (\<lambda>s. ParsePrefix s = None) inp))"

definition ifaceName :: "string \<Rightarrow> error" where
  "ifaceName n = (if n = '''' \<or> length n > 15 then Some (Errorf ''exits: bad interface name %q'' [n]) else None)"

text \<open>\<^verbatim>\<open>net.SplitHostPort\<close>: host and port, \<open>None\<close> for its errors.\<close>

definition SplitHostPort :: "string \<Rightarrow> (string \<times> string) option" where
  "SplitHostPort hp = (case cut_last CHR '':'' hp of None \<Rightarrow> None
   | Some (before, port) \<Rightarrow>
     if hd hp = CHR ''['' then
       (case cut_at CHR '']'' hp of None \<Rightarrow> None
        | Some (h, rest) \<Rightarrow>
          if length h + 1 = length before \<and> CHR ''['' \<notin> set (tl hp) \<and> CHR '']'' \<notin> set rest
          then Some (tl h, port) else None)
     else if CHR '':'' \<in> set before \<or> CHR ''['' \<in> set hp \<or> CHR '']'' \<in> set hp then None
     else Some (before, port))"

definition hostPort :: "string \<Rightarrow> error" where
  "hostPort s = (case SplitHostPort s of
     None \<Rightarrow> Some (Errorf ''exits: bad endpoint %q: %w'' [s])
   | Some (_, p) \<Rightarrow> (case atoi p of
       None \<Rightarrow> Some (Errorf ''exits: bad endpoint port %q'' [s])
     | Some n \<Rightarrow> if n < 1 \<or> n > 65535 then Some (Errorf ''exits: bad endpoint port %q'' [s]) else None))"

text \<open>The sequence of \<^verbatim>\<open>if err := ...; err != nil { return err }\<close> checks.\<close>

fun first_err :: "error list \<Rightarrow> error" where
  "first_err [] = None"
| "first_err (e # es) = (case e of Some x \<Rightarrow> Some x | None \<Rightarrow> first_err es)"

section \<open>Model: the node side of an exit\<close>

record link =
  l_Iface :: string
  l_KeyFile :: string
  l_Port :: int
  l_PeerKey :: string
  l_Endpoint :: string
  l_Addr :: string
  l_Table :: int
  l_Sources :: "string list"
  l_MTU :: int

definition Link_validate :: "link \<Rightarrow> error" where
  "Link_validate l = first_err
     [ifaceName (l_Iface l),
      (if l_KeyFile l = '''' \<or> l_PeerKey l = '''' \<or> l_Port l < 1 \<or> l_Table l < 1
       then Some (Errorf ''exits: link %s needs key file, peer key, port and table'' [l_Iface l]) else None),
      (if ParsePrefix (l_Addr l) = None
       then Some (Errorf ''exits: bad transit address %q: %w'' [l_Addr l]) else None),
      hostPort (l_Endpoint l),
      prefixes (l_Sources l)]"

definition mtu_or_default :: "int \<Rightarrow> int" where
  "mtu_or_default m = (if m = 0 then 1420 else m)"

definition Link_Up :: "link \<Rightarrow> err + step list" where
  "Link_Up l = (case Link_validate l of Some e \<Rightarrow> Inl e
   | None \<Rightarrow> Inr
     ([quiet [''ip'', ''link'', ''del'', l_Iface l],
       cmd [''ip'', ''link'', ''add'', l_Iface l, ''type'', ''wireguard''],
       cmd [''wg'', ''set'', l_Iface l, ''listen-port'', itoa (l_Port l), ''private-key'', l_KeyFile l,
            ''peer'', l_PeerKey l, ''endpoint'', l_Endpoint l, ''allowed-ips'', ''0.0.0.0/0'',
            ''persistent-keepalive'', ''25''],
       cmd [''ip'', ''addr'', ''add'', l_Addr l, ''dev'', l_Iface l],
       cmd [''ip'', ''link'', ''set'', l_Iface l, ''mtu'', itoa (mtu_or_default (l_MTU l)), ''up''],
       cmd [''ip'', ''route'', ''replace'', ''default'', ''dev'', l_Iface l, ''table'', itoa (l_Table l)],
       once ''nat'' ''STACKR-NAT'' ''1'' [''-o'', l_Iface l, ''-j'', ''ACCEPT''],
       once ''filter'' ''STACKR-XN'' ''1'' [''-i'', l_Iface l, ''-m'', ''conntrack'', ''--ctstate'', ''ESTABLISHED,RELATED'', ''-j'', ''ACCEPT''],
       once ''filter'' ''STACKR-XN'' '''' [''-i'', l_Iface l, ''-j'', ''DROP'']]
      @ map (\<lambda>src. once ''raw'' ''STACKR-RAW'' ''1'' [''-i'', l_Iface l, ''-d'', src, ''-j'', ''ACCEPT'']) (l_Sources l)))"

definition Link_Down :: "link \<Rightarrow> step list" where
  "Link_Down l =
     [quiet [''ip'', ''route'', ''flush'', ''table'', itoa (l_Table l)],
      quiet [''ip'', ''link'', ''del'', l_Iface l],
      quiet (ipt ''nat'' [''-D'', ''STACKR-NAT'', ''-o'', l_Iface l, ''-j'', ''ACCEPT'']),
      quiet (ipt ''filter'' [''-D'', ''STACKR-XN'', ''-i'', l_Iface l, ''-m'', ''conntrack'', ''--ctstate'', ''ESTABLISHED,RELATED'', ''-j'', ''ACCEPT'']),
      quiet (ipt ''filter'' [''-D'', ''STACKR-XN'', ''-i'', l_Iface l, ''-j'', ''DROP''])]
     @ map (\<lambda>src. quiet (ipt ''raw'' [''-D'', ''STACKR-RAW'', ''-i'', l_Iface l, ''-d'', src, ''-j'', ''ACCEPT''])) (l_Sources l)"

section \<open>Model: a subject's policy rules\<close>

record subject =
  s_Sources :: "string list"
  PrefBase :: int

definition pref :: "subject \<Rightarrow> nat \<Rightarrow> nat \<Rightarrow> string" where
  "pref s i off = itoa (int64 (PrefBase s + 2 * int i + int off))"

definition Subject_validate :: "subject \<Rightarrow> error" where
  "Subject_validate s =
     (if PrefBase s < 1 then Some (Errorf ''exits: subject needs a rule priority base'' [])
      else prefixes (s_Sources s))"

definition Subject_Clear :: "subject \<Rightarrow> step list" where
  "Subject_Clear s = concat (map (\<lambda>i.
     [quiet [''ip'', ''rule'', ''del'', ''pref'', pref s i 0],
      quiet [''ip'', ''rule'', ''del'', ''pref'', pref s i 1]]) [0..<length (s_Sources s)])"

text \<open>The two rules of one source: \<open>last\<close> is what the second one does.\<close>

definition source_rules :: "subject \<Rightarrow> argv \<Rightarrow> nat \<Rightarrow> step list" where
  "source_rules s final i =
     [cmd [''ip'', ''rule'', ''add'', ''pref'', pref s i 0, ''from'', s_Sources s ! i, ''lookup'', ''main'', ''suppress_prefixlength'', ''0''],
      cmd ([''ip'', ''rule'', ''add'', ''pref'', pref s i 1, ''from'', s_Sources s ! i] @ final)]"

definition Subject_Route :: "subject \<Rightarrow> int \<Rightarrow> err + step list" where
  "Subject_Route s table = (case Subject_validate s of Some e \<Rightarrow> Inl e
   | None \<Rightarrow> if table < 1 then Inl (Errorf ''exits: bad table %d'' [itoa table])
     else Inr (Subject_Clear s @ concat (map (source_rules s [''lookup'', itoa table]) [0..<length (s_Sources s)])))"

definition Subject_Blackhole :: "subject \<Rightarrow> err + step list" where
  "Subject_Blackhole s = (case Subject_validate s of Some e \<Rightarrow> Inl e
   | None \<Rightarrow> Inr (Subject_Clear s @ concat (map (source_rules s [''blackhole'']) [0..<length (s_Sources s)])))"

section \<open>Model: the serving side of an exit\<close>

record serve =
  v_Iface :: string
  v_KeyFile :: string
  v_Port :: int
  v_PeerKey :: string
  v_Endpoint :: string
  v_Addr :: string
  v_PeerAddr :: string
  v_Subnets :: "string list"
  v_Uplink :: string
  v_Table :: int
  v_Mark :: int
  v_Pref :: int
  v_MTU :: int

definition Serve_validate :: "serve \<Rightarrow> error" where
  "Serve_validate v = first_err
     [ifaceName (v_Iface v), ifaceName (v_Uplink v),
      (if v_KeyFile v = '''' \<or> v_PeerKey v = '''' \<or> v_Port v < 1 \<or> v_Table v < 1 \<or> v_Mark v < 1 \<or> v_Pref v < 1
       then Some (Errorf ''exits: serve %s needs key file, peer key, port, table, mark and pref'' [v_Iface v]) else None),
      (if v_Endpoint v \<noteq> '''' then hostPort (v_Endpoint v) else None),
      (if ParsePrefix (v_Addr v) = None then Some (Errorf ''exits: bad transit address %q: %w'' [v_Addr v]) else None),
      (if ParsePrefix (v_PeerAddr v) = None then Some (Errorf ''exits: bad peer address %q: %w'' [v_PeerAddr v]) else None),
      prefixes (v_Subnets v)]"

definition AllowedIPs :: "serve \<Rightarrow> string" where
  "AllowedIPs v = join_with '','' (v_Subnets v @ [v_PeerAddr v])"

definition serve_chain :: "serve \<Rightarrow> string \<Rightarrow> string" where
  "serve_chain v p = p @ v_Iface v"

definition Serve_Up :: "serve \<Rightarrow> err + step list" where
  "Serve_Up v = (case Serve_validate v of Some e \<Rightarrow> Inl e
   | None \<Rightarrow>
     let mark = ''0x'' @ hexa (v_Mark v); tbl = itoa (v_Table v); prf = itoa (v_Pref v); ifc = v_Iface v;
         mg = serve_chain v ''STACKR-XM-''; nt = serve_chain v ''STACKR-XT-''; fl = serve_chain v ''STACKR-XF-'';
         wg = [''wg'', ''set'', ifc, ''listen-port'', itoa (v_Port v), ''private-key'', v_KeyFile v, ''peer'', v_PeerKey v]
              @ (if v_Endpoint v \<noteq> '''' then [''endpoint'', v_Endpoint v] else [])
              @ [''allowed-ips'', AllowedIPs v]
     in Inr
     ([quiet [''ip'', ''link'', ''del'', ifc],
       cmd [''ip'', ''link'', ''add'', ifc, ''type'', ''wireguard''],
       cmd wg,
       cmd [''ip'', ''addr'', ''add'', v_Addr v, ''dev'', ifc],
       cmd [''ip'', ''link'', ''set'', ifc, ''mtu'', itoa (mtu_or_default (v_MTU v)), ''up'']]
      @ concat (map (\<lambda>(t, c). [quiet (ipt t [''-N'', c]), cmd (ipt t [''-F'', c])])
          [(''mangle'', mg), (''nat'', nt), (''filter'', fl)])
      @ [cmd (ipt ''mangle'' [''-A'', mg, ''-i'', ifc, ''-m'', ''conntrack'', ''--ctstate'', ''NEW'', ''-j'', ''CONNMARK'', ''--set-mark'', mark]),
         cmd (ipt ''mangle'' [''-A'', mg, ''-m'', ''connmark'', ''--mark'', mark, ''-j'', ''CONNMARK'', ''--restore-mark''])]
      @ map (\<lambda>sub. cmd (ipt ''nat'' [''-A'', nt, ''-s'', sub, ''-o'', v_Uplink v, ''-j'', ''MASQUERADE''])) (v_Subnets v)
      @ [cmd (ipt ''filter'' [''-A'', fl, ''-o'', ifc, ''-m'', ''conntrack'', ''--ctstate'', ''ESTABLISHED,RELATED'', ''-j'', ''ACCEPT''])]
      @ map (\<lambda>d. cmd (ipt ''filter'' [''-A'', fl, ''-i'', ifc, ''-d'', d, ''-j'', ''DROP''])) Refused_nets
      @ [cmd (ipt ''filter'' [''-A'', fl, ''-i'', ifc, ''-o'', v_Uplink v, ''-j'', ''ACCEPT'']),
         cmd (ipt ''filter'' [''-A'', fl, ''-i'', ifc, ''-j'', ''DROP'']),
         once ''mangle'' ''PREROUTING'' ''1'' [''-j'', mg],
         once ''nat'' ''POSTROUTING'' ''1'' [''-j'', nt],
         once ''filter'' ''DOCKER-USER'' ''1'' [''-j'', fl],
         once ''filter'' ''INPUT'' '''' [''-i'', ifc, ''-j'', ''DROP''],
         once ''filter'' ''INPUT'' ''1'' [''-i'', ifc, ''-p'', ''icmp'', ''--icmp-type'', ''echo-request'', ''-j'', ''ACCEPT'']]
      @ map (\<lambda>sub. cmd [''ip'', ''route'', ''replace'', sub, ''dev'', ifc, ''table'', tbl]) (v_Subnets v)
      @ [quiet [''ip'', ''rule'', ''del'', ''pref'', prf],
         cmd [''ip'', ''rule'', ''add'', ''pref'', prf, ''fwmark'', mark, ''lookup'', tbl]]))"

definition Serve_Down :: "serve \<Rightarrow> step list" where
  "Serve_Down v =
     (let ifc = v_Iface v; mg = serve_chain v ''STACKR-XM-''; nt = serve_chain v ''STACKR-XT-''; fl = serve_chain v ''STACKR-XF-'' in
      [quiet [''ip'', ''rule'', ''del'', ''pref'', itoa (v_Pref v)],
       quiet [''ip'', ''route'', ''flush'', ''table'', itoa (v_Table v)],
       quiet [''ip'', ''link'', ''del'', ifc],
       quiet (ipt ''mangle'' [''-D'', ''PREROUTING'', ''-j'', mg]),
       quiet (ipt ''nat'' [''-D'', ''POSTROUTING'', ''-j'', nt]),
       quiet (ipt ''filter'' [''-D'', ''DOCKER-USER'', ''-j'', fl]),
       quiet (ipt ''filter'' [''-D'', ''INPUT'', ''-i'', ifc, ''-j'', ''DROP'']),
       quiet (ipt ''filter'' [''-D'', ''INPUT'', ''-i'', ifc, ''-p'', ''icmp'', ''--icmp-type'', ''echo-request'', ''-j'', ''ACCEPT''])]
      @ concat (map (\<lambda>(t, c). [quiet (ipt t [''-F'', c]), quiet (ipt t [''-X'', c])])
          [(''mangle'', mg), (''nat'', nt), (''filter'', fl)]))"

section \<open>Model: the fence of a node without egress\<close>

record fence =
  f_Sources :: "string list"
  f_Uplink :: string

definition FenceChain :: string where
  "FenceChain = ''STACKR-FENCE''"

definition Fence_Up :: "fence \<Rightarrow> err + step list" where
  "Fence_Up f = (case first_err [prefixes (f_Sources f), ifaceName (f_Uplink f)] of Some e \<Rightarrow> Inl e
   | None \<Rightarrow> Inr
     ([quiet (ipt ''filter'' [''-N'', FenceChain]), cmd (ipt ''filter'' [''-F'', FenceChain]),
       cmd (ipt ''filter'' [''-A'', FenceChain, ''-m'', ''conntrack'', ''--ctstate'', ''DNAT'', ''-j'', ''RETURN''])]
      @ concat (map (\<lambda>src.
          map (\<lambda>d. cmd (ipt ''filter'' [''-A'', FenceChain, ''-s'', src, ''-d'', d, ''-j'', ''RETURN''])) Refused_nets
          @ [cmd (ipt ''filter'' [''-A'', FenceChain, ''-s'', src, ''-o'', f_Uplink f, ''-j'', ''DROP''])])
          (f_Sources f))
      @ [once ''filter'' ''DOCKER-USER'' ''1'' [''-j'', FenceChain]]))"

definition Fence_Down :: "fence \<Rightarrow> step list" where
  "Fence_Down f =
     [quiet (ipt ''filter'' [''-D'', ''DOCKER-USER'', ''-j'', FenceChain]),
      quiet (ipt ''filter'' [''-F'', FenceChain]),
      quiet (ipt ''filter'' [''-X'', FenceChain])]"

end
