(* ===== verification/Netfilter.thy ===== *)
theory Netfilter
  imports Netip
begin

text \<open>
  What the rules that the exits and vip packages write mean: the reading of an iptables chain
  that the iptables manual gives.  Rules are tried in order; the first whose matches all hold
  decides; RETURN and the end of a chain go back to the rule after the jump.  This is the
  specification side of the firewall theorems, no code of the repository.

  A packet carries the tests the rules make: its interfaces, addresses, protocol and port, its
  connection states, and the original destination before address translation.
\<close>

record packet =
  pk_in :: string
  pk_out :: string
  pk_src :: addr
  pk_dst :: addr
  pk_proto :: string
  pk_dport :: int
  pk_ct :: "string list"
  pk_origdst :: addr
  pk_origport :: int
  pk_icmp :: string

datatype nf_match =
    MIn string
  | MOut string
  | MSrc string
  | MDst string
  | MCt "string list"
  | MNotCt "string list"
  | MProto string
  | MDport int int
  | MDports "int list"
  | MOrigDst string
  | MOrigPort int
  | MIcmp string

type_synonym nf_rule = "nf_match list \<times> string"

datatype verdict = Accept | Drop | Fall | Loop

text \<open>Membership in a range given as text.\<close>

definition in_net :: "string \<Rightarrow> addr \<Rightarrow> bool" where
  "in_net s a \<longleftrightarrow> (case ParsePrefix s of None \<Rightarrow> False | Some p \<Rightarrow> Contains p a)"

definition in_nets :: "string list \<Rightarrow> addr \<Rightarrow> bool" where
  "in_nets ss a \<longleftrightarrow> list_ex (\<lambda>s. in_net s a) ss"

fun matches :: "packet \<Rightarrow> nf_match \<Rightarrow> bool" where
  "matches p (MIn i) = (pk_in p = i)"
| "matches p (MOut i) = (pk_out p = i)"
| "matches p (MSrc s) = in_net s (pk_src p)"
| "matches p (MDst s) = in_net s (pk_dst p)"
| "matches p (MCt cs) = list_ex (\<lambda>c. c \<in> set (pk_ct p)) cs"
| "matches p (MNotCt cs) = (\<not> list_ex (\<lambda>c. c \<in> set (pk_ct p)) cs)"
| "matches p (MProto x) = (pk_proto p = x)"
| "matches p (MDport lo hi) = (lo \<le> pk_dport p \<and> pk_dport p \<le> hi)"
| "matches p (MDports ps) = (pk_dport p \<in> set ps)"
| "matches p (MOrigDst s) = (ParseAddr s = Some (pk_origdst p))"
| "matches p (MOrigPort n) = (pk_origport p = n)"
| "matches p (MIcmp t) = (pk_icmp p = t)"

text \<open>
  A chain's run.  \<open>d\<close> bounds the depth of jumps; \<open>Fall\<close> is the end of the chain, \<open>Loop\<close> a jump too
  deep.
\<close>

fun nf_run :: "nat \<Rightarrow> (string \<Rightarrow> nf_rule list) \<Rightarrow> packet \<Rightarrow> nf_rule list \<Rightarrow> verdict" where
  "nf_run d cs p [] = Fall"
| "nf_run d cs p ((ms, t) # rs) =
     (if list_all (matches p) ms then
        (if t = ''ACCEPT'' then Accept
         else if t = ''DROP'' then Drop
         else if t = ''RETURN'' then Fall
         else (case d of 0 \<Rightarrow> Loop
               | Suc d' \<Rightarrow> (case nf_run d' cs p (cs t) of Fall \<Rightarrow> nf_run d cs p rs | v \<Rightarrow> v)))
      else nf_run d cs p rs)"

section \<open>Lemmas\<close>

lemma nf_run_skip:
  "list_all (\<lambda>r. \<not> list_all (matches p) (fst r)) rs \<Longrightarrow> nf_run d cs p (rs @ qs) = nf_run d cs p qs"
proof (induction rs)
  case (Cons r rs)
  then show ?case by (cases r) simp
qed simp

text \<open>A block of rules with one target: it decides when some rule matches.\<close>

lemma nf_run_block:
  assumes "t = ''ACCEPT'' \<or> t = ''DROP'' \<or> t = ''RETURN''"
  shows "nf_run d cs p (map (\<lambda>x. (f x, t)) xs @ qs) =
    (if list_ex (\<lambda>x. list_all (matches p) (f x)) xs
     then (if t = ''ACCEPT'' then Accept else if t = ''DROP'' then Drop else Fall)
     else nf_run d cs p qs)"
proof (induction xs)
  case (Cons x xs)
  with assms show ?case by (elim disjE) simp_all
qed simp

definition any_match :: "packet \<Rightarrow> nf_rule list \<Rightarrow> bool" where
  "any_match p rs \<longleftrightarrow> (\<exists>r \<in> set rs. list_all (matches p) (fst r))"

lemma any_match_simps [simp]:
  "\<not> any_match p []"
  "any_match p (r # rs) \<longleftrightarrow> list_all (matches p) (fst r) \<or> any_match p rs"
  "any_match p (rs @ qs) \<longleftrightarrow> any_match p rs \<or> any_match p qs"
  by (auto simp: any_match_def)

lemma nf_run_uniform:
  assumes "t = ''ACCEPT'' \<or> t = ''DROP'' \<or> t = ''RETURN''" and "\<forall>r \<in> set rs. snd r = t"
  shows "nf_run d cs p (rs @ qs) =
    (if any_match p rs then (if t = ''ACCEPT'' then Accept else if t = ''DROP'' then Drop else Fall) else nf_run d cs p qs)"
  using assms(2)
proof (induction rs)
  case (Cons r rs)
  with assms(1) show ?case by (cases r) auto
qed simp

lemma nf_run_jump:
  assumes "t \<noteq> ''ACCEPT''" "t \<noteq> ''DROP''" "t \<noteq> ''RETURN''"
  shows "nf_run (Suc d) cs p ((ms, t) # qs) =
    (if list_all (matches p) ms then (case nf_run d cs p (cs t) of Fall \<Rightarrow> nf_run (Suc d) cs p qs | v \<Rightarrow> v) else nf_run (Suc d) cs p qs)"
  using assms by simp

lemma in_nets_Cons [simp]: "in_nets (s # ss) a \<longleftrightarrow> in_net s a \<or> in_nets ss a"
  by (simp add: in_nets_def)

lemma in_nets_Nil [simp]: "\<not> in_nets [] a"
  by (simp add: in_nets_def)

text \<open>A text of the form \<^verbatim>\<open>addr/32\<close>.\<close>

lemma cut_last_append: "c \<notin> set post \<Longrightarrow> cut_last c (pre @ c # post) = Some (pre, post)"
proof -
  assume "c \<notin> set post"
  then have "takeWhile (\<lambda>x. x \<noteq> c) (rev post @ c # rev pre) = rev post"
    "dropWhile (\<lambda>x. x \<noteq> c) (rev post @ c # rev pre) = c # rev pre"
    by (simp_all add: takeWhile_append dropWhile_append)
  then show ?thesis by (simp add: cut_last_def cut_at_def)
qed

lemma atoi_32: "atoi ''32'' = Some 32"
  by code_simp

lemma ParsePrefix_32: "ParseAddr s = Some (Addr4 w) \<Longrightarrow> ParsePrefix (s @ ''/32'') = Some (PrefixFrom (Addr4 w) 32)"
  using cut_last_append [of "CHR ''/''" "''32''" s]
  by (simp add: ParsePrefix_def atoi_32 less_eq_char_def)

lemma in_net_32: "ParseAddr s = Some (Addr4 w) \<Longrightarrow> in_net (s @ ''/32'') a \<longleftrightarrow> a = Addr4 w"
  by (simp add: in_net_def ParsePrefix_32 Contains_32)

text \<open>The text of a valid IPv4 prefix parses back to it.\<close>

lemma atoi_bits: "b \<le> 128 \<Longrightarrow> atoi (nat_str b) = Some (int b)"
  by (rule atoi_nat_str) simp

lemma nat_str_bits_head:
  "b \<le> 128 \<Longrightarrow> length (nat_str b) > 1 \<Longrightarrow> CHR ''1'' \<le> hd (nat_str b) \<and> hd (nat_str b) \<le> CHR ''9''"
proof -
  assume b: "b \<le> 128" "length (nat_str b) > 1"
  have "octet (nat_str b) = Some b" using b by (intro octet_nat_str) simp
  then have "hd (nat_str b) \<noteq> CHR ''0''" using b by (auto simp: octet_def split: if_splits)
  moreover have "is_digit (hd (nat_str b))"
    using nat_str_digits [of b] by (cases "nat_str b") auto
  ultimately have "CHR ''0'' < hd (nat_str b) \<and> hd (nat_str b) \<le> CHR ''9''"
    by (auto simp: is_digit_def)
  then show ?thesis by (simp add: less_eq_char_def less_char_def)
qed

lemma ParsePrefix_String4:
  assumes "b \<le> 32"
  shows "ParsePrefix (pfx_String (Pfx (Addr4 w) (Some b))) = Some (Pfx (Addr4 w) (Some b))"
proof -
  have "CHR ''/'' \<notin> set (nat_str b)"
    by (rule nat_str_no_char) (simp add: is_digit_def less_eq_char_def)
  then have "cut_last CHR ''/'' (string4 w @ CHR ''/'' # nat_str b) = Some (string4 w, nat_str b)"
    by (rule cut_last_append)
  with assms nat_str_bits_head [of b] show ?thesis
    by (auto simp: pfx_String_def ParsePrefix_def ParseAddr_string4 atoi_bits PrefixFrom_def addr_IsValid_def)
qed

text \<open>A prefix as the packages print it: masked, IPv4.\<close>

definition pfx4_ok :: "pfx \<Rightarrow> bool" where
  "pfx4_ok p \<longleftrightarrow> Is4 (pfx_addr p) \<and> (\<exists>b \<le> 32. pfx_bits p = Some b)"

lemma in_net_Masked: "pfx4_ok p \<Longrightarrow> in_net (pfx_String (Masked p)) a \<longleftrightarrow> Contains p a"
proof -
  assume ok: "pfx4_ok p"
  then obtain w b where p: "pfx_addr p = Addr4 w" "pfx_bits p = Some b" "b \<le> 32"
    by (cases "pfx_addr p") (auto simp: pfx4_ok_def)
  then have "Masked p = Pfx (mask_addr b (Addr4 w)) (Some b)" by (simp add: Masked_def)
  then have "ParsePrefix (pfx_String (Masked p)) = Some (Masked p)"
    using p(3) ParsePrefix_String4 by simp
  moreover have "Contains (Masked p) a \<longleftrightarrow> Contains p a"
    using p by (intro Contains_Masked) (simp_all add: pfx_IsValid_def)
  ultimately show ?thesis by (simp add: in_net_def)
qed

end
