(* ===== verification/Exits_Rules.thy ===== *)
theory Exits_Rules
  imports Exits_Plan Netfilter
begin

text \<open>
  What the plans of \<open>Exits_Plan\<close> achieve: the ladder choice, the runner's discipline, the policy
  rules a subject is left with, and the verdicts of the firewall chains a plan fills.
\<close>

section \<open>Reading the rules a plan appends\<close>

text \<open>The match options the plans use, each with its value, up to \<^verbatim>\<open>-j\<close> and the target.\<close>

fun argv_rule :: "string list \<Rightarrow> nf_rule option" where
  "argv_rule (t # x # r) =
     (if t = ''-j'' then Some ([], x)
      else map_option (\<lambda>(ms, tg).
        ((if t = ''-i'' then [MIn x] else if t = ''-o'' then [MOut x]
          else if t = ''-s'' then [MSrc x] else if t = ''-d'' then [MDst x]
          else if t = ''--ctstate'' then [MCt (split_on CHR '','' x)]
          else []) @ ms, tg)) (argv_rule r))"
| "argv_rule _ = None"

definition appended_rule :: "string \<Rightarrow> string \<Rightarrow> argv \<Rightarrow> nf_rule option" where
  "appended_rule table chain a =
     (case a of i # t # tb # op # c # r \<Rightarrow>
        if i = ''iptables'' \<and> t = ''-t'' \<and> tb = table \<and> op = ''-A'' \<and> c = chain then argv_rule r else None
      | _ \<Rightarrow> None)"

definition chain_rules :: "string \<Rightarrow> string \<Rightarrow> step list \<Rightarrow> nf_rule list" where
  "chain_rules table chain ss = List.map_filter (\<lambda>s. appended_rule table chain (Argv s)) ss"

section \<open>What ip rule does\<close>

text \<open>
  The documented behaviour of the \<^verbatim>\<open>ip rule\<close> command, for a view \<open>rules\<close> of a world's rule
  table that gives the bodies of the rules at each priority: a successful add puts one more rule
  at its priority, a del takes the first one there away if there is one.
\<close>

definition ip_rule_runner :: "'w runner \<Rightarrow> ('w \<Rightarrow> string \<Rightarrow> argv list) \<Rightarrow> bool" where
  "ip_rule_runner run rules \<longleftrightarrow>
     (\<forall>w p body. snd (run w ([''ip'', ''rule'', ''add'', ''pref'', p] @ body)) = None \<longrightarrow>
        rules (fst (run w ([''ip'', ''rule'', ''add'', ''pref'', p] @ body))) = (rules w)(p := rules w p @ [body])) \<and>
     (\<forall>w p. rules (fst (run w [''ip'', ''rule'', ''del'', ''pref'', p])) = (rules w)(p := tl (rules w p)))"

definition own_prefs :: "subject \<Rightarrow> string set" where
  "own_prefs s = {pref s i off | i off. i < length (s_Sources s) \<and> off < 2}"

definition pref_block_ok :: "subject \<Rightarrow> bool" where
  "pref_block_ok s \<longleftrightarrow> PrefBase s + 2 * int (length (s_Sources s)) < 2 ^ 63"

section \<open>Lemmas\<close>

subsection \<open>The runner\<close>

lemma Apply_append:
  "Apply run w (xs @ ys) = (case Apply run w xs of (w', None) \<Rightarrow> Apply run w' ys | (w', Some e) \<Rightarrow> (w', Some e))"
  by (induction xs arbitrary: w) (auto split: option.splits prod.splits)

lemma Apply_all_quiet: "list_all IgnoreErr ss \<Longrightarrow> snd (Apply run w ss) = None"
  by (induction ss arbitrary: w) (auto split: option.splits prod.splits)

lemma Apply_quiet: "snd (Apply run w [quiet a]) = None" "fst (Apply run w [quiet a]) = fst (run w a)"
  by (auto simp: quiet_def split: option.splits prod.splits)

lemma Apply_cmd: "Apply run w (cmd a # ss) =
   (case run w a of (w', None) \<Rightarrow> Apply run w' ss | (w', Some e) \<Rightarrow> (w', Some (Wrap (''%v: %w'', a) e)))"
  by (auto simp: cmd_def split: option.splits prod.splits)

lemma IgnoreErr_simps [simp]: "IgnoreErr (quiet a)" "\<not> IgnoreErr (cmd a)" "Argv (quiet a) = a" "Argv (cmd a) = a"
  by (simp_all add: quiet_def cmd_def)

subsection \<open>Interface names\<close>

lemma exits_Iface_len: "length (exits_Iface n) = 14"
  by (simp add: exits_Iface_def)

subsection \<open>Priorities\<close>

lemma pref_inject:
  assumes "PrefBase s \<ge> 1" "pref_block_ok s" "i < length (s_Sources s)" "j < length (s_Sources s)"
    "off < 2" "off' < 2"
  shows "pref s i off = pref s j off' \<longleftrightarrow> i = j \<and> off = off'"
proof -
  have id: "int64 (PrefBase s + 2 * int k + int o') = PrefBase s + 2 * int k + int o'"
    if "k < length (s_Sources s)" "o' < 2" for k o'
    using assms(1,2) that by (intro int64_id) (auto simp: pref_block_ok_def)
  show ?thesis
    unfolding pref_def itoa_inject using assms by (simp add: id) presburger
qed

subsection \<open>Adding and deleting rules\<close>

datatype rule_op = Del string | Add string argv

fun op_step :: "rule_op \<Rightarrow> step" where
  "op_step (Del p) = quiet [''ip'', ''rule'', ''del'', ''pref'', p]"
| "op_step (Add p body) = cmd ([''ip'', ''rule'', ''add'', ''pref'', p] @ body)"

fun op_pref :: "rule_op \<Rightarrow> string" where
  "op_pref (Del p) = p"
| "op_pref (Add p body) = p"

fun op_bodies :: "rule_op \<Rightarrow> argv list \<Rightarrow> argv list" where
  "op_bodies (Del p) bs = tl bs"
| "op_bodies (Add p body) bs = bs @ [body]"

lemma run_op:
  assumes "ip_rule_runner run rules" and "snd (Apply run w [op_step x]) = None"
  shows "rules (fst (Apply run w [op_step x])) = (rules w)(op_pref x := op_bodies x (rules w (op_pref x)))"
proof (cases x)
  case (Del p)
  with assms(1) show ?thesis
    unfolding ip_rule_runner_def by (simp only: op_step.simps op_pref.simps op_bodies.simps Apply_quiet(2))
next
  case (Add p body)
  with assms(2) have ok: "snd (run w ([''ip'', ''rule'', ''add'', ''pref'', p] @ body)) = None"
    "fst (Apply run w [op_step x]) = fst (run w ([''ip'', ''rule'', ''add'', ''pref'', p] @ body))"
    by (auto simp: cmd_def split: prod.splits option.splits)
  with assms(1) Add show ?thesis by (simp add: ip_rule_runner_def)
qed

lemma run_ops:
  assumes "ip_rule_runner run rules"
  shows "snd (Apply run w (map op_step xs)) = None \<Longrightarrow>
    rules (fst (Apply run w (map op_step xs))) p = fold op_bodies (filter (\<lambda>x. op_pref x = p) xs) (rules w p)"
proof (induction xs arbitrary: w)
  case (Cons x xs)
  have ap: "Apply run w (map op_step (x # xs)) =
      (case Apply run w [op_step x] of (w', None) \<Rightarrow> Apply run w' (map op_step xs) | (w', Some e) \<Rightarrow> (w', Some e))"
    using Apply_append [of run w "[op_step x]" "map op_step xs"] by simp
  then obtain w' where w': "Apply run w [op_step x] = (w', None)"
    using Cons.prems by (cases "Apply run w [op_step x]") (auto split: option.splits)
  with run_op [OF assms, of w x]
  have "rules w' = (rules w)(op_pref x := op_bodies x (rules w (op_pref x)))" by simp
  with Cons w' ap show ?case by simp
qed simp

text \<open>The priorities of a subject in the order of its rules, and the rules' bodies.\<close>

definition pref_list :: "subject \<Rightarrow> string list" where
  "pref_list s = concat (map (\<lambda>i. [pref s i 0, pref s i 1]) [0..<length (s_Sources s)])"

definition body_list :: "subject \<Rightarrow> argv \<Rightarrow> (string \<times> argv) list" where
  "body_list s final = concat (map (\<lambda>i.
     [(pref s i 0, [''from'', s_Sources s ! i, ''lookup'', ''main'', ''suppress_prefixlength'', ''0'']),
      (pref s i 1, [''from'', s_Sources s ! i] @ final)]) [0..<length (s_Sources s)])"

lemma Clear_ops: "Subject_Clear s = map op_step (map Del (pref_list s))"
  by (simp add: Subject_Clear_def pref_list_def map_concat comp_def)

lemma rules_ops:
  "concat (map (source_rules s final) [0..<length (s_Sources s)]) = map op_step (map (\<lambda>(p, b). Add p b) (body_list s final))"
  by (simp add: body_list_def source_rules_def [abs_def] map_concat comp_def)

lemma fst_body_list: "map fst (body_list s final) = pref_list s"
  by (simp add: body_list_def pref_list_def map_concat comp_def)

lemma set_pref_list: "set (pref_list s) = own_prefs s"
proof -
  have "off < 2 \<longleftrightarrow> off = 0 \<or> off = 1" for off :: nat by auto
  then show ?thesis by (fastforce simp: pref_list_def own_prefs_def)
qed

lemma distinct_pref_list:
  assumes "PrefBase s \<ge> 1" "pref_block_ok s"
  shows "distinct (pref_list s)"
proof -
  note inj = pref_inject [OF assms]
  have "distinct (concat (map (\<lambda>i. [pref s i 0, pref s i 1]) [0..<n]))" if "n \<le> length (s_Sources s)" for n
    using that
  proof (induction n)
    case (Suc n)
    then show ?case by (auto simp: inj)
  qed simp
  then show ?thesis by (simp add: pref_list_def)
qed

lemma filter_eq_distinct: "distinct (map fst xs) \<Longrightarrow> (p, b) \<in> set xs \<Longrightarrow> filter (\<lambda>x. fst x = p) xs = [(p, b)]"
  by (induction xs) (auto simp: filter_empty_conv image_iff)

lemma filter_eq_absent: "p \<notin> set (map fst xs) \<Longrightarrow> filter (\<lambda>x. fst x = p) xs = []"
  by (auto simp: filter_empty_conv)

lemma filter_dels: "distinct ps \<Longrightarrow> filter (\<lambda>x. op_pref x = p) (map Del ps) = (if p \<in> set ps then [Del p] else [])"
  by (induction ps) (auto simp: filter_empty_conv)

lemma filter_adds:
  "filter (\<lambda>x. op_pref x = p) (map (\<lambda>(p, b). Add p b) xs) = map (\<lambda>(p, b). Add p b) (filter (\<lambda>x. fst x = p) xs)"
  by (induction xs) auto

text \<open>
  What a successful refill of a subject's rules leaves: at each own priority its one rule, and
  every other priority as it was.
\<close>

lemma refill_rules:
  assumes run: "ip_rule_runner run rules" and ok: "PrefBase s \<ge> 1" "pref_block_ok s"
    and one: "\<And>p. p \<in> own_prefs s \<Longrightarrow> length (rules w p) \<le> 1"
    and ap: "Apply run w (Subject_Clear s @ concat (map (source_rules s final) [0..<length (s_Sources s)])) = (w', None)"
  shows "(p, b) \<in> set (body_list s final) \<Longrightarrow> rules w' p = [b]"
    and "p \<notin> own_prefs s \<Longrightarrow> rules w' p = rules w p"
proof -
  let ?xs = "map Del (pref_list s) @ map (\<lambda>(p, b). Add p b) (body_list s final)"
  have dist: "distinct (pref_list s)" by (rule distinct_pref_list [OF ok])
  have "rules w' p = fold op_bodies (filter (\<lambda>x. op_pref x = p) ?xs) (rules w p)" for p
    using run_ops [OF run, of w ?xs p] ap by (simp add: Clear_ops rules_ops)
  then have eq: "rules w' p = fold op_bodies (map (\<lambda>(p, b). Add p b) (filter (\<lambda>x. fst x = p) (body_list s final)))
      (fold op_bodies (if p \<in> own_prefs s then [Del p] else []) (rules w p))" for p
    by (simp add: filter_dels [OF dist] filter_adds set_pref_list)
  show "rules w' p = [b]" if "(p, b) \<in> set (body_list s final)"
  proof -
    have "p \<in> own_prefs s"
      using that fst_body_list [of s final] set_pref_list [of s] by (metis fst_conv image_eqI list.set_map)
    with one have "tl (rules w p) = []" by (cases "rules w p") fastforce+
    with that \<open>p \<in> own_prefs s\<close> dist show ?thesis
      unfolding eq by (simp add: filter_eq_distinct fst_body_list)
  qed
  show "rules w' p = rules w p" if "p \<notin> own_prefs s"
    using that unfolding eq by (simp add: filter_eq_absent fst_body_list set_pref_list)
qed

subsection \<open>Reading a plan's chains\<close>

lemma chain_rules_simps [simp]:
  "chain_rules t c [] = []"
  "chain_rules t c (s # ss) =
     (case appended_rule t c (Argv s) of None \<Rightarrow> chain_rules t c ss | Some r \<Rightarrow> r # chain_rules t c ss)"
  "chain_rules t c (xs @ ys) = chain_rules t c xs @ chain_rules t c ys"
  by (simp_all add: chain_rules_def List.map_filter_def split: option.splits)

lemma chain_rules_none: "(\<And>x. appended_rule t c (Argv (f x)) = None) \<Longrightarrow> chain_rules t c (map f xs) = []"
  by (induction xs) simp_all

lemma chain_rules_some: "(\<And>x. appended_rule t c (Argv (f x)) = Some (g x)) \<Longrightarrow> chain_rules t c (map f xs) = map g xs"
  by (induction xs) simp_all

lemma chain_rules_concat: "chain_rules t c (concat (map f xs)) = concat (map (\<lambda>x. chain_rules t c (f x)) xs)"
  by (induction xs) simp_all

lemma Argv_once [simp]:
  "Argv (once t c pos r) = [''iptables'', ''-t'', t] @ (if pos \<noteq> [] then [''-I'', c, pos] else [''-A'', c]) @ r"
  by (simp add: once_def ipt_def)

lemma serve_chain_not_INPUT: "''INPUT'' \<noteq> serve_chain v ''STACKR-XF-''"
  by (simp add: serve_chain_def)

definition serve_filter_rules :: "serve \<Rightarrow> nf_rule list" where
  "serve_filter_rules v =
     ([MOut (v_Iface v), MCt [''ESTABLISHED'', ''RELATED'']], ''ACCEPT'')
     # map (\<lambda>d. ([MIn (v_Iface v), MDst d], ''DROP'')) Refused_nets
     @ [([MIn (v_Iface v), MOut (v_Uplink v)], ''ACCEPT''), ([MIn (v_Iface v)], ''DROP'')]"

lemma Serve_Up_filter:
  assumes "Serve_Up v = Inr ss"
  shows "chain_rules ''filter'' (serve_chain v ''STACKR-XF-'') ss = serve_filter_rules v"
proof -
  have dr: "chain_rules ''filter'' c (map (\<lambda>d. cmd [''iptables'', ''-t'', ''filter'', ''-A'', c, ''-i'', i, ''-d'', d, ''-j'', ''DROP'']) ds)
      = map (\<lambda>d. ([MIn i, MDst d], ''DROP'')) ds" for c i ds
    by (rule chain_rules_some) (simp add: appended_rule_def ipt_def)
  have nt: "chain_rules ''filter'' c (map (\<lambda>d. cmd (''iptables'' # ''-t'' # ''nat'' # r d)) ds) = []" for c r ds
    by (rule chain_rules_none) (auto simp: appended_rule_def split: list.splits)
  have rt: "chain_rules ''filter'' c (map (\<lambda>d. cmd [''ip'', ''route'', ''replace'', d, ''dev'', i, ''table'', t]) ds) = []" for c i t ds
    by (rule chain_rules_none) (simp add: appended_rule_def)
  have cn: "split_on CHR '','' ''ESTABLISHED,RELATED'' = [''ESTABLISHED'', ''RELATED'']" by code_simp
  show ?thesis
    using assms unfolding Serve_Up_def Let_def
    by (auto simp: dr nt rt cn serve_chain_not_INPUT serve_filter_rules_def appended_rule_def ipt_def split: option.splits)
qed

definition fence_rules :: "fence \<Rightarrow> nf_rule list" where
  "fence_rules f = ([MCt [''DNAT'']], ''RETURN'')
     # concat (map (\<lambda>src. map (\<lambda>d. ([MSrc src, MDst d], ''RETURN'')) Refused_nets
                  @ [([MSrc src, MOut (f_Uplink f)], ''DROP'')]) (f_Sources f))"

lemma Fence_Up_filter:
  assumes "Fence_Up f = Inr ss"
  shows "chain_rules ''filter'' FenceChain ss = fence_rules f"
proof -
  have dr: "chain_rules ''filter'' c (map (\<lambda>d. cmd [''iptables'', ''-t'', ''filter'', ''-A'', c, ''-s'', i, ''-d'', d, ''-j'', ''RETURN'']) ds)
      = map (\<lambda>d. ([MSrc i, MDst d], ''RETURN'')) ds" for c i ds
    by (rule chain_rules_some) (simp add: appended_rule_def)
  have cn: "split_on CHR '','' ''DNAT'' = [''DNAT'']" by code_simp
  show ?thesis
    using assms unfolding Fence_Up_def
    by (auto simp: dr cn chain_rules_concat fence_rules_def appended_rule_def ipt_def split: option.splits)
qed

lemma nf_run_nets:
  assumes "t = ''ACCEPT'' \<or> t = ''DROP'' \<or> t = ''RETURN''"
  shows "nf_run d cs p (map (\<lambda>x. ([m, MDst x], t)) xs @ qs) =
    (if matches p m \<and> in_nets xs (pk_dst p)
     then (if t = ''ACCEPT'' then Accept else if t = ''DROP'' then Drop else Fall)
     else nf_run d cs p qs)"
proof -
  have "list_ex (\<lambda>x. list_all (matches p) [m, MDst x]) xs \<longleftrightarrow> matches p m \<and> in_nets xs (pk_dst p)"
    by (induction xs) auto
  then show ?thesis by (subst nf_run_block [OF assms]) simp
qed

lemma nf_run_fence:
  "nf_run d cs p (concat (map (\<lambda>src. map (\<lambda>d. ([MSrc src, MDst d], ''RETURN'')) Refused_nets
      @ [([MSrc src, MOut u], ''DROP'')]) srcs)) =
   (if in_nets srcs (pk_src p) \<and> \<not> in_nets Refused_nets (pk_dst p) \<and> pk_out p = u then Drop else Fall)"
  by (induction srcs) (simp_all add: nf_run_nets)

lemma dedupe_props [simp]:
  "distinct (dedupe ns)" "set (dedupe ns) = set ns - {[]}" "dedupe ns = [] \<longleftrightarrow> set ns \<subseteq> {[]}"
proof -
  show "distinct (dedupe ns)" by (simp add: dedupe_def go_list)
  show s: "set (dedupe ns) = set ns - {[]}" by (auto simp: dedupe_def go_list)
  show "dedupe ns = [] \<longleftrightarrow> set ns \<subseteq> {[]}" using s by (metis Diff_eq_empty_iff set_empty2)
qed

lemma find_first: "find P xs = Some x \<Longrightarrow> \<exists>ys zs. xs = ys @ x # zs \<and> P x \<and> (\<forall>y \<in> set ys. \<not> P y)"
proof (induction xs)
  case (Cons y xs)
  then show ?case by (metis append_Cons append_Nil empty_iff find.simps(2) list.set(1) option.inject set_ConsD)
qed simp

lemma find_nearest:
  fixes R :: resolution
  assumes R: "R = (case find (\<lambda>(src, ns). dedupe ns \<noteq> []) rungs of
     Some (src, ns) \<Rightarrow> \<lparr>r_Source = src, r_Nodes = dedupe ns\<rparr> | None \<Rightarrow> \<lparr>r_Source = ''none'', r_Nodes = []\<rparr>)"
  shows "distinct (r_Nodes R) \<and> [] \<notin> set (r_Nodes R) \<and>
    ((R = \<lparr>r_Source = ''none'', r_Nodes = []\<rparr> \<and> set (concat (map snd rungs)) \<subseteq> {[]}) \<or>
     (\<exists>nearer ns farther. rungs = nearer @ (r_Source R, ns) # farther \<and>
        set (concat (map snd nearer)) \<subseteq> {[]} \<and> r_Nodes R \<noteq> [] \<and> set (r_Nodes R) = set ns - {[]}))"
proof (cases "find (\<lambda>(src, ns). dedupe ns \<noteq> []) rungs")
  case None
  then have "\<forall>r \<in> set rungs. set (snd r) \<subseteq> {[]}" by (fastforce simp: find_None_iff)
  with None R show ?thesis by auto
next
  case (Some x)
  obtain src ns where x: "x = (src, ns)" by (cases x)
  from find_first [OF Some] obtain ys zs where s: "rungs = ys @ (src, ns) # zs" "dedupe ns \<noteq> []"
    "\<forall>y \<in> set ys. set (snd y) \<subseteq> {[]}" unfolding x by fastforce
  then have "set (concat (map snd ys)) \<subseteq> {[]}" by auto
  with s have "\<exists>nearer ns' farther. rungs = nearer @ (src, ns') # farther \<and>
      set (concat (map snd nearer)) \<subseteq> {[]} \<and> dedupe ns \<noteq> [] \<and> set (dedupe ns) = set ns' - {[]}"
    by (intro exI [of _ ys] exI [of _ ns] exI [of _ zs]) simp
  moreover have "R = \<lparr>r_Source = src, r_Nodes = dedupe ns\<rparr>" using R Some x by simp
  ultimately show ?thesis by simp
qed

section \<open>Properties\<close>

text \<open>
  Resolve takes the nearest level that names an exit: the nodes returned are those of the
  first of tile, env, stack, org, node and default that holds a non-empty name, without repeats
  and without empty names, in their order, and every nearer level names none.
\<close>

theorem exits_Resolve_nearest:
  "let R = exits_Resolve l def;
       rungs = [(''tile'', lv_Tile l), (''env'', lv_Env l), (''stack'', lv_Stack l), (''org'', lv_Org l),
                (''node'', lv_Node l), (''default'', def)]
   in distinct (r_Nodes R) \<and> [] \<notin> set (r_Nodes R) \<and>
      ((R = \<lparr>r_Source = ''none'', r_Nodes = []\<rparr> \<and> set (concat (map snd rungs)) \<subseteq> {[]}) \<or>
       (\<exists>nearer ns farther. rungs = nearer @ (r_Source R, ns) # farther \<and>
          set (concat (map snd nearer)) \<subseteq> {[]} \<and> r_Nodes R \<noteq> [] \<and> set (r_Nodes R) = set ns - {[]}))"
  unfolding Let_def by (rule find_nearest) (simp only: exits_Resolve_def)

text \<open>
  Taking things down never fails and never stops half way: whatever the commands return,
  Apply of the teardown of a link, of a serving side, of a subject's rules or of the fence reports no error.
\<close>

theorem teardown_never_fails:
  "snd (Apply run w (Link_Down l @ Serve_Down v @ Subject_Clear s @ Fence_Down f)) = None"
  by (rule Apply_all_quiet) (auto simp: Link_Down_def Serve_Down_def Subject_Clear_def Fence_Down_def Let_def list_all_iff)

text \<open>
  C25: The serving side's filter chain, on every packet: traffic from the tunnel reaches only the
  uplink, never one of the refused private ranges; into the tunnel only the answers of
  established connections are accepted; other traffic is left to the chains after it.
\<close>

theorem Serve_Up_verdict:
  assumes "Serve_Up v = Inr ss"
  shows "nf_run d cs p (chain_rules ''filter'' (serve_chain v ''STACKR-XF-'') ss) =
    (if pk_out p = v_Iface v \<and> (''ESTABLISHED'' \<in> set (pk_ct p) \<or> ''RELATED'' \<in> set (pk_ct p)) then Accept
     else if pk_in p \<noteq> v_Iface v then Fall
     else if in_nets Refused_nets (pk_dst p) then Drop
     else if pk_out p = v_Uplink v then Accept
     else Drop)"
  by (auto simp: Serve_Up_filter [OF assms] serve_filter_rules_def nf_run_nets)

text \<open>
  C26: The fence drops exactly the new egress of the fenced sources: a packet is dropped when its source
  is fenced, it leaves by the uplink for an address outside the private ranges and it does not
  answer a translated inbound connection; every other packet passes on.
\<close>

theorem Fence_Up_verdict:
  assumes "Fence_Up f = Inr ss"
  shows "nf_run d cs p (chain_rules ''filter'' FenceChain ss) =
    (if ''DNAT'' \<notin> set (pk_ct p) \<and> in_nets (f_Sources f) (pk_src p) \<and>
        \<not> in_nets Refused_nets (pk_dst p) \<and> pk_out p = f_Uplink f then Drop else Fall)"
  by (simp add: Fence_Up_filter [OF assms] fence_rules_def nf_run_fence)

text \<open>
  A subject switched to a table (or to a blackhole) has, at its own priorities, exactly the
  two rules of each source, the last one the lookup of that table (or the blackhole), whatever
  single rules stood there before, and no rule of another priority is touched.  The runner is
  any that behaves as ip rule does.
\<close>

theorem Route_leaves_exact_rules:
  assumes "ip_rule_runner run rules" and "pref_block_ok s"
    and "\<forall>p \<in> own_prefs s. length (rules w p) \<le> 1"
    and "(final = [''lookup'', itoa t] \<and> Subject_Route s t = Inr ss) \<or> (final = [''blackhole''] \<and> Subject_Blackhole s = Inr ss)"
    and "Apply run w ss = (w', None)"
  shows "(\<forall>i < length (s_Sources s).
            rules w' (pref s i 0) = [[''from'', s_Sources s ! i, ''lookup'', ''main'', ''suppress_prefixlength'', ''0'']] \<and>
            rules w' (pref s i 1) = [[''from'', s_Sources s ! i] @ final]) \<and>
         (\<forall>p. p \<notin> own_prefs s \<longrightarrow> rules w' p = rules w p)"
proof -
  from assms(4) have ss: "ss = Subject_Clear s @ concat (map (source_rules s final) [0..<length (s_Sources s)])"
    and base: "PrefBase s \<ge> 1"
    by (auto simp: Subject_Route_def Subject_Blackhole_def Subject_validate_def split: option.splits if_splits)
  note r = refill_rules [OF assms(1) base assms(2) _ assms(5) [unfolded ss]]
  have "(pref s i 0, [''from'', s_Sources s ! i, ''lookup'', ''main'', ''suppress_prefixlength'', ''0'']) \<in> set (body_list s final)"
    "(pref s i 1, [''from'', s_Sources s ! i] @ final) \<in> set (body_list s final)"
    if "i < length (s_Sources s)" for i
    using that by (auto simp: body_list_def)
  with r assms(3) show ?thesis by blast
qed

text \<open>
  The interface names the package makes pass its own check, for a link and for a serving
  side, and the names of the serving side's three chains stay under the 29 bytes iptables allows.
\<close>

theorem made_names_fit:
  "ifaceName (exits_Iface n) = None \<and> ifaceName (ServeIface n) = None \<and>
   length (serve_chain (v\<lparr>v_Iface := ServeIface n\<rparr>) ''STACKR-XM-'') < 29"
  using exits_Iface_len [of n] exits_Iface_len [of "''serve:'' @ n"]
  by (auto simp: ifaceName_def ServeIface_def serve_chain_def)

text \<open>A serving side, a fence, and a runner that only keeps the rule table, for the witnesses.\<close>

definition ex_serve :: serve where
  "ex_serve = \<lparr>v_Iface = ''wgx-0123456789'', v_KeyFile = ''/k'', v_Port = 51900, v_PeerKey = ''pk'', v_Endpoint = [],
     v_Addr = ''10.90.0.1/32'', v_PeerAddr = ''10.90.0.2/32'', v_Subnets = [''10.7.0.0/24''], v_Uplink = ''eth0'',
     v_Table = 7, v_Mark = 7, v_Pref = 900, v_MTU = 0\<rparr>"

definition ex_fence :: fence where
  "ex_fence = \<lparr>f_Sources = [''10.7.0.0/24''], f_Uplink = ''eth0''\<rparr>"

definition ex_subject :: subject where
  "ex_subject = \<lparr>s_Sources = [''10.7.0.0/24'', ''10.8.0.0/24''], PrefBase = 1000\<rparr>"

definition ex_packet :: "addr \<Rightarrow> string \<Rightarrow> packet" where
  "ex_packet dst outif = \<lparr>pk_in = ''wgx-0123456789'', pk_out = outif, pk_src = ip4 10 7 0 9, pk_dst = dst, pk_proto = ''tcp'',
     pk_dport = 80, pk_ct = [''NEW''], pk_origdst = dst, pk_origport = 80, pk_icmp = []\<rparr>"

fun rule_run :: "(string \<Rightarrow> argv list) runner" where
  "rule_run w (ip # rule # op # pr # p # body) =
     ((if ip = ''ip'' \<and> rule = ''rule'' \<and> op = ''add'' then w(p := w p @ [body])
       else if ip = ''ip'' \<and> rule = ''rule'' \<and> op = ''del'' then w(p := tl (w p)) else w), None)"
| "rule_run w _ = (w, None)"

lemma rule_run_ok: "ip_rule_runner rule_run (\<lambda>w. w)"
  by (simp add: ip_rule_runner_def)

theorem Serve_Up_verdict_witness:
  "\<exists>ss. Serve_Up ex_serve = Inr ss \<and>
     nf_run 0 (\<lambda>_. []) (ex_packet (ip4 8 8 8 8) ''eth0'') (chain_rules ''filter'' (serve_chain ex_serve ''STACKR-XF-'') ss) = Accept \<and>
     nf_run 0 (\<lambda>_. []) (ex_packet (ip4 169 254 169 254) ''eth0'') (chain_rules ''filter'' (serve_chain ex_serve ''STACKR-XF-'') ss) = Drop"
proof -
  have "\<not> isl (Serve_Up ex_serve)" by code_simp
  then obtain ss where ss: "Serve_Up ex_serve = Inr ss" by (cases "Serve_Up ex_serve") simp_all
  have nets: "in_nets Refused_nets (ip4 169 254 169 254)" "\<not> in_nets Refused_nets (ip4 8 8 8 8)" by code_simp+
  have sel: "v_Iface ex_serve = ''wgx-0123456789''" "v_Uplink ex_serve = ''eth0''" by (simp_all add: ex_serve_def)
  show ?thesis
    using ss nets sel by (auto simp: Serve_Up_verdict [OF ss] ex_packet_def)
qed

theorem Fence_Up_verdict_witness:
  "\<exists>ss. Fence_Up ex_fence = Inr ss \<and>
     nf_run 0 (\<lambda>_. []) (ex_packet (ip4 8 8 8 8) ''eth0'') (chain_rules ''filter'' FenceChain ss) = Drop \<and>
     nf_run 0 (\<lambda>_. []) (ex_packet (ip4 10 9 9 9) ''eth0'') (chain_rules ''filter'' FenceChain ss) = Fall"
proof -
  have "\<not> isl (Fence_Up ex_fence)" by code_simp
  then obtain ss where ss: "Fence_Up ex_fence = Inr ss" by (cases "Fence_Up ex_fence") simp_all
  have nets: "in_nets Refused_nets (ip4 10 9 9 9)" "\<not> in_nets Refused_nets (ip4 8 8 8 8)"
    "in_nets (f_Sources ex_fence) (ip4 10 7 0 9)" by code_simp+
  have sel: "f_Uplink ex_fence = ''eth0''" by (simp add: ex_fence_def)
  show ?thesis
    using ss nets sel by (auto simp: Fence_Up_verdict [OF ss] ex_packet_def)
qed

theorem Route_leaves_exact_rules_witness:
  "let w = (\<lambda>_. [])(''1001'' := [[''blackhole'']]); w' = fst (Apply rule_run w (projr (Subject_Route ex_subject 7))) in
     w' (pref ex_subject 0 1) = [[''from'', ''10.7.0.0/24'', ''lookup'', ''7'']]"
proof -
  let ?w = "(\<lambda>_. [])(''1001'' := [[''blackhole'']])"
  have "\<not> isl (Subject_Route ex_subject 7)" by code_simp
  then obtain ss where ss: "Subject_Route ex_subject 7 = Inr ss" by (cases "Subject_Route ex_subject 7") simp_all
  have "snd (Apply rule_run ?w (projr (Subject_Route ex_subject 7))) = None" by code_simp
  then obtain w' where w': "Apply rule_run ?w ss = (w', None)" using ss by (cases "Apply rule_run ?w ss") simp
  have "pref_block_ok ex_subject" by code_simp
  moreover have "\<forall>p \<in> own_prefs ex_subject. length (?w p) \<le> 1" by simp
  ultimately have "w' (pref ex_subject 0 1) = [[''from'', s_Sources ex_subject ! 0] @ [''lookup'', itoa 7]]"
    using Route_leaves_exact_rules [OF rule_run_ok _ _ _ w', of ex_subject "[''lookup'', itoa 7]" 7] ss
    by (simp add: ex_subject_def)
  moreover have "itoa 7 = ''7''" by code_simp
  ultimately show ?thesis using ss w' by (simp add: ex_subject_def)
qed

end
