(* ===== verification/Exits_Ladder.thy ===== *)
theory Exits_Ladder
  imports Exits_Rules
begin

text \<open>
  \<^verbatim>\<open>internal/exits/ladder.go\<close>: the health ladder that walks a subject down its exits when the live
  one stops answering and back up when a better one answers again.

  The pinger, the runner, the clock and the change callback are parameters: functions on a
  world.  Counters are natural numbers; a pass adds one to each at most.
\<close>

section \<open>Model\<close>

record rung =
  g_NodeID :: string
  g_Own :: bool
  g_Iface :: string
  g_Table :: int
  g_Target :: string

record lstate =
  Active :: int
  st_NodeID :: string
  Down :: bool
  Reason :: string
  Since :: int

text \<open>What the ladder is given: \<open>Ping\<close> returns the text of its error, \<open>OnChange\<close> is the identity when nil.\<close>

record 'w ladder_env =
  Ping :: "'w \<Rightarrow> rung \<Rightarrow> 'w \<times> string option"
  Cmd :: "'w runner"
  Now :: "'w \<Rightarrow> 'w \<times> int"
  OnChange :: "lstate \<Rightarrow> 'w \<Rightarrow> 'w"

record ladder =
  l_Subject :: subject
  l_Rungs :: "rung list"
  FailAfter :: int
  RecoverAfter :: int
  l_st :: lstate
  l_init :: bool
  l_good :: "nat list"
  l_bad :: "nat list"
  l_errs :: "string list"

definition NewLadder :: "subject \<Rightarrow> rung list \<Rightarrow> int \<Rightarrow> int \<Rightarrow> ladder" where
  "NewLadder s rungs fa ra =
     \<lparr>l_Subject = s, l_Rungs = rungs, FailAfter = fa, RecoverAfter = ra,
      l_st = \<lparr>Active = -1, st_NodeID = [], Down = False, Reason = [], Since = 0\<rparr>,
      l_init = False, l_good = [], l_bad = [], l_errs = []\<rparr>"

definition orDefault :: "int \<Rightarrow> int \<Rightarrow> int" where
  "orDefault v d = (if v < 1 then d else v)"

definition probe :: "'w ladder_env \<Rightarrow> 'w \<Rightarrow> ladder \<Rightarrow> nat \<Rightarrow> 'w \<times> ladder \<times> bool" where
  "probe e w l i = (case Ping e w (l_Rungs l ! i) of
     (w', None) \<Rightarrow> (w', l\<lparr>l_good := (l_good l)[i := l_good l ! i + 1], l_bad := (l_bad l)[i := 0],
                          l_errs := (l_errs l)[i := []]\<rparr>, True)
   | (w', Some m) \<Rightarrow> (w', l\<lparr>l_bad := (l_bad l)[i := l_bad l ! i + 1], l_good := (l_good l)[i := 0],
                            l_errs := (l_errs l)[i := m]\<rparr>, False))"

text \<open>The probing loops: the rungs of \<open>is\<close> in turn up to the first that answers with a streak of \<open>n\<close>.\<close>

fun probe_loop :: "'w ladder_env \<Rightarrow> int \<Rightarrow> 'w \<Rightarrow> ladder \<Rightarrow> nat list \<Rightarrow> 'w \<times> ladder \<times> nat option" where
  "probe_loop e n w l [] = (w, l, None)"
| "probe_loop e n w l (i # is) =
     (case probe e w l i of (w', l', ok) \<Rightarrow>
        if ok \<and> int (l_good l' ! i) \<ge> n then (w', l', Some i) else probe_loop e n w' l' is)"

definition idx :: "nat option \<Rightarrow> int" where
  "idx r = (case r of None \<Rightarrow> -1 | Some i \<Rightarrow> int i)"

definition reason :: "ladder \<Rightarrow> string" where
  "reason l =
     (if l_Rungs l = [] then ''no exits listed''
      else ''no exit answers ('' @ join_with ''; '' (map (\<lambda>i. g_NodeID (l_Rungs l ! i) @ '': '' @ l_errs l ! i)
             [0..<length (l_Rungs l)]) @ '')'')"

definition ladder_plan :: "ladder \<Rightarrow> int \<Rightarrow> err + step list" where
  "ladder_plan l i =
     (if i < 0 then Subject_Blackhole (l_Subject l)
      else if g_Own (l_Rungs l ! nat i) then Inr (Subject_Clear (l_Subject l))
      else Subject_Route (l_Subject l) (g_Table (l_Rungs l ! nat i)))"

definition ladder_apply :: "'w ladder_env \<Rightarrow> 'w \<Rightarrow> ladder \<Rightarrow> int \<Rightarrow> 'w \<times> error" where
  "ladder_apply e w l i = (case ladder_plan l i of Inl er \<Rightarrow> (w, Some er) | Inr steps \<Rightarrow> Apply (Cmd e) w steps)"

text \<open>The head of \<^verbatim>\<open>Tick\<close>: fresh counters when the number of rungs changed.\<close>

definition sized :: "ladder \<Rightarrow> ladder" where
  "sized l = (let n = length (l_Rungs l) in
     if length (l_good l) \<noteq> n then l\<lparr>l_good := replicate n 0, l_bad := replicate n 0, l_errs := replicate n []\<rparr> else l)"

text \<open>The switch of \<^verbatim>\<open>Tick\<close>: the health pass and the rung it settles on.\<close>

definition pass_down :: "'w ladder_env \<Rightarrow> 'w \<Rightarrow> ladder \<Rightarrow> nat \<Rightarrow> 'w \<times> ladder \<times> int" where
  "pass_down e w l a =
     (case probe_loop e 0 w l [Suc a..<length (l_Rungs l)] of
        (w', l', Some i) \<Rightarrow> (w', l', int i)
      | (w', l', None) \<Rightarrow> (w', l', idx (find (\<lambda>i. l_good l' ! i > 0) [0..<a])))"

definition pass :: "'w ladder_env \<Rightarrow> 'w \<Rightarrow> ladder \<Rightarrow> 'w \<times> ladder \<times> int" where
  "pass e w l =
     (if Active (l_st l) < 0 then
        (case probe_loop e 0 w l [0..<length (l_Rungs l)] of (w', l', r) \<Rightarrow>
           (w', l', case r of None \<Rightarrow> Active (l_st l) | Some i \<Rightarrow> int i))
      else
        let a = nat (Active (l_st l)) in
        (case probe_loop e (orDefault (RecoverAfter l) 2) w l [0..<a] of
           (w', l', Some i) \<Rightarrow> (w', l', int i)
         | (w', l', None) \<Rightarrow>
           (case probe e w' l' a of (w'', l'', ok) \<Rightarrow>
              if \<not> ok \<and> int (l_bad l'' ! a) \<ge> orDefault (FailAfter l) 3 then pass_down e w'' l'' a
              else (w'', l'', int a))))"

definition new_state :: "ladder \<Rightarrow> int \<Rightarrow> int \<Rightarrow> lstate" where
  "new_state l next t =
     (if next \<ge> 0 then \<lparr>Active = next, st_NodeID = g_NodeID (l_Rungs l ! nat next), Down = False, Reason = [], Since = t\<rparr>
      else \<lparr>Active = next, st_NodeID = [], Down = True, Reason = reason l, Since = t\<rparr>)"

definition Tick :: "'w ladder_env \<Rightarrow> 'w \<Rightarrow> ladder \<Rightarrow> 'w \<times> ladder \<times> lstate \<times> error" where
  "Tick e w l0 =
     (case pass e w (sized l0) of (w1, l, next) \<Rightarrow>
        if l_init l \<and> next = Active (l_st l) \<and> (next \<ge> 0 \<or> Down (l_st l)) then (w1, l, l_st l, None)
        else (case ladder_apply e w1 l next of
            (w2, Some er) \<Rightarrow> (w2, l, l_st l, Some er)
          | (w2, None) \<Rightarrow>
            (case Now e w2 of (w3, t) \<Rightarrow>
               let st = new_state l next t in (OnChange e st w3, l\<lparr>l_st := st, l_init := True\<rparr>, st, None))))"

text \<open>\<^verbatim>\<open>Loop\<close>: \<open>n\<close> ticks, with the errors handed to onErr.\<close>

fun Loop_ticks :: "'w ladder_env \<Rightarrow> nat \<Rightarrow> 'w \<Rightarrow> ladder \<Rightarrow> 'w \<times> ladder \<times> err list" where
  "Loop_ticks e 0 w l = (w, l, [])"
| "Loop_ticks e (Suc n) w l =
     (case Tick e w l of (w1, l1, st, er) \<Rightarrow>
        (case Loop_ticks e n w1 l1 of (w2, l2, ers) \<Rightarrow>
           (w2, l2, (case er of None \<Rightarrow> [] | Some x \<Rightarrow> [x]) @ ers)))"

section \<open>Specification\<close>

definition sized_ok :: "ladder \<Rightarrow> bool" where
  "sized_ok l \<longleftrightarrow> length (l_good l) = length (l_Rungs l) \<and> length (l_bad l) = length (l_Rungs l) \<and>
     length (l_errs l) = length (l_Rungs l)"

text \<open>What the counters say of a rung's last probe.\<close>

definition answered :: "ladder \<Rightarrow> nat \<Rightarrow> bool" where
  "answered l i \<longleftrightarrow> l_good l ! i > 0 \<and> l_bad l ! i = 0"

definition failed :: "ladder \<Rightarrow> nat \<Rightarrow> bool" where
  "failed l i \<longleftrightarrow> l_bad l ! i > 0 \<and> l_good l ! i = 0"

definition ladder_ok :: "ladder \<Rightarrow> bool" where
  "ladder_ok l \<longleftrightarrow>
     (length (l_good l) = length (l_Rungs l) \<longrightarrow> sized_ok l) \<and>
     -1 \<le> Active (l_st l) \<and> Active (l_st l) < int (length (l_Rungs l)) \<and>
     (Down (l_st l) \<longleftrightarrow> l_init l \<and> Active (l_st l) = -1) \<and>
     (Active (l_st l) \<ge> 0 \<longrightarrow> l_init l \<and> st_NodeID (l_st l) = g_NodeID (l_Rungs l ! nat (Active (l_st l))))"

text \<open>A pass changes the counters only.\<close>

definition same_frame :: "ladder \<Rightarrow> ladder \<Rightarrow> bool" where
  "same_frame l l' \<longleftrightarrow> l_Subject l' = l_Subject l \<and> l_Rungs l' = l_Rungs l \<and> FailAfter l' = FailAfter l \<and>
     RecoverAfter l' = RecoverAfter l \<and> l_st l' = l_st l \<and> l_init l' = l_init l \<and> sized_ok l'"

definition same_at :: "ladder \<Rightarrow> ladder \<Rightarrow> nat \<Rightarrow> bool" where
  "same_at l l' j \<longleftrightarrow> l_good l' ! j = l_good l ! j \<and> l_bad l' ! j = l_bad l ! j"

section \<open>Lemmas\<close>

lemma same_frame_trans: "same_frame l l' \<Longrightarrow> same_frame l' l'' \<Longrightarrow> same_frame l l''"
  by (simp add: same_frame_def)

lemma same_at_trans: "same_at l l' j \<Longrightarrow> same_at l' l'' j \<Longrightarrow> same_at l l'' j"
  by (simp add: same_at_def)

lemma same_at_failed: "same_at l l' j \<Longrightarrow> failed l' j = failed l j" "same_at l l' j \<Longrightarrow> answered l' j = answered l j"
  by (simp_all add: same_at_def failed_def answered_def)

lemma probe_spec:
  assumes "sized_ok l" "i < length (l_Rungs l)" "probe e w l i = (w', l', ok)"
  shows "same_frame l l'" "if ok then answered l' i else failed l' i" "j \<noteq> i \<Longrightarrow> same_at l l' j"
  using assms by (auto simp: probe_def same_frame_def sized_ok_def answered_def failed_def same_at_def
      split: prod.splits option.splits)

text \<open>A rung the loop passed over: it failed, or its streak is still too short.\<close>

definition passed_over :: "int \<Rightarrow> ladder \<Rightarrow> nat \<Rightarrow> bool" where
  "passed_over n l j \<longleftrightarrow> failed l j \<or> (answered l j \<and> int (l_good l ! j) < n)"

lemma passed_over_0 [simp]: "passed_over 0 l j = failed l j"
  by (simp add: passed_over_def)

lemma same_at_passed_over: "same_at l l' j \<Longrightarrow> passed_over n l' j = passed_over n l j"
  by (simp add: passed_over_def same_at_failed) (simp add: same_at_def)

lemma probe_loop_spec:
  assumes "sized_ok l" "distinct is" "\<forall>i \<in> set is. i < length (l_Rungs l)" "probe_loop e n w l is = (w', l', r)"
  shows "same_frame l l' \<and> (\<forall>j. j \<notin> set is \<longrightarrow> same_at l l' j) \<and>
    (case r of None \<Rightarrow> \<forall>j \<in> set is. passed_over n l' j
     | Some i \<Rightarrow> \<exists>ys zs. is = ys @ i # zs \<and> answered l' i \<and> int (l_good l' ! i) \<ge> n \<and> (\<forall>j \<in> set ys. passed_over n l' j))"
  using assms
proof (induction "is" arbitrary: w l)
  case Nil
  then show ?case by (auto simp: same_frame_def same_at_def)
next
  case (Cons i "is")
  obtain w1 l1 ok where p: "probe e w l i = (w1, l1, ok)" by (metis prod_cases3)
  note ps = probe_spec [OF Cons.prems(1) _ p]
  have fr: "same_frame l l1" and ans: "if ok then answered l1 i else failed l1 i" and oth: "\<And>j. j \<noteq> i \<Longrightarrow> same_at l l1 j"
    using ps Cons.prems(3) by simp_all
  show ?case
  proof (cases "ok \<and> int (l_good l1 ! i) \<ge> n")
    case True
    with Cons.prems(4) p have "l' = l1" "r = Some i" by simp_all
    moreover have "\<exists>ys zs. i # is = ys @ i # zs \<and> answered l1 i \<and> int (l_good l1 ! i) \<ge> n \<and> (\<forall>j \<in> set ys. passed_over n l1 j)"
      using True ans by (intro exI [of _ "[]"] exI [of _ "is"]) simp
    ultimately show ?thesis using fr oth by simp
  next
    case False
    then have "probe_loop e n w1 l1 is = (w', l', r)" using Cons.prems(4) p by auto
    then have IH: "same_frame l1 l' \<and> (\<forall>j. j \<notin> set is \<longrightarrow> same_at l1 l' j) \<and>
      (case r of None \<Rightarrow> \<forall>j \<in> set is. passed_over n l' j
       | Some i \<Rightarrow> \<exists>ys zs. is = ys @ i # zs \<and> answered l' i \<and> int (l_good l' ! i) \<ge> n \<and> (\<forall>j \<in> set ys. passed_over n l' j))"
      using Cons.prems fr by (intro Cons.IH) (auto simp: same_frame_def)
    have po: "passed_over n l' i"
    proof -
      have "passed_over n l1 i" using False ans by (auto simp: passed_over_def split: if_splits)
      moreover have "same_at l1 l' i" using IH Cons.prems(2) by simp
      ultimately show ?thesis by (simp add: same_at_passed_over)
    qed
    have "same_frame l l' \<and> (\<forall>j. j \<notin> set (i # is) \<longrightarrow> same_at l l' j)"
      using IH fr oth same_frame_trans same_at_trans by (metis list.set_intros(1) list.set_intros(2))
    with IH po show ?thesis
      by (cases r) (auto, metis append_Cons set_ConsD)
  qed
qed

lemma upt_split: "[m..<n] = ys @ i # zs \<Longrightarrow> m \<le> i \<and> i < n \<and> ys = [m..<i]"
proof -
  assume s: "[m..<n] = ys @ i # zs"
  then have len: "length ys < n - m" by (metis length_append length_upt less_add_same_cancel1 length_greater_0_conv list.distinct(1))
  then have "i = m + length ys" using arg_cong [OF s, of "\<lambda>xs. xs ! length ys"] by simp
  moreover have "ys = [m..<m + length ys]"
    using arg_cong [OF s, of "take (length ys)"] len by simp
  ultimately show ?thesis using len by auto
qed

lemma sized_sized_ok: "ladder_ok l \<Longrightarrow> sized_ok (sized l)"
  by (auto simp: sized_def sized_ok_def ladder_ok_def Let_def)

lemma sized_simps [simp]:
  "l_st (sized l) = l_st l" "l_Rungs (sized l) = l_Rungs l" "l_init (sized l) = l_init l" "l_Subject (sized l) = l_Subject l"
  "FailAfter (sized l) = FailAfter l" "RecoverAfter (sized l) = RecoverAfter l"
  by (simp_all add: sized_def Let_def)

text \<open>Where a pass may end, from no live rung and from the live rung \<open>a\<close>.\<close>

definition lands_fresh :: "ladder \<Rightarrow> int \<Rightarrow> bool" where
  "lands_fresh l next \<longleftrightarrow>
     (next = -1 \<and> (\<forall>j < length (l_Rungs l). failed l j)) \<or>
     (\<exists>b < length (l_Rungs l). next = int b \<and> answered l b \<and> (\<forall>j < b. failed l j))"

definition lands_live :: "ladder \<Rightarrow> nat \<Rightarrow> int \<Rightarrow> bool" where
  "lands_live l a next \<longleftrightarrow>
     next = int a \<or>
     (\<exists>b < a. next = int b \<and> answered l b \<and> int (l_good l ! b) \<ge> orDefault (RecoverAfter l) 2) \<or>
     (failed l a \<and> int (l_bad l ! a) \<ge> orDefault (FailAfter l) 3 \<and>
       ((\<exists>b. a < b \<and> b < length (l_Rungs l) \<and> next = int b \<and> answered l b \<and> (\<forall>j. a < j \<and> j < b \<longrightarrow> failed l j)) \<or>
        (\<exists>b < a. next = int b \<and> answered l b \<and> (\<forall>j < b. failed l j) \<and> (\<forall>j. a < j \<and> j < length (l_Rungs l) \<longrightarrow> failed l j)) \<or>
        (next = -1 \<and> (\<forall>j < length (l_Rungs l). failed l j))))"

lemma pass_fresh:
  assumes "sized_ok l" "Active (l_st l) = -1" "pass e w l = (w', l', next)"
  shows "same_frame l l' \<and> lands_fresh l' next"
proof -
  obtain r where pl: "probe_loop e 0 w l [0..<length (l_Rungs l)] = (w', l', r)" and
    nx: "next = (case r of None \<Rightarrow> -1 | Some i \<Rightarrow> int i)"
    using assms(2,3) by (auto simp: pass_def split: prod.splits option.splits)
  note sp = probe_loop_spec [OF assms(1) _ _ pl]
  then have fr: "same_frame l l'" by simp
  then have rg: "l_Rungs l' = l_Rungs l" by (simp add: same_frame_def)
  show ?thesis
  proof (cases r)
    case None
    with sp nx fr rg show ?thesis by (simp add: lands_fresh_def)
  next
    case (Some i)
    with sp obtain ys zs where "[0..<length (l_Rungs l)] = ys @ i # zs" "answered l' i" "\<forall>j \<in> set ys. failed l' j" by auto
    with upt_split [OF this(1)] fr rg Some nx show ?thesis by (auto simp: lands_fresh_def)
  qed
qed

lemma pass_down_lands:
  assumes ok: "sized_ok l" and a: "a < length (l_Rungs l)" "failed l a" "int (l_bad l ! a) \<ge> orDefault (FailAfter l) 3"
    and above: "\<forall>j < a. failed l j \<or> answered l j" and pd: "pass_down e w l a = (w', l', next)"
  shows "same_frame l l' \<and> lands_live l' a next"
proof -
  obtain r where pl: "probe_loop e 0 w l [Suc a..<length (l_Rungs l)] = (w', l', r)"
    and nx: "next = (case r of None \<Rightarrow> idx (find (\<lambda>i. l_good l' ! i > 0) [0..<a]) | Some i \<Rightarrow> int i)"
    using pd by (auto simp: pass_down_def split: prod.splits option.splits)
  note sp = probe_loop_spec [OF ok _ _ pl]
  then have fr: "same_frame l l'" and same: "\<And>j. j \<le> a \<Longrightarrow> same_at l l' j" by simp_all
  then have rg: "l_Rungs l' = l_Rungs l" "FailAfter l' = FailAfter l" by (simp_all add: same_frame_def)
  have live: "failed l' a" "int (l_bad l' ! a) \<ge> orDefault (FailAfter l') 3"
    using a same [of a] rg by (simp_all add: same_at_failed) (simp add: same_at_def)
  have above': "failed l' j \<or> answered l' j" if "j < a" for j
    using above that same [of j] by (simp add: same_at_failed)
  show ?thesis
  proof (cases r)
    case (Some i)
    with sp obtain ys zs where "[Suc a..<length (l_Rungs l)] = ys @ i # zs" "answered l' i" "\<forall>j \<in> set ys. failed l' j" by auto
    with upt_split [OF this(1)] fr rg live Some nx show ?thesis by (auto simp: lands_live_def)
  next
    case None
    with sp rg have below: "\<forall>j. a < j \<and> j < length (l_Rungs l') \<longrightarrow> failed l' j" by auto
    show ?thesis
    proof (cases "find (\<lambda>i. l_good l' ! i > 0) [0..<a]")
      case None': None
      then have "\<forall>j < a. l_good l' ! j = 0" by (auto simp: find_None_iff)
      with above' have "\<forall>j < a. failed l' j" by (auto simp: answered_def)
      with below live have "\<forall>j < length (l_Rungs l'). failed l' j" by (metis linorder_neqE_nat)
      with None None' nx fr live show ?thesis by (auto simp: lands_live_def idx_def)
    next
      case (Some b)
      from find_first [OF this] obtain ys zs where s: "[0..<a] = ys @ b # zs" "l_good l' ! b > 0" "\<forall>y \<in> set ys. l_good l' ! y = 0" by auto
      then have b: "b < a" "ys = [0..<b]" using upt_split [OF s(1)] by simp_all
      have "answered l' b" using above' [OF b(1)] s(2) by (auto simp: failed_def)
      moreover have "failed l' j" if "j < b" for j
        using above' [of j] b that s(3) by (auto simp: answered_def)
      moreover note \<open>b < a\<close>
      ultimately show ?thesis using None Some nx fr live below by (auto simp: lands_live_def idx_def)
    qed
  qed
qed

lemma pass_live:
  assumes ok: "sized_ok l" and a: "Active (l_st l) = int a" "a < length (l_Rungs l)" and ps: "pass e w l = (w', l', next)"
  shows "same_frame l l' \<and> lands_live l' a next"
proof -
  obtain w1 l1 r where pl: "probe_loop e (orDefault (RecoverAfter l) 2) w l [0..<a] = (w1, l1, r)" by (metis prod_cases3)
  note sp = probe_loop_spec [OF ok _ _ pl]
  with a(2) have fr: "same_frame l l1" by simp
  then have rg: "sized_ok l1" "l_Rungs l1 = l_Rungs l" "FailAfter l1 = FailAfter l" "RecoverAfter l1 = RecoverAfter l"
    by (simp_all add: same_frame_def)
  show ?thesis
  proof (cases r)
    case (Some i)
    then have "l' = l1" "next = int i" using ps a pl by (simp_all add: pass_def Let_def)
    moreover obtain ys zs where "[0..<a] = ys @ i # zs" "answered l1 i" "int (l_good l1 ! i) \<ge> orDefault (RecoverAfter l) 2"
      using sp a(2) Some by auto
    ultimately show ?thesis using upt_split [of 0 a ys i zs] fr rg by (auto simp: lands_live_def)
  next
    case None
    with sp a(2) have above: "\<forall>j < a. passed_over (orDefault (RecoverAfter l) 2) l1 j" by simp
    obtain w2 l2 good where p: "probe e w1 l1 a = (w2, l2, good)" by (metis prod_cases3)
    note pr = probe_spec [OF rg(1) _ p]
    from pr a(2) rg have fr2: "same_frame l1 l2" and live: "if good then answered l2 a else failed l2 a"
      and oth: "\<And>j. j < a \<Longrightarrow> same_at l1 l2 j" by simp_all
    have l2: "sized_ok l2" "l_Rungs l2 = l_Rungs l" "FailAfter l2 = FailAfter l" using fr fr2 by (simp_all add: same_frame_def)
    have above2: "\<forall>j < a. failed l2 j \<or> answered l2 j"
      using above oth by (metis passed_over_def same_at_failed)
    show ?thesis
    proof (cases "\<not> good \<and> int (l_bad l2 ! a) \<ge> orDefault (FailAfter l) 3")
      case True
      then have "pass_down e w2 l2 a = (w', l', next)" using ps a pl p None by (simp add: pass_def Let_def)
      from pass_down_lands [OF l2(1) _ _ _ above2 this] True live a(2) l2
      show ?thesis using same_frame_trans [OF fr] same_frame_trans [OF fr2] by simp
    next
      case False
      then have "l' = l2" "next = int a" using ps a pl p None by (auto simp: pass_def Let_def)
      then show ?thesis using same_frame_trans [OF fr fr2] by (simp add: lands_live_def)
    qed
  qed
qed

text \<open>What a pass gives from any sound ladder.\<close>

definition lands :: "ladder \<Rightarrow> int \<Rightarrow> bool" where
  "lands l next \<longleftrightarrow> (if Active (l_st l) < 0 then lands_fresh l next else lands_live l (nat (Active (l_st l))) next)"

lemma pass_lands:
  assumes "ladder_ok l" "pass e w (sized l) = (w', l', next)"
  shows "same_frame (sized l) l' \<and> lands l' next"
proof (cases "Active (l_st l) < 0")
  case True
  with assms(1) have "Active (l_st (sized l)) = -1" by (simp add: ladder_ok_def)
  from pass_fresh [OF sized_sized_ok [OF assms(1)] this assms(2)] True show ?thesis
    by (simp add: lands_def same_frame_def)
next
  case False
  then have "Active (l_st (sized l)) = int (nat (Active (l_st l)))" "nat (Active (l_st l)) < length (l_Rungs (sized l))"
    using assms(1) by (auto simp: ladder_ok_def)
  from pass_live [OF sized_sized_ok [OF assms(1)] this assms(2)] False show ?thesis
    by (simp add: lands_def same_frame_def)
qed

lemma lands_bounds: "lands l next \<Longrightarrow> Active (l_st l) < int (length (l_Rungs l)) \<Longrightarrow> -1 \<le> next \<and> next < int (length (l_Rungs l))"
  by (auto simp: lands_def lands_fresh_def lands_live_def split: if_splits)

text \<open>The three outcomes of a tick: no change, a refused plan or command, or a switch.\<close>

lemma Tick_cases:
  assumes ok: "ladder_ok l" and t: "Tick e w l = (w', l', st, er)"
  obtains
    (keep) w1 l1 nx where "pass e w (sized l) = (w1, l1, nx)" "l_init l" "nx = Active (l_st l)" "w' = w1" "l' = l1" "st = l_st l" "er = None"
  | (fail) w1 l1 nx x where "pass e w (sized l) = (w1, l1, nx)" "ladder_apply e w1 l1 nx = (w', Some x)" "l' = l1" "st = l_st l" "er = Some x"
  | (switch) w1 l1 nx w2 w3 tm where "pass e w (sized l) = (w1, l1, nx)" "ladder_apply e w1 l1 nx = (w2, None)"
      "Now e w2 = (w3, tm)" "st = new_state l1 nx tm" "w' = OnChange e st w3" "l' = l1\<lparr>l_st := st, l_init := True\<rparr>" "er = None"
proof -
  obtain w1 l1 nx where p: "pass e w (sized l) = (w1, l1, nx)" by (metis prod_cases3)
  have "l_st l1 = l_st l" "l_init l1 = l_init l" using pass_lands [OF ok p] by (simp_all add: same_frame_def)
  note same = this
  obtain w2 ap where ap: "ladder_apply e w1 l1 nx = (w2, ap)" by (metis surj_pair)
  obtain w3 tm where nw: "Now e w2 = (w3, tm)" by (metis surj_pair)
  define c where "c \<longleftrightarrow> l_init l \<and> nx = Active (l_st l) \<and> (nx \<ge> 0 \<or> Down (l_st l))"
  let ?st = "new_state l1 nx tm"
  have tk: "(w', l', st, er) =
      (if c then (w1, l1, l_st l, None)
       else case ap of Some x \<Rightarrow> (w2, l1, l_st l, Some x)
       | None \<Rightarrow> (OnChange e ?st w3, l1\<lparr>l_st := ?st, l_init := True\<rparr>, ?st, None))"
    unfolding t [symmetric] Tick_def by (cases ap) (simp_all only: p same ap nw Let_def prod.case option.case c_def)
  show thesis
  proof (cases c)
    case True
    with tk have "w' = w1" "l' = l1" "st = l_st l" "er = None" by (simp_all only: if_True prod.inject)
    with True show thesis using keep [OF p] by (simp add: c_def)
  next
    case no: False
    show thesis
    proof (cases ap)
      case None
      with no tk have "st = ?st" "w' = OnChange e st w3" "l' = l1\<lparr>l_st := st, l_init := True\<rparr>" "er = None"
        by (simp_all only: if_False option.case prod.inject)
      with None show thesis using switch [OF p _ nw] ap by simp
    next
      case (Some x)
      with no tk have "w' = w2" "l' = l1" "st = l_st l" "er = Some x" by (simp_all only: if_False option.case prod.inject)
      with Some show thesis using fail [OF p] ap by simp
    qed
  qed
qed

lemma Tick_ok:
  assumes ok: "ladder_ok l" and t: "Tick e w l = (w', l', st, er)"
  shows "ladder_ok l' \<and> l_st l' = st \<and> l_Rungs l' = l_Rungs l \<and> l_Subject l' = l_Subject l"
  using ok t
proof (cases rule: Tick_cases)
  case (keep w1 l1 nx)
  with pass_lands [OF ok keep(1)] ok show ?thesis by (auto simp: same_frame_def ladder_ok_def)
next
  case (fail w1 l1 nx x)
  with pass_lands [OF ok fail(1)] ok show ?thesis by (auto simp: same_frame_def ladder_ok_def)
next
  case (switch w1 l1 nx w2 w3 tm)
  from pass_lands [OF ok switch(1)] have fr: "same_frame (sized l) l1" and ld: "lands l1 nx" by simp_all
  with ok have "-1 \<le> nx \<and> nx < int (length (l_Rungs l1))"
    by (intro lands_bounds) (simp_all add: same_frame_def ladder_ok_def)
  with fr switch show ?thesis by (auto simp: same_frame_def ladder_ok_def new_state_def sized_ok_def)
qed

lemma NewLadder_ok: "ladder_ok (NewLadder s rungs fa ra)"
  by (simp add: NewLadder_def ladder_ok_def sized_ok_def)

lemma Loop_ticks_ok: "ladder_ok l \<Longrightarrow> ladder_ok (fst (snd (Loop_ticks e n w l)))"
proof (induction n arbitrary: w l)
  case (Suc n)
  obtain w1 l1 st er where t: "Tick e w l = (w1, l1, st, er)" by (metis prod_cases4)
  with Tick_ok [OF Suc.prems t] Suc.IH [of l1 w1] show ?case by (auto split: prod.splits)
qed simp

subsection \<open>The rules the ladder leaves\<close>

text \<open>The rules the reported state stands for, at the priorities of source \<open>i\<close>.\<close>

definition state_rules :: "ladder \<Rightarrow> nat \<Rightarrow> nat \<Rightarrow> argv list" where
  "state_rules l i off =
     (let a = Active (l_st l); src = s_Sources (l_Subject l) ! i in
      if a \<ge> 0 \<and> g_Own (l_Rungs l ! nat a) then []
      else if off = 0 then [[''from'', src, ''lookup'', ''main'', ''suppress_prefixlength'', ''0'']]
      else if a \<ge> 0 then [[''from'', src, ''lookup'', itoa (g_Table (l_Rungs l ! nat a))]]
      else [[''from'', src, ''blackhole'']])"

definition rules_match :: "('w \<Rightarrow> string \<Rightarrow> argv list) \<Rightarrow> 'w \<Rightarrow> ladder \<Rightarrow> bool" where
  "rules_match rules w l \<longleftrightarrow>
     (\<forall>i < length (s_Sources (l_Subject l)). \<forall>off < 2. rules w (pref (l_Subject l) i off) = state_rules l i off)"

text \<open>The commands behave as \<^verbatim>\<open>ip rule\<close> does; probing, the clock and the callback leave the rules alone.\<close>

definition ladder_env_ok :: "'w ladder_env \<Rightarrow> ('w \<Rightarrow> string \<Rightarrow> argv list) \<Rightarrow> bool" where
  "ladder_env_ok e rules \<longleftrightarrow> ip_rule_runner (Cmd e) rules \<and> (\<forall>w g. rules (fst (Ping e w g)) = rules w) \<and>
     (\<forall>w. rules (fst (Now e w)) = rules w) \<and> (\<forall>w st. rules (OnChange e st w) = rules w)"

lemma probe_loop_rules: "ladder_env_ok e rules \<Longrightarrow> rules (fst (probe_loop e n w l is)) = rules w"
proof (induction "is" arbitrary: w l)
  case (Cons i "is")
  obtain w1 l1 ok where p: "probe e w l i = (w1, l1, ok)" by (metis prod_cases3)
  then have "w1 = fst (Ping e w (l_Rungs l ! i))" by (auto simp: probe_def split: prod.splits option.splits)
  with Cons p show ?case by (simp add: ladder_env_ok_def)
qed simp

lemma pass_rules:
  assumes ok: "ladder_env_ok e rules"
  shows "rules (fst (pass e w l)) = rules w"
proof -
  have pr: "rules w1 = rules w" if "probe e w l i = (w1, l1, b)" for w w1 l l1 i b
    using that ok by (auto simp: probe_def ladder_env_ok_def split: prod.splits option.splits) (metis fst_conv)+
  have pl: "rules w1 = rules w" if "probe_loop e n w l is = (w1, r)" for w w1 l n r "is"
    using probe_loop_rules [OF ok, of n w l "is"] that by simp
  have pd: "rules (fst (pass_down e w l a)) = rules w" for w l a
    by (auto simp: pass_down_def pl split: prod.splits option.splits)
  show ?thesis
    unfolding pass_def Let_def using pr pl pd by (auto split: prod.splits option.splits)
qed

lemma clear_rules:
  assumes run: "ip_rule_runner run rules" and ok: "PrefBase s \<ge> 1" "pref_block_ok s"
    and one: "\<And>p. p \<in> own_prefs s \<Longrightarrow> length (rules w p) \<le> 1"
  shows "p \<in> own_prefs s \<Longrightarrow> rules (fst (Apply run w (Subject_Clear s))) p = []"
    and "p \<notin> own_prefs s \<Longrightarrow> rules (fst (Apply run w (Subject_Clear s))) p = rules w p"
proof -
  have q: "snd (Apply run w (Subject_Clear s)) = None"
    by (rule Apply_all_quiet) (auto simp: Subject_Clear_def list_all_iff)
  have eq: "rules (fst (Apply run w (Subject_Clear s))) p =
      fold op_bodies (if p \<in> own_prefs s then [Del p] else []) (rules w p)" for p
    using run_ops [OF run, of w "map Del (pref_list s)" p] q
    by (simp add: Clear_ops filter_dels [OF distinct_pref_list [OF ok]] set_pref_list)
  show "p \<in> own_prefs s \<Longrightarrow> rules (fst (Apply run w (Subject_Clear s))) p = []"
    unfolding eq using one [of p] by (cases "rules w p") auto
  show "p \<notin> own_prefs s \<Longrightarrow> rules (fst (Apply run w (Subject_Clear s))) p = rules w p"
    unfolding eq by simp
qed

lemma own_prefs_iff: "p \<in> own_prefs s \<longleftrightarrow> (\<exists>i < length (s_Sources s). \<exists>off < 2. p = pref s i off)"
  by (auto simp: own_prefs_def)

lemma state_rules_one: "rules_match rules w l \<Longrightarrow> p \<in> own_prefs (l_Subject l) \<Longrightarrow> length (rules w p) \<le> 1"
  by (auto simp: rules_match_def own_prefs_iff state_rules_def Let_def)

lemma ladder_apply_rules:
  assumes run: "ip_rule_runner (Cmd e) rules" and blk: "pref_block_ok (l_Subject l)" and base: "PrefBase (l_Subject l) \<ge> 1"
    and one: "\<And>p. p \<in> own_prefs (l_Subject l) \<Longrightarrow> length (rules w p) \<le> 1"
    and ap: "ladder_apply e w l nx = (w', None)"
  shows "rules_match rules w' (l\<lparr>l_st := new_state l nx t, l_init := True\<rparr>)"
    and "p \<notin> own_prefs (l_Subject l) \<Longrightarrow> rules w' p = rules w p"
proof -
  let ?s = "l_Subject l" and ?l' = "l\<lparr>l_st := new_state l nx t, l_init := True\<rparr>"
  obtain ss where ss: "ladder_plan l nx = Inr ss" "Apply (Cmd e) w ss = (w', None)"
    using ap by (auto simp: ladder_apply_def split: sum.splits)
  have "rules_match rules w' ?l' \<and> (\<forall>p. p \<notin> own_prefs ?s \<longrightarrow> rules w' p = rules w p)"
  proof (cases "nx \<ge> 0 \<and> g_Own (l_Rungs l ! nat nx)")
    case True
    then have "w' = fst (Apply (Cmd e) w (Subject_Clear ?s))" using ss by (simp add: ladder_plan_def)
    with clear_rules [OF run base blk one] have "\<forall>p. rules w' p = (if p \<in> own_prefs ?s then [] else rules w p)" by simp
    with True show ?thesis by (auto simp: rules_match_def state_rules_def new_state_def own_prefs_iff)
  next
    case False
    define final where "final = (if nx < 0 then [''blackhole''] else [''lookup'', itoa (g_Table (l_Rungs l ! nat nx))])"
    have sse: "ss = Subject_Clear ?s @ concat (map (source_rules ?s final) [0..<length (s_Sources ?s)])"
      using ss(1) False by (auto simp: ladder_plan_def final_def Subject_Route_def Subject_Blackhole_def
          split: option.splits if_splits)
    have r1: "rules w' p = [b]" if "(p, b) \<in> set (body_list ?s final)" for p b
      by (rule refill_rules(1) [OF run base blk _ ss(2) [unfolded sse] that]) (rule one)
    have r2: "rules w' p = rules w p" if "p \<notin> own_prefs ?s" for p
      by (rule refill_rules(2) [OF run base blk _ ss(2) [unfolded sse] that]) (rule one)
    have m: "(pref ?s i 0, [''from'', s_Sources ?s ! i, ''lookup'', ''main'', ''suppress_prefixlength'', ''0'']) \<in> set (body_list ?s final)"
      "(pref ?s i 1, [''from'', s_Sources ?s ! i] @ final) \<in> set (body_list ?s final)" if "i < length (s_Sources ?s)" for i
      using that by (auto simp: body_list_def)
    have "rules w' (pref ?s i off) = state_rules ?l' i off" if "i < length (s_Sources ?s)" "off < 2" for i off
    proof -
      from that(2) have "off = 0 \<or> off = 1" by auto
      with r1 [OF m(1) [OF that(1)]] r1 [OF m(2) [OF that(1)]] False show ?thesis
        by (auto simp: state_rules_def new_state_def final_def)
    qed
    with r2 show ?thesis by (simp add: rules_match_def)
  qed
  then show "rules_match rules w' ?l'" "p \<notin> own_prefs ?s \<Longrightarrow> rules w' p = rules w p" by simp_all
qed

lemma Tick_rules:
  assumes e: "ladder_env_ok e rules" and ok: "ladder_ok l" and s: "pref_block_ok (l_Subject l)" "PrefBase (l_Subject l) \<ge> 1"
    and one: "\<And>p. p \<in> own_prefs (l_Subject l) \<Longrightarrow> length (rules w p) \<le> 1"
    and m: "l_init l \<Longrightarrow> rules_match rules w l" and t: "Tick e w l = (w', l', st, None)"
  shows "rules_match rules w' l' \<and> l_init l' \<and> (\<forall>p. p \<notin> own_prefs (l_Subject l) \<longrightarrow> rules w' p = rules w p)"
  using ok t
proof (cases rule: Tick_cases)
  case (keep w1 l1 nx)
  have "rules w' = rules w" using pass_rules [OF e, of w "sized l"] keep by simp
  moreover have "same_frame (sized l) l1" using pass_lands [OF ok keep(1)] by simp
  ultimately show ?thesis
    using m keep by (simp add: rules_match_def state_rules_def same_frame_def Let_def)
next
  case (switch w1 l1 nx w2 w3 tm)
  have w1: "rules w1 = rules w" using pass_rules [OF e, of w "sized l"] switch by simp
  have fr: "l_Subject l1 = l_Subject l" using pass_lands [OF ok switch(1)] by (simp add: same_frame_def)
  have "rules w' = rules w2" using e switch(3,5) by (simp add: ladder_env_ok_def) (metis fst_conv)
  moreover have "ip_rule_runner (Cmd e) rules" using e by (simp add: ladder_env_ok_def)
  from ladder_apply_rules(1) [OF this _ _ _ switch(2), where t = tm] ladder_apply_rules(2) [OF this _ _ _ switch(2)] fr s one w1
  have "rules_match rules w2 (l1\<lparr>l_st := new_state l1 nx tm, l_init := True\<rparr>)"
    "\<forall>p. p \<notin> own_prefs (l_Subject l) \<longrightarrow> rules w2 p = rules w p" by simp_all
  ultimately show ?thesis using switch fr by (simp add: rules_match_def)
qed simp

lemma Loop_ticks_rules:
  assumes e: "ladder_env_ok e rules" and ok: "ladder_ok l" and s: "pref_block_ok (l_Subject l)" "PrefBase (l_Subject l) \<ge> 1"
    and one: "\<And>p. p \<in> own_prefs (l_Subject l) \<Longrightarrow> length (rules w p) \<le> 1"
    and m: "l_init l \<Longrightarrow> rules_match rules w l" and t: "Loop_ticks e n w l = (w', l', [])" and n: "n > 0 \<or> l_init l"
  shows "rules_match rules w' l' \<and> (\<forall>p. p \<notin> own_prefs (l_Subject l) \<longrightarrow> rules w' p = rules w p)"
  using assms
proof (induction n arbitrary: w l)
  case (Suc n)
  obtain w1 l1 st er where t: "Tick e w l = (w1, l1, st, er)" by (metis prod_cases4)
  with Suc.prems(7) have er: "er = None" and rest: "Loop_ticks e n w1 l1 = (w', l', [])"
    by (auto split: prod.splits option.splits)
  note tr = Tick_rules [OF e Suc.prems(2-6) t [unfolded er]]
  note tk = Tick_ok [OF Suc.prems(2) t]
  have "rules_match rules w' l' \<and> (\<forall>p. p \<notin> own_prefs (l_Subject l1) \<longrightarrow> rules w' p = rules w1 p)"
    using tr tk Suc.prems(3,4) rest state_rules_one [of rules w1 l1] by (intro Suc.IH [OF e]) auto
  with tr tk show ?case by simp
qed simp

section \<open>Properties\<close>

text \<open>
  After any number of ticks a new ladder is sound: its counters fit its rungs, the active index is
  -1 or a rung, Down is reported exactly when a pass has been applied and no rung is active, and
  the node reported is the active rung's.
\<close>

theorem Ladder_invariant: "ladder_ok (fst (snd (Loop_ticks e n w (NewLadder s rungs fa ra))))"
  by (rule Loop_ticks_ok) (rule NewLadder_ok)

text \<open>
  A tick leaves a live rung only for a reason: a better rung has answered RecoverAfter times
  in a row, or the live rung has failed FailAfter times in a row; then the next rung is the first
  below that answers, else the first above whose last probe answered, and Down is reported only
  when the last probe of every rung failed.
\<close>

theorem Tick_switches_for_a_reason:
  assumes "ladder_ok l" and "Active (l_st l) = int a" and "Tick e w l = (w', l', st, er)" and "Active st \<noteq> int a"
  shows "(\<exists>b < a. Active st = int b \<and> int (l_good l' ! b) \<ge> orDefault (RecoverAfter l) 2) \<or>
    (int (l_bad l' ! a) \<ge> orDefault (FailAfter l) 3 \<and>
      ((\<exists>b. a < b \<and> b < length (l_Rungs l) \<and> Active st = int b \<and> answered l' b \<and> (\<forall>j. a < j \<and> j < b \<longrightarrow> failed l' j)) \<or>
       (\<exists>b < a. Active st = int b \<and> answered l' b \<and> (\<forall>j < b. failed l' j) \<and> (\<forall>j. a < j \<and> j < length (l_Rungs l) \<longrightarrow> failed l' j)) \<or>
       (Down st \<and> Reason st = reason l' \<and> (\<forall>j < length (l_Rungs l). failed l' j))))"
  using assms(1,3)
proof (cases rule: Tick_cases)
  case (switch w1 l1 nx w2 w3 tm)
  note p = pass_lands [OF assms(1) switch(1)]
  have "Active st = nx" using switch by (simp add: new_state_def)
  with p assms(2,4) have "lands_live l1 a (Active st)" "Active st \<noteq> int a" by (auto simp: lands_def same_frame_def)
  moreover have "l_good l' = l_good l1" "l_bad l' = l_bad l1" "l_Rungs l1 = l_Rungs l" "FailAfter l1 = FailAfter l"
    "RecoverAfter l1 = RecoverAfter l" "failed l' = failed l1" "answered l' = answered l1"
    using p switch by (simp_all add: same_frame_def failed_def [abs_def] answered_def [abs_def])
  moreover have "Active st = -1 \<Longrightarrow> Down st \<and> Reason st = reason l'"
    using \<open>Active st = nx\<close> switch by (auto simp: new_state_def reason_def)
  ultimately show ?thesis by (auto simp: lands_live_def)
qed (use assms in auto)

text \<open>
  From no live rung (a fresh or a blackholed ladder), a tick without an error takes the
  first rung that answers, all better ones having failed; when none answers it is Down, with
  the reason of every rung, and it stays or becomes initialised.
\<close>

theorem Tick_takes_first_answer:
  assumes "ladder_ok l" and "Active (l_st l) = -1" and "Tick e w l = (w', l', st, None)"
  shows "l_init l' \<and> ((Down st \<and> Active st = -1 \<and> (\<forall>j < length (l_Rungs l). failed l' j)) \<or>
    (\<exists>b < length (l_Rungs l). Active st = int b \<and> \<not> Down st \<and> st_NodeID st = g_NodeID (l_Rungs l ! b) \<and>
       answered l' b \<and> (\<forall>j < b. failed l' j)))"
  using assms(1,3)
proof (cases rule: Tick_cases)
  case (keep w1 l1 nx)
  with pass_lands [OF assms(1) keep(1)] assms(1,2) show ?thesis
    by (auto simp: lands_def lands_fresh_def same_frame_def ladder_ok_def)
next
  case (switch w1 l1 nx w2 w3 tm)
  have "failed l' = failed l1" "answered l' = answered l1"
    using switch by (simp_all add: failed_def [abs_def] answered_def [abs_def])
  with pass_lands [OF assms(1) switch(1)] switch assms(2) show ?thesis
    by (auto simp: lands_def lands_fresh_def same_frame_def new_state_def)
qed simp

text \<open>
  C19: As long as no rule command fails, the kernel's policy rules are those of the reported
  state after every tick: the active rung's table for each source, none for the own uplink, the
  blackhole when Down, and no rule of another priority is touched.
\<close>

theorem Ladder_rules_match_state:
  assumes "ladder_env_ok e rules" and "pref_block_ok s" and "PrefBase s \<ge> 1"
    and "\<forall>p \<in> own_prefs s. length (rules w p) \<le> 1"
    and "Loop_ticks e (Suc n) w (NewLadder s rungs fa ra) = (w', l', [])"
  shows "rules_match rules w' l' \<and> (\<forall>p. p \<notin> own_prefs s \<longrightarrow> rules w' p = rules w p)"
proof -
  have "l_Subject (NewLadder s rungs fa ra) = s" "\<not> l_init (NewLadder s rungs fa ra)" by (simp_all add: NewLadder_def)
  then show ?thesis
    using Loop_ticks_rules [OF assms(1) NewLadder_ok _ _ _ _ assms(5)] assms(2-4) by simp
qed

text \<open>An environment that counts the probes: the rule table, and the probes of node b's rung fail.\<close>

definition ex_rungs :: "rung list" where
  "ex_rungs = [\<lparr>g_NodeID = ''a'', g_Own = False, g_Iface = ''wgx-a'', g_Table = 7, g_Target = ''1.1.1.1''\<rparr>,
               \<lparr>g_NodeID = ''b'', g_Own = False, g_Iface = ''wgx-b'', g_Table = 8, g_Target = ''1.1.1.1''\<rparr>]"

definition ex_env :: "((string \<Rightarrow> argv list) \<times> nat) ladder_env" where
  "ex_env = \<lparr>Ping = (\<lambda>(r, n) g. ((r, Suc n), if g_NodeID g = ''a'' \<and> n \<ge> 1 then Some ''timeout'' else None)),
     Cmd = (\<lambda>(r, n) a. case rule_run r a of (r', e) \<Rightarrow> ((r', n), e)),
     Now = (\<lambda>w. (w, 5)), OnChange = (\<lambda>st w. w)\<rparr>"

definition ex_ladder :: ladder where
  "ex_ladder = NewLadder ex_subject ex_rungs 1 2"

lemma ex_env_ok: "ladder_env_ok ex_env fst"
  using rule_run_ok by (auto simp: ladder_env_ok_def ex_env_def ip_rule_runner_def split: prod.splits)

theorem Tick_switches_for_a_reason_witness:
  "let l = fst (snd (Loop_ticks ex_env 1 ((\<lambda>_. []), 0) ex_ladder)); t = Tick ex_env ((\<lambda>_. []), 1) l in
   Active (l_st l) = 0 \<and> Active (fst (snd (snd t))) = 1 \<and> l_bad (fst (snd t)) ! 0 \<ge> 1"
proof -
  define l where "l = fst (snd (Loop_ticks ex_env 1 ((\<lambda>_. []), 0) ex_ladder))"
  obtain w' l' st er where t: "Tick ex_env ((\<lambda>_. []), 1) l = (w', l', st, er)" by (metis prod_cases4)
  have "ladder_ok l" unfolding l_def ex_ladder_def by (rule Loop_ticks_ok) (rule NewLadder_ok)
  moreover have a: "Active (l_st l) = int 0" unfolding l_def by code_simp
  moreover have b: "Active st = 1"
  proof -
    have "Active (fst (snd (snd (Tick ex_env ((\<lambda>_. []), 1) (fst (snd (Loop_ticks ex_env 1 ((\<lambda>_. []), 0) ex_ladder))))))) = 1"
      by code_simp
    then show ?thesis using t by (simp add: l_def)
  qed
  moreover have "FailAfter l = 1" unfolding l_def by code_simp
  ultimately have "l_bad l' ! 0 \<ge> 1"
    using Tick_switches_for_a_reason [OF _ _ t, of 0] by (simp add: orDefault_def)
  with a b t show ?thesis unfolding l_def [symmetric] Let_def by simp
qed

theorem Tick_takes_first_answer_witness:
  "let t = Tick ex_env ((\<lambda>_. []), 0) ex_ladder in st_NodeID (fst (snd (snd t))) = ''a'' \<and> answered (fst (snd t)) 0"
proof -
  obtain w' l' st er where t: "Tick ex_env ((\<lambda>_. []), 0) ex_ladder = (w', l', st, er)" by (metis prod_cases4)
  have "snd (snd (snd (Tick ex_env ((\<lambda>_. []), 0) ex_ladder))) = None" by code_simp
  with t have er: "er = None" by simp
  have a: "Active st = 0"
  proof -
    have "Active (fst (snd (snd (Tick ex_env ((\<lambda>_. []), 0) ex_ladder)))) = 0" by code_simp
    with t show ?thesis by simp
  qed
  have "ladder_ok ex_ladder" unfolding ex_ladder_def by (rule NewLadder_ok)
  moreover have "Active (l_st ex_ladder) = -1" by code_simp
  moreover have "g_NodeID (l_Rungs ex_ladder ! 0) = ''a''" by code_simp
  ultimately show ?thesis
    using Tick_takes_first_answer [OF _ _ t [unfolded er]] a t by auto
qed

theorem Ladder_rules_match_state_witness:
  "let r = Loop_ticks ex_env (Suc 1) ((\<lambda>_. []), 0) ex_ladder in
   fst (fst r) (pref ex_subject 0 1) = [[''from'', ''10.7.0.0/24'', ''lookup'', ''8'']]"
proof -
  obtain w' l' ers where r: "Loop_ticks ex_env (Suc 1) ((\<lambda>_. []), 0) ex_ladder = (w', l', ers)" by (metis prod_cases3)
  have "snd (snd (Loop_ticks ex_env (Suc 1) ((\<lambda>_. []), 0) ex_ladder)) = []" by code_simp
  with r have "ers = []" by simp
  have st: "state_rules l' 0 1 = [[''from'', ''10.7.0.0/24'', ''lookup'', ''8'']]"
  proof -
    have "state_rules (fst (snd (Loop_ticks ex_env (Suc 1) ((\<lambda>_. []), 0) ex_ladder))) 0 1 = [[''from'', ''10.7.0.0/24'', ''lookup'', ''8'']]"
      by code_simp
    with r show ?thesis by simp
  qed
  have sub: "l_Subject l' = ex_subject"
  proof -
    have "s_Sources (l_Subject (fst (snd (Loop_ticks ex_env (Suc 1) ((\<lambda>_. []), 0) ex_ladder)))) = s_Sources ex_subject"
      "PrefBase (l_Subject (fst (snd (Loop_ticks ex_env (Suc 1) ((\<lambda>_. []), 0) ex_ladder)))) = PrefBase ex_subject"
      by code_simp+
    with r show ?thesis by (simp add: subject.equality)
  qed
  have "pref_block_ok ex_subject" "PrefBase ex_subject \<ge> 1" by code_simp+
  then have "rules_match fst w' l'"
    using Ladder_rules_match_state [OF ex_env_ok, of ex_subject "((\<lambda>_. []), 0)" 1 ex_rungs 1 2] r \<open>ers = []\<close>
    by (simp add: ex_ladder_def del: Loop_ticks.simps)
  then show ?thesis using r st sub by (simp add: rules_match_def ex_subject_def del: Loop_ticks.simps)
qed

text \<open>
  After a failed switch the next tick does not always try again.  The second probe of the only
  rung fails, the blackhole is half applied (the old rules are gone, the new ones refused) and
  the error is reported; the third probe answers, the tick returns without an error and with the
  rung active, and the subject is left without its rules: its traffic takes the main table.
\<close>

definition flaky_env :: "((string \<Rightarrow> argv list) \<times> nat) ladder_env" where
  "flaky_env = \<lparr>Ping = (\<lambda>(r, n) g. ((r, Suc n), if n = 1 then Some ''timeout'' else None)),
     Cmd = (\<lambda>(r, n) a. if n = 2 \<and> a ! 2 = ''add'' then ((r, n), Some (Errorf ''busy'' []))
                     else case rule_run r a of (r', e) \<Rightarrow> ((r', n), e)),
     Now = (\<lambda>w. (w, 5)), OnChange = (\<lambda>st w. w)\<rparr>"

theorem Tick_may_leave_stale_rules:
  "let r = Loop_ticks flaky_env 3 ((\<lambda>_. []), 0) (NewLadder ex_subject (take 1 ex_rungs) 1 2); l = fst (snd r) in
   length (snd (snd r)) = 1 \<and> Active (l_st l) = 0 \<and> \<not> Down (l_st l) \<and>
   fst (fst r) (pref ex_subject 0 1) = [] \<and> state_rules l 0 1 = [[''from'', ''10.7.0.0/24'', ''lookup'', ''7'']]"
  by code_simp

end
