(* ===== verification/Vip_Filter.thy ===== *)
theory Vip_Filter
  imports Mesh Netfilter "HOL-Library.AList"
begin

text \<open>
  \<^verbatim>\<open>internal/service/internal/vip/filter.go\<close>: the filter table of a node, what its containers may reach
  and who may reach them.  A rule is kept as its matches and target, with the function that
  prints it; \<open>renderFilter\<close> is the text the Go code writes.  Maps are association lists with
  distinct keys; the code only reads them by key or in key order, or in any order to find an error.
\<close>

section \<open>Model: inputs\<close>

definition FwdChain :: string where "FwdChain = ''STACKR-FWD''"
definition InChain :: string where "InChain = ''STACKR-IN''"
definition XNChain :: string where "XNChain = ''STACKR-XN''"
definition FwdOwnChain :: string where "FwdOwnChain = ''STACKR-FWD-OWN''"
definition InOwnChain :: string where "InOwnChain = ''STACKR-IN-OWN''"
definition RawChain :: string where "RawChain = ''STACKR-RAW''"
definition NATChain :: string where "NATChain = ''STACKR-NAT''"

definition ExitPortLo :: int where "ExitPortLo = 52000"
definition ExitPortHi :: int where "ExitPortHi = 52255"
definition WorkerAPIPort :: int where "WorkerAPIPort = 7443"

record entry =
  Replicas :: "string list"
  Lan :: "string list"

record flow =
  fl_Src :: pfx
  fl_VIP :: addr
  fl_Port :: int
  fl_Out :: bool

record base =
  b_Range :: pfx
  b_Own :: "pfx list"
  b_Cluster :: pfx
  b_Resolvers :: "string list"
  b_ProxyIP :: string
  b_HostProxy :: bool
  b_Front :: "string list"
  b_PanelBind :: string
  b_PanelPort :: int
  b_WGIface :: string
  b_WGController :: addr
  b_WGPanelPort :: int
  b_Flows :: "flow list"
  b_early :: "(string \<times> string list) list"

definition meshOn :: "base \<Rightarrow> bool" where
  "meshOn b \<longleftrightarrow> b_WGIface b \<noteq> [] \<and> pfx_IsValid (b_Cluster b) \<and> pfx_IsValid (b_Range b)"

definition private_nets :: "string list" where
  "private_nets = [''10.0.0.0/8'', ''172.16.0.0/12'', ''192.168.0.0/16'', ''169.254.0.0/16'', ''100.64.0.0/10'']"

section \<open>Model: grants and checks\<close>

record lanSpec =
  ls_dst :: pfx
  ls_port :: int

definition zero_lan :: lanSpec where
  "zero_lan = \<lparr>ls_dst = Pfx AddrZero None, ls_port = 0\<rparr>"

definition lan_dst :: "string \<Rightarrow> pfx option" where
  "lan_dst s =
     (let asaddr = (case ParseAddr s of Some a \<Rightarrow> if Is4 a then Some (PrefixFrom a 32) else None | None \<Rightarrow> None)
      in case ParsePrefix s of
           Some p \<Rightarrow> if Is4 (pfx_addr p) then Some (Masked p) else asaddr
         | None \<Rightarrow> asaddr)"

text \<open>\<^verbatim>\<open>parseLan\<close> returns what it has read so far beside its error.\<close>

definition parseLan :: "string \<Rightarrow> lanSpec \<times> error" where
  "parseLan line =
     (let s = trim_prefix ''lan:'' (trim_space line);
          fin = (\<lambda>s port. case lan_dst s of
             Some d \<Rightarrow> (\<lparr>ls_dst = d, ls_port = port\<rparr>, None)
           | None \<Rightarrow> (zero_lan\<lparr>ls_port := port\<rparr>, Some (Errorf ''vip: lan %q is not an IPv4 address or CIDR'' [line])));
          bad = (zero_lan, Some (Errorf ''vip: lan %q has a bad port'' [line]))
      in case cut_last CHR '':'' s of
           None \<Rightarrow> fin s 0
         | Some (hst, prt) \<Rightarrow>
           (case atoi prt of
              Some p \<Rightarrow> if p < 1 \<or> p > 65535 then bad else fin hst p
            | None \<Rightarrow> bad))"

definition target :: "string \<Rightarrow> err + string" where
  "target s =
     (let bad = Inl (Errorf ''vip: %q is not an IPv4 address or CIDR'' [s]);
          asaddr = (case ParseAddr s of Some a \<Rightarrow> if Is4 a then Inr (addr_String a @ ''/32'') else bad | None \<Rightarrow> bad)
      in case ParsePrefix s of
           Some p \<Rightarrow> if Is4 (pfx_addr p) then Inr (pfx_String (Masked p)) else asaddr
         | None \<Rightarrow> asaddr)"

definition is_addr4 :: "string \<Rightarrow> bool" where
  "is_addr4 s \<longleftrightarrow> (case ParseAddr s of Some a \<Rightarrow> Is4 a | None \<Rightarrow> False)"

definition not_addr4 :: "string \<Rightarrow> err" where
  "not_addr4 s = Errorf ''vip: %q is not an IPv4 address'' [s]"

definition err_of :: "err + 'a \<Rightarrow> error" where
  "err_of r = (case r of Inl e \<Rightarrow> Some e | Inr _ \<Rightarrow> None)"

definition first_of :: "('a \<Rightarrow> error) \<Rightarrow> 'a list \<Rightarrow> error" where
  "first_of f xs = (case List.map_filter f xs of [] \<Rightarrow> None | e # _ \<Rightarrow> Some e)"

definition bad_iface_char :: "char \<Rightarrow> bool" where
  "bad_iface_char c \<longleftrightarrow> c = CHR '' '' \<or> c = CHR 0x09 \<or> c = CHR 0x0A \<or> c = CHR ''/''"

definition Base_check :: "base \<Rightarrow> error" where
  "Base_check b =
     (if \<not> pfx_IsValid (b_Range b) then None
      else first_of id
       [(if \<not> Is4 (pfx_addr (b_Range b)) then Some (Errorf ''vip: range %s is not IPv4'' [pfx_String (b_Range b)]) else None),
        first_of (\<lambda>o'. if \<not> Is4 (pfx_addr o') then Some (Errorf ''vip: network %s is not IPv4'' [pfx_String o']) else None) (b_Own b),
        (if pfx_IsValid (b_Cluster b) \<and> \<not> Is4 (pfx_addr (b_Cluster b))
         then Some (Errorf ''vip: cluster range %s is not IPv4'' [pfx_String (b_Cluster b)]) else None),
        first_of (\<lambda>r. err_of (target r)) (b_Resolvers b),
        first_of (\<lambda>f. err_of (target f)) (b_Front b),
        (if b_WGIface b \<noteq> [] \<and> (length (b_WGIface b) > 15 \<or> list_ex bad_iface_char (b_WGIface b))
         then Some (Errorf ''vip: %q is not an interface name'' [b_WGIface b]) else None),
        (if addr_IsValid (b_WGController b) \<and> \<not> Is4 (b_WGController b)
         then Some (Errorf ''vip: %s is not an IPv4 address'' [addr_String (b_WGController b)]) else None),
        (if b_WGPanelPort b < 0 \<or> b_WGPanelPort b > 65535
         then Some (Errorf ''vip: panel port %d out of range'' [itoa (b_WGPanelPort b)]) else None),
        first_of (\<lambda>a. if a \<noteq> [] \<and> \<not> is_addr4 a then Some (not_addr4 a) else None) [b_ProxyIP b, b_PanelBind b],
        (if b_PanelPort b < 0 \<or> b_PanelPort b > 65535
         then Some (Errorf ''vip: panel port %d out of range'' [itoa (b_PanelPort b)]) else None)])"

definition clusterNets :: "base \<Rightarrow> string list" where
  "clusterNets b = (if \<not> pfx_IsValid (b_Cluster b) then [] else [pfx_String (Masked (b_Cluster b)), pfx_String Transit])"

section \<open>Model: the rules\<close>

definition merged :: "(string \<times> entry) list \<Rightarrow> (string \<times> entry) list \<Rightarrow> (string \<times> entry) list" where
  "merged a b = foldl (\<lambda>out (k, v). AList.update (''early-'' @ k) v out) a b"

definition entry_of :: "(string \<times> entry) list \<Rightarrow> string \<Rightarrow> entry" where
  "entry_of m k = (case map_of m k of Some e \<Rightarrow> e | None \<Rightarrow> \<lparr>Replicas = [], Lan = []\<rparr>)"

text \<open>The rules of one grant line for one replica.\<close>

definition lan_line_rules :: "string \<Rightarrow> string \<Rightarrow> nf_rule list" where
  "lan_line_rules rep line =
     (let l = fst (parseLan line);
          s = MSrc (rep @ ''/32''); d = MDst (pfx_String (ls_dst l))
      in if ls_port l = 0 then [([s, d], ''RETURN'')]
         else map (\<lambda>proto. ([s, d, MProto proto, MDport (ls_port l) (ls_port l)], ''RETURN'')) [''tcp'', ''udp''])"

definition lanRules :: "(string \<times> entry) list \<Rightarrow> (string \<times> string list) list \<Rightarrow> nf_rule list" where
  "lanRules nxt early =
     (let m = merged nxt (map (\<lambda>(ip, lan). (ip, \<lparr>Replicas = [ip], Lan = lan\<rparr>)) early)
      in concat (map (\<lambda>v. concat (map (\<lambda>rep. concat (map (lan_line_rules rep) (Lan (entry_of m v)))) (Replicas (entry_of m v))))
           (sort (map fst m))))"

definition target_text :: "string \<Rightarrow> string" where
  "target_text s = (case target s of Inr t \<Rightarrow> t | Inl _ \<Rightarrow> [])"

definition resolver_rules :: "base \<Rightarrow> nf_rule list" where
  "resolver_rules b = concat (map (\<lambda>r. [([MDst (target_text r), MProto ''udp'', MDport 53 53], ''RETURN''),
                                          ([MDst (target_text r), MProto ''tcp'', MDport 53 53], ''RETURN'')]) (b_Resolvers b))"

definition own_texts :: "base \<Rightarrow> string list" where
  "own_texts b = map (\<lambda>o'. pfx_String (Masked o')) (b_Own b)"

definition fwd_rules :: "base \<Rightarrow> nf_rule list" where
  "fwd_rules b =
     (if meshOn b then
        concat (map (\<lambda>s. map (\<lambda>d. ([MIn (b_WGIface b), MOut (b_WGIface b), MSrc s, MDst d], ''ACCEPT'')) (clusterNets b)) (clusterNets b))
      else [])
     @ [([MNotCt [''NEW'']], ''RETURN'')]
     @ (if meshOn b then [([MIn (b_WGIface b)], XNChain)] else [])
     @ map (\<lambda>o'. ([MSrc o'], FwdOwnChain)) (own_texts b)
     @ [([], ''RETURN'')]"

definition fwd_own_rules :: "(string \<times> entry) list \<Rightarrow> base \<Rightarrow> nf_rule list" where
  "fwd_own_rules nxt b =
     map (\<lambda>o'. ([MDst o'], ''RETURN'')) (own_texts b)
     @ (if clusterNets b \<noteq> [] then [([], XNChain)] else [])
     @ map (\<lambda>c. ([MDst c], ''DROP'')) (clusterNets b)
     @ resolver_rules b
     @ (if b_ProxyIP b \<noteq> [] then [([MDst (b_ProxyIP b @ ''/32''), MProto ''tcp'', MDports [80, 443]], ''ACCEPT'')] else [])
     @ map (\<lambda>f. ([MDst (target_text f), MProto ''tcp'', MDports [80, 443]], ''RETURN'')) (b_Front b)
     @ lanRules nxt (b_early b)
     @ map (\<lambda>p. ([MDst p], ''DROP'')) private_nets"

definition in_rules :: "base \<Rightarrow> nf_rule list" where
  "in_rules b =
     [([MNotCt [''NEW'']], ''RETURN''), ([MIn ''lo''], ''RETURN'')]
     @ (if b_WGIface b \<noteq> [] then
          [([MIn (b_WGIface b), MProto ''udp'', MDport ExitPortLo ExitPortHi], ''RETURN'')]
          @ (if addr_IsValid (b_WGController b)
             then [([MIn (b_WGIface b), MSrc (addr_String (b_WGController b) @ ''/32''), MProto ''tcp'', MDport WorkerAPIPort WorkerAPIPort], ''RETURN'')]
             else [([MIn (b_WGIface b), MProto ''tcp'', MDport WorkerAPIPort WorkerAPIPort], ''RETURN'')])
          @ (if b_WGPanelPort b > 0
             then [([MIn (b_WGIface b), MProto ''tcp'', MDport (b_WGPanelPort b) (b_WGPanelPort b)], ''RETURN'')] else [])
          @ [([MIn (b_WGIface b), MSrc (pfx_String Transit), MDst (pfx_String Transit), MProto ''icmp'', MIcmp ''echo-request''], ''RETURN''),
             ([MIn (b_WGIface b)], ''DROP'')]
        else [])
     @ map (\<lambda>o'. ([MSrc o'], InOwnChain)) (own_texts b)"

definition in_own_rules :: "(string \<times> entry) list \<Rightarrow> base \<Rightarrow> nf_rule list" where
  "in_own_rules nxt b =
     resolver_rules b
     @ map (\<lambda>c. ([MDst c], ''DROP'')) (clusterNets b)
     @ lanRules nxt (b_early b)
     @ (if b_PanelBind b \<noteq> [] \<and> b_PanelPort b > 0
        then [([MDst (b_PanelBind b @ ''/32''), MProto ''tcp'', MDport (b_PanelPort b) (b_PanelPort b)], ''DROP'')] else [])
     @ (if b_HostProxy b then [([MProto ''tcp'', MDports [80, 443]], ''RETURN'')] else [])
     @ [([], ''DROP'')]"

definition flow_rule :: "base \<Rightarrow> flow \<Rightarrow> nf_rule" where
  "flow_rule b fl =
     (if fl_Out fl then ([MSrc (pfx_String (Masked (fl_Src fl))), MDst (addr_String (fl_VIP fl) @ ''/32''),
                          MProto ''tcp'', MDport (fl_Port fl) (fl_Port fl)], ''ACCEPT'')
      else ([MIn (b_WGIface b), MSrc (pfx_String (Masked (fl_Src fl))), MProto ''tcp'', MCt [''NEW''],
             MOrigDst (addr_String (fl_VIP fl)), MOrigPort (fl_Port fl)], ''ACCEPT''))"

definition xn_rules :: "base \<Rightarrow> nf_rule list" where
  "xn_rules b = map (flow_rule b) (b_Flows b)"

section \<open>Model: the text\<close>

definition nl :: string where "nl = [CHR 0x0A]"

fun print_match :: "nf_match \<Rightarrow> string" where
  "print_match (MIn i) = ''-i '' @ i"
| "print_match (MOut i) = ''-o '' @ i"
| "print_match (MSrc s) = ''-s '' @ s"
| "print_match (MDst s) = ''-d '' @ s"
| "print_match (MCt cs) = ''-m conntrack --ctstate '' @ join_with '','' cs"
| "print_match (MNotCt cs) = ''-m conntrack ! --ctstate '' @ join_with '','' cs"
| "print_match (MProto p) = ''-p '' @ p"
| "print_match (MDport lo hi) = ''--dport '' @ (if lo = hi then itoa lo else itoa lo @ '':'' @ itoa hi)"
| "print_match (MDports ps) = ''-m multiport --dports '' @ join_with '','' (map itoa ps)"
| "print_match (MOrigDst s) = ''--ctorigdst '' @ s"
| "print_match (MOrigPort n) = ''--ctorigdstport '' @ itoa n"
| "print_match (MIcmp t) = ''--icmp-type '' @ t"

definition rule_text :: "nf_rule \<Rightarrow> string" where
  "rule_text r = concat (map (\<lambda>m. print_match m @ '' '') (fst r)) @ ''-j '' @ snd r"

definition rule_line :: "string \<Rightarrow> nf_rule \<Rightarrow> string" where
  "rule_line chain r = ''-A '' @ chain @ '' '' @ rule_text r @ nl"

definition chain_decl :: "string \<Rightarrow> string" where
  "chain_decl c = '':'' @ c @ '' - [0:0]'' @ nl"

definition filter_chains :: "(string \<times> entry) list \<Rightarrow> base \<Rightarrow> (string \<times> nf_rule list) list" where
  "filter_chains nxt b = [(FwdChain, fwd_rules b), (FwdOwnChain, fwd_own_rules nxt b), (InChain, in_rules b),
     (InOwnChain, in_own_rules nxt b), (XNChain, xn_rules b)]"

definition renderFilter :: "(string \<times> entry) list \<Rightarrow> base \<Rightarrow> string" where
  "renderFilter nxt b =
     ''*filter'' @ nl @ concat (map chain_decl [FwdChain, InChain, XNChain, FwdOwnChain, InOwnChain])
     @ concat (map (\<lambda>(c, rs). concat (map (rule_line c) rs)) (filter_chains nxt b))
     @ ''COMMIT'' @ nl"

section \<open>Specification\<close>

text \<open>What the inputs allow, read off addresses and not off rules.\<close>

definition nets_valid :: "base \<Rightarrow> bool" where
  "nets_valid b \<longleftrightarrow> list_all pfx_IsValid (b_Own b)"

definition to_own :: "base \<Rightarrow> addr \<Rightarrow> bool" where
  "to_own b a \<longleftrightarrow> list_ex (\<lambda>o'. Contains o' a) (b_Own b)"

definition in_cluster :: "base \<Rightarrow> addr \<Rightarrow> bool" where
  "in_cluster b a \<longleftrightarrow> pfx_IsValid (b_Cluster b) \<and> (Contains (b_Cluster b) a \<or> Contains Transit a)"

definition listed :: "string list \<Rightarrow> addr \<Rightarrow> bool" where
  "listed ss a \<longleftrightarrow> list_ex (\<lambda>s. case lan_dst s of Some d \<Rightarrow> Contains d a | None \<Rightarrow> False) ss"

definition dns_ok :: "base \<Rightarrow> packet \<Rightarrow> bool" where
  "dns_ok b p \<longleftrightarrow> listed (b_Resolvers b) (pk_dst p) \<and> (pk_proto p = ''udp'' \<or> pk_proto p = ''tcp'') \<and> pk_dport p = 53"

definition web :: "packet \<Rightarrow> bool" where
  "web p \<longleftrightarrow> pk_proto p = ''tcp'' \<and> (pk_dport p = 80 \<or> pk_dport p = 443)"

definition flow_ok :: "base \<Rightarrow> packet \<Rightarrow> bool" where
  "flow_ok b p \<longleftrightarrow> list_ex (\<lambda>fl. list_all (matches p) (fst (flow_rule b fl))) (b_Flows b)"

definition grant_ok :: "string \<Rightarrow> string \<Rightarrow> packet \<Rightarrow> bool" where
  "grant_ok rep line p \<longleftrightarrow>
     (let l = fst (parseLan line) in
      ParseAddr rep = Some (pk_src p) \<and> Contains (ls_dst l) (pk_dst p) \<and>
      (ls_port l = 0 \<or> (pk_proto p = ''tcp'' \<or> pk_proto p = ''udp'') \<and> pk_dport p = ls_port l))"

text \<open>The tiles' grants: of a routed replica, or of one still at its health gate.\<close>

definition lan_ok :: "(string \<times> entry) list \<Rightarrow> base \<Rightarrow> packet \<Rightarrow> bool" where
  "lan_ok nxt b p \<longleftrightarrow>
     (\<exists>(v, e) \<in> set nxt. \<exists>rep \<in> set (Replicas e). \<exists>line \<in> set (Lan e). grant_ok rep line p) \<or>
     (\<exists>(rep, lan) \<in> set (b_early b). \<exists>line \<in> set lan. grant_ok rep line p)"

definition fwd_own_policy :: "(string \<times> entry) list \<Rightarrow> base \<Rightarrow> packet \<Rightarrow> verdict" where
  "fwd_own_policy nxt b p =
     (if to_own b (pk_dst p) then Fall
      else if pfx_IsValid (b_Cluster b) \<and> flow_ok b p then Accept
      else if in_cluster b (pk_dst p) then Drop
      else if dns_ok b p then Fall
      else if b_ProxyIP b \<noteq> [] \<and> ParseAddr (b_ProxyIP b) = Some (pk_dst p) \<and> web p then Accept
      else if listed (b_Front b) (pk_dst p) \<and> web p then Fall
      else if lan_ok nxt b p then Fall
      else if in_nets private_nets (pk_dst p) then Drop
      else Fall)"

definition fwd_policy :: "(string \<times> entry) list \<Rightarrow> base \<Rightarrow> packet \<Rightarrow> verdict" where
  "fwd_policy nxt b p =
     (if meshOn b \<and> pk_in p = b_WGIface b \<and> pk_out p = b_WGIface b \<and> in_cluster b (pk_src p) \<and> in_cluster b (pk_dst p) then Accept
      else if ''NEW'' \<notin> set (pk_ct p) then Fall
      else if meshOn b \<and> pk_in p = b_WGIface b \<and> flow_ok b p then Accept
      else if to_own b (pk_src p) then fwd_own_policy nxt b p
      else Fall)"

definition mesh_admits :: "base \<Rightarrow> packet \<Rightarrow> bool" where
  "mesh_admits b p \<longleftrightarrow>
     (pk_proto p = ''udp'' \<and> ExitPortLo \<le> pk_dport p \<and> pk_dport p \<le> ExitPortHi) \<or>
     (pk_proto p = ''tcp'' \<and> pk_dport p = WorkerAPIPort \<and> (addr_IsValid (b_WGController b) \<longrightarrow> pk_src p = b_WGController b)) \<or>
     (pk_proto p = ''tcp'' \<and> b_WGPanelPort b > 0 \<and> pk_dport p = b_WGPanelPort b) \<or>
     (pk_proto p = ''icmp'' \<and> pk_icmp p = ''echo-request'' \<and> Contains Transit (pk_src p) \<and> Contains Transit (pk_dst p))"

text \<open>What reaches the script as text, checked: the VIPs, the replicas and the grants.\<close>

definition entry_checked :: "string \<times> entry \<Rightarrow> bool" where
  "entry_checked x \<longleftrightarrow> is_addr4 (fst x) \<and> list_all is_addr4 (Replicas (snd x)) \<and> list_all (\<lambda>l. snd (parseLan l) = None) (Lan (snd x))"

definition early_checked :: "string \<times> string list \<Rightarrow> bool" where
  "early_checked x \<longleftrightarrow> is_addr4 (fst x) \<and> list_all (\<lambda>l. snd (parseLan l) = None) (snd x)"

definition map_checked :: "(string \<times> entry) list \<Rightarrow> (string \<times> string list) list \<Rightarrow> bool" where
  "map_checked nxt early \<longleftrightarrow> distinct (map fst nxt) \<and> distinct (map fst early) \<and> list_all entry_checked nxt \<and> list_all early_checked early"

section \<open>Lemmas\<close>

subsection \<open>Checks\<close>

lemma first_of_None: "first_of f xs = None \<longleftrightarrow> (\<forall>x \<in> set xs. f x = None)"
  by (induction xs) (auto simp: first_of_def List.map_filter_def split: option.splits list.splits)

lemma err_of_None: "err_of r = None \<longleftrightarrow> (\<exists>x. r = Inr x)"
  by (auto simp: err_of_def split: sum.splits)

lemma Base_check_None:
  assumes "Base_check b = None" and "pfx_IsValid (b_Range b)"
  shows "Is4 (pfx_addr (b_Range b))" "\<forall>o' \<in> set (b_Own b). Is4 (pfx_addr o')"
    "pfx_IsValid (b_Cluster b) \<Longrightarrow> Is4 (pfx_addr (b_Cluster b))"
    "\<forall>r \<in> set (b_Resolvers b) \<union> set (b_Front b). \<exists>t. target r = Inr t"
    "b_WGIface b \<noteq> [] \<Longrightarrow> length (b_WGIface b) \<le> 15 \<and> \<not> list_ex bad_iface_char (b_WGIface b)"
    "addr_IsValid (b_WGController b) \<Longrightarrow> Is4 (b_WGController b)"
    "b_ProxyIP b \<noteq> [] \<Longrightarrow> is_addr4 (b_ProxyIP b)" "b_PanelBind b \<noteq> [] \<Longrightarrow> is_addr4 (b_PanelBind b)"
  using assms unfolding Base_check_def
  by (auto simp: first_of_None err_of_None split: if_splits)

lemma is_addr4E: "is_addr4 s \<Longrightarrow> \<exists>w. ParseAddr s = Some (Addr4 w)"
  by (auto simp: is_addr4_def split: option.splits elim: Is4.elims)

text \<open>A valid IPv4 prefix that was masked is printed and read back as itself.\<close>

lemma Is4E: "Is4 a \<Longrightarrow> \<exists>w. a = Addr4 w"
  by (cases a) simp_all

lemma withoutZone_4 [simp]: "withoutZone a = Addr4 w \<longleftrightarrow> a = Addr4 w"
  by (cases a) simp_all

lemma ParsePrefix_bits: "ParsePrefix s = Some p \<Longrightarrow> Is4 (pfx_addr p) \<Longrightarrow> pfx4_ok p"
  by (auto simp: ParsePrefix_def PrefixFrom_def pfx4_ok_def addr_IsValid_def split: option.splits prod.splits if_splits dest!: Is4E)

lemma in_net_Pfx4: "pfx4_ok q \<Longrightarrow> in_net (pfx_String q) a \<longleftrightarrow> Contains q a"
proof -
  assume "pfx4_ok q"
  then obtain w b where "q = Pfx (Addr4 w) (Some b)" "b \<le> 32" by (cases q) (auto simp: pfx4_ok_def dest!: Is4E)
  then show ?thesis by (simp add: in_net_def ParsePrefix_String4)
qed

lemma Masked_ok: "pfx4_ok p \<Longrightarrow> pfx4_ok (Masked p)"
  by (cases p) (auto simp: pfx4_ok_def Masked_def dest!: Is4E)

lemma PrefixFrom_32_ok: "pfx4_ok (PrefixFrom (Addr4 w) 32)"
  by (simp add: pfx4_ok_def PrefixFrom_def addr_IsValid_def)

lemma lan_dst_cases:
  assumes "lan_dst s = Some d"
  obtains (pfx) p where "ParsePrefix s = Some p" "pfx4_ok p" "d = Masked p"
  | (addr) w where "ParseAddr s = Some (Addr4 w)" "d = PrefixFrom (Addr4 w) 32"
      "\<forall>p. ParsePrefix s = Some p \<longrightarrow> \<not> Is4 (pfx_addr p)"
  using assms by (auto simp: lan_dst_def Let_def split: option.splits if_splits dest!: Is4E dest: ParsePrefix_bits)

lemma lan_dst_ok: "lan_dst s = Some d \<Longrightarrow> pfx4_ok d"
  by (elim lan_dst_cases) (simp_all add: Masked_ok PrefixFrom_32_ok)

lemma nat_str_32: "nat_str 32 = ''32''"
  by code_simp

text \<open>\<open>target\<close> and the grants read the same addresses.\<close>

lemma target_lan_dst: "target s = Inr t \<longleftrightarrow> (\<exists>d. lan_dst s = Some d \<and> t = pfx_String d)"
  by (auto simp: target_def lan_dst_def Let_def pfx_String_def PrefixFrom_def addr_IsValid_def nat_str_32
      split: option.splits if_splits dest!: Is4E)

lemma in_net_target: "target s = Inr t \<Longrightarrow> in_net t a \<longleftrightarrow> listed [s] a"
  by (auto simp: target_lan_dst in_net_Pfx4 lan_dst_ok listed_def)

subsection \<open>The lan rules\<close>

lemma parseLan_ok: "snd (parseLan line) = None \<Longrightarrow> pfx4_ok (ls_dst (fst (parseLan line)))"
  by (auto simp: parseLan_def Let_def lan_dst_ok split: option.splits prod.splits if_splits)

lemma lan_line_match:
  assumes "is_addr4 rep" "snd (parseLan line) = None"
  shows "any_match p (lan_line_rules rep line) \<longleftrightarrow> grant_ok rep line p"
proof -
  obtain w where w: "ParseAddr rep = Some (Addr4 w)" using is_addr4E [OF assms(1)] by blast
  then have "in_net (rep @ ''/32'') (pk_src p) \<longleftrightarrow> ParseAddr rep = Some (pk_src p)" by (auto simp: in_net_32)
  with in_net_Pfx4 [OF parseLan_ok [OF assms(2)]] show ?thesis
    by (auto simp: lan_line_rules_def grant_ok_def Let_def)
qed

lemma lan_line_return: "r \<in> set (lan_line_rules rep line) \<Longrightarrow> snd r = ''RETURN''"
  by (auto simp: lan_line_rules_def Let_def split: if_splits)

lemma merged_map_of:
  "distinct (map fst b) \<Longrightarrow> map_of (merged a b) = map_of a ++ map_of (map (\<lambda>(k, v). (''early-'' @ k, v)) b)"
proof (induction b arbitrary: a)
  case (Cons x b)
  obtain k v where x: "x = (k, v)" by (cases x)
  have "''early-'' @ k \<notin> fst ` set (map (\<lambda>(k, v). (''early-'' @ k, v)) b)" using Cons.prems x by (auto simp: image_iff)
  then have "map_of (map (\<lambda>(k, v). (''early-'' @ k, v)) b) (''early-'' @ k) = None" by (simp only: map_of_eq_None_iff) simp
  with Cons x show ?case
    by (auto simp: merged_def update_conv' map_add_def fun_eq_iff split: option.splits)
qed (simp add: merged_def)

lemma set_split_on: "x \<in> set s \<Longrightarrow> x = c \<or> (\<exists>w \<in> set (split_on c s). x \<in> set w)"
proof (induction s)
  case (Cons y s)
  then show ?case by (cases "split_on c s") auto
qed simp

text \<open>The text of an IPv4 address holds digits and dots only.\<close>

lemma is_addr4_chars: "is_addr4 v \<Longrightarrow> x \<in> set v \<Longrightarrow> is_digit x \<or> x = CHR ''.''"
proof -
  assume "is_addr4 v" and x: "x \<in> set v"
  then obtain w where "ParseAddr v = Some (Addr4 w)" by (auto dest: is_addr4E)
  then have "ipv4_fields v \<noteq> None"
    by (auto simp: ParseAddr_def parseIPv4_def parseIPv6_def Let_def split: option.splits prod.splits if_splits)
  then have "None \<notin> set (map octet (split_on CHR ''.'' v))" by (auto simp: ipv4_fields_def Let_def split: if_splits)
  then have "list_all is_digit f" if "f \<in> set (split_on CHR ''.'' v)" for f
    using that by (auto simp: octet_def image_iff split: if_splits)
  with set_split_on [OF x, of "CHR ''.''"] show ?thesis by (auto simp: list_all_iff)
qed

lemma not_early_addr4: "is_addr4 v \<Longrightarrow> v \<noteq> ''early-'' @ k"
  using is_addr4_chars [of v "CHR ''e''"] by (auto simp: is_digit_def less_eq_char_def)

lemma lanRules_match:
  assumes "map_checked nxt (b_early b)"
  shows "any_match p (lanRules nxt (b_early b)) \<longleftrightarrow> lan_ok nxt b p"
proof -
  define pend where "pend = map (\<lambda>(ip, lan). (ip, \<lparr>Replicas = [ip], Lan = lan\<rparr>)) (b_early b)"
  define m where "m = merged nxt pend"
  define Q where "Q e \<longleftrightarrow> (\<exists>rep \<in> set (Replicas e). \<exists>line \<in> set (Lan e). any_match p (lan_line_rules rep line))" for e :: entry
  have "map fst pend = map fst (b_early b)" by (auto simp: pend_def)
  then have dist: "distinct (map fst pend)" "distinct (map fst nxt)" using assms by (auto simp: map_checked_def)
  have keys: "map_of nxt (''early-'' @ k) = None" for k
    using assms not_early_addr4 by (fastforce simp: map_checked_def list_all_iff entry_checked_def map_of_eq_None_iff)
  let ?pm = "map_of (map (\<lambda>(k, v). (''early-'' @ k, v)) pend)"
  have dp: "distinct (map fst (map (\<lambda>(k, v). (''early-'' @ k, v)) pend))"
    using dist(1) by (simp add: distinct_map case_prod_beta comp_def inj_on_def)
  have mo: "map_of m = map_of nxt ++ ?pm" unfolding m_def by (rule merged_map_of [OF dist(1)])
  have ran: "(\<exists>k. map_of m k = Some e) \<longleftrightarrow> (\<exists>k. (k, e) \<in> set nxt) \<or> (\<exists>k. (k, e) \<in> set pend)" for e
  proof -
    have "map_of m k = Some e \<longleftrightarrow> ?pm k = Some e \<or> (?pm k = None \<and> map_of nxt k = Some e)" for k
      unfolding mo by (auto simp: map_add_def split: option.splits)
    moreover have "?pm k = None" if "map_of nxt k = Some e" for k
    proof (rule ccontr)
      assume "?pm k \<noteq> None"
      then obtain k' where "k = ''early-'' @ k'" by (auto dest!: map_of_SomeD)
      with keys [of k'] that show False by simp
    qed
    ultimately have "(\<exists>k. map_of m k = Some e) \<longleftrightarrow> (\<exists>k. map_of nxt k = Some e) \<or> (\<exists>k. ?pm k = Some e)" by metis
    also have "\<dots> \<longleftrightarrow> (\<exists>k. (k, e) \<in> set nxt) \<or> (\<exists>k. (k, e) \<in> set pend)"
      using map_of_eq_Some_iff [OF dist(2)] map_of_eq_Some_iff [OF dp] by fastforce
    finally show ?thesis .
  qed
  have q: "Q e \<longleftrightarrow> (\<exists>rep \<in> set (Replicas e). \<exists>line \<in> set (Lan e). grant_ok rep line p)"
    if "list_all is_addr4 (Replicas e)" "list_all (\<lambda>l. snd (parseLan l) = None) (Lan e)" for e
    using that by (auto simp: Q_def list_all_iff lan_line_match)
  have qn: "Q e \<longleftrightarrow> (\<exists>rep \<in> set (Replicas e). \<exists>line \<in> set (Lan e). grant_ok rep line p)" if "(v, e) \<in> set nxt" for v e
    using assms that by (intro q) (auto simp: map_checked_def entry_checked_def list_all_iff)
  have qn: "Q (snd x) \<longleftrightarrow> (\<exists>rep \<in> set (Replicas (snd x)). \<exists>line \<in> set (Lan (snd x)). grant_ok rep line p)" if "x \<in> set nxt" for x
    using qn [of "fst x" "snd x"] that by simp
  have qe: "Q \<lparr>Replicas = [ip], Lan = lan\<rparr> \<longleftrightarrow> (\<exists>line \<in> set lan. grant_ok ip line p)" if "(ip, lan) \<in> set (b_early b)" for ip lan
    using assms that by (subst q) (auto simp: map_checked_def early_checked_def list_all_iff)
  have "any_match p (lanRules nxt (b_early b)) \<longleftrightarrow> (\<exists>v \<in> set (map fst m). Q (entry_of m v))"
    unfolding lanRules_def Let_def pend_def [symmetric] m_def [symmetric] Q_def any_match_def by (simp; blast)
  also have "\<dots> \<longleftrightarrow> (\<exists>e. (\<exists>k. map_of m k = Some e) \<and> Q e)"
    by (auto simp: entry_of_def) (metis fst_conv weak_map_of_SomeI option.simps(5), metis fst_conv image_eqI map_of_SomeD option.simps(5))
  also have "\<dots> \<longleftrightarrow> (\<exists>(v, e) \<in> set nxt. Q e) \<or> (\<exists>(v, e) \<in> set pend. Q e)" unfolding ran by fast
  also have "(\<exists>(v, e) \<in> set nxt. Q e) \<longleftrightarrow> (\<exists>(v, e) \<in> set nxt. \<exists>rep \<in> set (Replicas e). \<exists>line \<in> set (Lan e). grant_ok rep line p)"
    by (rule bex_cong [OF refl]) (simp add: qn case_prod_beta)
  also have "(\<exists>(v, e) \<in> set pend. Q e) \<longleftrightarrow> (\<exists>(rep, lan) \<in> set (b_early b). \<exists>line \<in> set lan. grant_ok rep line p)"
  proof -
    have "Q (snd ((\<lambda>(ip, lan). (ip, \<lparr>Replicas = [ip], Lan = lan\<rparr>)) x)) \<longleftrightarrow> (\<exists>line \<in> set (snd x). grant_ok (fst x) line p)"
      if "x \<in> set (b_early b)" for x using qe [of "fst x" "snd x"] that by (simp add: case_prod_beta)
    then show ?thesis by (simp add: pend_def case_prod_beta)
  qed
  finally show ?thesis by (simp add: lan_ok_def)
qed

lemma lanRules_return: "r \<in> set (lanRules nxt early) \<Longrightarrow> snd r = ''RETURN''"
  by (auto simp: lanRules_def Let_def dest: lan_line_return)

subsection \<open>The forward chain\<close>

lemma own_match:
  assumes "\<forall>o' \<in> set (b_Own b). Is4 (pfx_addr o') \<and> pfx_IsValid o' \<and> pfx4_ok o'"
  shows "in_nets (own_texts b) a \<longleftrightarrow> to_own b a"
  using assms by (auto simp: in_nets_def own_texts_def to_own_def list_ex_iff in_net_Masked)

lemma Transit_ok: "pfx4_ok Transit"
  by (simp add: Transit_def net4_def ip4_def pfx4_ok_def PrefixFrom_def addr_IsValid_def)

lemma cluster_match:
  assumes "pfx_IsValid (b_Cluster b) \<Longrightarrow> pfx4_ok (b_Cluster b)"
  shows "in_nets (clusterNets b) a \<longleftrightarrow> in_cluster b a"
  using assms by (auto simp: clusterNets_def in_cluster_def in_net_Masked in_net_Pfx4 Transit_ok)

lemma any_match_map: "any_match p (map f xs) \<longleftrightarrow> (\<exists>x \<in> set xs. list_all (matches p) (fst (f x)))"
  by (simp add: any_match_def)

lemma any_match_nets:
  "any_match p (map (\<lambda>c. ([MDst c], t)) cs) \<longleftrightarrow> in_nets cs (pk_dst p)"
  "any_match p (map (\<lambda>c. ([MSrc c], t)) cs) \<longleftrightarrow> in_nets cs (pk_src p)"
  by (simp_all add: any_match_map in_nets_def list_ex_iff)

lemma resolver_match:
  assumes "\<forall>r \<in> set (b_Resolvers b). \<exists>t. target r = Inr t"
  shows "any_match p (resolver_rules b) \<longleftrightarrow> dns_ok b p"
proof -
  have "in_net (target_text r) (pk_dst p) \<longleftrightarrow> listed [r] (pk_dst p)" if "r \<in> set (b_Resolvers b)" for r
    using assms that by (auto simp: target_text_def in_net_target)
  then show ?thesis
    unfolding resolver_rules_def dns_ok_def any_match_def listed_def list_ex_iff by fastforce
qed

lemma front_match:
  assumes "\<forall>r \<in> set fs. \<exists>t. target r = Inr t"
  shows "any_match p (map (\<lambda>f. ([MDst (target_text f), MProto ''tcp'', MDports [80, 443]], t)) fs) \<longleftrightarrow> listed fs (pk_dst p) \<and> web p"
proof -
  have "in_net (target_text r) (pk_dst p) \<longleftrightarrow> listed [r] (pk_dst p)" if "r \<in> set fs" for r
    using assms that by (auto simp: target_text_def in_net_target)
  then show ?thesis
    unfolding any_match_map listed_def list_ex_iff web_def by fastforce
qed

lemma chain_neq [simp]:
  "XNChain \<noteq> ''ACCEPT''" "XNChain \<noteq> ''DROP''" "XNChain \<noteq> ''RETURN''"
  "FwdOwnChain \<noteq> ''ACCEPT''" "FwdOwnChain \<noteq> ''DROP''" "FwdOwnChain \<noteq> ''RETURN''"
  "InOwnChain \<noteq> ''ACCEPT''" "InOwnChain \<noteq> ''DROP''" "InOwnChain \<noteq> ''RETURN''"
  by (simp_all add: XNChain_def FwdOwnChain_def InOwnChain_def)

definition chains :: "(string \<times> entry) list \<Rightarrow> base \<Rightarrow> string \<Rightarrow> nf_rule list" where
  "chains nxt b c = (case map_of (filter_chains nxt b) c of Some rs \<Rightarrow> rs | None \<Rightarrow> [])"

lemma chains_simps [simp]:
  "chains nxt b FwdOwnChain = fwd_own_rules nxt b" "chains nxt b XNChain = xn_rules b" "chains nxt b InOwnChain = in_own_rules nxt b"
  "chains nxt b FwdChain = fwd_rules b" "chains nxt b InChain = in_rules b"
  by (simp_all add: chains_def filter_chains_def FwdChain_def FwdOwnChain_def InChain_def InOwnChain_def XNChain_def)

lemma xn_verdict: "nf_run d cs p (xn_rules b) = (if flow_ok b p then Accept else Fall)"
proof -
  have "any_match p (xn_rules b) \<longleftrightarrow> flow_ok b p" by (simp add: xn_rules_def any_match_map flow_ok_def list_ex_iff)
  moreover have "\<forall>r \<in> set (xn_rules b). snd r = ''ACCEPT''" by (auto simp: xn_rules_def flow_rule_def)
  ultimately show ?thesis using nf_run_uniform [of "''ACCEPT''" "xn_rules b" d cs p "[]"] by simp
qed

text \<open>The checked inputs of the filter.\<close>

definition filter_inputs_ok :: "(string \<times> entry) list \<Rightarrow> base \<Rightarrow> bool" where
  "filter_inputs_ok nxt b \<longleftrightarrow> pfx_IsValid (b_Range b) \<and> Base_check b = None \<and> map_checked nxt (b_early b) \<and>
     list_all pfx4_ok (b_Own b) \<and> (pfx_IsValid (b_Cluster b) \<longrightarrow> pfx4_ok (b_Cluster b))"

lemma proxy_match:
  assumes "is_addr4 s"
  shows "in_net (s @ ''/32'') a \<longleftrightarrow> ParseAddr s = Some a"
  using is_addr4E [OF assms] by (auto simp: in_net_32)

lemma fwd_own_verdict:
  assumes ok: "filter_inputs_ok nxt b"
  shows "nf_run (Suc d) (chains nxt b) p (fwd_own_rules nxt b) = fwd_own_policy nxt b p"
proof -
  have c: "pfx_IsValid (b_Range b)" "Base_check b = None" "map_checked nxt (b_early b)" using ok by (simp_all add: filter_inputs_ok_def)
  note bc = Base_check_None [OF c(2,1)]
  have own: "in_nets (own_texts b) a \<longleftrightarrow> to_own b a" for a
    using ok bc(2) by (intro own_match) (auto simp: filter_inputs_ok_def list_all_iff pfx4_ok_def pfx_IsValid_def)
  have cl: "in_nets (clusterNets b) a \<longleftrightarrow> in_cluster b a" for a using ok by (intro cluster_match) (simp add: filter_inputs_ok_def)
  have xn: "nf_run (Suc d) (chains nxt b) p ((if clusterNets b \<noteq> [] then [([], XNChain)] else []) @ qs) =
      (if pfx_IsValid (b_Cluster b) \<and> flow_ok b p then Accept else nf_run (Suc d) (chains nxt b) p qs)" for qs
    by (simp add: clusterNets_def nf_run_jump xn_verdict del: nf_run.simps)
  have px: "nf_run (Suc d) cs p ((if b_ProxyIP b \<noteq> [] then [([MDst (b_ProxyIP b @ ''/32''), MProto ''tcp'', MDports [80, 443]], ''ACCEPT'')] else []) @ qs) =
      (if b_ProxyIP b \<noteq> [] \<and> ParseAddr (b_ProxyIP b) = Some (pk_dst p) \<and> web p then Accept else nf_run (Suc d) cs p qs)" for qs cs
    using proxy_match [OF bc(7)] by (auto simp: web_def)
  have res: "\<forall>r \<in> set (resolver_rules b). snd r = ''RETURN''" by (auto simp: resolver_rules_def)
  have lan: "\<forall>r \<in> set (lanRules nxt (b_early b)). snd r = ''RETURN''" using lanRules_return by blast
  have pv: "nf_run (Suc d) cs p (map (\<lambda>c. ([MDst c], ''DROP'')) private_nets) = (if in_nets private_nets (pk_dst p) then Drop else Fall)" for cs
    using nf_run_uniform [of "''DROP''" "map (\<lambda>c. ([MDst c], ''DROP'')) private_nets" "Suc d" cs p "[]"] by (simp add: any_match_nets)
  have u: "nf_run (Suc d) cs p (rs @ qs) = (if any_match p rs then Fall else nf_run (Suc d) cs p qs)"
    if "\<forall>r \<in> set rs. snd r = ''RETURN''" for cs rs qs
    using nf_run_uniform [of "''RETURN''" rs "Suc d" cs p qs] that by simp
  have dr: "nf_run (Suc d) cs p (map (\<lambda>c. ([MDst c], ''DROP'')) ns @ qs) = (if in_nets ns (pk_dst p) then Drop else nf_run (Suc d) cs p qs)" for cs ns qs
    using nf_run_uniform [of "''DROP''" "map (\<lambda>c. ([MDst c], ''DROP'')) ns" "Suc d" cs p qs] by (simp add: any_match_nets)
  have o1: "nf_run (Suc d) cs p (map (\<lambda>o'. ([MDst o'], ''RETURN'')) (own_texts b) @ qs) =
      (if to_own b (pk_dst p) then Fall else nf_run (Suc d) cs p qs)" for cs qs
    by (subst u) (simp_all add: any_match_nets own)
  have r1: "nf_run (Suc d) cs p (resolver_rules b @ qs) = (if dns_ok b p then Fall else nf_run (Suc d) cs p qs)" for cs qs
    using bc(4) by (simp add: u [OF res] resolver_match)
  have f1: "nf_run (Suc d) cs p (map (\<lambda>f. ([MDst (target_text f), MProto ''tcp'', MDports [80, 443]], ''RETURN'')) (b_Front b) @ qs) =
      (if listed (b_Front b) (pk_dst p) \<and> web p then Fall else nf_run (Suc d) cs p qs)" for cs qs
    using bc(4) by (subst u) (simp_all add: front_match)
  have l1: "nf_run (Suc d) cs p (lanRules nxt (b_early b) @ qs) = (if lan_ok nxt b p then Fall else nf_run (Suc d) cs p qs)" for cs qs
    by (simp add: u [OF lan] lanRules_match [OF c(3)])
  show ?thesis
    unfolding fwd_own_rules_def fwd_own_policy_def by (simp only: o1 xn dr cl r1 px f1 l1 pv)
qed

lemma fwd_verdict:
  assumes ok: "filter_inputs_ok nxt b"
  shows "nf_run (Suc (Suc d)) (chains nxt b) p (fwd_rules b) = fwd_policy nxt b p"
proof -
  let ?run = "nf_run (Suc (Suc d)) (chains nxt b) p"
  let ?mesh = "concat (map (\<lambda>s. map (\<lambda>d. ([MIn (b_WGIface b), MOut (b_WGIface b), MSrc s, MDst d], ''ACCEPT'')) (clusterNets b)) (clusterNets b))"
  have c: "pfx_IsValid (b_Range b)" "Base_check b = None" using ok by (simp_all add: filter_inputs_ok_def)
  have own: "in_nets (own_texts b) a \<longleftrightarrow> to_own b a" for a
    using ok Base_check_None(2) [OF c(2,1)]
    by (intro own_match) (auto simp: filter_inputs_ok_def list_all_iff pfx4_ok_def pfx_IsValid_def)
  have cl: "in_nets (clusterNets b) a \<longleftrightarrow> in_cluster b a" for a using ok by (intro cluster_match) (simp add: filter_inputs_ok_def)
  have "any_match p ?mesh \<longleftrightarrow> pk_in p = b_WGIface b \<and> pk_out p = b_WGIface b \<and> in_cluster b (pk_src p) \<and> in_cluster b (pk_dst p)"
    unfolding cl [symmetric] by (auto simp: any_match_def in_nets_def list_ex_iff)
  then have m1: "?run ((if meshOn b then ?mesh else []) @ qs) =
      (if meshOn b \<and> pk_in p = b_WGIface b \<and> pk_out p = b_WGIface b \<and> in_cluster b (pk_src p) \<and> in_cluster b (pk_dst p)
       then Accept else ?run qs)" for qs
    using nf_run_uniform [of "''ACCEPT''" ?mesh "Suc (Suc d)" "chains nxt b" p qs] by auto
  have n1: "?run ([([MNotCt [''NEW'']], ''RETURN'')] @ qs) = (if ''NEW'' \<notin> set (pk_ct p) then Fall else ?run qs)" for qs by simp
  have x1: "?run ((if meshOn b then [([MIn (b_WGIface b)], XNChain)] else []) @ qs) =
      (if meshOn b \<and> pk_in p = b_WGIface b \<and> flow_ok b p then Accept else ?run qs)" for qs
    by (simp add: nf_run_jump xn_verdict del: nf_run.simps)
  have o1: "?run (map (\<lambda>o'. ([MSrc o'], FwdOwnChain)) os @ [([], ''RETURN'')]) =
      (if in_nets os (pk_src p) then nf_run (Suc d) (chains nxt b) p (fwd_own_rules nxt b) else Fall)" for os
  proof (induction os)
    case (Cons o' os)
    then show ?case by (auto simp: nf_run_jump simp del: nf_run.simps split: verdict.splits)
  qed simp
  show ?thesis
    unfolding fwd_rules_def by (simp only: m1 n1 x1 o1 own fwd_own_verdict [OF ok] fwd_policy_def)
qed

subsection \<open>The input chain, from the mesh\<close>

lemma in_mesh_verdict:
  assumes ok: "filter_inputs_ok nxt b" and wg: "pk_in p = b_WGIface b" "b_WGIface b \<noteq> []" "b_WGIface b \<noteq> ''lo''" "''NEW'' \<in> set (pk_ct p)"
  shows "nf_run d cs p (in_rules b) = (if mesh_admits b p then Fall else Drop)"
proof -
  have c: "pfx_IsValid (b_Range b)" "Base_check b = None" using ok by (simp_all add: filter_inputs_ok_def)
  have ctl: "in_net (addr_String (b_WGController b) @ ''/32'') (pk_src p) \<longleftrightarrow> pk_src p = b_WGController b" if "addr_IsValid (b_WGController b)"
    using Base_check_None(6) [OF c(2,1) that] in_net_32 ParseAddr_String4 by (metis Is4E)
  have tr: "in_net (pfx_String Transit) a \<longleftrightarrow> Contains Transit a" for a by (rule in_net_Pfx4 [OF Transit_ok])
  define api where "api = (if addr_IsValid (b_WGController b)
    then [([MIn (b_WGIface b), MSrc (addr_String (b_WGController b) @ ''/32''), MProto ''tcp'', MDport WorkerAPIPort WorkerAPIPort], ''RETURN'')]
    else [([MIn (b_WGIface b), MProto ''tcp'', MDport WorkerAPIPort WorkerAPIPort], ''RETURN'')])"
  define pnl where "pnl = (if b_WGPanelPort b > 0
    then [([MIn (b_WGIface b), MProto ''tcp'', MDport (b_WGPanelPort b) (b_WGPanelPort b)], ''RETURN'')] else [])"
  define rs where "rs = ([MIn (b_WGIface b), MProto ''udp'', MDport ExitPortLo ExitPortHi], ''RETURN'') # api @ pnl @
    [([MIn (b_WGIface b), MSrc (pfx_String Transit), MDst (pfx_String Transit), MProto ''icmp'', MIcmp ''echo-request''], ''RETURN'')]"
  have "any_match p api \<longleftrightarrow> pk_proto p = ''tcp'' \<and> pk_dport p = WorkerAPIPort \<and> (addr_IsValid (b_WGController b) \<longrightarrow> pk_src p = b_WGController b)"
    using wg(1) ctl by (auto simp: api_def)
  moreover have "any_match p pnl \<longleftrightarrow> pk_proto p = ''tcp'' \<and> b_WGPanelPort b > 0 \<and> pk_dport p = b_WGPanelPort b"
    using wg(1) by (auto simp: pnl_def)
  ultimately have am: "any_match p rs \<longleftrightarrow> mesh_admits b p" using wg(1) tr by (auto simp: rs_def mesh_admits_def)
  have "\<forall>r \<in> set rs. snd r = ''RETURN''" by (auto simp: rs_def api_def pnl_def)
  from nf_run_uniform [OF _ this, of d cs p] am
  have run: "nf_run d cs p (rs @ qs) = (if mesh_admits b p then Fall else nf_run d cs p qs)" for qs by simp
  have "in_rules b = [([MNotCt [''NEW'']], ''RETURN''), ([MIn ''lo''], ''RETURN'')] @ rs @
      ([MIn (b_WGIface b)], ''DROP'') # map (\<lambda>o'. ([MSrc o'], InOwnChain)) (own_texts b)"
    using wg(2) by (simp add: in_rules_def rs_def api_def pnl_def)
  with wg run show ?thesis by simp
qed

subsection \<open>The text\<close>

lemma plain_nat [simp]: "CHR 0x0A \<notin> set (nat_str n)"
  by (rule nat_str_no_char) (simp add: is_digit_def less_eq_char_def)

lemma plain_itoa [simp]: "CHR 0x0A \<notin> set (itoa i)"
  by (simp add: itoa_def)

lemma plain_string4 [simp]: "CHR 0x0A \<notin> set (string4 w)"
  by (simp add: string4_def v4_bytes_def)

lemma plain_pfx: "pfx4_ok q \<Longrightarrow> CHR 0x0A \<notin> set (pfx_String q)"
  by (cases q) (auto simp: pfx4_ok_def pfx_String_def dest!: Is4E)

lemma plain_addr4: "is_addr4 s \<Longrightarrow> CHR 0x0A \<notin> set s"
  using is_addr4_chars [of s "CHR 0x0A"] by (auto simp: is_digit_def less_eq_char_def)

lemma plain_Is4: "Is4 a \<Longrightarrow> CHR 0x0A \<notin> set (addr_String a)"
  by (auto dest!: Is4E)

definition rule_plain :: "nf_rule \<Rightarrow> bool" where
  "rule_plain r \<longleftrightarrow> CHR 0x0A \<notin> set (rule_text r)"

lemma rule_plain_simp: "rule_plain (ms, t) \<longleftrightarrow> (\<forall>m \<in> set ms. CHR 0x0A \<notin> set (print_match m)) \<and> CHR 0x0A \<notin> set t"
  by (auto simp: rule_plain_def rule_text_def)

definition flows4 :: "base \<Rightarrow> bool" where
  "flows4 b \<longleftrightarrow> list_all (\<lambda>fl. pfx4_ok (fl_Src fl) \<and> Is4 (fl_VIP fl)) (b_Flows b)"

lemma lan_rules_plain:
  assumes "map_checked nxt early"
  shows "r \<in> set (lanRules nxt early) \<Longrightarrow> rule_plain r"
proof -
  define pend where "pend = map (\<lambda>(ip, lan). (ip, \<lparr>Replicas = [ip], Lan = lan\<rparr>)) early"
  have "distinct (map fst pend)" using assms by (auto simp: map_checked_def pend_def comp_def case_prod_beta)
  note mo = merged_map_of [OF this, of nxt]
  have ok: "list_all is_addr4 (Replicas e) \<and> list_all (\<lambda>l. snd (parseLan l) = None) (Lan e)" if "map_of (merged nxt pend) v = Some e" for v e
    using that assms unfolding mo
    by (auto simp: map_add_Some_iff map_checked_def entry_checked_def early_checked_def pend_def list_all_iff dest!: map_of_SomeD) fastforce
  have line: "rule_plain r" if "is_addr4 rep" "snd (parseLan l) = None" "r \<in> set (lan_line_rules rep l)" for rep l r
    using that plain_addr4 [OF that(1)] plain_pfx [OF parseLan_ok [OF that(2)]]
    by (auto simp: lan_line_rules_def Let_def rule_plain_simp split: if_splits)
  assume "r \<in> set (lanRules nxt early)"
  then obtain v rep l where "rep \<in> set (Replicas (entry_of (merged nxt pend) v))" "l \<in> set (Lan (entry_of (merged nxt pend) v))"
    "r \<in> set (lan_line_rules rep l)" by (auto simp: lanRules_def Let_def pend_def)
  moreover from this obtain e where "map_of (merged nxt pend) v = Some e" by (cases "map_of (merged nxt pend) v") (auto simp: entry_of_def)
  ultimately show ?thesis using ok [of v e] line [of rep l r] by (simp add: entry_of_def list_all_iff)
qed

lemma filter_plain:
  assumes ok: "filter_inputs_ok nxt b" "flows4 b" and r: "(c, rs) \<in> set (filter_chains nxt b)" "r \<in> set rs"
  shows "rule_plain r"
proof -
  have c: "pfx_IsValid (b_Range b)" "Base_check b = None" "map_checked nxt (b_early b)" using ok by (simp_all add: filter_inputs_ok_def)
  note bc = Base_check_None [OF c(2,1)]
  have wg: "CHR 0x0A \<notin> set (b_WGIface b)" using bc(5) by (cases "b_WGIface b = []") (auto simp: list_ex_iff bad_iface_char_def)
  have cl: "CHR 0x0A \<notin> set x" if "x \<in> set (clusterNets b)" for x
    using that ok plain_pfx [OF Masked_ok] plain_pfx [OF Transit_ok] by (auto simp: clusterNets_def filter_inputs_ok_def split: if_splits)
  have own: "CHR 0x0A \<notin> set x" if "x \<in> set (own_texts b)" for x
    using that ok plain_pfx [OF Masked_ok] by (auto simp: own_texts_def filter_inputs_ok_def list_all_iff)
  have tg: "CHR 0x0A \<notin> set (target_text x)" if "x \<in> set (b_Resolvers b) \<union> set (b_Front b)" for x
  proof -
    from bspec [OF bc(4) that] obtain t where t: "target x = Inr t" by (elim exE)
    then obtain d where d: "lan_dst x = Some d" "t = pfx_String d" unfolding target_lan_dst by blast
    from t plain_pfx [OF lan_dst_ok [OF d(1)]] show ?thesis unfolding target_text_def d(2) by simp
  qed
  have res: "rule_plain r" if "r \<in> set (resolver_rules b)" for r
    using that tg by (auto simp: resolver_rules_def rule_plain_simp)
  have prv: "CHR 0x0A \<notin> set x" if "x \<in> set private_nets" for x using that by (auto simp: private_nets_def)
  have "rule_plain (ms, t)" if "(ms, t) \<in> set (fwd_rules b)" for ms t
    using that wg cl own by (auto simp: fwd_rules_def rule_plain_simp XNChain_def FwdOwnChain_def split: if_splits)
  moreover have "rule_plain (ms, t)" if "(ms, t) \<in> set (fwd_own_rules nxt b)" for ms t
    using that cl own tg res prv lan_rules_plain [OF c(3)] bc(7) plain_addr4
    by (auto simp: fwd_own_rules_def rule_plain_simp XNChain_def split: if_splits)
  moreover have "rule_plain (ms, t)" if "(ms, t) \<in> set (in_rules b)" for ms t
    using that wg own plain_pfx [OF Transit_ok] bc(6) plain_Is4
    by (auto simp: in_rules_def rule_plain_simp InOwnChain_def split: if_splits)
  moreover have "rule_plain (ms, t)" if "(ms, t) \<in> set (in_own_rules nxt b)" for ms t
    using that cl res lan_rules_plain [OF c(3)] bc(8) plain_addr4 by (auto simp: in_own_rules_def rule_plain_simp split: if_splits)
  moreover have "rule_plain (ms, t)" if "(ms, t) \<in> set (xn_rules b)" for ms t
    using that wg ok(2) plain_pfx [OF Masked_ok] plain_Is4 by (auto simp: xn_rules_def flow_rule_def flows4_def list_all_iff rule_plain_simp split: if_splits)
  ultimately show ?thesis using r by (cases r) (auto simp: filter_chains_def)
qed

section \<open>Properties\<close>

text \<open>
  C3: The forward chain of checked inputs decides exactly as the policy says, for every packet:
  its own networks are open, another node's network and the transit net only through a cross-node flow
  whatever the lan grants say, resolvers on 53, the proxies on the web ports, a tile's granted
  addresses for its own replicas only, and every other private address is dropped.
\<close>

theorem fwd_chain_is_policy:
  assumes "filter_inputs_ok nxt b"
  shows "nf_run 2 (chains nxt b) p (chains nxt b FwdChain) = fwd_policy nxt b p"
  using fwd_verdict [OF assms, of 0 p] by (simp add: numeral_2_eq_2)

text \<open>
  Nothing a tile may be granted opens the cluster: a new connection from a node's own container to the
  supernet or the transit net, outside the node's own networks and without a cross-node flow, is
  dropped for every map of VIPs and grants.
\<close>

theorem grants_never_open_cluster:
  assumes "filter_inputs_ok nxt b" and "''NEW'' \<in> set (pk_ct p)" and "to_own b (pk_src p)" and "\<not> to_own b (pk_dst p)"
    and "in_cluster b (pk_dst p)" and "\<not> flow_ok b p" and "pk_in p \<noteq> b_WGIface b"
  shows "nf_run 2 (chains nxt b) p (chains nxt b FwdChain) = Drop"
  using fwd_verdict [OF assms(1), of 0 p] assms(2-) by (simp add: fwd_policy_def fwd_own_policy_def numeral_2_eq_2)

text \<open>
  From the mesh interface the host admits only the exit links' ports, the worker API (from the
  controller alone when it is known), the panel's mesh port when set and pings between transit
  addresses; every other new connection is dropped.
\<close>

theorem mesh_input_is_closed:
  assumes "filter_inputs_ok nxt b" and "pk_in p = b_WGIface b" and "b_WGIface b \<noteq> []" and "b_WGIface b \<noteq> ''lo''" and "''NEW'' \<in> set (pk_ct p)"
  shows "nf_run 2 (chains nxt b) p (chains nxt b InChain) = (if mesh_admits b p then Fall else Drop)"
  using in_mesh_verdict [OF assms] by simp

text \<open>
  No checked input can smuggle a line into the restore script: the text of every filter
  rule holds no line break, so each rule is one line of its own chain.
\<close>

theorem filter_script_lines:
  assumes "filter_inputs_ok nxt b" and "flows4 b" and "(c, rs) \<in> set (filter_chains nxt b)" and "r \<in> set rs"
  shows "CHR 0x0A \<notin> set (rule_text r)"
  using filter_plain [OF assms] by (simp add: rule_plain_def)

text \<open>A node with one network, one tile with a wide grant, and a flow, for the witnesses.\<close>

definition ex_base :: base where
  "ex_base = \<lparr>b_Range = Supernet, b_Own = [net4 10 208 3 0 24], b_Cluster = Supernet, b_Resolvers = [''1.1.1.1''],
     b_ProxyIP = ''172.17.0.2'', b_HostProxy = False, b_Front = [''9.9.9.0/24''], b_PanelBind = ''172.17.0.1'', b_PanelPort = 8080,
     b_WGIface = ''stackr0'', b_WGController = ip4 10 207 255 6, b_WGPanelPort = 0,
     b_Flows = [\<lparr>fl_Src = net4 10 207 255 3 32, fl_VIP = ip4 10 208 3 9, fl_Port = 80, fl_Out = False\<rparr>],
     b_early = [(''10.208.3.7'', [''lan:192.168.1.10:8123''])]\<rparr>"

definition ex_vips :: "(string \<times> entry) list" where
  "ex_vips = [(''10.208.3.9'', \<lparr>Replicas = [''10.208.3.4''], Lan = [''lan:10.0.0.0/8'']\<rparr>)]"

definition ex_pkt :: "string \<Rightarrow> addr \<Rightarrow> addr \<Rightarrow> packet" where
  "ex_pkt i s d = \<lparr>pk_in = i, pk_out = ''eth0'', pk_src = s, pk_dst = d, pk_proto = ''tcp'', pk_dport = 22, pk_ct = [''NEW''],
     pk_origdst = d, pk_origport = 22, pk_icmp = []\<rparr>"

lemma pfx4_ok_code [code]: "pfx4_ok p \<longleftrightarrow> Is4 (pfx_addr p) \<and> (case pfx_bits p of None \<Rightarrow> False | Some b \<Rightarrow> b \<le> 32)"
  by (auto simp: pfx4_ok_def split: option.splits)

lemma ex_inputs_ok: "filter_inputs_ok ex_vips ex_base" "flows4 ex_base"
  by code_simp+

theorem fwd_chain_is_policy_witness:
  "nf_run 2 (chains ex_vips ex_base) (ex_pkt ''br0'' (ip4 10 208 3 4) (ip4 10 1 2 3)) (chains ex_vips ex_base FwdChain) = Fall \<and>
   nf_run 2 (chains ex_vips ex_base) (ex_pkt ''br0'' (ip4 10 208 3 5) (ip4 10 1 2 3)) (chains ex_vips ex_base FwdChain) = Drop"
proof -
  have "fwd_policy ex_vips ex_base (ex_pkt ''br0'' (ip4 10 208 3 4) (ip4 10 1 2 3)) = Fall"
    "fwd_policy ex_vips ex_base (ex_pkt ''br0'' (ip4 10 208 3 5) (ip4 10 1 2 3)) = Drop" by code_simp+
  then show ?thesis by (simp only: fwd_chain_is_policy [OF ex_inputs_ok(1)])
qed

theorem grants_never_open_cluster_witness:
  "nf_run 2 (chains ex_vips ex_base) (ex_pkt ''br0'' (ip4 10 208 3 4) (ip4 10 209 0 1)) (chains ex_vips ex_base FwdChain) = Drop"
proof -
  have "to_own ex_base (ip4 10 208 3 4)" "\<not> to_own ex_base (ip4 10 209 0 1)" "in_cluster ex_base (ip4 10 209 0 1)"
    "\<not> flow_ok ex_base (ex_pkt ''br0'' (ip4 10 208 3 4) (ip4 10 209 0 1))" "b_WGIface ex_base = ''stackr0''" by code_simp+
  then show ?thesis by (intro grants_never_open_cluster [OF ex_inputs_ok(1)]) (simp_all add: ex_pkt_def)
qed

theorem mesh_input_is_closed_witness:
  "nf_run 2 (chains ex_vips ex_base) (ex_pkt ''stackr0'' (ip4 10 207 255 3) (ip4 10 207 255 2)) (chains ex_vips ex_base InChain) = Drop"
proof -
  have "\<not> mesh_admits ex_base (ex_pkt ''stackr0'' (ip4 10 207 255 3) (ip4 10 207 255 2))" "b_WGIface ex_base = ''stackr0''" by code_simp+
  with mesh_input_is_closed [OF ex_inputs_ok(1), of "ex_pkt ''stackr0'' (ip4 10 207 255 3) (ip4 10 207 255 2)"] show ?thesis
    by (simp add: ex_pkt_def)
qed

theorem filter_script_lines_witness: "CHR 0x0A \<notin> set (rule_text ([MNotCt [''NEW'']], ''RETURN''))"
  by (rule filter_script_lines [OF ex_inputs_ok, of InChain "in_rules ex_base"]) (simp_all add: filter_chains_def in_rules_def)

end
