(* ===== verification/Vip.thy ===== *)
theory Vip
  imports Vip_Filter Complex_Main
begin

text \<open>
  \<^verbatim>\<open>internal/service/internal/vip/vip.go\<close>: the table of virtual addresses, its operations and the
  restore script they apply.

  The three functions a Table is given (\<^verbatim>\<open>Restore\<close>, \<^verbatim>\<open>Exec\<close>, \<^verbatim>\<open>Read\<close>) are parameters on a world.  The loops
  that delete a rule until the command fails may not end, so the operations that hold one
  return an option, \<open>None\<close> for not returning.
\<close>

section \<open>Model: the script\<close>

definition Chain :: string where "Chain = ''STACKR-VIP''"

definition vipChain :: "string \<Rightarrow> string" where
  "vipChain ip = ''STKR-'' @ ip"

text \<open>Rounding \<open>a / b\<close> to an integer, ties to even.\<close>

definition round_half_even :: "nat \<Rightarrow> nat \<Rightarrow> nat" where
  "round_half_even a b =
     (let q = a div b; r = a mod b in
      if 2 * r < b then q else if 2 * r > b then q + 1 else if even q then q else q + 1)"

text \<open>
  \<^verbatim>\<open>1/float64(n)\<close> is \<open>float_inv n\<close> over \<open>2 ^ float_exp n\<close>: the quotient rounded to 53 bits.  \<^verbatim>\<open>%.5f\<close> prints the
  exact value rounded to five places, for \<open>n \<ge> 2\<close> a zero, a dot and five digits.
\<close>

fun bits_of :: "nat \<Rightarrow> nat" where
  "bits_of n = (if n < 2 then 0 else Suc (bits_of (n div 2)))"

declare bits_of.simps [simp del]

definition float_exp :: "nat \<Rightarrow> nat" where
  "float_exp n = 53 + bits_of (n - 1)"

definition float_inv :: "nat \<Rightarrow> nat" where
  "float_inv n = round_half_even (2 ^ float_exp n) n"

definition prob5 :: "nat \<Rightarrow> nat" where
  "prob5 n = round_half_even (float_inv n * 10 ^ 5) (2 ^ float_exp n)"

definition pad5 :: "nat \<Rightarrow> string" where
  "pad5 k = (let s = nat_str k in replicate (5 - length s) (CHR ''0'') @ s)"

definition prob_text :: "nat \<Rightarrow> string" where
  "prob_text n = ''0.'' @ pad5 (prob5 n)"

datatype nat_rule =
    VipJump string
  | DnatRandom nat string
  | DnatAll string
  | MeshAccept string string

fun nat_rule_text :: "nat_rule \<Rightarrow> string" where
  "nat_rule_text (VipJump v) = ''-d '' @ v @ ''/32 -j '' @ vipChain v"
| "nat_rule_text (DnatRandom left ip) =
     ''-m statistic --mode random --probability '' @ prob_text left @ '' -j DNAT --to-destination '' @ ip"
| "nat_rule_text (DnatAll ip) = ''-j DNAT --to-destination '' @ ip"
| "nat_rule_text (MeshAccept ifc net) = ''-o '' @ ifc @ '' -s '' @ net @ '' -j ACCEPT''"

text \<open>One VIP's rules: the jump, then one rule per replica.\<close>

definition replica_rules :: "string list \<Rightarrow> nat_rule list" where
  "replica_rules ips = map (\<lambda>i. let left = length ips - i in
     if left > 1 then DnatRandom left (ips ! i) else DnatAll (ips ! i)) [0..<length ips]"

definition vip_rules :: "(string \<times> entry) list \<Rightarrow> string \<Rightarrow> (string \<times> nat_rule) list" where
  "vip_rules nxt v = (Chain, VipJump v) # map (\<lambda>r. (vipChain v, r)) (replica_rules (Replicas (entry_of nxt v)))"

definition sorted_keys :: "(string \<times> 'a) list \<Rightarrow> string list" where
  "sorted_keys m = sort (map fst m)"

definition gone_vips :: "(string \<times> entry) list \<Rightarrow> (string \<times> entry) list \<Rightarrow> string list" where
  "gone_vips prev nxt = filter (\<lambda>v. map_of nxt v = None) (sorted_keys prev)"

text \<open>The nat section: the chains declared, the rules, the chains deleted.\<close>

definition nat_decls :: "(string \<times> entry) list \<Rightarrow> (string \<times> entry) list \<Rightarrow> base \<Rightarrow> string list" where
  "nat_decls prev nxt b = Chain # (if pfx_IsValid (b_Range b) then [NATChain] else [])
     @ map vipChain (sorted_keys nxt @ gone_vips prev nxt)"

definition nat_rules :: "(string \<times> entry) list \<Rightarrow> base \<Rightarrow> (string \<times> nat_rule) list" where
  "nat_rules nxt b =
     (if meshOn b then [(NATChain, MeshAccept (b_WGIface b) (pfx_String (Masked (b_Cluster b))))] else [])
     @ concat (map (vip_rules nxt) (sorted_keys nxt))"

definition Render :: "(string \<times> entry) list \<Rightarrow> (string \<times> entry) list \<Rightarrow> base \<Rightarrow> string" where
  "Render prev nxt b =
     ''*nat'' @ nl @ concat (map chain_decl (nat_decls prev nxt b))
     @ concat (map (\<lambda>(c, r). ''-A '' @ c @ '' '' @ nat_rule_text r @ nl) (nat_rules nxt b))
     @ concat (map (\<lambda>v. ''-X '' @ vipChain v @ nl) (gone_vips prev nxt))
     @ ''COMMIT'' @ nl
     @ (if pfx_IsValid (b_Range b) then
          ''*raw'' @ nl @ chain_decl RawChain
          @ (if meshOn b then concat (map (\<lambda>src. ''-A '' @ RawChain @ '' -i '' @ b_WGIface b @ '' -s '' @ src
                 @ '' -d '' @ pfx_String (Masked (b_Range b)) @ '' -j ACCEPT'' @ nl) (clusterNets b)) else [])
          @ ''COMMIT'' @ nl @ renderFilter nxt b
        else [])"

section \<open>Model: the table\<close>

record 'w vip_env =
  Restore :: "'w \<Rightarrow> string \<Rightarrow> 'w \<times> error"
  Exec :: "'w \<Rightarrow> string list \<Rightarrow> 'w \<times> error"
  Read :: "'w \<Rightarrow> string list \<Rightarrow> 'w \<times> string \<times> error"

record table =
  t_vips :: "(string \<times> entry) list"
  t_base :: base
  t_early :: "(string \<times> string list) list"

definition zero_base :: base where
  "zero_base = \<lparr>b_Range = Pfx AddrZero None, b_Own = [], b_Cluster = Pfx AddrZero None, b_Resolvers = [], b_ProxyIP = [],
     b_HostProxy = False, b_Front = [], b_PanelBind = [], b_PanelPort = 0, b_WGIface = [], b_WGController = AddrZero,
     b_WGPanelPort = 0, b_Flows = [], b_early = []\<rparr>"

definition New :: table where
  "New = \<lparr>t_vips = [], t_base = zero_base, t_early = []\<rparr>"

text \<open>\<^verbatim>\<open>for t.Exec(ctx, argv) == nil {}\<close>\<close>

partial_function (option) del_loop :: "('w \<Rightarrow> string list \<Rightarrow> 'w \<times> error) \<Rightarrow> string list \<Rightarrow> 'w \<Rightarrow> 'w option" where
  "del_loop ex a w = (case snd (ex w a) of None \<Rightarrow> del_loop ex a (fst (ex w a)) | Some e \<Rightarrow> Some (fst (ex w a)))"

declare del_loop.simps [code]

definition first_jump :: "'w vip_env \<Rightarrow> string \<times> string \<times> string \<Rightarrow> 'w \<Rightarrow> ('w \<times> error) option" where
  "first_jump e h w = (case h of (tbl, name, chain) \<Rightarrow>
     let ipt = (\<lambda>args. ''iptables'' # (if tbl \<noteq> [] then [''-t'', tbl] else []) @ args) in
     case Read e w (ipt [''-S'', name, ''1'']) of (w1, out', er) \<Rightarrow>
       if er = None \<and> trim_space out' = ''-A '' @ name @ '' -j '' @ chain then Some (w1, None)
       else (case del_loop (Exec e) (ipt [''-D'', name, ''-j'', chain]) w1 of
           None \<Rightarrow> None
         | Some w2 \<Rightarrow> Some (Exec e w2 (ipt [''-I'', name, ''1'', ''-j'', chain]))))"

fun first_jumps :: "'w vip_env \<Rightarrow> (string \<times> string \<times> string) list \<Rightarrow> 'w \<Rightarrow> ('w \<times> error) option" where
  "first_jumps e [] w = Some (w, None)"
| "first_jumps e (h # hs) w = (case first_jump e h w of None \<Rightarrow> None
     | Some (w1, Some er) \<Rightarrow> Some (w1, Some er)
     | Some (w1, None) \<Rightarrow> first_jumps e hs w1)"

definition nat_hook :: "'w vip_env \<Rightarrow> string \<Rightarrow> 'w \<Rightarrow> 'w \<times> error" where
  "nat_hook e hook w =
     (case Exec e w [''iptables'', ''-t'', ''nat'', ''-C'', hook, ''-j'', Chain] of
        (w1, None) \<Rightarrow> (w1, None)
      | (w1, Some _) \<Rightarrow> Exec e w1 [''iptables'', ''-t'', ''nat'', ''-I'', hook, ''-j'', Chain])"

definition nat_hooks :: "'w vip_env \<Rightarrow> 'w \<Rightarrow> 'w \<times> error" where
  "nat_hooks e w = (case nat_hook e ''PREROUTING'' w of
     (w1, Some er) \<Rightarrow> (w1, Some er)
   | (w1, None) \<Rightarrow> nat_hook e ''OUTPUT'' w1)"

definition fwd_hook :: "'w vip_env \<Rightarrow> 'w \<Rightarrow> (string \<times> 'w) option" where
  "fwd_hook e w =
     (case Exec e w [''iptables'', ''-S'', ''DOCKER-USER''] of
        (w1, Some _) \<Rightarrow> Some (''FORWARD'', w1)
      | (w1, None) \<Rightarrow> (case del_loop (Exec e) [''iptables'', ''-D'', ''FORWARD'', ''-j'', FwdChain] w1 of
          None \<Rightarrow> None | Some w2 \<Rightarrow> Some (''DOCKER-USER'', w2)))"

text \<open>The checks at the head of \<^verbatim>\<open>apply\<close>.\<close>

definition entry_err :: "string \<times> entry \<Rightarrow> error" where
  "entry_err x = first_of id
     [first_of (\<lambda>ip. if is_addr4 ip then None else Some (not_addr4 ip)) (fst x # Replicas (snd x)),
      first_of (\<lambda>l. snd (parseLan l)) (Lan (snd x))]"

definition still_early :: "(string \<times> entry) list \<Rightarrow> (string \<times> string list) list \<Rightarrow> (string \<times> string list) list" where
  "still_early nxt early = filter (\<lambda>(ip, _). \<not> list_ex (\<lambda>(v, e). ip \<in> set (Replicas e)) nxt) early"

definition apply_err :: "table \<Rightarrow> (string \<times> entry) list \<Rightarrow> base \<Rightarrow> error" where
  "apply_err t nxt b = first_of id
     [first_of entry_err nxt,
      first_of (\<lambda>(ip, lan). first_of (\<lambda>l. snd (parseLan l)) lan) (still_early nxt (t_early t)),
      Base_check b]"

definition Table_apply :: "'w vip_env \<Rightarrow> 'w \<Rightarrow> table \<Rightarrow> (string \<times> entry) list \<Rightarrow> base \<Rightarrow> ('w \<times> table \<times> error) option" where
  "Table_apply e w t nxt b =
     (case apply_err t nxt b of Some er \<Rightarrow> Some (w, t, Some er)
      | None \<Rightarrow>
        let early = still_early nxt (t_early t) in
        (case Restore e w (Render (t_vips t) nxt (b\<lparr>b_early := early\<rparr>)) of
           (w1, Some er) \<Rightarrow> Some (w1, t, Some er)
         | (w1, None) \<Rightarrow>
           let t' = \<lparr>t_vips = nxt, t_base = b, t_early = early\<rparr> in
           (case nat_hooks e w1 of
              (w2, Some er) \<Rightarrow> Some (w2, t', Some er)
            | (w2, None) \<Rightarrow>
              if \<not> pfx_IsValid (b_Range b) then Some (w2, t', None)
              else (case fwd_hook e w2 of None \<Rightarrow> None
                | Some (fwd, w3) \<Rightarrow>
                  map_option (\<lambda>(w4, er). (w4, t', er))
                    (first_jumps e [(''raw'', ''PREROUTING'', RawChain), (''nat'', ''POSTROUTING'', NATChain),
                       ([], fwd, FwdChain), ([], ''INPUT'', InChain)] w3)))))"

definition Set :: "'w vip_env \<Rightarrow> 'w \<Rightarrow> table \<Rightarrow> string \<Rightarrow> string list \<Rightarrow> string list \<Rightarrow> ('w \<times> table \<times> error) option" where
  "Set e w t vip replicas lan = Table_apply e w t (AList.update vip \<lparr>Replicas = replicas, Lan = lan\<rparr> (t_vips t)) (t_base t)"

definition Remove :: "'w vip_env \<Rightarrow> 'w \<Rightarrow> table \<Rightarrow> string \<Rightarrow> ('w \<times> table \<times> error) option" where
  "Remove e w t vip = Table_apply e w t (AList.delete vip (t_vips t)) (t_base t)"

definition Rebuild :: "'w vip_env \<Rightarrow> 'w \<Rightarrow> table \<Rightarrow> (string \<times> entry) list \<Rightarrow> base \<Rightarrow> ('w \<times> table \<times> error) option" where
  "Rebuild e w t all b = Table_apply e w t all b"

definition Merge :: "'w vip_env \<Rightarrow> 'w \<Rightarrow> table \<Rightarrow> (string \<times> entry) list \<Rightarrow> string list \<Rightarrow> base \<Rightarrow> ('w \<times> table \<times> error) option" where
  "Merge e w t all drp b =
     Table_apply e w t (foldl (\<lambda>m (k, v). AList.update k v m) (foldl (\<lambda>m v. AList.delete v m) (t_vips t) drp) all) b"

definition Full :: "table \<Rightarrow> string" where
  "Full t = Render [] (t_vips t) ((t_base t)\<lparr>b_early := t_early t\<rparr>)"

definition put_early :: "string \<Rightarrow> string list option \<Rightarrow> table \<Rightarrow> table" where
  "put_early ip v t = t\<lparr>t_early := (case v of None \<Rightarrow> AList.delete ip (t_early t) | Some lan \<Rightarrow> AList.update ip lan (t_early t))\<rparr>"

definition Allow :: "'w vip_env \<Rightarrow> 'w \<Rightarrow> table \<Rightarrow> string \<Rightarrow> string list \<Rightarrow> ('w \<times> table \<times> error) option" where
  "Allow e w t ip lan =
     (if \<not> is_addr4 ip then Some (w, t, Some (not_addr4 ip))
      else
        let old = map_of (t_early t) ip in
        if lan = [] \<and> old = None then Some (w, t, None)
        else (case Table_apply e w (put_early ip (if lan = [] then None else Some lan) t) (t_vips t) (t_base t) of
            None \<Rightarrow> None
          | Some (w', t', None) \<Rightarrow> Some (w', t', None)
          | Some (w', t', Some er) \<Rightarrow> Some (w', put_early ip old t', Some er)))"

definition Legacy :: "'w vip_env \<Rightarrow> 'w \<Rightarrow> 'w \<times> bool" where
  "Legacy e w = (case Exec e w [''iptables'', ''-S'', ''DOCKER-USER''] of (w', er) \<Rightarrow> (w', er \<noteq> None))"

fun allow_rules :: "'w vip_env \<Rightarrow> bool \<Rightarrow> string list list \<Rightarrow> 'w \<Rightarrow> ('w \<times> error) option" where
  "allow_rules e on [] w = Some (w, None)"
| "allow_rules e on (rule # rules) w =
     (if \<not> on then (case del_loop (Exec e) ([''iptables'', ''-D''] @ rule) w of None \<Rightarrow> None | Some w' \<Rightarrow> allow_rules e on rules w')
      else (case Exec e w ([''iptables'', ''-C''] @ rule) of
          (w1, None) \<Rightarrow> allow_rules e on rules w1
        | (w1, Some _) \<Rightarrow>
          (case Exec e w1 ([''iptables'', ''-I'', hd rule, ''1''] @ tl rule) of
             (w2, Some er) \<Rightarrow> Some (w2, Some er)
           | (w2, None) \<Rightarrow> allow_rules e on rules w2)))"

definition AllowTCP :: "'w vip_env \<Rightarrow> 'w \<Rightarrow> string \<Rightarrow> int \<Rightarrow> int \<Rightarrow> bool \<Rightarrow> ('w \<times> error) option" where
  "AllowTCP e w src lo hi on =
     (let ports = itoa lo @ '':'' @ itoa hi in
      case Exec e w [''iptables'', ''-S'', ''DOCKER-USER''] of (w1, er) \<Rightarrow>
        let fwd = (if er = None then ''DOCKER-USER'' else ''FORWARD'') in
        allow_rules e on
          [[''INPUT'', ''-s'', src, ''-p'', ''tcp'', ''--dport'', ports, ''-m'', ''comment'', ''--comment'', ''stackr-move'', ''-j'', ''ACCEPT''],
           [fwd, ''-s'', src, ''-p'', ''tcp'', ''-m'', ''conntrack'', ''--ctorigdstport'', ports,
            ''-m'', ''comment'', ''--comment'', ''stackr-move'', ''-j'', ''ACCEPT'']] w1)"

section \<open>Lemmas\<close>

subsection \<open>Even shares\<close>

text \<open>The part of a VIP's new connections each rule takes, \<open>rest\<close> being what reaches the first.\<close>

definition prob :: "nat \<Rightarrow> real" where
  "prob n = real (prob5 n) / 10 ^ 5"

fun shares :: "nat_rule list \<Rightarrow> real \<Rightarrow> real list" where
  "shares [] rest = []"
| "shares (DnatRandom n ip # rs) rest = rest * prob n # shares rs (rest * (1 - prob n))"
| "shares (DnatAll ip # rs) rest = rest # shares rs 0"
| "shares (_ # rs) rest = shares rs rest"

lemma round_half_even_error:
  assumes "b > 0"
  shows "\<bar>real (round_half_even a b) - real a / real b\<bar> \<le> 1 / 2"
proof -
  define q r where "q = a div b" and "r = a mod b"
  have ab: "real a / real b = real q + real r / real b"
  proof -
    have "real a = real b * real q + real r" unfolding q_def r_def by (metis mult_div_mod_eq of_nat_add of_nat_mult)
    with assms show ?thesis by (simp add: field_simps)
  qed
  have r: "real r / real b < 1" using assms by (simp add: r_def)
  have lo: "2 * r \<le> b \<Longrightarrow> real r / real b \<le> 1 / 2" using assms by (simp add: field_simps)
  have hi: "b \<le> 2 * r \<Longrightarrow> 1 / 2 \<le> real r / real b" using assms by (simp add: field_simps)
  show ?thesis
    using lo hi r by (auto simp: round_half_even_def Let_def ab q_def [symmetric] r_def [symmetric])
qed

lemma prob_error:
  assumes "n > 0"
  shows "\<bar>prob n - 1 / real n\<bar> \<le> 1 / 10 ^ 5"
proof -
  define E where "E = float_exp n"
  have E: "(2::real) ^ 53 \<le> 2 ^ E" unfolding E_def float_exp_def by (rule power_increasing) simp_all
  have "\<bar>real (float_inv n) - 2 ^ E / real n\<bar> \<le> 1 / 2"
    using round_half_even_error [OF assms, of "2 ^ E"] by (simp add: float_inv_def E_def)
  then have "\<bar>real (float_inv n) - 2 ^ E / real n\<bar> / 2 ^ E \<le> 1 / 2 / 2 ^ E" by (rule divide_right_mono) simp
  moreover have "\<bar>real (float_inv n) - 2 ^ E / real n\<bar> / 2 ^ E = \<bar>(real (float_inv n) - 2 ^ E / real n) / 2 ^ E\<bar>" by simp
  moreover have "(real (float_inv n) - 2 ^ E / real n) / 2 ^ E = real (float_inv n) / 2 ^ E - 1 / real n"
    by (simp add: diff_divide_distrib)
  ultimately have a: "\<bar>real (float_inv n) / 2 ^ E - 1 / real n\<bar> \<le> 1 / 2 / 2 ^ E" by simp
  have "\<bar>real (prob5 n) - real (float_inv n) * 10 ^ 5 / 2 ^ E\<bar> \<le> 1 / 2"
    using round_half_even_error [of "2 ^ E" "float_inv n * 10 ^ 5"] by (simp add: prob5_def E_def)
  then have b: "\<bar>prob n - real (float_inv n) / 2 ^ E\<bar> \<le> 1 / 2 / 10 ^ 5"
    unfolding prob_def by (simp add: field_simps abs_le_iff)
  have "1 / 2 / 2 ^ E \<le> (1 / 2 / 10 ^ 5 :: real)" using E by (simp add: field_simps)
  with a b show ?thesis by linarith
qed

lemma prob_range: "n \<ge> 2 \<Longrightarrow> 0 \<le> prob n \<and> prob n \<le> 1"
proof -
  assume n: "n \<ge> 2"
  have "prob n \<le> 1 / real n + 1 / 10 ^ 5" using prob_error [of n] n by linarith
  moreover have "1 / real n \<le> 1 / 2" using n by simp
  moreover have "0 \<le> prob n" by (simp add: prob_def)
  ultimately show ?thesis by simp
qed

lemma replica_rules_Nil [simp]: "replica_rules [] = []"
  by (simp add: replica_rules_def)

lemma replica_rules_Cons [simp]:
  "replica_rules (x # xs) = (if xs = [] then DnatAll x else DnatRandom (Suc (length xs)) x) # replica_rules xs"
proof -
  have "[0..<length (x # xs)] = 0 # map Suc [0..<length xs]" by (simp add: map_Suc_upt upt_conv_Cons del: upt_Suc)
  then show ?thesis by (auto simp: replica_rules_def comp_def Let_def simp del: upt_Suc)
qed

lemma shares_error:
  assumes "n > 0"
  shows "length ips \<le> n \<Longrightarrow> \<bar>rest - real (length ips) / real n\<bar> \<le> \<delta> \<Longrightarrow> i < length ips \<Longrightarrow>
    \<bar>shares (replica_rules ips) rest ! i - 1 / real n\<bar> \<le> \<delta> + real (Suc i) / 10 ^ 5"
proof (induction ips arbitrary: rest \<delta> i)
  case (Cons x xs)
  let ?\<epsilon> = "1 / 10 ^ 5 :: real"
  show ?case
  proof (cases "xs = []")
    case True
    with Cons.prems show ?thesis by simp
  next
    case False
    define k where "k = Suc (length xs)"
    define p where "p = prob k"
    have k: "k \<ge> 2" using False by (cases xs) (auto simp: k_def)
    have p: "0 \<le> p" "p \<le> 1" using prob_range [OF k] by (simp_all add: p_def)
    have e: "\<bar>p - 1 / real k\<bar> \<le> ?\<epsilon>" using prob_error [of k] k by (simp add: p_def)
    have kn: "0 \<le> real k / real n" "real k / real n \<le> 1" using Cons.prems(1) assms by (simp_all add: k_def)
    have d: "\<bar>rest - real k / real n\<bar> \<le> \<delta>" using Cons.prems(2) by (simp add: k_def)
    have step: "\<bar>(rest - real k / real n) * y + real k / real n * z\<bar> \<le> \<delta> + ?\<epsilon>" if "0 \<le> y" "y \<le> 1" "\<bar>z\<bar> \<le> ?\<epsilon>" for y z :: real
    proof -
      have "\<bar>(rest - real k / real n) * y\<bar> \<le> \<delta> * 1" using d that unfolding abs_mult by (intro mult_mono) auto
      moreover have "\<bar>real k / real n * z\<bar> \<le> 1 * ?\<epsilon>" using kn that unfolding abs_mult by (intro mult_mono) auto
      ultimately show ?thesis by linarith
    qed
    have k1: "real k / real n * (1 / real k) = 1 / real n" using k by simp
    have here: "\<bar>rest * p - 1 / real n\<bar> \<le> \<delta> + ?\<epsilon>"
    proof -
      have "(rest - real k / real n) * p + real k / real n * (p - 1 / real k) = rest * p - real k / real n * (1 / real k)"
        by (simp add: algebra_simps)
      then show ?thesis using step [of p "p - 1 / real k"] p e unfolding k1 by simp
    qed
    have "\<bar>rest * (1 - p) - real (length xs) / real n\<bar> \<le> \<delta> + ?\<epsilon>"
    proof -
      have "(rest - real k / real n) * (1 - p) + real k / real n * (1 / real k - p) = rest * (1 - p) - (real k / real n - real k / real n * (1 / real k))"
        by (simp only: algebra_simps)
      also have "\<dots> = rest * (1 - p) - real (length xs) / real n" unfolding k1 by (simp add: k_def add_divide_distrib algebra_simps)
      finally show ?thesis using step [of "1 - p" "1 / real k - p"] p e by (simp add: abs_minus_commute)
    qed
    note IH = Cons.IH [OF _ this]
    show ?thesis
    proof (cases i)
      case 0
      with False here show ?thesis by (simp add: p_def k_def)
    next
      case (Suc j)
      with IH [of j] Cons.prems False show ?thesis by (simp add: p_def k_def add_divide_distrib)
    qed
  qed
qed simp

lemma shares_sum: "ips \<noteq> [] \<Longrightarrow> sum_list (shares (replica_rules ips) rest) = rest"
proof (induction ips arbitrary: rest)
  case (Cons x xs)
  then show ?case by (cases "xs = []") (simp_all add: algebra_simps)
qed simp

subsection \<open>The delete loop\<close>

lemma del_loop_returns:
  assumes "\<And>w. snd (ex w a) = None \<Longrightarrow> copies (fst (ex w a)) < (copies w :: nat)"
  shows "\<exists>w'. del_loop ex a w = Some w'"
proof (induction "copies w" arbitrary: w rule: less_induct)
  case less
  show ?case
  proof (cases "snd (ex w a)")
    case None
    with less [OF assms [OF None]] show ?thesis by (subst del_loop.simps) simp
  qed (subst del_loop.simps, simp)
qed

text \<open>
  The documented behaviour of a rule delete: when it succeeds one copy of the rule is gone,
  counted by \<open>copies\<close>, so a delete cannot succeed for ever.
\<close>

definition deletes_end :: "'w vip_env \<Rightarrow> ('w \<Rightarrow> string list \<Rightarrow> nat) \<Rightarrow> bool" where
  "deletes_end e copies \<longleftrightarrow> (\<forall>w a. ''-D'' \<in> set a \<longrightarrow> snd (Exec e w a) = None \<longrightarrow> copies (fst (Exec e w a)) a < copies w a)"

lemma del_loop_D: "deletes_end e copies \<Longrightarrow> ''-D'' \<in> set a \<Longrightarrow> \<exists>w'. del_loop (Exec e) a w = Some w'"
  by (rule del_loop_returns [where copies = "\<lambda>w. copies w a"]) (simp add: deletes_end_def)

lemma first_jumps_returns: "deletes_end e copies \<Longrightarrow> \<exists>r. first_jumps e hs w = Some r"
proof (induction hs arbitrary: w)
  case (Cons h hs)
  obtain tbl name chain where h: "h = (tbl, name, chain)" by (metis prod_cases3)
  have "\<exists>r. first_jump e h w = Some r"
  proof -
    let ?ipt = "\<lambda>args. ''iptables'' # (if tbl \<noteq> [] then [''-t'', tbl] else []) @ args"
    obtain w1 out' er where rd: "Read e w (?ipt [''-S'', name, ''1'']) = (w1, out', er)" by (metis prod_cases3)
    obtain w2 where "del_loop (Exec e) (?ipt [''-D'', name, ''-j'', chain]) w1 = Some w2"
      using del_loop_D [OF Cons.prems, of "?ipt [''-D'', name, ''-j'', chain]" w1] by auto
    with rd show ?thesis unfolding first_jump_def h Let_def by simp
  qed
  with Cons show ?case by (fastforce split: option.splits prod.splits)
qed simp

lemma Table_apply_returns:
  assumes "deletes_end e copies"
  shows "\<exists>r. Table_apply e w t nxt b = Some r"
proof -
  have fwd: "\<exists>r. fwd_hook e w = Some r" for w
  proof -
    obtain w1 er where x: "Exec e w [''iptables'', ''-S'', ''DOCKER-USER''] = (w1, er)" by (metis surj_pair)
    obtain w2 where "del_loop (Exec e) [''iptables'', ''-D'', ''FORWARD'', ''-j'', FwdChain] w1 = Some w2"
      using del_loop_D [OF assms, of "[''iptables'', ''-D'', ''FORWARD'', ''-j'', FwdChain]" w1] by auto
    with x show ?thesis by (cases er) (simp_all add: fwd_hook_def)
  qed
  note fj = first_jumps_returns [OF assms]
  obtain w1 e1 where r: "Restore e w (Render (t_vips t) nxt (b\<lparr>b_early := still_early nxt (t_early t)\<rparr>)) = (w1, e1)" by (metis surj_pair)
  obtain w2 e2 where h: "nat_hooks e w1 = (w2, e2)" by (metis surj_pair)
  obtain f w3 where f: "fwd_hook e w2 = Some (f, w3)" using fwd [of w2] by auto
  obtain w4 e4 where j: "first_jumps e [(''raw'', ''PREROUTING'', RawChain), (''nat'', ''POSTROUTING'', NATChain),
      ([], f, FwdChain), ([], ''INPUT'', InChain)] w3 = Some (w4, e4)" using fj by (metis surj_pair)
  show ?thesis
    by (cases "apply_err t nxt b"; cases e1; cases e2; cases "pfx_IsValid (b_Range b)") (simp_all add: Table_apply_def Let_def r h f j del: first_jumps.simps)
qed

subsection \<open>What apply leaves\<close>

definition next_table :: "table \<Rightarrow> (string \<times> entry) list \<Rightarrow> base \<Rightarrow> table" where
  "next_table t nxt b = \<lparr>t_vips = nxt, t_base = b, t_early = still_early nxt (t_early t)\<rparr>"

lemma Table_apply_outcome:
  assumes "Table_apply e w t nxt b = Some (w', t', er)"
  shows "t' = t \<and> er \<noteq> None \<or> t' = next_table t nxt b \<and> apply_err t nxt b = None"
    and "er = None \<Longrightarrow> t' = next_table t nxt b"
    and "apply_err t nxt b \<noteq> None \<Longrightarrow> w' = w"
  using assms by (auto simp: Table_apply_def Let_def next_table_def split: option.splits prod.splits if_splits)

text \<open>Everything the table holds was checked.\<close>

definition table_ok :: "table \<Rightarrow> bool" where
  "table_ok t \<longleftrightarrow> map_checked (t_vips t) (t_early t) \<and> Base_check (t_base t) = None"

definition early_keys_ok :: "table \<Rightarrow> bool" where
  "early_keys_ok t \<longleftrightarrow> distinct (map fst (t_early t)) \<and> (\<forall>k \<in> fst ` set (t_early t). is_addr4 k)"

lemma apply_err_None:
  assumes "apply_err t nxt b = None" "distinct (map fst nxt)" "early_keys_ok t"
  shows "table_ok (next_table t nxt b)"
proof -
  have "list_all entry_checked nxt"
    using assms(1) by (auto simp: apply_err_def first_of_None entry_err_def entry_checked_def list_all_iff split: if_splits)
  moreover have "list_all early_checked (still_early nxt (t_early t))"
    using assms(1,3) by (auto simp: apply_err_def first_of_None early_keys_ok_def early_checked_def still_early_def list_all_iff split: prod.splits)
  moreover have "distinct (map fst (still_early nxt (t_early t)))"
    using assms(3) by (auto simp: early_keys_ok_def still_early_def distinct_map_filter)
  ultimately show ?thesis
    using assms(1,2) by (simp add: table_ok_def next_table_def map_checked_def apply_err_def first_of_None)
qed

lemma table_ok_early_keys: "table_ok t \<Longrightarrow> early_keys_ok t"
  by (auto simp: table_ok_def map_checked_def early_keys_ok_def early_checked_def list_all_iff)

lemma Table_apply_ok:
  assumes "Table_apply e w t nxt b = Some (w', t', er)" "distinct (map fst nxt)" "table_ok t"
  shows "table_ok t'"
  using Table_apply_outcome(1) [OF assms(1)] apply_err_None [OF _ assms(2) table_ok_early_keys [OF assms(3)]] assms(3) by blast

subsection \<open>Operations\<close>

text \<open>The operations of a table, as one type, for statements about every one of them.\<close>

datatype vip_op =
    OpSet string "string list" "string list"
  | OpAllow string "string list"
  | OpRemove string
  | OpRebuild "(string \<times> entry) list" base
  | OpMerge "(string \<times> entry) list" "string list" base

fun run_vip :: "'w vip_env \<Rightarrow> vip_op \<Rightarrow> 'w \<Rightarrow> table \<Rightarrow> ('w \<times> table \<times> error) option" where
  "run_vip e (OpSet v rs lan) w t = Set e w t v rs lan"
| "run_vip e (OpAllow ip lan) w t = Allow e w t ip lan"
| "run_vip e (OpRemove v) w t = Remove e w t v"
| "run_vip e (OpRebuild all b) w t = Rebuild e w t all b"
| "run_vip e (OpMerge all drp b) w t = Merge e w t all drp b"

text \<open>A Go map has each key once.\<close>

fun op_map_ok :: "vip_op \<Rightarrow> bool" where
  "op_map_ok (OpRebuild all b) = distinct (map fst all)"
| "op_map_ok _ = True"

fun run_vips :: "'w vip_env \<Rightarrow> vip_op list \<Rightarrow> 'w \<Rightarrow> table \<Rightarrow> ('w \<times> table) option" where
  "run_vips e [] w t = Some (w, t)"
| "run_vips e (x # xs) w t = (case run_vip e x w t of None \<Rightarrow> None | Some (w', t', er) \<Rightarrow> run_vips e xs w' t')"

lemma distinct_folds:
  "distinct (map fst m) \<Longrightarrow> distinct (map fst (foldl (\<lambda>m v. AList.delete v m) m drp))"
  "distinct (map fst m) \<Longrightarrow> distinct (map fst (foldl (\<lambda>m (k, v). AList.update k v m) m all))"
proof -
  show "distinct (map fst m) \<Longrightarrow> distinct (map fst (foldl (\<lambda>m v. AList.delete v m) m drp))"
    by (induction drp arbitrary: m) (simp_all add: distinct_delete)
  show "distinct (map fst m) \<Longrightarrow> distinct (map fst (foldl (\<lambda>m (k, v). AList.update k v m) m all))"
    by (induction all arbitrary: m) (auto simp: distinct_update)
qed

lemma map_of_folds:
  "map_of (foldl (\<lambda>m v. AList.delete v m) m drp) k = (if k \<in> set drp then None else map_of m k)"
  "distinct (map fst all) \<Longrightarrow> map_of (foldl (\<lambda>m (k, v). AList.update k v m) m all) = map_of m ++ map_of all"
proof -
  show "map_of (foldl (\<lambda>m v. AList.delete v m) m drp) k = (if k \<in> set drp then None else map_of m k)"
    by (induction drp arbitrary: m) (auto simp: delete_conv')
  show "distinct (map fst all) \<Longrightarrow> map_of (foldl (\<lambda>m (k, v). AList.update k v m) m all) = map_of m ++ map_of all"
  proof (induction all arbitrary: m)
    case (Cons x all)
    obtain k v where x: "x = (k, v)" by (cases x)
    with Cons.prems have "map_of all k = None" by (simp add: map_of_eq_None_iff)
    with Cons x show ?case by (auto simp: update_conv' map_add_def fun_eq_iff split: option.splits)
  qed simp
qed

lemma put_early_map: "map_of (t_early (put_early ip v t)) = (map_of (t_early t))(ip := v)"
  by (cases v) (auto simp: put_early_def update_conv' delete_conv')

lemma put_early_same: "t_vips (put_early ip v t) = t_vips t" "t_base (put_early ip v t) = t_base t"
  by (simp_all add: put_early_def)

lemma put_early_distinct: "distinct (map fst (t_early t)) \<Longrightarrow> distinct (map fst (t_early (put_early ip v t)))"
  by (cases v) (simp_all add: put_early_def distinct_update distinct_delete)

lemma keys_map_of: "(\<forall>k \<in> fst ` set al. P k) \<longleftrightarrow> (\<forall>k. map_of al k \<noteq> None \<longrightarrow> P k)"
  by (auto simp: map_of_eq_None_iff)

lemma put_early_keys: "early_keys_ok t \<Longrightarrow> is_addr4 ip \<Longrightarrow> early_keys_ok (put_early ip v t)"
  unfolding early_keys_ok_def keys_map_of by (auto simp: put_early_map put_early_distinct)

lemma table_ok_early:
  "table_ok t \<longleftrightarrow> distinct (map fst (t_vips t)) \<and> list_all entry_checked (t_vips t) \<and> Base_check (t_base t) = None \<and>
     distinct (map fst (t_early t)) \<and> (\<forall>k l. map_of (t_early t) k = Some l \<longrightarrow> early_checked (k, l))"
  by (auto simp: table_ok_def map_checked_def list_all_iff dest: map_of_SomeD)

lemma Allow_ok:
  assumes a: "Allow e w t ip lan = Some (w', t', er)" and ok: "table_ok t"
  shows "table_ok t'"
proof (cases "\<not> is_addr4 ip \<or> lan = [] \<and> map_of (t_early t) ip = None")
  case True
  with a ok show ?thesis by (auto simp: Allow_def Let_def split: if_splits)
next
  case False
  define v where "v = (if lan = [] then None else Some lan)"
  define t0 where "t0 = put_early ip v t"
  obtain t1 where ap: "Table_apply e w t0 (t_vips t) (t_base t) = Some (w', t1, er)"
    and t': "t' = (if er = None then t1 else put_early ip (map_of (t_early t) ip) t1)"
    using a False by (auto simp: Allow_def Let_def v_def t0_def split: option.splits prod.splits if_splits)
  have ek: "early_keys_ok t0" unfolding t0_def using False ok by (intro put_early_keys table_ok_early_keys) auto
  have nt: "table_ok (next_table t0 (t_vips t) (t_base t))" if "apply_err t0 (t_vips t) (t_base t) = None"
    using apply_err_None [OF that _ ek] ok by (simp add: table_ok_early)
  have bk: "table_ok (put_early ip (map_of (t_early t) ip) t1)"
    if "t1 = t0 \<or> table_ok t1" using that
  proof
    assume "table_ok t1"
    with ok show ?thesis unfolding table_ok_early by (auto simp: put_early_map put_early_same put_early_distinct)
  next
    assume "t1 = t0"
    with ok show ?thesis
      unfolding table_ok_early t0_def by (auto simp: put_early_map put_early_same put_early_distinct split: if_splits)
  qed
  show ?thesis
    using Table_apply_outcome(1,2) [OF ap] nt bk t' by (auto split: if_splits)
qed

lemma run_vip_ok:
  assumes "run_vip e x w t = Some (w', t', er)" "op_map_ok x" "table_ok t"
  shows "table_ok t'"
proof -
  have d: "distinct (map fst (t_vips t))" using assms(3) by (simp add: table_ok_early)
  show ?thesis
  proof (cases x)
    case (OpAllow ip lan)
    with assms Allow_ok [of e w t ip lan w' t' er] show ?thesis by simp
  qed (use assms d in \<open>auto simp: Set_def Remove_def Rebuild_def Merge_def distinct_update distinct_delete distinct_folds intro: Table_apply_ok\<close>)
qed

lemma New_ok: "table_ok New"
  by (simp add: New_def table_ok_def map_checked_def Base_check_def zero_base_def pfx_IsValid_def)

lemma run_vips_ok: "run_vips e xs w t = Some (w', t') \<Longrightarrow> list_all op_map_ok xs \<Longrightarrow> table_ok t \<Longrightarrow> table_ok t'"
proof (induction xs arbitrary: w t)
  case (Cons x xs)
  then show ?case by (auto split: option.splits prod.splits dest: run_vip_ok)
qed simp

section \<open>Properties\<close>

text \<open>
  C20: Whatever operations run and however they end, the table holds only checked data: IPv4
  addresses for every VIP, replica and early replica, grants that parse and a checked base.  What a
  node replays after a reboot is rendered from it.
\<close>

theorem table_stays_checked:
  assumes "run_vips e xs w New = Some (w', t')" and "list_all op_map_ok xs"
  shows "table_ok t'"
  by (rule run_vips_ok [OF assms New_ok])

text \<open>
  C27: An apply that is refused by a check runs no command and leaves the table as it was; one whose restore
  fails leaves the table as it was; one that succeeds has committed the new VIPs and base, with
  the replicas that are now routed no longer early.
\<close>

theorem apply_commits_or_keeps:
  assumes "Table_apply e w t nxt b = Some (w', t', er)"
  shows "(apply_err t nxt b \<noteq> None \<longrightarrow> w' = w \<and> t' = t \<and> er = apply_err t nxt b) \<and>
    (snd (Restore e w (Render (t_vips t) nxt (b\<lparr>b_early := still_early nxt (t_early t)\<rparr>))) \<noteq> None \<longrightarrow> t' = t \<and> er \<noteq> None) \<and>
    (er = None \<longrightarrow> t_vips t' = nxt \<and> t_base t' = b \<and>
       (\<forall>ip. map_of (t_early t') ip \<noteq> None \<longrightarrow> (\<forall>(v, x) \<in> set nxt. ip \<notin> set (Replicas x))))"
proof -
  have early: "ip \<notin> set (Replicas x)" if "map_of (still_early nxt es) ip \<noteq> None" "(v, x) \<in> set nxt" for ip v x es
  proof -
    from that(1) obtain l where "map_of (still_early nxt es) ip = Some l" by blast
    then have "(ip, l) \<in> set (still_early nxt es)" by (rule map_of_SomeD)
    with that(2) show ?thesis by (auto simp: still_early_def list_ex_iff)
  qed
  have "er = None \<Longrightarrow> t_vips t' = nxt \<and> t_base t' = b \<and>
      (\<forall>ip. map_of (t_early t') ip \<noteq> None \<longrightarrow> (\<forall>(v, x) \<in> set nxt. ip \<notin> set (Replicas x)))"
    using Table_apply_outcome(2) [OF assms] early [of "t_early t"] by (simp add: next_table_def case_prod_beta) (metis prod.collapse)
  moreover have "apply_err t nxt b \<noteq> None \<Longrightarrow> w' = w \<and> t' = t \<and> er = apply_err t nxt b"
    using assms by (auto simp: Table_apply_def)
  moreover have "snd (Restore e w (Render (t_vips t) nxt (b\<lparr>b_early := still_early nxt (t_early t)\<rparr>))) \<noteq> None \<Longrightarrow> t' = t \<and> er \<noteq> None"
    using assms by (cases "apply_err t nxt b") (auto simp: Table_apply_def Let_def split: prod.splits dest: sym)
  ultimately show ?thesis by blast
qed

text \<open>
  A partial rebuild (Merge) rewrites the VIPs it read, drops the ones it was told are gone
  and keeps every other one as it was.
\<close>

theorem Merge_keeps_unread:
  assumes "Merge e w t all drp b = Some (w', t', None)" and "distinct (map fst all)"
  shows "map_of (t_vips t') k = (case map_of all k of Some x \<Rightarrow> Some x | None \<Rightarrow> if k \<in> set drp then None else map_of (t_vips t) k)"
proof -
  have "t_vips t' = foldl (\<lambda>m (k, v). AList.update k v m) (foldl (\<lambda>m v. AList.delete v m) (t_vips t) drp) all"
    using Table_apply_outcome(2) [OF assms(1) [unfolded Merge_def]] by (simp add: next_table_def)
  then show ?thesis
    using map_of_folds(2) [OF assms(2)] by (simp add: map_of_folds(1) map_add_def split: option.splits)
qed

text \<open>
  C28: The operations return: every loop that deletes a jump until the command fails ends, as
  long as each successful delete takes one copy of the rule away.
\<close>

theorem operations_return:
  assumes "deletes_end e copies"
  shows "\<exists>r. run_vip e x w t = Some r"
proof -
  note ap = Table_apply_returns [OF assms]
  show ?thesis
  proof (cases x)
    case (OpAllow ip lan)
    obtain w1 t1 e1 where "Table_apply e w (put_early ip (if lan = [] then None else Some lan) t) (t_vips t) (t_base t) = Some (w1, t1, e1)"
      using ap by (metis prod_cases3)
    with OpAllow show ?thesis by (cases e1) (simp_all add: Allow_def Let_def)
  qed (use ap in \<open>simp_all add: Set_def Remove_def Rebuild_def Merge_def del: split_paired_Ex\<close>)
qed

text \<open>
  The replicas share a VIP's new connections evenly up to the five printed decimals: with n
  replicas the i-th rule takes 1/n of them within (i+1)/100000, and together they take all.
\<close>

theorem replicas_share_evenly:
  assumes "ips \<noteq> []" and "i < length ips"
  shows "\<bar>shares (replica_rules ips) 1 ! i - 1 / real (length ips)\<bar> \<le> real (Suc i) / 10 ^ 5 \<and>
    sum_list (shares (replica_rules ips) 1) = 1"
  using shares_error [of "length ips" ips 1 0 i] shares_sum [OF assms(1), of 1] assms by simp

text \<open>
  The nat section of the script is one iptables-restore accepts: every rule is in a chain
  the script declares, every jump goes to a declared VIP chain that stays, and a chain is deleted only
  after it was flushed by its declaration, with no rule in it and no jump to it.
\<close>

theorem Render_nat_wellformed:
  "(\<forall>(c, r) \<in> set (nat_rules nxt b). c \<in> set (nat_decls prev nxt b)) \<and>
   (\<forall>v. VipJump v \<in> snd ` set (nat_rules nxt b) \<longrightarrow> vipChain v \<in> set (nat_decls prev nxt b)) \<and>
   (\<forall>v \<in> set (gone_vips prev nxt). vipChain v \<in> set (nat_decls prev nxt b) \<and>
      vipChain v \<notin> fst ` set (nat_rules nxt b) \<and> VipJump v \<notin> snd ` set (nat_rules nxt b))"
proof -
  have neq: "vipChain v \<noteq> Chain" "vipChain v \<noteq> NATChain" "vipChain v = vipChain u \<longleftrightarrow> v = u" for u v
    by (simp_all add: vipChain_def Chain_def NATChain_def)
  have rep: "r \<in> set (replica_rules ips) \<Longrightarrow> r \<noteq> VipJump v" for r ips v
    by (auto simp: replica_rules_def Let_def split: if_splits)
  have gone: "v \<in> set (gone_vips prev nxt) \<Longrightarrow> v \<notin> set (map fst nxt)" for v
    by (auto simp: gone_vips_def map_of_eq_None_iff)
  let ?keys = "set (map fst nxt)"
  have R: "(c, r) \<in> set (nat_rules nxt b) \<longleftrightarrow>
      (meshOn b \<and> c = NATChain \<and> r = MeshAccept (b_WGIface b) (pfx_String (Masked (b_Cluster b)))) \<or>
      (\<exists>v \<in> ?keys. c = Chain \<and> r = VipJump v \<or> c = vipChain v \<and> r \<in> set (replica_rules (Replicas (entry_of nxt v))))" for c r
    by (auto simp: nat_rules_def vip_rules_def sorted_keys_def)
  have D: "c \<in> set (nat_decls prev nxt b) \<longleftrightarrow> c = Chain \<or> pfx_IsValid (b_Range b) \<and> c = NATChain \<or>
      (\<exists>v \<in> ?keys \<union> set (gone_vips prev nxt). c = vipChain v)" for c
    by (auto simp: nat_decls_def sorted_keys_def)
  have J: "VipJump v \<in> snd ` set (nat_rules nxt b) \<longleftrightarrow> v \<in> ?keys" for v
  proof -
    have "VipJump v \<in> snd ` set (nat_rules nxt b) \<longleftrightarrow> (\<exists>c. (c, VipJump v) \<in> set (nat_rules nxt b))" by force
    also have "\<dots> \<longleftrightarrow> v \<in> ?keys" unfolding R using rep by auto
    finally show ?thesis .
  qed
  have K: "vipChain v \<in> fst ` set (nat_rules nxt b) \<Longrightarrow> v \<in> ?keys" for v
  proof -
    assume "vipChain v \<in> fst ` set (nat_rules nxt b)"
    then obtain r where "(vipChain v, r) \<in> set (nat_rules nxt b)" by force
    with neq show ?thesis unfolding R by auto
  qed
  have "c \<in> set (nat_decls prev nxt b)" if "(c, r) \<in> set (nat_rules nxt b)" for c r
    using that unfolding R D by (auto simp: meshOn_def)
  with J K gone show ?thesis unfolding D by blast
qed

text \<open>A runner without jumps to delete, for the witnesses: every command succeeds but a delete.\<close>

definition ex_vip_env :: "string list vip_env" where
  "ex_vip_env = \<lparr>Restore = (\<lambda>w s. (s # w, None)),
     Exec = (\<lambda>w a. (w, if ''-D'' \<in> set a then Some (Errorf ''no such rule'' []) else None)),
     Read = (\<lambda>w a. (w, [], None))\<rparr>"

definition ex_table :: table where
  "ex_table = \<lparr>t_vips = [(''10.208.3.9'', \<lparr>Replicas = [''10.208.3.4''], Lan = []\<rparr>), (''10.208.3.8'', \<lparr>Replicas = [''10.208.3.5''], Lan = []\<rparr>)],
     t_base = zero_base, t_early = []\<rparr>"

lemma ex_deletes_end: "deletes_end ex_vip_env (\<lambda>w a. 0)"
  by (simp add: deletes_end_def ex_vip_env_def)

theorem table_stays_checked_witness:
  "\<exists>w' t'. run_vips ex_vip_env [OpSet ''10.208.3.9'' [''10.208.3.4'', ''10.208.3.5''] [''lan:192.168.1.0/24''], OpSet ''bad'' [] [],
      OpAllow ''10.208.3.7'' [''lan:192.168.1.4:80'']] [] New = Some (w', t') \<and> table_ok t'"
proof -
  have "run_vips ex_vip_env [OpSet ''10.208.3.9'' [''10.208.3.4'', ''10.208.3.5''] [''lan:192.168.1.0/24''], OpSet ''bad'' [] [],
      OpAllow ''10.208.3.7'' [''lan:192.168.1.4:80'']] [] New \<noteq> None" by code_simp
  then obtain w' t' where r: "run_vips ex_vip_env [OpSet ''10.208.3.9'' [''10.208.3.4'', ''10.208.3.5''] [''lan:192.168.1.0/24''], OpSet ''bad'' [] [],
      OpAllow ''10.208.3.7'' [''lan:192.168.1.4:80'']] [] New = Some (w', t')" by (metis option.exhaust surj_pair)
  then have "table_ok t'" by (rule table_stays_checked) simp
  with r show ?thesis by blast
qed

theorem apply_commits_or_keeps_witness:
  "Table_apply ex_vip_env [] ex_table [(''::1'', \<lparr>Replicas = [], Lan = []\<rparr>)] zero_base = Some ([], ex_table, Some (not_addr4 ''::1''))"
proof -
  have er: "apply_err ex_table [(''::1'', \<lparr>Replicas = [], Lan = []\<rparr>)] zero_base = Some (not_addr4 ''::1'')" by code_simp
  obtain w' t' er where "Table_apply ex_vip_env [] ex_table [(''::1'', \<lparr>Replicas = [], Lan = []\<rparr>)] zero_base = Some (w', t', er)"
    using Table_apply_returns [OF ex_deletes_end] by (metis prod_cases3)
  with apply_commits_or_keeps [OF this] er show ?thesis by simp
qed

theorem Merge_keeps_unread_witness:
  "\<exists>w' t'. Merge ex_vip_env [] ex_table [(''10.208.3.7'', \<lparr>Replicas = [''10.208.3.6''], Lan = []\<rparr>)] [''10.208.3.8''] zero_base = Some (w', t', None) \<and>
     map_of (t_vips t') ''10.208.3.9'' = Some \<lparr>Replicas = [''10.208.3.4''], Lan = []\<rparr>"
proof -
  let ?m = "Merge ex_vip_env [] ex_table [(''10.208.3.7'', \<lparr>Replicas = [''10.208.3.6''], Lan = []\<rparr>)] [''10.208.3.8''] zero_base"
  have "map_option (\<lambda>(w, t, er). er) ?m = Some None" by code_simp
  then obtain w' t' where m: "?m = Some (w', t', None)" by auto
  from Merge_keeps_unread [OF m, of "''10.208.3.9''"] have "map_of (t_vips t') ''10.208.3.9'' = Some \<lparr>Replicas = [''10.208.3.4''], Lan = []\<rparr>"
    by (simp add: ex_table_def)
  with m show ?thesis by blast
qed

text \<open>
  A kernel that holds copies of jumps: a delete takes one copy away and fails when none is left.  Three are left over from before,
  two of them of one jump; the rebuild over a valid range deletes them all, in the loops, and returns.
\<close>

definition ex_kernel :: "string list list vip_env" where
  "ex_kernel = \<lparr>Restore = (\<lambda>w s. (w, None)),
     Exec = (\<lambda>w a. if ''-D'' \<notin> set a then (w, None) else if a \<in> set w then (remove1 a w, None) else (w, Some (Errorf ''no such rule'' []))),
     Read = (\<lambda>w a. (w, [], None))\<rparr>"

definition ex_jumps :: "string list list" where
  "ex_jumps = [[''iptables'', ''-t'', ''raw'', ''-D'', ''PREROUTING'', ''-j'', RawChain], [''iptables'', ''-D'', ''FORWARD'', ''-j'', FwdChain],
     [''iptables'', ''-t'', ''raw'', ''-D'', ''PREROUTING'', ''-j'', RawChain]]"

lemma ex_kernel_deletes: "deletes_end ex_kernel (\<lambda>w a. length (filter (\<lambda>x. x = a) w))"
proof -
  have "a \<in> set w \<Longrightarrow> length (filter (\<lambda>x. x = a) (remove1 a w)) < length (filter (\<lambda>x. x = a) w)" for a :: "string list" and w
    by (induction w) auto
  then show ?thesis by (auto simp: deletes_end_def ex_kernel_def)
qed

theorem operations_return_witness:
  "\<exists>t'. run_vip ex_kernel (OpRebuild ex_vips ex_base) ex_jumps New = Some ([], t', None)"
proof -
  obtain w' t' er where r: "run_vip ex_kernel (OpRebuild ex_vips ex_base) ex_jumps New = Some (w', t', er)"
    using operations_return [OF ex_kernel_deletes, of "OpRebuild ex_vips ex_base" ex_jumps New] by (metis prod_cases3)
  have c: "apply_err New ex_vips ex_base = None" "pfx_IsValid (b_Range ex_base)" by code_simp+
  have n: "nat_hooks ex_kernel ex_jumps = (ex_jumps, None)" by code_simp
  have f: "fwd_hook ex_kernel ex_jumps = Some (''DOCKER-USER'', remove1 [''iptables'', ''-D'', ''FORWARD'', ''-j'', FwdChain] ex_jumps)" by code_simp
  have j: "first_jumps ex_kernel [(''raw'', ''PREROUTING'', RawChain), (''nat'', ''POSTROUTING'', NATChain), ([], ''DOCKER-USER'', FwdChain), ([], ''INPUT'', InChain)]
      (remove1 [''iptables'', ''-D'', ''FORWARD'', ''-j'', FwdChain] ex_jumps) = Some ([], None)" by code_simp
  have "Restore ex_kernel w x = (w, None)" for w x by (simp add: ex_kernel_def)
  then have "w' = [] \<and> er = None" using r c n f j by (simp add: Rebuild_def Table_apply_def Let_def del: first_jumps.simps)
  then show ?thesis using r by blast
qed

theorem replicas_share_evenly_witness:
  "\<bar>shares (replica_rules [''10.0.0.1'', ''10.0.0.2'', ''10.0.0.3'']) 1 ! 2 - 1 / 3\<bar> \<le> 3 / 10 ^ 5"
  using replicas_share_evenly [of "[''10.0.0.1'', ''10.0.0.2'', ''10.0.0.3'']" 2] by (simp del: shares.simps replica_rules_Cons)

theorem Render_nat_wellformed_witness:
  "gone_vips [(''10.0.0.7'', \<lparr>Replicas = [], Lan = []\<rparr>)] [] = [''10.0.0.7''] \<and>
   vipChain ''10.0.0.7'' \<in> set (nat_decls [(''10.0.0.7'', \<lparr>Replicas = [], Lan = []\<rparr>)] [] zero_base)"
proof -
  have g: "gone_vips [(''10.0.0.7'', \<lparr>Replicas = [], Lan = []\<rparr>)] [] = [''10.0.0.7'']" by code_simp
  with Render_nat_wellformed [of "[]" zero_base "[(''10.0.0.7'', \<lparr>Replicas = [], Lan = []\<rparr>)]"] show ?thesis by simp
qed

end
