(* ===== verification/Job.thy ===== *)
theory Job
  imports Errs
begin

text \<open>
  \<^verbatim>\<open>internal/service/internal/leaf/job/job.go\<close> and the job rows of \<^verbatim>\<open>internal/service/internal/store/jobs.go\<close>: the
  states of a job, its lock set, what waits for what, and the operations on the rows.

  Times are integers (nanoseconds), a nullable column is an option.  The table is a list of rows;
  a query that sorts by creation time leaves the order of equal times open, so a listing takes
  the order the database returned as an argument.  A write that fails changes nothing.
\<close>

section \<open>Model: rows and states\<close>

record job =
  j_ID :: string
  j_Kind :: string
  j_State :: string
  j_ReleaseID :: "string option"
  j_LockSet :: "string list"
  j_Payload :: string
  j_WaitingParam :: "string option"
  j_LogPath :: string
  j_Error :: string
  j_CreatedAt :: int
  j_ActorID :: string
  j_ActorKeyID :: string
  j_StartedAt :: "int option"
  j_FinishedAt :: "int option"

definition Queued :: string where "Queued = ''queued''"
definition Running :: string where "Running = ''running''"
definition Waiting :: string where "Waiting = ''waiting''"
definition Done :: string where "Done = ''done''"
definition Failed :: string where "Failed = ''failed''"
definition Superseded :: string where "Superseded = ''superseded''"
definition Cancelled :: string where "Cancelled = ''cancelled''"
definition Skipped :: string where "Skipped = ''skipped''"

lemmas state_defs = Queued_def Running_def Waiting_def Done_def Failed_def Superseded_def Cancelled_def Skipped_def

definition Live :: "string \<Rightarrow> bool" where
  "Live s \<longleftrightarrow> s = Queued \<or> s = Running \<or> s = Waiting"

definition Terminal :: "string \<Rightarrow> bool" where
  "Terminal s \<longleftrightarrow> \<not> Live s"

definition Cancellable :: "string \<Rightarrow> bool" where
  "Cancellable s \<longleftrightarrow> s = Queued \<or> s = Waiting"

section \<open>Model: locks\<close>

definition LockSet :: "string list \<Rightarrow> string list" where
  "LockSet tileIDs = compact (sort tileIDs)"

definition All :: string where "All = ''*''"

definition WorkerRollout :: string where "WorkerRollout = ''worker-rollout''"

definition Overlaps :: "string list \<Rightarrow> string list \<Rightarrow> bool" where
  "Overlaps a b \<longleftrightarrow> All \<in> set a \<or> All \<in> set b \<or> list_ex (\<lambda>t. t \<in> set b) a"

definition Ahead :: "job \<Rightarrow> job list \<Rightarrow> job list" where
  "Ahead j live = filter (\<lambda>o'. \<not> (j_ID o' = j_ID j \<or> \<not> Overlaps (j_LockSet j) (j_LockSet o')) \<and>
     (j_State o' = Running \<or> j_State o' = Queued \<and> j_CreatedAt o' < j_CreatedAt j)) live"

definition RunningAhead :: "job \<Rightarrow> job list \<Rightarrow> nat" where
  "RunningAhead j live = length (filter (\<lambda>o'. j_State o' = Running) (Ahead j live))"

definition RunningJobs :: "nat \<Rightarrow> string" where
  "RunningJobs n = (if n = 1 then ''1 running job'' else nat_str n @ '' running jobs'')"

definition Waits :: "job \<Rightarrow> job list \<Rightarrow> bool \<Rightarrow> string" where
  "Waits j live held =
     (if j_State j \<noteq> Queued then []
      else if held then ''Waits for the panel upgrade''
      else if All \<in> set (j_LockSet j) then
        (if RunningAhead j live > 0 then ''Waits for '' @ RunningJobs (RunningAhead j live) else [])
      else (case find (\<lambda>o'. All \<in> set (j_LockSet o')) (Ahead j live) of
          Some o' \<Rightarrow> if j_Kind o' = WorkerRollout then ''Waits for the worker upgrade'' else ''Waits for the panel upgrade''
        | None \<Rightarrow> []))"

definition Supersedes :: "job \<Rightarrow> job \<Rightarrow> bool" where
  "Supersedes newer older \<longleftrightarrow> j_Kind newer = j_Kind older \<and> list_all (\<lambda>t. t \<in> set (j_LockSet newer)) (j_LockSet older)"

section \<open>Model: the table of rows\<close>

definition rows_Create :: "job list \<Rightarrow> job \<Rightarrow> job list" where
  "rows_Create rows j = rows @ [j]"

definition rows_Get :: "job list \<Rightarrow> string \<Rightarrow> job option" where
  "rows_Get rows i = find (\<lambda>r. j_ID r = i) rows"

definition rows_Update :: "job list \<Rightarrow> job \<Rightarrow> job list" where
  "rows_Update rows j = map (\<lambda>r. if j_ID r = j_ID j then j else r) rows"

definition rows_RequeueIfWaiting :: "job list \<Rightarrow> string \<Rightarrow> job list" where
  "rows_RequeueIfWaiting rows i =
     map (\<lambda>r. if j_ID r = i \<and> j_State r = Waiting then r\<lparr>j_State := Queued, j_WaitingParam := None\<rparr> else r) rows"

definition rows_ParkIfRunning :: "job list \<Rightarrow> string \<Rightarrow> string \<Rightarrow> string \<Rightarrow> job list" where
  "rows_ParkIfRunning rows i param payload =
     map (\<lambda>r. if j_ID r = i \<and> j_State r = Running
              then r\<lparr>j_State := Waiting, j_WaitingParam := Some param, j_Payload := payload\<rparr> else r) rows"

text \<open>\<open>order\<close> is the order the database returns equal times in; the listing is newest first.\<close>

definition rows_ListRecent :: "(job list \<Rightarrow> job list) \<Rightarrow> job list \<Rightarrow> nat \<Rightarrow> string list \<Rightarrow> job list" where
  "rows_ListRecent order rows limit states =
     (let sel = filter (\<lambda>r. states = [] \<or> j_State r \<in> set states) rows;
          srt = sort_key (\<lambda>r. - j_CreatedAt r) (order sel)
      in if limit > 0 then take limit srt else srt)"

definition rows_ListTouching :: "(job list \<Rightarrow> job list) \<Rightarrow> job list \<Rightarrow> string list \<Rightarrow> string \<Rightarrow> nat \<Rightarrow> job list" where
  "rows_ListTouching order rows tileIDs kind limit =
     (if tileIDs = [] then []
      else take limit (sort_key (\<lambda>r. - j_CreatedAt r) (order (filter (\<lambda>r.
        list_ex (\<lambda>t. t \<in> set tileIDs) (j_LockSet r) \<and> (kind = [] \<or> j_Kind r = kind)) rows))))"

definition rows_ListFinishedBefore :: "(job list \<Rightarrow> job list) \<Rightarrow> job list \<Rightarrow> int \<Rightarrow> nat \<Rightarrow> job list" where
  "rows_ListFinishedBefore order rows t limit =
     take limit (sort_key (\<lambda>r. the (j_FinishedAt r)) (order (filter (\<lambda>r. case j_FinishedAt r of None \<Rightarrow> False | Some f \<Rightarrow> f < t) rows)))"

section \<open>Model: the leaf\<close>

definition leaf_List :: "(job list \<Rightarrow> job list) \<Rightarrow> job list \<Rightarrow> string list \<Rightarrow> job list" where
  "leaf_List order rows states = sort_key j_CreatedAt (order (rows_ListRecent order rows 0 states))"

definition new_job :: "string \<Rightarrow> string \<Rightarrow> string list \<Rightarrow> string \<Rightarrow> string option \<Rightarrow> string \<Rightarrow> string \<times> string \<Rightarrow> int \<Rightarrow> job" where
  "new_job i kind lock payload releaseID logDir actor now =
     \<lparr>j_ID = i, j_Kind = kind, j_State = Queued, j_ReleaseID = releaseID, j_LockSet = LockSet lock, j_Payload = payload,
      j_WaitingParam = None, j_LogPath = logDir @ ''/'' @ i @ ''.log'', j_Error = [], j_CreatedAt = now,
      j_ActorID = fst actor, j_ActorKeyID = snd actor, j_StartedAt = None, j_FinishedAt = None\<rparr>"

definition started :: "job \<Rightarrow> int \<Rightarrow> job" where
  "started j now = j\<lparr>j_State := Running, j_StartedAt := Some now, j_WaitingParam := None, j_Error := []\<rparr>"

definition finished :: "job \<Rightarrow> string \<Rightarrow> string \<Rightarrow> int \<Rightarrow> job" where
  "finished j state reason now = j\<lparr>j_State := state, j_Error := reason, j_FinishedAt := Some now\<rparr>"

definition leaf_Park :: "job list \<Rightarrow> job \<Rightarrow> string \<Rightarrow> job list" where
  "leaf_Park rows j param = rows_ParkIfRunning rows (j_ID j) param (j_Payload j)"

definition leaf_Requeue :: "job list \<Rightarrow> job \<Rightarrow> job list" where
  "leaf_Requeue rows j = rows_RequeueIfWaiting rows (j_ID j)"

definition leaf_Last :: "(job list \<Rightarrow> job list) \<Rightarrow> job list \<Rightarrow> string \<Rightarrow> job option" where
  "leaf_Last order rows tile = (case rows_ListTouching order rows [tile] [] 1 of [] \<Rightarrow> None | j # _ \<Rightarrow> Some j)"

definition leaf_LastDone :: "(job list \<Rightarrow> job list) \<Rightarrow> job list \<Rightarrow> string \<Rightarrow> string \<Rightarrow> job option" where
  "leaf_LastDone order rows tile kind = find (\<lambda>j. j_State j = Done) (rows_ListTouching order rows [tile] kind 100)"

section \<open>Model: polling a log\<close>

definition MaxChunk :: nat where "MaxChunk = 65536"

definition NoLog :: string where
  "NoLog = ''(no log on this box for this job)'' @ [CHR 0x0A]"

record log =
  lg_Chunk :: string
  lg_Next :: int
  lg_End :: bool

text \<open>What opening the log file gives: none, an error, or its bytes.\<close>

datatype log_file = NoFile | OpenFails err | Bytes string

definition Poll_log :: "job \<Rightarrow> log_file \<Rightarrow> int \<Rightarrow> log \<times> error" where
  "Poll_log j file offset =
     (let out' = \<lparr>lg_Chunk = [], lg_Next = offset, lg_End = False\<rparr> in
      case file of
        NoFile \<Rightarrow>
          let fin = Terminal (j_State j) in
          if fin \<and> offset = 0 then (\<lparr>lg_Chunk = NoLog, lg_Next = int (length NoLog), lg_End = fin\<rparr>, None)
          else (out'\<lparr>lg_End := fin\<rparr>, None)
      | OpenFails e \<Rightarrow> (out', Some e)
      | Bytes bs \<Rightarrow>
          if offset < 0 then (out', Some (Errorf ''readat: negative offset'' []))
          else let chunk = take MaxChunk (drop (nat offset) bs) in
            (\<lparr>lg_Chunk = chunk, lg_Next = offset + int (length chunk), lg_End = Terminal (j_State j) \<and> length chunk < MaxChunk\<rparr>, None))"

definition leaf_Poll :: "job list \<Rightarrow> (string \<Rightarrow> log_file) \<Rightarrow> string \<Rightarrow> int \<Rightarrow> err + (job \<times> log \<times> error)" where
  "leaf_Poll rows file i offset = (case rows_Get rows i of None \<Rightarrow> Inl ErrNotFound
     | Some j \<Rightarrow> Inr (j, Poll_log j (file (j_LogPath j)) offset))"

section \<open>The interface of the rows\<close>

text \<open>
  What the runner relies on: reading a row after each kind of write.  The conditional writes
  touch one row in one state only.
\<close>

locale job_store =
  fixes get :: "'db \<Rightarrow> string \<Rightarrow> job option"
    and create :: "'db \<Rightarrow> job \<Rightarrow> 'db"
    and update :: "'db \<Rightarrow> job \<Rightarrow> 'db"
    and requeue :: "'db \<Rightarrow> string \<Rightarrow> 'db"
    and park :: "'db \<Rightarrow> string \<Rightarrow> string \<Rightarrow> string \<Rightarrow> 'db"
  assumes get_id: "get db i = Some r \<Longrightarrow> j_ID r = i"
    and get_create: "get db (j_ID j) = None \<Longrightarrow> get (create db j) i = (if i = j_ID j then Some j else get db i)"
    and get_update: "get (update db j) i = (if i = j_ID j \<and> get db i \<noteq> None then Some j else get db i)"
    and get_requeue: "get (requeue db k) i = map_option (\<lambda>r. if i = k \<and> j_State r = Waiting
          then r\<lparr>j_State := Queued, j_WaitingParam := None\<rparr> else r) (get db i)"
    and get_park: "get (park db k param payload) i = map_option (\<lambda>r. if i = k \<and> j_State r = Running
          then r\<lparr>j_State := Waiting, j_WaitingParam := Some param, j_Payload := payload\<rparr> else r) (get db i)"
begin

lemma ids_kept:
  "get (update db j) i = None \<longleftrightarrow> get db i = None"
  "get (requeue db k) i = None \<longleftrightarrow> get db i = None"
  "get (park db k p pl) i = None \<longleftrightarrow> get db i = None"
  by (auto simp: get_update get_requeue get_park)

text \<open>No conditional write moves a finished row; a full write does not move another row.\<close>

lemma terminal_kept:
  assumes "get db i = Some r" "Terminal (j_State r)"
  shows "get (requeue db k) i = Some r" "get (park db k p pl) i = Some r"
    "i \<noteq> j_ID j \<Longrightarrow> get (update db j) i = Some r" "get db (j_ID j) = None \<Longrightarrow> get (create db j) i = Some r"
  using assms by (auto simp: get_requeue get_park get_update get_create Terminal_def Live_def)

end

section \<open>Lemmas\<close>

lemma rows_Get_Cons: "rows_Get (r # rows) i = (if j_ID r = i then Some r else rows_Get rows i)"
  by (simp add: rows_Get_def)

lemma rows_Get_map:
  assumes "\<And>r. j_ID (f r) = j_ID r"
  shows "rows_Get (map f rows) i = map_option f (rows_Get rows i)"
proof (induction rows)
  case (Cons r rows)
  then show ?case using assms by (simp add: rows_Get_Cons)
qed (simp add: rows_Get_def)

interpretation job_rows: job_store rows_Get rows_Create rows_Update rows_RequeueIfWaiting rows_ParkIfRunning
proof
  fix rows :: "job list" and i j r k param payload
  show "rows_Get rows i = Some r \<Longrightarrow> j_ID r = i" by (auto simp: rows_Get_def find_Some_iff)
  show "rows_Get rows (j_ID j) = None \<Longrightarrow> rows_Get (rows_Create rows j) i = (if i = j_ID j then Some j else rows_Get rows i)"
    by (induction rows) (auto simp: rows_Create_def rows_Get_def split: if_splits)
  show "rows_Get (rows_Update rows j) i = (if i = j_ID j \<and> rows_Get rows i \<noteq> None then Some j else rows_Get rows i)"
    by (induction rows) (auto simp: rows_Update_def rows_Get_def)
  show "rows_Get (rows_RequeueIfWaiting rows k) i = map_option (\<lambda>r. if i = k \<and> j_State r = Waiting
      then r\<lparr>j_State := Queued, j_WaitingParam := None\<rparr> else r) (rows_Get rows i)"
    by (induction rows) (auto simp: rows_RequeueIfWaiting_def rows_Get_def)
  show "rows_Get (rows_ParkIfRunning rows k param payload) i = map_option (\<lambda>r. if i = k \<and> j_State r = Running
      then r\<lparr>j_State := Waiting, j_WaitingParam := Some param, j_Payload := payload\<rparr> else r) (rows_Get rows i)"
    by (induction rows) (auto simp: rows_ParkIfRunning_def rows_Get_def)
qed

lemma rows_Get_iff: "distinct (map j_ID rows) \<Longrightarrow> rows_Get rows i = Some r \<longleftrightarrow> r \<in> set rows \<and> j_ID r = i"
proof (induction rows)
  case (Cons x rows)
  then show ?case by (auto simp: rows_Get_Cons)
qed (simp add: rows_Get_def)

lemma rows_Get_None: "rows_Get rows i = None \<longleftrightarrow> i \<notin> set (map j_ID rows)"
  by (auto simp: rows_Get_def find_None_iff)

lemma ids_simps [simp]:
  "map j_ID (rows_Update rows j) = map j_ID rows" "map j_ID (rows_RequeueIfWaiting rows i) = map j_ID rows"
  "map j_ID (rows_ParkIfRunning rows i p pl) = map j_ID rows" "map j_ID (rows_Create rows j) = map j_ID rows @ [j_ID j]"
  by (simp_all add: rows_Update_def rows_RequeueIfWaiting_def rows_ParkIfRunning_def rows_Create_def)

lemma Overlaps_sym: "Overlaps a b \<longleftrightarrow> Overlaps b a"
  by (auto simp: Overlaps_def list_ex_iff)

lemma Overlaps_iff: "Overlaps a b \<longleftrightarrow> All \<in> set a \<or> All \<in> set b \<or> set a \<inter> set b \<noteq> {}"
  by (auto simp: Overlaps_def list_ex_iff)

lemma set_LockSet [simp]: "set (LockSet ts) = set ts"
  by (simp add: LockSet_def)

lemma state_neq [simp]:
  "Running \<noteq> Queued" "Waiting \<noteq> Queued" "Queued \<noteq> Running" "Queued \<noteq> Waiting" "Running \<noteq> Waiting" "Waiting \<noteq> Running"
  by (simp_all add: state_defs)

lemma terminal_states [simp]:
  "Terminal Done" "Terminal Failed" "Terminal Superseded" "Terminal Cancelled" "Terminal Skipped"
  "\<not> Terminal Queued" "\<not> Terminal Running" "\<not> Terminal Waiting"
  by (simp_all add: Terminal_def Live_def state_defs)

lemma terminal_neq: "Terminal s \<Longrightarrow> s \<noteq> Queued \<and> s \<noteq> Running \<and> s \<noteq> Waiting"
  by (simp add: Terminal_def Live_def)

text \<open>Reading a finished job's log to its end, poll by poll; \<open>None\<close> when \<open>n\<close> polls were not enough.\<close>

fun poll_all :: "nat \<Rightarrow> job \<Rightarrow> log_file \<Rightarrow> int \<Rightarrow> string option" where
  "poll_all 0 j file off = None"
| "poll_all (Suc n) j file off = (case Poll_log j file off of
     (l, Some e) \<Rightarrow> None
   | (l, None) \<Rightarrow> if lg_End l then Some (lg_Chunk l) else map_option (\<lambda>rest. lg_Chunk l @ rest) (poll_all n j file (lg_Next l)))"

lemma poll_all_bytes:
  assumes "Terminal (j_State j)"
  shows "length bs - k < n * MaxChunk \<Longrightarrow> poll_all n j (Bytes bs) (int k) = Some (drop k bs)"
proof (induction n arbitrary: k)
  case (Suc n)
  let ?c = "take MaxChunk (drop k bs)"
  show ?case
  proof (cases "length ?c < MaxChunk")
    case True
    then have "?c = drop k bs" by auto
    with True assms show ?thesis by (simp add: Poll_log_def)
  next
    case False
    then have len: "length ?c = MaxChunk" by simp
    then have "length bs - (k + MaxChunk) < n * MaxChunk" using Suc.prems by simp
    from Suc.IH [OF this] have "poll_all n j (Bytes bs) (int k + int MaxChunk) = Some (drop (k + MaxChunk) bs)" by simp
    moreover have "?c @ drop (k + MaxChunk) bs = drop k bs" by (metis add.commute append_take_drop_id drop_drop)
    ultimately show ?thesis using len by (simp add: Poll_log_def)
  qed
qed simp

section \<open>Properties\<close>

text \<open>
  Polling a finished job's log from the start until End gives the whole log, in at most one
  poll more than the number of full chunks it has; every byte is given once.
\<close>

theorem Poll_reads_whole_log:
  assumes "Terminal (j_State j)"
  shows "poll_all (length bs div MaxChunk + 1) j (Bytes bs) 0 = Some bs"
proof -
  have "length bs < (length bs div MaxChunk + 1) * MaxChunk"
    by (simp add: MaxChunk_def)
  with poll_all_bytes [OF assms, of bs 0 "length bs div MaxChunk + 1"] show ?thesis by simp
qed

definition ex_job :: "string \<Rightarrow> string \<Rightarrow> string list \<Rightarrow> int \<Rightarrow> job" where
  "ex_job i st lock t = (new_job i ''deploy'' lock ''{}'' None ''/d/jobs'' (''u'', []) t)\<lparr>j_State := st\<rparr>"

theorem Poll_reads_whole_log_witness:
  "poll_all 1 (ex_job ''1'' Done [''t''] 5) (Bytes ''deploying web'') 0 = Some ''deploying web''"
proof -
  have n: "length ''deploying web'' div MaxChunk + 1 = 1" and s: "j_State (ex_job ''1'' Done [''t''] 5) = Done" by code_simp+
  have "Terminal (j_State (ex_job ''1'' Done [''t''] 5))" unfolding s by simp
  from Poll_reads_whole_log [OF this, of "''deploying web''"] show ?thesis unfolding n .
qed

text \<open>The jobs ahead of a queued one, by locks as sets.\<close>

lemma set_Ahead:
  "set (Ahead j live) = {o' \<in> set live. j_ID o' \<noteq> j_ID j \<and>
     (All \<in> set (j_LockSet j) \<or> All \<in> set (j_LockSet o') \<or> set (j_LockSet j) \<inter> set (j_LockSet o') \<noteq> {}) \<and>
     (j_State o' = Running \<or> j_State o' = Queued \<and> j_CreatedAt o' < j_CreatedAt j)}"
  unfolding Ahead_def Overlaps_iff by auto

end
