(* ===== verification/Jobs_Runner.thy ===== *)
theory Jobs_Runner
  imports Job "HOL-Library.AList" "HOL-Library.Multiset"
begin

text \<open>
  \<^verbatim>\<open>internal/service/internal/flow/jobs/jobs.go\<close>: the durable job queue.  The runner's state is the table of
  rows, the jobs running in this process and what it has logged and announced.  Every piece of the code that
  runs under the runner's mutex is one operation here; goroutines interleave between
  operations.  A job's own goroutine is two operations: its handler returning, and the write of its
  result under the lock.

  The database, the clock, the id generator and the hooks are the environment.  Each store call
  asks the environment whether it fails (it then changes nothing), by the number of the call.
\<close>

section \<open>Model: state\<close>

text \<open>
  Why a job's context ended; and a running job: its \<^verbatim>\<open>active\<close> entry with what its goroutine holds, the row
  it was started with (\<open>a_row\<close>), the handler's copy (\<open>a_job\<close>, the only field a handler rewrites is the
  payload) and, once the handler has returned, its state, reason and param.
\<close>

datatype cause = CauseSuperseded | CauseCancelled | CauseShutdown

record active =
  a_lock :: "string list"
  a_cause :: "cause option"
  a_swapping :: bool
  a_superseded :: bool
  a_idle :: bool
  a_row :: job
  a_job :: job
  a_result :: "(string \<times> string \<times> string) option"

record runner =
  r_rows :: "job list"
  r_running :: "(string \<times> active) list"
  r_parked :: "(string \<times> string) list"
  r_deployed :: "(string \<times> string list) list"
  r_ended :: "job list"
  r_logs :: "(string \<times> string) list"
  r_wake :: bool
  r_calls :: nat

record env =
  e_fault :: "nat \<Rightarrow> bool"
  e_now :: "nat \<Rightarrow> int"
  e_uuid :: "nat \<Rightarrow> string"
  e_order :: "nat \<Rightarrow> job list \<Rightarrow> job list"
  e_hold :: "nat \<Rightarrow> bool"
  e_survived :: "job \<Rightarrow> bool"
  e_kinds :: "string \<Rightarrow> bool"
  e_uncapped :: "string \<Rightarrow> bool"
  e_logDir :: string
  e_cap :: string
  e_text :: "err \<Rightarrow> string"
  e_mkdir :: error

text \<open>
  The environment: whether the n-th call of the store fails, the clock and the id it then gives, the
  order the database lists rows of equal age in, the hooks \<^verbatim>\<open>Hold\<close> and \<^verbatim>\<open>Survived\<close>, the kinds that have a
  handler or no cap, the log directory, the cap as text, \<^verbatim>\<open>Error()\<close> of an error, and what making the log
  directory answers.
\<close>

definition ErrFinished :: err where
  "ErrFinished = Conflictf ''the job already finished'' []"

definition ErrSuperseded :: err where
  "ErrSuperseded = Errorf ''superseded by a newer job'' []"

definition ErrSkipped :: err where
  "ErrSkipped = Errorf ''skipped'' []"

text \<open>\<^verbatim>\<open>errors.Is\<close> for the package's own sentinel errors.\<close>

definition errors_Is :: "err \<Rightarrow> err \<Rightarrow> bool" where
  "errors_Is e sentinel \<longleftrightarrow> errors_As (\<lambda>x. if x = sentinel then Some () else None) e \<noteq> None"

definition db_err :: err where
  "db_err = Errorf ''database error'' []"

section \<open>Model: store calls\<close>

definition tick :: "runner \<Rightarrow> runner" where
  "tick s = s\<lparr>r_calls := Suc (r_calls s)\<rparr>"

definition db_write :: "env \<Rightarrow> runner \<Rightarrow> (job list \<Rightarrow> job list) \<Rightarrow> runner \<times> error" where
  "db_write e s f = (if e_fault e (r_calls s) then (tick s, Some db_err) else ((tick s)\<lparr>r_rows := f (r_rows s)\<rparr>, None))"

definition db_List :: "env \<Rightarrow> runner \<Rightarrow> string list \<Rightarrow> runner \<times> (err + job list)" where
  "db_List e s states = (tick s,
     if e_fault e (r_calls s) then Inl db_err else Inr (leaf_List (e_order e (r_calls s)) (r_rows s) states))"

definition db_Get :: "env \<Rightarrow> runner \<Rightarrow> string \<Rightarrow> runner \<times> (err + job)" where
  "db_Get e s i = (tick s,
     if e_fault e (r_calls s) then Inl db_err
     else (case rows_Get (r_rows s) i of None \<Rightarrow> Inl ErrNotFound | Some j \<Rightarrow> Inr j))"

definition db_Create :: "env \<Rightarrow> runner \<Rightarrow> string \<Rightarrow> string list \<Rightarrow> string \<Rightarrow> string option \<Rightarrow> string \<times> string \<Rightarrow> runner \<times> job \<times> error" where
  "db_Create e s kind lock payload releaseID actor =
     (let j = new_job (e_uuid e (r_calls s)) kind lock payload releaseID (e_logDir e) actor (e_now e (r_calls s));
          (s', er) = db_write e s (\<lambda>rows. rows_Create rows j)
      in (s', j, er))"

definition db_Finish :: "env \<Rightarrow> runner \<Rightarrow> job \<Rightarrow> string \<Rightarrow> string \<Rightarrow> runner \<times> error" where
  "db_Finish e s j state reason = db_write e s (\<lambda>rows. rows_Update rows (finished j state reason (e_now e (r_calls s))))"

definition add_ended :: "job \<Rightarrow> runner \<Rightarrow> runner" where
  "add_ended j s = s\<lparr>r_ended := r_ended s @ [j]\<rparr>"

definition poke :: "runner \<Rightarrow> runner" where
  "poke s = s\<lparr>r_wake := True\<rparr>"

section \<open>Model: running jobs\<close>

definition upd_active :: "string \<Rightarrow> (active \<Rightarrow> active) \<Rightarrow> runner \<Rightarrow> runner" where
  "upd_active i f s = s\<lparr>r_running := map (\<lambda>(k, a). (k, if k = i then f a else a)) (r_running s)\<rparr>"

text \<open>\<^verbatim>\<open>CancelCauseFunc\<close>: the first cause stays.\<close>

definition cancel_ctx :: "cause \<Rightarrow> active \<Rightarrow> active" where
  "cancel_ctx c a = (case a_cause a of None \<Rightarrow> a\<lparr>a_cause := Some c\<rparr> | Some _ \<Rightarrow> a)"

definition Swap :: "string \<Rightarrow> runner \<Rightarrow> runner \<times> error" where
  "Swap i s = (case map_of (r_running s) i of
     None \<Rightarrow> (s, None)
   | Some a \<Rightarrow> if a_superseded a then (s, Some ErrSuperseded) else (upd_active i (\<lambda>a. a\<lparr>a_swapping := True\<rparr>) s, None))"

definition Idle :: "string \<Rightarrow> bool \<Rightarrow> runner \<Rightarrow> runner" where
  "Idle i on s = (let s' = upd_active i (\<lambda>a. a\<lparr>a_idle := on\<rparr>) s in if on then poke s' else s')"

definition busyWorkers :: "runner \<Rightarrow> nat" where
  "busyWorkers s = length (filter (\<lambda>(i, a). \<not> a_idle a) (r_running s))"

definition start :: "env \<Rightarrow> runner \<Rightarrow> job \<Rightarrow> runner \<times> error" where
  "start e s j0 =
     (let j = started j0 (e_now e (r_calls s)) in
      case db_write e s (\<lambda>rows. rows_Update rows j) of
        (s', Some er) \<Rightarrow> (s', Some er)
      | (s', None) \<Rightarrow>
        (s'\<lparr>r_running := AList.update (j_ID j)
             \<lparr>a_lock = j_LockSet j, a_cause = None, a_swapping = False, a_superseded = False, a_idle = False, a_row = j, a_job = j, a_result = None\<rparr>
             (r_running s')\<rparr>, None))"

fun pass_loop :: "env \<Rightarrow> int \<Rightarrow> string list list \<Rightarrow> job list \<Rightarrow> runner \<Rightarrow> runner \<times> error" where
  "pass_loop e n busy [] s = (s, None)"
| "pass_loop e n busy (j # js) s =
     (if int (busyWorkers s) \<ge> n then (s, None)
      else if list_ex (\<lambda>b. Overlaps (j_LockSet j) b) busy then pass_loop e n (busy @ [j_LockSet j]) js s
      else if e_hold e (r_calls s) then (tick s, None)
      else (case start e (tick s) j of
          (s', Some er) \<Rightarrow> (s', Some er)
        | (s', None) \<Rightarrow> pass_loop e n (busy @ [j_LockSet j]) js s'))"

text \<open>\<open>workers\<close> is what \<^verbatim>\<open>opt.Workers\<close> answered.\<close>

definition pass :: "env \<Rightarrow> err + int \<Rightarrow> runner \<Rightarrow> runner \<times> error" where
  "pass e workers s = (case workers of Inl er \<Rightarrow> (s, Some er)
   | Inr n \<Rightarrow> (case db_List e s [Queued] of
       (s', Inl er) \<Rightarrow> (s', Some er)
     | (s', Inr queued) \<Rightarrow> pass_loop e n (map (\<lambda>(i, a). a_lock a) (r_running s')) queued s'))"

text \<open>One job of \<^verbatim>\<open>unpark\<close>; \<open>resolves\<close> is the answer of \<^verbatim>\<open>ParamSet\<close> (true when there is none to ask).\<close>

definition unpark_one :: "env \<Rightarrow> bool \<Rightarrow> job \<Rightarrow> runner \<Rightarrow> runner" where
  "unpark_one e resolves j s = (if \<not> resolves then s else fst (db_write e s (\<lambda>rows. leaf_Requeue rows j)))"

section \<open>Model: a job's end\<close>

text \<open>How a handler came back: with an error or nil, or by a panic; or its log did not open.\<close>

datatype outcome = Returned error | Panicked string | LogFailed err

definition log_append :: "string \<Rightarrow> string \<Rightarrow> runner \<Rightarrow> runner" where
  "log_append path txt s = s\<lparr>r_logs := AList.update path ((case map_of (r_logs s) path of None \<Rightarrow> [] | Some t \<Rightarrow> t) @ txt) (r_logs s)\<rparr>"

text \<open>\<^verbatim>\<open>onceLog.Write\<close>.\<close>

definition onceLog_Write :: "job \<Rightarrow> string \<Rightarrow> runner \<Rightarrow> runner" where
  "onceLog_Write j line s =
     (if (has_prefix ''deploying '' line \<or> has_prefix ''warning: '' line) \<and> length (filter (\<lambda>c. c = CHR 0x0A) line) = 1
         \<and> has_suffix [CHR 0x0A] line then
        let seen = (case map_of (r_deployed s) (j_ID j) of None \<Rightarrow> [] | Some ls \<Rightarrow> ls);
            s' = s\<lparr>r_deployed := AList.update (j_ID j) (line # seen) (r_deployed s)\<rparr>
        in if line \<in> set seen then s' else log_append (j_LogPath j) line s'
      else log_append (j_LogPath j) line s)"

text \<open>A parked job says what it waits on once.\<close>

definition say_once :: "job \<Rightarrow> string \<Rightarrow> string \<Rightarrow> runner \<Rightarrow> runner" where
  "say_once j what txt s =
     (let said = (map_of (r_parked s) (j_ID j) = Some what \<or> map_of (r_parked s) (j_ID j) = None \<and> what = []);
          s' = s\<lparr>r_parked := AList.update (j_ID j) what (r_parked s)\<rparr>
      in if said then s' else log_append (j_LogPath j) txt s')"

text \<open>\<^verbatim>\<open>call\<close>: the state, the reason and the param of an outcome; \<open>late\<close> when the job's cap ended its context first.\<close>

definition call :: "env \<Rightarrow> active \<Rightarrow> bool \<Rightarrow> outcome \<Rightarrow> runner \<Rightarrow> runner \<times> (string \<times> string \<times> string)" where
  "call e a late out' s =
     (let j = a_job a in
      if \<not> e_kinds e (j_Kind j) then (s, (Failed, e_text e (Errorf ''no handler for job kind %q'' [j_Kind j]), []))
      else (case out' of
          LogFailed er \<Rightarrow> (s, (Failed, ''opening the job log: '' @ e_text e er, []))
        | Panicked p \<Rightarrow> (s, (Failed, ''panic: '' @ p, []))
        | Returned None \<Rightarrow> (s, (Done, [], []))
        | Returned (Some er) \<Rightarrow>
          let capped = late \<and> \<not> e_uncapped e (j_Kind j) in
          if \<not> capped \<and> a_cause a = Some CauseSuperseded \<or> errors_Is er ErrSuperseded then (s, (Superseded, [], []))
          else if \<not> capped \<and> a_cause a = Some CauseCancelled then (s, (Cancelled, [], []))
          else if capped then (s, (Failed, ''stopped after the '' @ e_cap e @ '' cap'', []))
          else if errors_Is er ErrSkipped then (s, (Skipped, e_text e er, []))
          else (case IsUnset er of
              Some p \<Rightarrow> (say_once j p (''waiting: '' @ e_text e (Unset p) @ ''; the job resumes once it is'' @ [CHR 0x0A]) s, (Waiting, [], p))
            | None \<Rightarrow> (case IsNeedsApproval er of
                Some (st, what) \<Rightarrow> (say_once j what (e_text e (NeedsApproval st what) @ [CHR 0x0A]) s, (Waiting, [], what))
              | None \<Rightarrow> (s, (Failed, e_text e er, []))))))"

text \<open>The handler's goroutine: \<open>call\<close> returned; \<open>payload\<close> is the handler's rewrite of its payload, if any.\<close>

definition handler_returns :: "env \<Rightarrow> string \<Rightarrow> bool \<Rightarrow> outcome \<Rightarrow> string option \<Rightarrow> runner \<Rightarrow> runner" where
  "handler_returns e i late out' payload s = (case map_of (r_running s) i of
     None \<Rightarrow> s
   | Some a \<Rightarrow> if a_result a \<noteq> None then s
     else (case call e a late out' s of (s', res) \<Rightarrow>
       upd_active i (\<lambda>a. a\<lparr>a_result := Some res,
         a_job := (case payload of None \<Rightarrow> a_job a | Some p \<Rightarrow> (a_job a)\<lparr>j_Payload := p\<rparr>)\<rparr>) s'))"

text \<open>
  The locked half of \<^verbatim>\<open>run\<close>, and the poke that follows it.  Only a park stores the handler's rewrite of
  the payload; a finish writes the row the goroutine was started with.
\<close>

definition leave :: "string \<Rightarrow> runner \<Rightarrow> runner" where
  "leave i s = s\<lparr>r_running := AList.delete i (r_running s)\<rparr>"

definition forget :: "string \<Rightarrow> runner \<Rightarrow> runner" where
  "forget i s = s\<lparr>r_parked := AList.delete i (r_parked s), r_deployed := AList.delete i (r_deployed s)\<rparr>"

text \<open>A job stopped since its handler returned is finished, never parked.\<close>

definition final_state :: "active \<Rightarrow> string \<Rightarrow> string" where
  "final_state a state0 = (if state0 = Waiting then (case a_cause a of
     Some CauseSuperseded \<Rightarrow> Superseded | Some _ \<Rightarrow> Cancelled | None \<Rightarrow> Waiting) else state0)"

definition record_result :: "env \<Rightarrow> string \<Rightarrow> runner \<Rightarrow> runner" where
  "record_result e i s = (case map_of (r_running s) i of
     None \<Rightarrow> s
   | Some a \<Rightarrow> (case a_result a of None \<Rightarrow> s
     | Some (state0, reason, param) \<Rightarrow>
       let state = final_state a state0
       in poke (if state = Waiting then fst (db_write e (leave i s) (\<lambda>rows. leaf_Park rows (a_job a) param))
          else (case db_Finish e (forget i (leave i s)) (a_row a) state reason of (s3, er) \<Rightarrow>
            if er = None then add_ended (a_job a) s3 else s3))))"

section \<open>Model: enqueue, skip, cancel, start, close\<close>

fun supersede_older :: "env \<Rightarrow> job \<Rightarrow> job list \<Rightarrow> runner \<Rightarrow> runner \<times> error" where
  "supersede_older e j [] s = (s, None)"
| "supersede_older e j (o' # os) s =
     (if \<not> Overlaps (j_LockSet j) (j_LockSet o') \<or> \<not> Supersedes j o' then supersede_older e j os s
      else (case map_of (r_running s) (j_ID o') of
          Some a \<Rightarrow>
            supersede_older e j os (if a_swapping a then s
              else upd_active (j_ID o') (\<lambda>a. cancel_ctx CauseSuperseded (a\<lparr>a_superseded := True\<rparr>)) s)
        | None \<Rightarrow>
            if j_State o' \<noteq> Running then
              (case db_Finish e s o' Superseded [] of
                 (s', Some er) \<Rightarrow> (s', Some er)
               | (s', None) \<Rightarrow> supersede_older e j os (add_ended o' s'))
            else supersede_older e j os s))"

definition Enqueue :: "env \<Rightarrow> string \<Rightarrow> string list \<Rightarrow> string \<Rightarrow> string option \<Rightarrow> string \<times> string \<Rightarrow> runner \<Rightarrow> runner \<times> error" where
  "Enqueue e kind lock payload releaseID actor s =
     (case db_List e s [Queued, Waiting, Running] of
        (s1, Inl er) \<Rightarrow> (s1, Some er)
      | (s1, Inr older) \<Rightarrow>
        (case db_Create e s1 kind lock payload releaseID actor of
           (s2, j, Some er) \<Rightarrow> (s2, Some er)
         | (s2, j, None) \<Rightarrow>
           (case supersede_older e j older s2 of
              (s3, Some er) \<Rightarrow> (s3, Some er)
            | (s3, None) \<Rightarrow> (poke s3, None))))"

definition Skip :: "env \<Rightarrow> string \<Rightarrow> string list \<Rightarrow> string \<Rightarrow> string \<Rightarrow> string \<times> string \<Rightarrow> runner \<Rightarrow> runner \<times> error" where
  "Skip e kind lock payload reason actor s =
     (case db_Create e s kind lock payload None actor of
        (s1, j, Some er) \<Rightarrow> (s1, Some er)
      | (s1, j, None) \<Rightarrow>
        (case db_Finish e s1 j Skipped reason of
           (s2, Some er) \<Rightarrow> (s2, Some er)
         | (s2, None) \<Rightarrow> (case db_Get e s2 (j_ID j) of (s3, Inl er) \<Rightarrow> (s3, Some er) | (s3, Inr _) \<Rightarrow> (s3, None))))"

definition Cancel :: "env \<Rightarrow> string \<Rightarrow> runner \<Rightarrow> runner \<times> error" where
  "Cancel e i s = (case map_of (r_running s) i of
     Some a \<Rightarrow> if a_swapping a then (s, Some (Conflictf ''the job is swapping containers and cannot be stopped now'' []))
       else (upd_active i (cancel_ctx CauseCancelled) s, None)
   | None \<Rightarrow> (case db_Get e s i of
       (s1, Inl er) \<Rightarrow> (s1, Some er)
     | (s1, Inr j) \<Rightarrow>
       if \<not> Cancellable (j_State j) then (s1, Some ErrFinished)
       else (case db_Finish e s1 j Cancelled [] of
           (s2, Some er) \<Rightarrow> (s2, Some er)
         | (s2, None) \<Rightarrow> (add_ended j s2, None))))"

fun fail_stale :: "env \<Rightarrow> job list \<Rightarrow> runner \<Rightarrow> runner \<times> error" where
  "fail_stale e [] s = (s, None)"
| "fail_stale e (j # js) s =
     (let (state, reason) = (if e_survived e j then (Done, []) else (Failed, ''stackrd restarted while this job ran; run it again'')) in
      case db_Finish e s j state reason of
        (s', Some er) \<Rightarrow> (s', Some er)
      | (s', None) \<Rightarrow> fail_stale e js (add_ended j s'))"

definition new_runner :: "job list \<Rightarrow> (string \<times> string) list \<Rightarrow> runner" where
  "new_runner rows logs = \<lparr>r_rows = rows, r_running = [], r_parked = [], r_deployed = [], r_ended = [], r_logs = logs, r_wake = False, r_calls = 0\<rparr>"

definition Start :: "env \<Rightarrow> runner \<Rightarrow> runner \<times> error" where
  "Start e s = (case e_mkdir e of Some er \<Rightarrow> (s, Some er)
   | None \<Rightarrow> (case db_List e s [Running] of
       (s1, Inl er) \<Rightarrow> (s1, Some er)
     | (s1, Inr stale) \<Rightarrow> fail_stale e stale s1))"

definition Close :: "runner \<Rightarrow> runner" where
  "Close s = s\<lparr>r_running := map (\<lambda>(i, a). (i, cancel_ctx CauseShutdown a)) (r_running s)\<rparr>"

end
