(* ===== verification/Jobs_Safety.thy ===== *)
theory Jobs_Safety
  imports Jobs_Runner
begin

text \<open>
  The runner of \<^verbatim>\<open>internal/service/internal/flow/jobs/jobs.go\<close> as a state machine: its operations in any order, with any
  arguments and any failing store calls, and the invariant every state it reaches has.
\<close>

section \<open>The steps of the runner\<close>

text \<open>
  A handler acts (swaps, waits, logs, returns) while it has not returned.
\<close>

definition acts :: "runner \<Rightarrow> string \<Rightarrow> bool" where
  "acts s i \<longleftrightarrow> (case map_of (r_running s) i of None \<Rightarrow> False | Some a \<Rightarrow> a_result a = None)"

inductive rstep :: "env \<Rightarrow> runner \<Rightarrow> runner \<Rightarrow> bool" for e :: env where
  pass: "rstep e s (fst (pass e workers s))"
| unpark: "rstep e s (unpark_one e resolves j s)"
| wake: "rstep e s (poke s)"
| enqueue: "rstep e s (fst (Enqueue e kind lock payload rel actor s))"
| skip: "rstep e s (fst (Skip e kind lock payload reason actor s))"
| cancel: "rstep e s (fst (Cancel e i s))"
| close: "rstep e s (Close s)"
| swap: "acts s i \<Longrightarrow> rstep e s (fst (Swap i s))"
| idle: "acts s i \<Longrightarrow> rstep e s (Idle i on s)"
| log: "acts s i \<Longrightarrow> rstep e s (onceLog_Write j line s)"
| returns: "rstep e s (handler_returns e i late out' pl s)"
| recorded: "rstep e s (record_result e i s)"

definition job_states :: "string list" where
  "job_states = [Queued, Running, Waiting, Done, Failed, Superseded, Cancelled, Skipped]"

text \<open>A row the table may hold.\<close>

definition row_ok :: "job \<Rightarrow> bool" where
  "row_ok r \<longleftrightarrow> j_State r \<in> set job_states \<and> (Terminal (j_State r) \<longleftrightarrow> j_FinishedAt r \<noteq> None)
     \<and> (j_State r = Waiting \<longrightarrow> j_WaitingParam r \<noteq> None) \<and> (j_State r = Queued \<longrightarrow> j_WaitingParam r = None)
     \<and> (j_State r = Running \<longrightarrow> j_WaitingParam r = None \<and> j_StartedAt r \<noteq> None)
     \<and> sorted (j_LockSet r) \<and> distinct (j_LockSet r)"

text \<open>Ids the generator will still give are new; it never gives one twice.\<close>

definition fresh_ids :: "env \<Rightarrow> nat \<Rightarrow> job list \<Rightarrow> bool" where
  "fresh_ids e n rows \<longleftrightarrow> inj (e_uuid e) \<and> (\<forall>m \<ge> n. e_uuid e m \<notin> j_ID ` set rows)"

text \<open>A database order only permutes.\<close>

definition order_ok :: "env \<Rightarrow> bool" where
  "order_ok e \<longleftrightarrow> (\<forall>n xs. mset (e_order e n xs) = mset xs)"

inductive reachable :: "env \<Rightarrow> runner \<Rightarrow> bool" for e :: env where
  boot: "order_ok e \<Longrightarrow> fresh_ids e 0 rows \<Longrightarrow> distinct (map j_ID rows) \<Longrightarrow> list_all row_ok rows
    \<Longrightarrow> Start e (new_runner rows logs) = (s, None) \<Longrightarrow> reachable e s"
| step: "reachable e s \<Longrightarrow> rstep e s s' \<Longrightarrow> reachable e s'"

section \<open>The invariant\<close>

definition results :: "string list" where
  "results = [Done, Failed, Superseded, Cancelled, Skipped, Waiting]"

text \<open>A running job's entry against its row.\<close>

definition act_ok :: "job list \<Rightarrow> string \<Rightarrow> active \<Rightarrow> bool" where
  "act_ok rows i a \<longleftrightarrow> rows_Get rows i = Some (a_row a) \<and> j_State (a_row a) = Running
     \<and> a_lock a = j_LockSet (a_row a) \<and> j_ID (a_job a) = i
     \<and> (case a_result a of None \<Rightarrow> True | Some (st, _, _) \<Rightarrow> st \<in> set results)
     \<and> (a_swapping a \<longrightarrow> \<not> a_superseded a) \<and> (a_cause a = Some CauseSuperseded \<longrightarrow> a_superseded a)"

definition disjoint_locks :: "(string \<times> active) list \<Rightarrow> bool" where
  "disjoint_locks run \<longleftrightarrow> (\<forall>i k a b. map_of run i = Some a \<longrightarrow> map_of run k = Some b \<longrightarrow> i \<noteq> k
     \<longrightarrow> \<not> Overlaps (a_lock a) (a_lock b))"

definition ended_ok :: "job list \<Rightarrow> job list \<Rightarrow> bool" where
  "ended_ok rows ended \<longleftrightarrow> distinct (map j_ID ended)
     \<and> (\<forall>j \<in> set ended. \<exists>r. rows_Get rows (j_ID j) = Some r \<and> Terminal (j_State r))"

definition core :: "env \<Rightarrow> nat \<Rightarrow> job list \<Rightarrow> (string \<times> active) list \<Rightarrow> job list \<Rightarrow> bool" where
  "core e n rows run ended \<longleftrightarrow> order_ok e \<and> fresh_ids e n rows \<and> distinct (map j_ID rows) \<and> list_all row_ok rows
     \<and> distinct (map fst run) \<and> (\<forall>i a. map_of run i = Some a \<longrightarrow> act_ok rows i a) \<and> disjoint_locks run \<and> ended_ok rows ended"

definition runner_inv :: "env \<Rightarrow> runner \<Rightarrow> bool" where
  "runner_inv e s \<longleftrightarrow> core e (r_calls s) (r_rows s) (r_running s) (r_ended s)"

section \<open>Moves of the core\<close>

lemma ids_of: "j_ID ` set (rows_Update rows j) = j_ID ` set rows" "j_ID ` set (rows_RequeueIfWaiting rows i) = j_ID ` set rows"
  "j_ID ` set (rows_ParkIfRunning rows i p pl) = j_ID ` set rows" "j_ID ` set (rows_Create rows j) = insert (j_ID j) (j_ID ` set rows)"
proof -
  have *: "j_ID ` set xs = set (map j_ID xs)" for xs by simp
  show "j_ID ` set (rows_Update rows j) = j_ID ` set rows" "j_ID ` set (rows_RequeueIfWaiting rows i) = j_ID ` set rows"
    "j_ID ` set (rows_ParkIfRunning rows i p pl) = j_ID ` set rows" "j_ID ` set (rows_Create rows j) = insert (j_ID j) (j_ID ` set rows)"
    unfolding * ids_simps by simp_all
qed

lemma core_later: "core e n rows run ended \<Longrightarrow> n \<le> m \<Longrightarrow> core e m rows run ended"
  by (auto simp: core_def fresh_ids_def)

lemma core_row: "core e n rows run ended \<Longrightarrow> rows_Get rows i = Some r \<Longrightarrow> row_ok r"
  by (auto simp: core_def list_all_iff rows_Get_iff)

lemma core_act: "core e n rows run ended \<Longrightarrow> map_of run i = Some a \<Longrightarrow> act_ok rows i a"
  by (simp add: core_def)

lemma act_ok_other: "act_ok rows i a \<Longrightarrow> rows_Get rows' i = rows_Get rows i \<Longrightarrow> act_ok rows' i a"
  by (simp add: act_ok_def)

lemma act_ok_id: "act_ok rows i a \<Longrightarrow> j_ID (a_row a) = i \<and> j_ID (a_job a) = i"
  by (auto simp: act_ok_def dest: job_rows.get_id)

text \<open>A row not running and not finished is written again.\<close>

lemma core_update:
  assumes c: "core e n rows run ended" and g: "rows_Get rows (j_ID j) = Some r"
    and live: "\<not> Terminal (j_State r)" and out: "map_of run (j_ID j) = None" and ok: "row_ok j"
  shows "core e n (rows_Update rows j) run ended"
  unfolding core_def
proof (intro conjI allI impI)
  show "order_ok e" "distinct (map fst run)" "disjoint_locks run" using c by (simp_all add: core_def)
  show "fresh_ids e n (rows_Update rows j)" using c by (simp add: core_def fresh_ids_def ids_of)
  show "distinct (map j_ID (rows_Update rows j))" using c by (simp add: core_def)
  show "list_all row_ok (rows_Update rows j)" using c ok by (auto simp: core_def list_all_iff rows_Update_def)
  show "act_ok (rows_Update rows j) i a" if "map_of run i = Some a" for i a
  proof (rule act_ok_other [OF core_act [OF c that]])
    have "i \<noteq> j_ID j" using that out by auto
    then show "rows_Get (rows_Update rows j) i = rows_Get rows i" by (simp add: job_rows.get_update)
  qed
  show "ended_ok (rows_Update rows j) ended"
    using c g live by (force simp: core_def ended_ok_def job_rows.get_update)
qed

lemma core_ended:
  assumes c: "core e n rows run ended" and "rows_Get rows (j_ID j) = Some r" "Terminal (j_State r)"
    "j_ID j \<notin> set (map j_ID ended)"
  shows "core e n rows run (ended @ [j])"
  using assms by (auto simp: core_def ended_ok_def)

lemma core_not_ended:
  "core e n rows run ended \<Longrightarrow> rows_Get rows i = Some r \<Longrightarrow> \<not> Terminal (j_State r) \<Longrightarrow> i \<notin> set (map j_ID ended)"
  by (force simp: core_def ended_ok_def)

lemma row_ok_finished: "row_ok r \<Longrightarrow> st \<in> set job_states \<Longrightarrow> Terminal st \<Longrightarrow> row_ok (finished r st reason now)"
  by (auto simp: row_ok_def finished_def dest: terminal_neq)

lemma row_ok_started: "row_ok r \<Longrightarrow> \<not> Terminal (j_State r) \<Longrightarrow> row_ok (started r now)"
  by (auto simp: row_ok_def started_def job_states_def)

text \<open>A live row that is not running is finished, and announced.\<close>

lemma core_finish:
  assumes c: "core e n rows run ended" and g: "rows_Get rows (j_ID j) = Some j" and live: "\<not> Terminal (j_State j)"
    and out: "map_of run (j_ID j) = None" and st: "st \<in> set job_states" "Terminal st" and k: "j_ID k = j_ID j"
  shows "core e n (rows_Update rows (finished j st reason now)) run ended"
    and "core e n (rows_Update rows (finished j st reason now)) run (ended @ [k])"
proof -
  let ?f = "finished j st reason now"
  have i: "j_ID ?f = j_ID j" by (simp add: finished_def)
  show c': "core e n (rows_Update rows ?f) run ended"
    by (rule core_update [OF c, where r = j]) (use i g live out row_ok_finished [OF core_row [OF c g] st] in simp_all)
  show "core e n (rows_Update rows ?f) run (ended @ [k])"
  proof (rule core_ended [OF c'])
    show "rows_Get (rows_Update rows ?f) (j_ID k) = Some ?f" using i g k by (simp add: job_rows.get_update)
    show "Terminal (j_State ?f)" using st by (simp add: finished_def)
    show "j_ID k \<notin> set (map j_ID ended)" using core_not_ended [OF c g live] k by simp
  qed
qed

lemma core_delete:
  assumes "core e n rows run ended"
  shows "core e n rows (AList.delete i run) ended"
  using assms by (auto simp: core_def disjoint_locks_def delete_conv' distinct_delete split: if_splits)

lemma core_map:
  assumes c: "core e n rows run ended"
    and f: "\<And>i a. map_of run i = Some a \<Longrightarrow> act_ok rows i a \<Longrightarrow> act_ok rows i (f i a) \<and> a_lock (f i a) = a_lock a"
  shows "core e n rows (map (\<lambda>(k, a). (k, f k a)) run) ended"
proof -
  have m: "map_of (map (\<lambda>(k, a). (k, f k a)) xs) i = map_option (f i) (map_of xs i)" for xs i
    by (induction xs) auto
  have k: "map fst (map (\<lambda>(k, a). (k, f k a)) run) = map fst run" by (induction run) auto
  have d: "distinct (map fst (map (\<lambda>(k, a). (k, f k a)) run))" using c unfolding k by (simp add: core_def)
  have a: "act_ok rows i b" if "map_option (f i) (map_of run i) = Some b" for i b
    using that f core_act [OF c] by auto
  have l: "disjoint_locks (map (\<lambda>(k, a). (k, f k a)) run)"
    using c f core_act [OF c] by (fastforce simp: core_def disjoint_locks_def m)
  show ?thesis using c d a l by (simp add: core_def m del: map_map)
qed

lemma core_create:
  assumes c: "core e n rows run ended" and j: "j = new_job (e_uuid e n) kind lock payload rel logDir actor now"
  shows "core e (Suc n) (rows_Create rows j) run ended" and "rows_Get (rows_Create rows j) (j_ID j) = Some j"
    and "rows_Get rows (j_ID j) = None" and "map_of run (j_ID j) = None"
proof -
  have i: "j_ID j = e_uuid e n" by (simp add: j new_job_def)
  have new: "j_ID j \<notin> j_ID ` set rows" using c i by (auto simp: core_def fresh_ids_def)
  then show g: "rows_Get rows (j_ID j) = None" by (simp add: rows_Get_None)
  note gc = job_rows.get_create [OF g]
  show "rows_Get (rows_Create rows j) (j_ID j) = Some j" by (simp add: gc)
  show "map_of run (j_ID j) = None"
    using core_act [OF c, of "j_ID j"] g by (cases "map_of run (j_ID j)") (auto simp: act_ok_def)
  have keep: "rows_Get (rows_Create rows j) k = rows_Get rows k" if "rows_Get rows k \<noteq> None" for k
    using that g by (auto simp: gc)
  show "core e (Suc n) (rows_Create rows j) run ended"
    unfolding core_def
  proof (intro conjI allI impI)
    show "order_ok e" "distinct (map fst run)" "disjoint_locks run" using c by (simp_all add: core_def)
    show "fresh_ids e (Suc n) (rows_Create rows j)" using c i by (auto simp: core_def fresh_ids_def ids_of inj_eq)
    show "distinct (map j_ID (rows_Create rows j))" using c new by (simp add: core_def)
    have "row_ok j"
      by (auto simp: j new_job_def row_ok_def job_states_def LockSet_def sorted_distinct_compact)
    then show "list_all row_ok (rows_Create rows j)" using c by (auto simp: core_def list_all_iff rows_Create_def)
    show "act_ok (rows_Create rows j) k a" if "map_of run k = Some a" for k a
    proof (rule act_ok_other [OF core_act [OF c that] keep])
      show "rows_Get rows k \<noteq> None" using core_act [OF c that] by (simp add: act_ok_def)
    qed
    show "ended_ok (rows_Create rows j) ended" using c keep by (force simp: core_def ended_ok_def)
  qed
qed

lemma core_requeue:
  assumes c: "core e n rows run ended"
  shows "core e n (rows_RequeueIfWaiting rows k) run ended"
  unfolding core_def
proof (intro conjI allI impI)
  show "order_ok e" "distinct (map fst run)" "disjoint_locks run" using c by (simp_all add: core_def)
  show "fresh_ids e n (rows_RequeueIfWaiting rows k)" using c by (simp add: core_def fresh_ids_def ids_of)
  show "distinct (map j_ID (rows_RequeueIfWaiting rows k))" using c by (simp add: core_def)
  show "list_all row_ok (rows_RequeueIfWaiting rows k)"
    using c by (auto simp: core_def list_all_iff rows_RequeueIfWaiting_def row_ok_def job_states_def)
  show "act_ok (rows_RequeueIfWaiting rows k) i a" if "map_of run i = Some a" for i a
    using core_act [OF c that] by (auto simp: act_ok_def job_rows.get_requeue)
  show "ended_ok (rows_RequeueIfWaiting rows k) ended"
    using c by (fastforce simp: core_def ended_ok_def dest: job_rows.terminal_kept(1))
qed

lemma core_park:
  assumes c: "core e n rows run ended" and out: "map_of run k = None"
  shows "core e n (rows_ParkIfRunning rows k p pl) run ended"
  unfolding core_def
proof (intro conjI allI impI)
  show "order_ok e" "distinct (map fst run)" "disjoint_locks run" using c by (simp_all add: core_def)
  show "fresh_ids e n (rows_ParkIfRunning rows k p pl)" using c by (simp add: core_def fresh_ids_def ids_of)
  show "distinct (map j_ID (rows_ParkIfRunning rows k p pl))" using c by (simp add: core_def)
  show "list_all row_ok (rows_ParkIfRunning rows k p pl)"
    using c by (auto simp: core_def list_all_iff rows_ParkIfRunning_def row_ok_def job_states_def)
  show "act_ok (rows_ParkIfRunning rows k p pl) i a" if "map_of run i = Some a" for i a
    using core_act [OF c that] that out by (auto simp: act_ok_def job_rows.get_park)
  show "ended_ok (rows_ParkIfRunning rows k p pl) ended"
    using c by (fastforce simp: core_def ended_ok_def dest: job_rows.terminal_kept(2))
qed

text \<open>A queued row whose lock is free starts.\<close>

lemma core_start:
  assumes c: "core e n rows run ended" and g: "rows_Get rows (j_ID j) = Some j" and q: "j_State j = Queued"
    and free: "\<And>i a. map_of run i = Some a \<Longrightarrow> \<not> Overlaps (j_LockSet j) (a_lock a)"
    and a: "a_row a = started j now" "a_job a = started j now" "a_lock a = j_LockSet j" "a_cause a = None" "\<not> a_swapping a" "a_result a = None"
  shows "core e n (rows_Update rows (started j now)) (AList.update (j_ID j) a run) ended"
proof -
  have i: "j_ID (started j now) = j_ID j" by (simp add: started_def)
  have out: "map_of run (j_ID j) = None"
    using core_act [OF c, of "j_ID j"] g q by (cases "map_of run (j_ID j)") (auto simp: act_ok_def)
  have c': "core e n (rows_Update rows (started j now)) run ended"
    by (rule core_update [OF c, where r = j]) (use i g q out row_ok_started [OF core_row [OF c g]] in simp_all)
  have new: "act_ok (rows_Update rows (started j now)) (j_ID j) a"
    using a i g by (simp add: act_ok_def job_rows.get_update started_def)
  have "disjoint_locks (AList.update (j_ID j) a run)"
    using c free a(3) by (auto simp: core_def disjoint_locks_def update_conv' Overlaps_sym [of _ "j_LockSet j"])
  then show ?thesis using c' new by (simp add: core_def update_conv' distinct_update)
qed

section \<open>The operations keep the invariant\<close>

lemma tick_simps [simp]:
  "r_rows (tick s) = r_rows s" "r_running (tick s) = r_running s" "r_ended (tick s) = r_ended s"
  "r_calls (tick s) = Suc (r_calls s)"
  by (simp_all add: tick_def)

lemma poke_simps [simp]:
  "r_rows (poke s) = r_rows s" "r_running (poke s) = r_running s" "r_ended (poke s) = r_ended s" "r_calls (poke s) = r_calls s"
  by (simp_all add: poke_def)

lemma add_ended_simps [simp]:
  "r_rows (add_ended j s) = r_rows s" "r_running (add_ended j s) = r_running s"
  "r_ended (add_ended j s) = r_ended s @ [j]" "r_calls (add_ended j s) = r_calls s"
  by (simp_all add: add_ended_def)

lemma log_append_simps [simp]:
  "r_rows (log_append p t s) = r_rows s" "r_running (log_append p t s) = r_running s"
  "r_ended (log_append p t s) = r_ended s" "r_calls (log_append p t s) = r_calls s"
  by (simp_all add: log_append_def)

lemma onceLog_simps [simp]:
  "r_rows (onceLog_Write j l s) = r_rows s" "r_running (onceLog_Write j l s) = r_running s"
  "r_ended (onceLog_Write j l s) = r_ended s" "r_calls (onceLog_Write j l s) = r_calls s"
  by (simp_all add: onceLog_Write_def Let_def)

lemma say_once_simps [simp]:
  "r_rows (say_once j w t s) = r_rows s" "r_running (say_once j w t s) = r_running s"
  "r_ended (say_once j w t s) = r_ended s" "r_calls (say_once j w t s) = r_calls s"
  by (simp_all add: say_once_def Let_def)

lemma upd_active_simps [simp]:
  "r_rows (upd_active i f s) = r_rows s" "r_ended (upd_active i f s) = r_ended s" "r_calls (upd_active i f s) = r_calls s"
  by (simp_all add: upd_active_def)

lemma map_of_upd_active:
  "map_of (r_running (upd_active i f s)) k = map_option (\<lambda>a. if k = i then f a else a) (map_of (r_running s) k)"
proof -
  have "map_of (map (\<lambda>(k, a). (k, if k = i then f a else a)) xs) k = map_option (\<lambda>a. if k = i then f a else a) (map_of xs k)" for xs
    by (induction xs) auto
  then show ?thesis by (simp add: upd_active_def)
qed

lemma call_simps [simp]:
  "r_rows (fst (call e a late o' s)) = r_rows s" "r_running (fst (call e a late o' s)) = r_running s"
  "r_ended (fst (call e a late o' s)) = r_ended s" "r_calls (fst (call e a late o' s)) = r_calls s"
  by (simp_all add: call_def Let_def split: outcome.splits option.splits)

lemma call_eq: "call e a late o' s = (s', res) \<Longrightarrow> r_rows s' = r_rows s \<and> r_running s' = r_running s"
  using call_simps(1,2) [of e a late o' s] by simp

lemma call_result: "fst (snd (call e a late o' s)) \<in> set results"
  by (auto simp: call_def Let_def results_def split: outcome.splits option.splits)

text \<open>A store write fails and changes nothing, or is made.\<close>

lemma db_write_cases:
  obtains "db_write e s f = (tick s, Some db_err)" | "db_write e s f = ((tick s)\<lparr>r_rows := f (r_rows s)\<rparr>, None)"
  by (cases "e_fault e (r_calls s)") (simp_all add: db_write_def)

lemma inv_later: "runner_inv e s \<Longrightarrow> r_rows s' = r_rows s \<Longrightarrow> r_running s' = r_running s \<Longrightarrow> r_ended s' = r_ended s
    \<Longrightarrow> r_calls s \<le> r_calls s' \<Longrightarrow> runner_inv e s'"
  by (simp add: runner_inv_def core_later)

lemma inv_tick: "runner_inv e s \<Longrightarrow> runner_inv e (tick s)"
  by (erule inv_later) simp_all

lemma inv_poke: "runner_inv e s \<Longrightarrow> runner_inv e (poke s)"
  by (erule inv_later) simp_all

lemma inv_upd_active:
  assumes "runner_inv e s"
    and "\<And>a. map_of (r_running s) i = Some a \<Longrightarrow> act_ok (r_rows s) i a \<Longrightarrow> act_ok (r_rows s) i (f a) \<and> a_lock (f a) = a_lock a"
  shows "runner_inv e (upd_active i f s)"
proof -
  have "core e (r_calls s) (r_rows s) (map (\<lambda>(k, a). (k, if k = i then f a else a)) (r_running s)) (r_ended s)"
    by (rule core_map) (use assms in \<open>auto simp: runner_inv_def\<close>)
  then show ?thesis by (simp add: runner_inv_def upd_active_def)
qed


lemma inv_db_Finish:
  assumes "runner_inv e s" "rows_Get (r_rows s) (j_ID j) = Some j" "\<not> Terminal (j_State j)"
    "map_of (r_running s) (j_ID j) = None" "st \<in> set job_states" "Terminal st"
    and w: "db_Finish e s j st reason = (s', er)"
  shows "runner_inv e s'" and "er = None \<Longrightarrow> j_ID k = j_ID j \<Longrightarrow> runner_inv e (add_ended k s')"
    and "r_running s' = r_running s"
    and "i \<noteq> j_ID j \<Longrightarrow> rows_Get (r_rows s') i = rows_Get (r_rows s) i"
proof -
  define f where "f = (\<lambda>rows. rows_Update rows (finished j st reason (e_now e (r_calls s))))"
  have w': "db_write e s f = (s', er)" using w by (simp add: db_Finish_def f_def)
  have c: "core e (Suc (r_calls s)) (r_rows s) (r_running s) (r_ended s)"
    using assms(1) by (simp add: runner_inv_def core_later)
  note fin = core_finish [OF c assms(2,3,4,5,6)]
  show "runner_inv e s'" using w' c fin(1) by (cases rule: db_write_cases [of e s f]) (auto simp: runner_inv_def f_def)
  show "er = None \<Longrightarrow> j_ID k = j_ID j \<Longrightarrow> runner_inv e (add_ended k s')"
    using w' fin(2) by (cases rule: db_write_cases [of e s f]) (auto simp: runner_inv_def f_def)
  show "r_running s' = r_running s" using w' by (cases rule: db_write_cases [of e s f]) auto
  show "i \<noteq> j_ID j \<Longrightarrow> rows_Get (r_rows s') i = rows_Get (r_rows s) i"
    using w' by (cases rule: db_write_cases [of e s f]) (auto simp: f_def job_rows.get_update finished_def)
qed

text \<open>A listing is the rows in those states, each once.\<close>

lemma leaf_List_rows:
  assumes "order_ok e"
  shows "mset (leaf_List (e_order e n) rows states) = mset (filter (\<lambda>r. states = [] \<or> j_State r \<in> set states) rows)"
  using assms by (simp add: leaf_List_def rows_ListRecent_def Let_def order_ok_def)

definition listed :: "job list \<Rightarrow> job list \<Rightarrow> bool" where
  "listed rows js \<longleftrightarrow> distinct (map j_ID js) \<and> (\<forall>j \<in> set js. rows_Get rows (j_ID j) = Some j)"

lemma listed_Cons:
  assumes "listed rows (x # xs)" "\<And>i. i \<noteq> j_ID x \<Longrightarrow> rows_Get rows' i = rows_Get rows i"
  shows "listed rows' xs"
proof -
  have "j_ID y \<noteq> j_ID x" if "y \<in> set xs" for y using assms(1) that by (force simp: listed_def)
  then show ?thesis using assms by (simp add: listed_def)
qed

lemma leaf_List_listed:
  assumes "runner_inv e s" "states \<noteq> []"
  shows "listed (r_rows s) (leaf_List (e_order e n) (r_rows s) states)"
    and "j \<in> set (leaf_List (e_order e n) (r_rows s) states) \<longleftrightarrow> j \<in> set (r_rows s) \<and> j_State j \<in> set states"
proof -
  let ?l = "leaf_List (e_order e n) (r_rows s) states" and ?f = "filter (\<lambda>r. j_State r \<in> set states) (r_rows s)"
  have d: "distinct (map j_ID (r_rows s))" and o: "order_ok e" using assms by (simp_all add: runner_inv_def core_def)
  have m: "mset ?l = mset ?f" using leaf_List_rows [OF o] assms(2) by simp
  then show *: "j \<in> set ?l \<longleftrightarrow> j \<in> set (r_rows s) \<and> j_State j \<in> set states" for j
    by (metis (mono_tags, lifting) mem_Collect_eq set_filter set_mset_mset)
  have "mset (map j_ID ?l) = mset (map j_ID ?f)" using m by simp
  moreover have "distinct (map j_ID ?f)" using d by (simp add: distinct_map_filter)
  ultimately have "distinct (map j_ID ?l)" by (metis mset_eq_imp_distinct_iff)
  then show "listed (r_rows s) ?l" using d * by (auto simp: listed_def rows_Get_iff)
qed

lemma act_ok_superseded:
  "act_ok rows i a \<Longrightarrow> \<not> a_swapping a \<Longrightarrow> act_ok rows i (cancel_ctx CauseSuperseded (a\<lparr>a_superseded := True\<rparr>))
     \<and> a_lock (cancel_ctx CauseSuperseded (a\<lparr>a_superseded := True\<rparr>)) = a_lock a"
  by (cases "a_cause a") (simp_all add: act_ok_def cancel_ctx_def)

lemma act_ok_cancel:
  "act_ok rows i a \<Longrightarrow> c \<noteq> CauseSuperseded \<Longrightarrow> act_ok rows i (cancel_ctx c a) \<and> a_lock (cancel_ctx c a) = a_lock a"
  by (cases "a_cause a") (simp_all add: act_ok_def cancel_ctx_def)

lemma inv_supersede_older:
  assumes "runner_inv e s" "listed (r_rows s) os" "\<forall>o' \<in> set os. \<not> Terminal (j_State o')"
  shows "runner_inv e (fst (supersede_older e j os s))"
  using assms
proof (induction os arbitrary: s)
  case (Cons o' os)
  have l: "listed (r_rows s) os" and g: "rows_Get (r_rows s) (j_ID o') = Some o'" and live: "\<not> Terminal (j_State o')"
    using Cons.prems by (auto simp: listed_def)
  note IH = Cons.IH [OF _ _ ballI]
  let ?up = "upd_active (j_ID o') (\<lambda>a. cancel_ctx CauseSuperseded (a\<lparr>a_superseded := True\<rparr>)) s"
  show ?case
  proof (cases "\<not> Overlaps (j_LockSet j) (j_LockSet o') \<or> \<not> Supersedes j o'")
    case True
    then show ?thesis using Cons.prems l by (simp add: IH)
  next
    case hit: False
    show ?thesis
    proof (cases "map_of (r_running s) (j_ID o')")
      case (Some a)
      have "runner_inv e ?up" if "\<not> a_swapping a"
        by (rule inv_upd_active [OF Cons.prems(1)]) (use Some that in \<open>simp add: act_ok_superseded\<close>)
      then show ?thesis using hit Some Cons.prems l by (cases "a_swapping a") (simp_all add: IH)
    next
      case None
      show ?thesis
      proof (cases "j_State o' = Running")
        case True
        then show ?thesis using hit None Cons.prems l by (simp add: IH)
      next
        case False
        obtain s' er where w: "db_Finish e s o' Superseded [] = (s', er)" by (cases "db_Finish e s o' Superseded []")
        note fin = inv_db_Finish [OF Cons.prems(1) g live None _ _ w]
        have "listed (r_rows s') os" using listed_Cons [OF Cons.prems(2) fin(4)] by (simp add: job_states_def)
        then show ?thesis using hit None False w fin(1) fin(2) [of o'] Cons.prems
          by (auto simp: job_states_def split: option.splits intro!: IH)
      qed
    qed
  qed
qed simp

lemma inv_fail_stale:
  assumes "runner_inv e s" "listed (r_rows s) js" "\<forall>j \<in> set js. j_State j = Running" "r_running s = []"
  shows "runner_inv e (fst (fail_stale e js s))"
  using assms
proof (induction js arbitrary: s)
  case (Cons j js)
  obtain st reason where sr: "(if e_survived e j then (Done, []) else (Failed, ''stackrd restarted while this job ran; run it again'')) = (st, reason)"
    by fastforce
  have st: "st \<in> set job_states" "Terminal st" using sr by (auto simp: job_states_def split: if_splits)
  obtain s' er where w: "db_Finish e s j st reason = (s', er)" by (cases "db_Finish e s j st reason")
  have g: "rows_Get (r_rows s) (j_ID j) = Some j" using Cons.prems by (auto simp: listed_def)
  note fin = inv_db_Finish [OF Cons.prems(1) g _ _ st w]
  have "listed (r_rows s') js" using listed_Cons [OF Cons.prems(2) fin(4)] Cons.prems by simp
  then show ?case using sr w fin(1) fin(2) [of j] fin(3) Cons.prems
    by (auto simp: Let_def split: option.splits intro!: Cons.IH)
qed simp

lemma inv_Start:
  assumes "order_ok e" "fresh_ids e 0 rows" "distinct (map j_ID rows)" "list_all row_ok rows"
  shows "runner_inv e (fst (Start e (new_runner rows logs)))"
proof -
  have inv: "runner_inv e (new_runner rows logs)"
    using assms by (simp add: runner_inv_def core_def new_runner_def disjoint_locks_def ended_ok_def)
  note l = leaf_List_listed [OF inv, of "[Running]"]
  show ?thesis
    using inv_fail_stale [OF inv_tick [OF inv]] l inv_tick [OF inv]
    by (cases "e_mkdir e") (simp_all add: Start_def db_List_def inv, simp add: new_runner_def)
qed


lemma inv_db_Create:
  assumes inv: "runner_inv e s" and w: "db_Create e s kind lock payload rel actor = (s', j, er)"
  shows "runner_inv e s'" and "er = None \<Longrightarrow> rows_Get (r_rows s') (j_ID j) = Some j" and "j_State j = Queued"
    and "map_of (r_running s') (j_ID j) = None"
    and "rows_Get (r_rows s) i = Some r \<Longrightarrow> rows_Get (r_rows s') i = Some r" and "r_running s' = r_running s"
    and "rows_Get (r_rows s) (j_ID j) = None"
proof -
  define f where "f = (\<lambda>rows. rows_Create rows j)"
  have j: "j = new_job (e_uuid e (r_calls s)) kind lock payload rel (e_logDir e) actor (e_now e (r_calls s))"
    using w by (auto simp: db_Create_def Let_def split: prod.splits)
  have w': "db_write e s f = (s', er)" using w by (auto simp: db_Create_def Let_def f_def split: prod.splits)
  have c: "core e (r_calls s) (r_rows s) (r_running s) (r_ended s)" using inv by (simp add: runner_inv_def)
  note cr = core_create [OF c j] and gc = job_rows.get_create [OF core_create(3) [OF c j]]
  show "runner_inv e s'" using w' cr(1) inv_tick [OF inv]
    by (cases rule: db_write_cases [of e s f]) (auto simp: runner_inv_def f_def)
  show "er = None \<Longrightarrow> rows_Get (r_rows s') (j_ID j) = Some j" using w' cr(2)
    by (cases rule: db_write_cases [of e s f]) (auto simp: f_def)
  show "j_State j = Queued" by (simp add: j new_job_def)
  show "map_of (r_running s') (j_ID j) = None" using w' cr(4)
    by (cases rule: db_write_cases [of e s f]) (auto simp: f_def)
  show "rows_Get (r_rows s) i = Some r \<Longrightarrow> rows_Get (r_rows s') i = Some r"
    using w' cr(3) by (cases rule: db_write_cases [of e s f]) (auto simp: f_def gc)
  show "r_running s' = r_running s" using w' by (cases rule: db_write_cases [of e s f]) auto
  show "rows_Get (r_rows s) (j_ID j) = None" by (rule cr(3))
qed

lemma inv_Enqueue:
  assumes inv: "runner_inv e s"
  shows "runner_inv e (fst (Enqueue e kind lock payload rel actor s))"
proof -
  let ?older = "leaf_List (e_order e (r_calls s)) (r_rows s) [Queued, Waiting, Running]"
  obtain s2 j er where w: "db_Create e (tick s) kind lock payload rel actor = (s2, j, er)"
    using prod_cases3 by blast
  note cr = inv_db_Create [OF inv_tick [OF inv] w]
  have "listed (r_rows s2) ?older"
    using leaf_List_listed(1) [OF inv, of "[Queued, Waiting, Running]" "r_calls s"] cr(5) by (auto simp: listed_def)
  moreover have "\<forall>o' \<in> set ?older. \<not> Terminal (j_State o')" by (auto simp: leaf_List_listed(2) [OF inv])
  ultimately have "runner_inv e (fst (supersede_older e j ?older s2))" by (rule inv_supersede_older [OF cr(1)])
  then show ?thesis using inv_tick [OF inv] cr(1) inv_poke
    by (cases er; cases "supersede_older e j ?older s2"; cases "snd (supersede_older e j ?older s2)")
      (simp_all add: Enqueue_def db_List_def w)
qed

lemma inv_Skip:
  assumes inv: "runner_inv e s"
  shows "runner_inv e (fst (Skip e kind lock payload reason actor s))"
proof -
  obtain s1 j er where w: "db_Create e s kind lock payload None actor = (s1, j, er)" using prod_cases3 by blast
  obtain s2 er2 where f: "db_Finish e s1 j Skipped reason = (s2, er2)" by (cases "db_Finish e s1 j Skipped reason")
  note cr = inv_db_Create [OF inv w]
  have "runner_inv e s2" if "er = None"
    using inv_db_Finish(1) [OF cr(1) cr(2) [OF that] _ cr(4) _ _ f] cr(3) by (simp add: job_states_def)
  then show ?thesis using cr(1) inv_tick
    by (cases er; cases er2) (simp_all add: Skip_def w f db_Get_def split: option.splits)
qed

lemma inv_Cancel:
  assumes inv: "runner_inv e s"
  shows "runner_inv e (fst (Cancel e i s))"
proof (cases "map_of (r_running s) i")
  case (Some a)
  have "runner_inv e (upd_active i (cancel_ctx CauseCancelled) s)"
    by (rule inv_upd_active [OF inv]) (simp add: act_ok_cancel)
  then show ?thesis using Some inv by (simp add: Cancel_def)
next
  case None
  show ?thesis
  proof (cases "rows_Get (r_rows s) i")
    case (Some j)
    then have i: "j_ID j = i" by (rule job_rows.get_id)
    obtain s2 er where w: "db_Finish e (tick s) j Cancelled [] = (s2, er)" by (cases "db_Finish e (tick s) j Cancelled []")
    have "\<not> Terminal (j_State j)" if "Cancellable (j_State j)" using that by (auto simp: Cancellable_def Terminal_def Live_def)
    note fin = inv_db_Finish [OF inv_tick [OF inv] _ this _ _ _ w]
    show ?thesis using None Some i fin(1) fin(2) [of j] w inv_tick [OF inv]
      by (cases er) (simp_all add: Cancel_def db_Get_def job_states_def)
  qed (use None inv_tick [OF inv] in \<open>simp add: Cancel_def db_Get_def\<close>)
qed

lemma inv_Close:
  assumes "runner_inv e s"
  shows "runner_inv e (Close s)"
  using core_map [of e "r_calls s" "r_rows s" "r_running s" "r_ended s" "\<lambda>i a. cancel_ctx CauseShutdown a"] assms act_ok_cancel
  by (simp add: runner_inv_def Close_def)

lemma inv_Swap: "runner_inv e s \<Longrightarrow> runner_inv e (fst (Swap i s))"
  using inv_upd_active [of e s i "\<lambda>a. a\<lparr>a_swapping := True\<rparr>"]
  by (auto simp: Swap_def act_ok_def split: option.splits)

lemma inv_Idle: "runner_inv e s \<Longrightarrow> runner_inv e (Idle i on s)"
proof -
  assume "runner_inv e s"
  then have "runner_inv e (upd_active i (\<lambda>a. a\<lparr>a_idle := on\<rparr>) s)" by (rule inv_upd_active) (simp add: act_ok_def)
  then show ?thesis by (cases on) (simp_all add: Idle_def Let_def inv_poke)
qed

lemma inv_unpark_one: "runner_inv e s \<Longrightarrow> runner_inv e (unpark_one e resolves j s)"
  using inv_tick [of e s] core_requeue [of e "Suc (r_calls s)" "r_rows s" "r_running s" "r_ended s" "j_ID j"]
  by (cases rule: db_write_cases [of e s "\<lambda>rows. leaf_Requeue rows j"])
    (simp_all add: unpark_one_def runner_inv_def leaf_Requeue_def core_later)

lemma inv_handler_returns:
  assumes inv: "runner_inv e s"
  shows "runner_inv e (handler_returns e i late o' pl s)"
proof (cases "map_of (r_running s) i")
  case (Some a)
  obtain s' res where c: "call e a late o' s = (s', res)" by (cases "call e a late o' s")
  have p: "r_rows s' = r_rows s" "r_running s' = r_running s" "r_ended s' = r_ended s" "r_calls s' = r_calls s"
    using call_simps [of e a late o' s] c by simp_all
  have "runner_inv e (upd_active i (\<lambda>a. a\<lparr>a_result := Some res,
      a_job := (case pl of None \<Rightarrow> a_job a | Some p \<Rightarrow> (a_job a)\<lparr>j_Payload := p\<rparr>)\<rparr>) s')"
  proof (rule inv_upd_active)
    show "runner_inv e s'" using inv by (rule inv_later) (simp_all add: p)
    fix b assume "act_ok (r_rows s') i b"
    then show "act_ok (r_rows s') i (b\<lparr>a_result := Some res, a_job := (case pl of None \<Rightarrow> a_job b | Some p \<Rightarrow> (a_job b)\<lparr>j_Payload := p\<rparr>)\<rparr>)
      \<and> a_lock (b\<lparr>a_result := Some res, a_job := (case pl of None \<Rightarrow> a_job b | Some p \<Rightarrow> (a_job b)\<lparr>j_Payload := p\<rparr>)\<rparr>) = a_lock b"
      using call_result [of e a late o' s] c by (cases res; cases pl) (simp_all add: act_ok_def)
  qed
  then show ?thesis using inv Some c by (simp add: handler_returns_def)
qed (use inv in \<open>simp add: handler_returns_def\<close>)

lemma leave_simps [simp]: "r_rows (leave i s) = r_rows s" "r_ended (leave i s) = r_ended s" "r_calls (leave i s) = r_calls s"
  "map_of (r_running (leave i s)) = (map_of (r_running s))(i := None)"
  by (auto simp: leave_def delete_conv')

lemma forget_simps [simp]: "r_rows (forget i s) = r_rows s" "r_ended (forget i s) = r_ended s" "r_calls (forget i s) = r_calls s"
  "r_running (forget i s) = r_running s"
  by (simp_all add: forget_def)

lemma final_state_ok: "st \<in> set results \<Longrightarrow> final_state a st = Waiting \<or> final_state a st \<in> set job_states \<and> Terminal (final_state a st)"
  by (auto simp: final_state_def results_def job_states_def split: option.splits cause.splits)

text \<open>The ways a result is recorded: a park, a finish that is announced, and a finish whose write failed.\<close>

lemma record_result_cases:
  obtains (none) "record_result e i s = s"
  | (park) a st reason param where "map_of (r_running s) i = Some a" "a_result a = Some (st, reason, param)" "final_state a st = Waiting"
      "record_result e i s = poke (fst (db_write e (leave i s) (\<lambda>rows. leaf_Park rows (a_job a) param)))"
  | (finish) a st reason param s' where "map_of (r_running s) i = Some a" "a_result a = Some (st, reason, param)" "final_state a st \<noteq> Waiting"
      "db_Finish e (forget i (leave i s)) (a_row a) (final_state a st) reason = (s', None)"
      "record_result e i s = poke (add_ended (a_job a) s')"
  | (lost) a st reason param s' er where "map_of (r_running s) i = Some a" "a_result a = Some (st, reason, param)" "final_state a st \<noteq> Waiting"
      "db_Finish e (forget i (leave i s)) (a_row a) (final_state a st) reason = (s', Some er)" "record_result e i s = poke s'"
proof (cases "map_of (r_running s) i")
  case (Some a)
  show ?thesis
  proof (cases "a_result a")
    case res: (Some r)
    obtain st reason param where r: "r = (st, reason, param)" using prod_cases3 by blast
    show ?thesis
    proof (cases "final_state a st = Waiting")
      case True
      then show ?thesis using park [of a st reason param] Some res r by (simp add: record_result_def Let_def)
    next
      case False
      obtain s' er where w: "db_Finish e (forget i (leave i s)) (a_row a) (final_state a st) reason = (s', er)"
        by (cases "db_Finish e (forget i (leave i s)) (a_row a) (final_state a st) reason")
      then show ?thesis using finish [of a st reason param s'] lost [of a st reason param s'] Some res r False
        by (cases er) (simp_all add: record_result_def Let_def)
    qed
  qed (use none Some in \<open>simp add: record_result_def\<close>)
qed (use none in \<open>simp add: record_result_def\<close>)

lemma inv_leave: "runner_inv e s \<Longrightarrow> runner_inv e (leave i s)"
  by (simp add: runner_inv_def leave_def core_delete)

lemma inv_forget: "runner_inv e s \<Longrightarrow> runner_inv e (forget i s)"
  by (erule inv_later) simp_all

lemma inv_act: "runner_inv e s \<Longrightarrow> map_of (r_running s) i = Some a \<Longrightarrow> act_ok (r_rows s) i a"
  by (auto simp: runner_inv_def intro: core_act)

lemma act_ok_row: "act_ok rows i a \<Longrightarrow> rows_Get rows (j_ID (a_row a)) = Some (a_row a) \<and> \<not> Terminal (j_State (a_row a))"
  using act_ok_id [of rows i a] by (simp add: act_ok_def)

lemma act_ok_result: "act_ok rows i a \<Longrightarrow> a_result a = Some (st, reason, param) \<Longrightarrow> st \<in> set results"
  by (simp add: act_ok_def)

lemma inv_record_result:
  assumes inv: "runner_inv e s"
  shows "runner_inv e (record_result e i s)"
proof (cases rule: record_result_cases [of e i s])
  case none
  then show ?thesis using inv by simp
next
  case (park a st reason param)
  have i: "j_ID (a_job a) = i" using act_ok_id [OF inv_act [OF inv park(1)]] by simp
  have "runner_inv e (fst (db_write e (leave i s) (\<lambda>rows. leaf_Park rows (a_job a) param)))"
    using inv_tick [OF inv_leave [OF inv]] core_park [of e "Suc (r_calls s)" "r_rows s" "r_running (leave i s)" "r_ended s" i]
    by (cases rule: db_write_cases [of e "leave i s" "\<lambda>rows. leaf_Park rows (a_job a) param"])
      (simp_all add: runner_inv_def leaf_Park_def core_later i)
  then show ?thesis using park by (simp add: inv_poke)
next
  case (finish a st reason param s')
  note ok = inv_act [OF inv finish(1)]
  show ?thesis using act_ok_row [OF ok] act_ok_id [OF ok] final_state_ok [OF act_ok_result [OF ok finish(2)], of a] finish(3,5)
      inv_db_Finish(2) [OF inv_forget [OF inv_leave [OF inv]] _ _ _ _ _ finish(4), of "a_job a"] by (simp add: inv_poke)
next
  case (lost a st reason param s' er)
  note ok = inv_act [OF inv lost(1)]
  show ?thesis using act_ok_row [OF ok] act_ok_id [OF ok] final_state_ok [OF act_ok_result [OF ok lost(2)], of a] lost(3,5)
      inv_db_Finish(1) [OF inv_forget [OF inv_leave [OF inv]] _ _ _ _ _ lost(4)] by (simp add: inv_poke)
qed

section \<open>A pass\<close>

lemma update_new: "map_of xs k = None \<Longrightarrow> AList.update k v xs = xs @ [(k, v)]"
  by (induction xs) (auto split: if_splits)

text \<open>Starting a job either fails and changes no row, or adds its entry and writes its row.\<close>

lemma start_cases:
  obtains (fails) s' er where "start e s j = (s', Some er)" "r_rows s' = r_rows s" "r_running s' = r_running s" "r_ended s' = r_ended s"
      "r_calls s' = Suc (r_calls s)" "e_fault e (r_calls s)"
  | (starts) s' a where "start e s j = (s', None)" "r_rows s' = rows_Update (r_rows s) (started j (e_now e (r_calls s)))"
      "r_running s' = AList.update (j_ID j) a (r_running s)" "r_ended s' = r_ended s" "r_calls s' = Suc (r_calls s)"
      "a_row a = started j (e_now e (r_calls s))" "a_job a = started j (e_now e (r_calls s))" "a_lock a = j_LockSet j"
      "a_cause a = None" "\<not> a_swapping a" "\<not> a_idle a" "a_result a = None"
  by (cases "e_fault e (r_calls s)") (simp_all add: start_def db_write_def Let_def started_def)

text \<open>What a pass relies on in the middle of its loop.\<close>

definition loop_ok :: "env \<Rightarrow> string list list \<Rightarrow> job list \<Rightarrow> runner \<Rightarrow> bool" where
  "loop_ok e busy js s \<longleftrightarrow> runner_inv e s \<and> listed (r_rows s) js \<and> (\<forall>j \<in> set js. j_State j = Queued)
     \<and> (\<forall>i a. map_of (r_running s) i = Some a \<longrightarrow> a_lock a \<in> set busy)"

lemma loop_ok_skip: "loop_ok e busy (j # js) s \<Longrightarrow> loop_ok e (busy @ [j_LockSet j]) js s"
  by (auto simp: loop_ok_def listed_def)

lemma loop_ok_out: "loop_ok e busy (j # js) s \<Longrightarrow> map_of (r_running s) (j_ID j) = None"
proof -
  assume *: "loop_ok e busy (j # js) s"
  then have "rows_Get (r_rows s) (j_ID j) = Some j" "j_State j = Queued" by (simp_all add: loop_ok_def listed_def)
  moreover have "act_ok (r_rows s) i a" if "map_of (r_running s) i = Some a" for i a
    using * that by (auto simp: loop_ok_def runner_inv_def intro: core_act)
  ultimately show ?thesis by (cases "map_of (r_running s) (j_ID j)") (auto simp: act_ok_def)
qed

lemma loop_ok_tick: "loop_ok e busy js s \<Longrightarrow> loop_ok e busy js (tick s)"
  by (simp add: loop_ok_def inv_tick)

lemma loop_ok_start:
  assumes ok: "loop_ok e busy (j # js) s" and free: "\<not> list_ex (\<lambda>b. Overlaps (j_LockSet j) b) busy"
    and st: "start e s j = (s', None)"
  shows "loop_ok e (busy @ [j_LockSet j]) js s'" and "busyWorkers s' = Suc (busyWorkers s)"
    and "map_of (r_running s') = (map_of (r_running s))(j_ID j \<mapsto> the (map_of (r_running s') (j_ID j)))"
    and "map_of (r_running s') (j_ID j) \<noteq> None"
proof -
  obtain a where a: "r_rows s' = rows_Update (r_rows s) (started j (e_now e (r_calls s)))"
      "r_running s' = AList.update (j_ID j) a (r_running s)" "r_ended s' = r_ended s" "r_calls s' = Suc (r_calls s)"
      "a_row a = started j (e_now e (r_calls s))" "a_job a = started j (e_now e (r_calls s))" "a_lock a = j_LockSet j"
      "a_cause a = None" "\<not> a_swapping a" "\<not> a_idle a" "a_result a = None"
    using st by (cases rule: start_cases [of e s j]) auto
  have g: "rows_Get (r_rows s) (j_ID j) = Some j" and q: "j_State j = Queued" using ok by (simp_all add: loop_ok_def listed_def)
  have c: "core e (r_calls s) (r_rows s) (r_running s) (r_ended s)" using ok by (simp add: loop_ok_def runner_inv_def)
  have "core e (r_calls s) (rows_Update (r_rows s) (started j (e_now e (r_calls s)))) (AList.update (j_ID j) a (r_running s)) (r_ended s)"
    by (rule core_start [OF c g q]) (use ok free a in \<open>auto simp: loop_ok_def list_ex_iff\<close>)
  then have "runner_inv e s'" using a by (simp add: runner_inv_def core_later)
  moreover have "listed (r_rows s') js"
    by (rule listed_Cons [of "r_rows s" j]) (use ok a in \<open>auto simp: loop_ok_def job_rows.get_update started_def\<close>)
  ultimately show "loop_ok e (busy @ [j_LockSet j]) js s'"
    using ok a by (auto simp: loop_ok_def update_conv')
  show "busyWorkers s' = Suc (busyWorkers s)"
    using a update_new [OF loop_ok_out [OF ok]] by (simp add: busyWorkers_def)
  show "map_of (r_running s') = (map_of (r_running s))(j_ID j \<mapsto> the (map_of (r_running s') (j_ID j)))"
    "map_of (r_running s') (j_ID j) \<noteq> None" using a by (simp_all add: update_conv')
qed

lemma start_fails_inv: "runner_inv e s \<Longrightarrow> start e s j = (s', Some er) \<Longrightarrow> runner_inv e s'"
  by (cases rule: start_cases [of e s j]) (auto elim!: inv_later)

text \<open>The ways the loop goes on, as an induction rule.\<close>

lemma pass_loop_rule [consumes 1, case_names nil full blocked held fails starts]:
  assumes "loop_ok e busy js s"
    and nil: "\<And>busy s. loop_ok e busy [] s \<Longrightarrow> P busy [] s (s, None)"
    and full: "\<And>busy j js s. loop_ok e busy (j # js) s \<Longrightarrow> int (busyWorkers s) \<ge> n \<Longrightarrow> P busy (j # js) s (s, None)"
    and blocked: "\<And>busy j js s. loop_ok e busy (j # js) s \<Longrightarrow> \<exists>b \<in> set busy. Overlaps (j_LockSet j) b
      \<Longrightarrow> P (busy @ [j_LockSet j]) js s (pass_loop e n (busy @ [j_LockSet j]) js s)
      \<Longrightarrow> P busy (j # js) s (pass_loop e n (busy @ [j_LockSet j]) js s)"
    and held: "\<And>busy j js s. loop_ok e busy (j # js) s \<Longrightarrow> e_hold e (r_calls s) \<Longrightarrow> P busy (j # js) s (tick s, None)"
    and fails: "\<And>busy j js s s' er. loop_ok e busy (j # js) s \<Longrightarrow> start e (tick s) j = (s', Some er) \<Longrightarrow> P busy (j # js) s (s', Some er)"
    and starts: "\<And>busy j js s s'. loop_ok e busy (j # js) s \<Longrightarrow> \<not> list_ex (\<lambda>b. Overlaps (j_LockSet j) b) busy \<Longrightarrow> int (busyWorkers s) < n
      \<Longrightarrow> start e (tick s) j = (s', None)
      \<Longrightarrow> P (busy @ [j_LockSet j]) js s' (pass_loop e n (busy @ [j_LockSet j]) js s')
      \<Longrightarrow> P busy (j # js) s (pass_loop e n (busy @ [j_LockSet j]) js s')"
  shows "P busy js s (pass_loop e n busy js s)"
  using assms(1)
proof (induction js arbitrary: busy s)
  case Nil
  then show ?case by (simp add: nil)
next
  case (Cons j js)
  consider "int (busyWorkers s) \<ge> n" | "int (busyWorkers s) < n" "list_ex (\<lambda>b. Overlaps (j_LockSet j) b) busy"
    | "int (busyWorkers s) < n" "\<not> list_ex (\<lambda>b. Overlaps (j_LockSet j) b) busy" "e_hold e (r_calls s)"
    | "int (busyWorkers s) < n" "\<not> list_ex (\<lambda>b. Overlaps (j_LockSet j) b) busy" "\<not> e_hold e (r_calls s)"
    by linarith
  then show ?case
  proof cases
    case 1
    then show ?thesis using full [OF Cons.prems] by simp
  next
    case 2
    then show ?thesis using blocked [OF Cons.prems _ Cons.IH [OF loop_ok_skip [OF Cons.prems]]] by (simp add: list_ex_iff)
  next
    case 3
    then show ?thesis using held [OF Cons.prems] by simp
  next
    case 4
    obtain s' er where st: "start e (tick s) j = (s', er)" by (cases "start e (tick s) j")
    show ?thesis
    proof (cases er)
      case None
      note ok = loop_ok_start(1) [OF loop_ok_tick [OF Cons.prems] 4(2) st [unfolded None]]
      show ?thesis using 4 st None starts [OF Cons.prems 4(2,1) st [unfolded None] Cons.IH [OF ok]] by simp
    next
      case (Some x)
      then show ?thesis using 4 st fails [OF Cons.prems st [unfolded Some]] by simp
    qed
  qed
qed

lemma inv_pass_loop: "loop_ok e busy js s \<Longrightarrow> runner_inv e (fst (pass_loop e n busy js s))"
proof (induction rule: pass_loop_rule)
  case (fails busy j js s s' er)
  then show ?case using start_fails_inv [OF inv_tick fails(2)] by (simp add: loop_ok_def)
qed (simp_all add: loop_ok_def inv_tick)

lemma pass_loop_ok:
  assumes "runner_inv e s"
  shows "loop_ok e (map (\<lambda>(i, a). a_lock a) (r_running s)) (leaf_List (e_order e n) (r_rows s) [Queued]) (tick s)"
  using assms leaf_List_listed [OF assms, of "[Queued]"] inv_tick [OF assms]
  by (force simp: loop_ok_def dest: map_of_SomeD)

lemma inv_pass: "runner_inv e s \<Longrightarrow> runner_inv e (fst (pass e workers s))"
  using inv_pass_loop [OF pass_loop_ok] inv_tick by (auto simp: pass_def db_List_def split: sum.splits)

lemma inv_rstep: "rstep e s s' \<Longrightarrow> runner_inv e s \<Longrightarrow> runner_inv e s'"
proof (induction rule: rstep.induct)
  case (log s i j line)
  from log(2) show ?case by (rule inv_later) simp_all
qed (simp_all add: inv_pass inv_unpark_one inv_poke inv_Enqueue inv_Skip inv_Cancel inv_Close inv_Swap inv_Idle
    inv_handler_returns inv_record_result)

lemma reachable_inv: "reachable e s \<Longrightarrow> runner_inv e s"
proof (induction rule: reachable.induct)
  case (boot rows logs s)
  then show ?case using inv_Start [of e rows logs] by simp
qed (rule inv_rstep)


section \<open>What a step keeps of each row\<close>

definition same_job :: "job \<Rightarrow> job \<Rightarrow> bool" where
  "same_job r r' \<longleftrightarrow> j_Kind r' = j_Kind r \<and> j_LockSet r' = j_LockSet r \<and> j_CreatedAt r' = j_CreatedAt r \<and> j_LogPath r' = j_LogPath r
     \<and> (Terminal (j_State r) \<longrightarrow> r' = r)"

definition kept :: "job list \<Rightarrow> job list \<Rightarrow> bool" where
  "kept rows rows' \<longleftrightarrow> (\<forall>i r. rows_Get rows i = Some r \<longrightarrow> (\<exists>r'. rows_Get rows' i = Some r' \<and> same_job r r'))"

lemma same_job_refl [simp]: "same_job r r"
  by (simp add: same_job_def)

lemma same_job_trans: "same_job a b \<Longrightarrow> same_job b c \<Longrightarrow> same_job a c"
  by (auto simp: same_job_def)

lemma kept_refl [simp]: "kept rows rows"
  by (simp add: kept_def)

lemma kept_trans [trans]: "kept a b \<Longrightarrow> kept b c \<Longrightarrow> kept a c"
  by (meson kept_def same_job_trans)

lemma kept_finish: "rows_Get rows (j_ID j) = Some j \<Longrightarrow> \<not> Terminal (j_State j) \<Longrightarrow> kept rows (rows_Update rows (finished j st reason now))"
  by (auto simp: kept_def same_job_def job_rows.get_update finished_def)

lemma kept_started: "rows_Get rows (j_ID j) = Some j \<Longrightarrow> \<not> Terminal (j_State j) \<Longrightarrow> kept rows (rows_Update rows (started j now))"
  by (auto simp: kept_def same_job_def job_rows.get_update started_def)

lemma kept_requeue: "kept rows (rows_RequeueIfWaiting rows k)"
  by (auto simp: kept_def same_job_def job_rows.get_requeue)

lemma kept_park: "kept rows (rows_ParkIfRunning rows k p pl)"
  by (auto simp: kept_def same_job_def job_rows.get_park)

lemma kept_create: "rows_Get rows (j_ID j) = None \<Longrightarrow> kept rows (rows_Create rows j)"
  by (auto simp: kept_def job_rows.get_create)

lemma kept_write: "kept (r_rows s) (f (r_rows s)) \<Longrightarrow> kept (r_rows s) (r_rows (fst (db_write e s f)))"
  by (cases rule: db_write_cases [of e s f]) simp_all

lemma kept_db_Finish:
  "rows_Get (r_rows s) (j_ID j) = Some j \<Longrightarrow> \<not> Terminal (j_State j) \<Longrightarrow> kept (r_rows s) (r_rows (fst (db_Finish e s j st reason)))"
  unfolding db_Finish_def by (rule kept_write) (rule kept_finish)

lemma kept_db_Create:
  assumes "runner_inv e s" "db_Create e s kind lock payload rel actor = (s', j, er)"
  shows "kept (r_rows s) (r_rows s')"
  using inv_db_Create(5) [OF assms] by (simp add: kept_def)

lemma kept_supersede_older:
  assumes "listed (r_rows s) os" "\<forall>o' \<in> set os. \<not> Terminal (j_State o')"
  shows "kept (r_rows s) (r_rows (fst (supersede_older e j os s)))"
  using assms
proof (induction os arbitrary: s)
  case (Cons o' os)
  have l: "listed (r_rows s) os" and g: "rows_Get (r_rows s) (j_ID o') = Some o'" and live: "\<not> Terminal (j_State o')"
    using Cons.prems by (auto simp: listed_def)
  have rest: "kept (r_rows s) (r_rows (fst (supersede_older e j os s')))" if "r_rows s' = r_rows s" for s'
    using Cons.IH [of s'] l Cons.prems(2) that by simp
  obtain s' er where w: "db_Finish e s o' Superseded [] = (s', er)" by (cases "db_Finish e s o' Superseded []")
  have k: "kept (r_rows s) (r_rows s')" using kept_db_Finish [OF g live, of e Superseded "[]"] w by simp
  have "rows_Get (r_rows s') i = rows_Get (r_rows s) i" if "i \<noteq> j_ID o'" for i
    using w that by (auto simp: db_Finish_def db_write_def job_rows.get_update finished_def split: if_splits)
  then have "listed (r_rows s') os" by (rule listed_Cons [OF Cons.prems(1)])
  then have "kept (r_rows s') (r_rows (fst (supersede_older e j os (add_ended o' s'))))"
    using Cons.IH [of "add_ended o' s'"] Cons.prems(2) by simp
  then have fin: "kept (r_rows s) (r_rows (fst (supersede_older e j os (add_ended o' s'))))" by (rule kept_trans [OF k])
  show ?case using rest k fin w by (cases er) (simp_all split: option.splits)
qed simp

lemma kept_pass_loop: "loop_ok e busy js s \<Longrightarrow> kept (r_rows s) (r_rows (fst (pass_loop e n busy js s)))"
proof (induction rule: pass_loop_rule)
  case (fails busy j js s s' er)
  then show ?case by (cases rule: start_cases [of e "tick s" j]) auto
next
  case (starts busy j js s s')
  have "kept (r_rows s) (r_rows s')"
    using starts(1,4) kept_started [of "r_rows s" j]
    by (cases rule: start_cases [of e "tick s" j]) (auto simp: loop_ok_def listed_def)
  then show ?case using starts(5) by (rule kept_trans)
qed simp_all

lemma kept_record_result:
  assumes inv: "runner_inv e s"
  shows "kept (r_rows s) (r_rows (record_result e i s))"
proof (cases rule: record_result_cases [of e i s])
  case (park a st reason param)
  then show ?thesis using kept_write [of "leave i s" "\<lambda>rows. leaf_Park rows (a_job a) param" e]
    by (simp add: leaf_Park_def kept_park)
next
  case (finish a st reason param s')
  then show ?thesis using act_ok_row [OF inv_act [OF inv finish(1)]]
      kept_db_Finish [of "forget i (leave i s)" "a_row a" e "final_state a st" reason] by simp
next
  case (lost a st reason param s' er)
  then show ?thesis using act_ok_row [OF inv_act [OF inv lost(1)]]
      kept_db_Finish [of "forget i (leave i s)" "a_row a" e "final_state a st" reason] by simp
qed simp


lemma kept_pass: "runner_inv e s \<Longrightarrow> kept (r_rows s) (r_rows (fst (pass e workers s)))"
  using kept_pass_loop [OF pass_loop_ok, of e s] by (auto simp: pass_def db_List_def split: sum.splits)

lemma kept_Enqueue:
  assumes inv: "runner_inv e s"
  shows "kept (r_rows s) (r_rows (fst (Enqueue e kind lock payload rel actor s)))"
proof -
  let ?older = "leaf_List (e_order e (r_calls s)) (r_rows s) [Queued, Waiting, Running]"
  obtain s2 j er where w: "db_Create e (tick s) kind lock payload rel actor = (s2, j, er)"
    using prod_cases3 by blast
  have "kept (r_rows s) (r_rows s2)" using kept_db_Create [OF inv_tick [OF inv] w] by simp
  moreover have "listed (r_rows s2) ?older"
    using leaf_List_listed(1) [OF inv, of "[Queued, Waiting, Running]" "r_calls s"] inv_db_Create(5) [OF inv_tick [OF inv] w]
    by (auto simp: listed_def)
  then have "kept (r_rows s2) (r_rows (fst (supersede_older e j ?older s2)))"
    by (rule kept_supersede_older) (auto simp: leaf_List_listed(2) [OF inv])
  ultimately show ?thesis using kept_trans [of "r_rows s" "r_rows s2"]
    by (cases er; cases "supersede_older e j ?older s2"; cases "snd (supersede_older e j ?older s2)")
      (simp_all add: Enqueue_def db_List_def w)
qed

lemma kept_Skip:
  assumes inv: "runner_inv e s"
  shows "kept (r_rows s) (r_rows (fst (Skip e kind lock payload reason actor s)))"
proof -
  obtain s1 j er where w: "db_Create e s kind lock payload None actor = (s1, j, er)" using prod_cases3 by blast
  obtain s2 er2 where f: "db_Finish e s1 j Skipped reason = (s2, er2)" by (cases "db_Finish e s1 j Skipped reason")
  note cr = inv_db_Create [OF inv w]
  have k1: "kept (r_rows s) (r_rows s1)" by (rule kept_db_Create [OF inv w])
  have "kept (r_rows s1) (r_rows s2)" if "er = None"
    using kept_db_Finish [OF cr(2) [OF that], of e Skipped reason] cr(3) f by simp
  then have "kept (r_rows s) (r_rows s2)" if "er = None" using that kept_trans [OF k1] by simp
  then show ?thesis using k1 by (cases er; cases er2) (simp_all add: Skip_def w f db_Get_def split: option.splits)
qed

lemma kept_Cancel: "kept (r_rows s) (r_rows (fst (Cancel e i s)))"
proof (cases "map_of (r_running s) i = None \<and> rows_Get (r_rows s) i \<noteq> None")
  case True
  then obtain j where g: "rows_Get (r_rows s) i = Some j" by blast
  obtain s2 er where w: "db_Finish e (tick s) j Cancelled [] = (s2, er)" by (cases "db_Finish e (tick s) j Cancelled []")
  have "kept (r_rows s) (r_rows s2)" if "Cancellable (j_State j)"
    using kept_db_Finish [of "tick s" j e Cancelled "[]"] g job_rows.get_id [OF g] w that
    by (auto simp: Cancellable_def)
  then show ?thesis using True g w by (cases er) (simp_all add: Cancel_def db_Get_def)
qed (auto simp: Cancel_def db_Get_def split: option.splits)

lemma kept_unpark_one: "kept (r_rows s) (r_rows (unpark_one e resolves j s))"
  using kept_write [of s "\<lambda>rows. leaf_Requeue rows j" e] by (simp add: unpark_one_def leaf_Requeue_def kept_requeue)

lemma handler_returns_rows [simp]: "r_rows (handler_returns e i late o' pl s) = r_rows s"
  by (auto simp: handler_returns_def dest: call_eq split: option.splits prod.splits)

lemma kept_rstep: "rstep e s s' \<Longrightarrow> runner_inv e s \<Longrightarrow> kept (r_rows s) (r_rows s')"
proof (induction rule: rstep.induct)
  case (swap s i)
  then show ?case by (auto simp: Swap_def split: option.splits)
qed (simp_all add: kept_pass kept_unpark_one kept_Enqueue kept_Skip kept_Cancel Close_def Idle_def Let_def kept_record_result)

section \<open>What a step keeps of a swapping job\<close>

definition swap_kept :: "runner \<Rightarrow> runner \<Rightarrow> bool" where
  "swap_kept s s' \<longleftrightarrow> (\<forall>i a a'. map_of (r_running s) i = Some a \<longrightarrow> a_swapping a \<longrightarrow> map_of (r_running s') i = Some a'
     \<longrightarrow> a_swapping a' \<and> (a_cause a' = a_cause a \<or> a_cause a' = Some CauseShutdown))"

lemma swap_kept_same: "map_of (r_running s') = map_of (r_running s) \<Longrightarrow> swap_kept s s'"
  by (simp add: swap_kept_def)

lemma swap_kept_upd:
  assumes "\<And>a. map_of (r_running s) i = Some a \<Longrightarrow> a_swapping a \<Longrightarrow> a_swapping (f a) \<and> (a_cause (f a) = a_cause a \<or> a_cause (f a) = Some CauseShutdown)"
    and "r_running s' = r_running s"
  shows "swap_kept s (upd_active i f s')"
  using assms by (auto simp: swap_kept_def map_of_upd_active split: if_splits)

lemma running_pass_loop:
  "loop_ok e busy js s \<Longrightarrow> map_of (r_running s) i = Some a \<Longrightarrow> map_of (r_running (fst (pass_loop e n busy js s))) i = Some a"
proof (induction rule: pass_loop_rule)
  case (fails busy j js s s' er)
  then show ?case by (cases rule: start_cases [of e "tick s" j]) auto
next
  case (starts busy j js s s')
  have "i \<noteq> j_ID j" using starts(6) loop_ok_out [OF starts(1)] by auto
  then have "map_of (r_running s') i = Some a"
    using starts(6) loop_ok_start(3) [OF loop_ok_tick [OF starts(1)] starts(2,4)] by (metis fun_upd_other tick_simps(2))
  then show ?case by (rule starts(5))
qed simp_all

lemma running_pass:
  "runner_inv e s \<Longrightarrow> map_of (r_running s) i = Some a \<Longrightarrow> map_of (r_running (fst (pass e workers s))) i = Some a"
  using running_pass_loop [OF pass_loop_ok, of e s i a] by (auto simp: pass_def db_List_def split: sum.splits)

lemma running_db_write [simp]: "r_running (fst (db_write e s f)) = r_running s"
  by (cases rule: db_write_cases [of e s f]) simp_all

lemma running_db_Finish [simp]: "r_running (fst (db_Finish e s j st reason)) = r_running s"
  by (simp add: db_Finish_def)

lemma running_db_Finish_eq: "db_Finish e s j st reason = (s', er) \<Longrightarrow> r_running s' = r_running s"
  using running_db_Finish [of e s j st reason] by simp

lemma running_db_Create_eq: "db_Create e s kind lock payload rel actor = (s', j, er) \<Longrightarrow> r_running s' = r_running s"
  by (auto simp: db_Create_def Let_def db_write_def split: if_splits)


lemma swap_kept_supersede_older:
  "map_of (r_running s) i = Some a \<Longrightarrow> a_swapping a \<Longrightarrow> map_of (r_running (fst (supersede_older e j os s))) i = Some a"
proof (induction os arbitrary: s)
  case (Cons o' os)
  let ?up = "upd_active (j_ID o') (\<lambda>a. cancel_ctx CauseSuperseded (a\<lparr>a_superseded := True\<rparr>)) s"
  have up: "map_of (r_running ?up) i = Some a" if "map_of (r_running s) (j_ID o') = Some b" "\<not> a_swapping b" for b
    using Cons.prems that by (auto simp: map_of_upd_active)
  obtain s' er where w: "db_Finish e s o' Superseded [] = (s', er)" by (cases "db_Finish e s o' Superseded []")
  have run: "map_of (r_running s') i = Some a" using running_db_Finish_eq [OF w] Cons.prems by simp
  show ?case using Cons.prems w run up Cons.IH by (cases er) (simp_all split: option.splits)
qed simp

lemma swap_kept_Enqueue: "swap_kept s (fst (Enqueue e kind lock payload rel actor s))"
proof -
  let ?older = "leaf_List (e_order e (r_calls s)) (r_rows s) [Queued, Waiting, Running]"
  obtain s2 j er where w: "db_Create e (tick s) kind lock payload rel actor = (s2, j, er)"
    using prod_cases3 by blast
  have "map_of (r_running (fst (supersede_older e j ?older s2))) i = Some a" if "map_of (r_running s) i = Some a" "a_swapping a" for i a
    using swap_kept_supersede_older [of s2 i a] that running_db_Create_eq [OF w] by simp
  then show ?thesis using running_db_Create_eq [OF w]
    by (cases er; cases "supersede_older e j ?older s2"; cases "snd (supersede_older e j ?older s2)")
      (auto simp: Enqueue_def db_List_def w swap_kept_def)
qed

lemma running_Skip: "r_running (fst (Skip e kind lock payload reason actor s)) = r_running s"
  by (auto simp: Skip_def db_Get_def dest!: running_db_Create_eq running_db_Finish_eq split: prod.splits option.splits)

lemma swap_kept_Cancel: "swap_kept s (fst (Cancel e i s))"
proof (cases "map_of (r_running s) i")
  case None
  then show ?thesis
    by (intro swap_kept_same) (auto simp: Cancel_def db_Get_def dest!: running_db_Finish_eq split: option.splits prod.splits)
next
  case (Some a)
  then show ?thesis
    by (cases "a_swapping a") (auto simp: Cancel_def intro: swap_kept_same swap_kept_upd)
qed

lemma swap_kept_Close: "swap_kept s (Close s)"
proof -
  have "map_of (map (\<lambda>(i, a). (i, cancel_ctx CauseShutdown a)) xs) i = map_option (cancel_ctx CauseShutdown) (map_of xs i)" for xs and i :: string
    by (induction xs) auto
  moreover have "a_swapping (cancel_ctx CauseShutdown a) = a_swapping a"
    "a_cause (cancel_ctx CauseShutdown a) = a_cause a \<or> a_cause (cancel_ctx CauseShutdown a) = Some CauseShutdown" for a
    by (simp_all add: cancel_ctx_def split: option.splits)
  ultimately show ?thesis by (auto simp: swap_kept_def Close_def)
qed

lemma swap_kept_handler_returns: "swap_kept s (handler_returns e i late o' pl s)"
proof (cases "map_of (r_running s) i")
  case (Some a)
  obtain s' res where c: "call e a late o' s = (s', res)" by (cases "call e a late o' s")
  have "swap_kept s (upd_active i (\<lambda>a. a\<lparr>a_result := Some res,
      a_job := (case pl of None \<Rightarrow> a_job a | Some p \<Rightarrow> (a_job a)\<lparr>j_Payload := p\<rparr>)\<rparr>) s')"
    by (rule swap_kept_upd) (use call_eq [OF c] in simp_all)
  then show ?thesis using Some c by (simp add: handler_returns_def swap_kept_same)
qed (simp add: handler_returns_def swap_kept_same)

lemma swap_kept_record_result: "swap_kept s (record_result e i s)"
proof (cases rule: record_result_cases [of e i s])
  case (finish a st reason param s')
  then show ?thesis using running_db_Finish_eq [OF finish(4)] by (simp add: swap_kept_def)
next
  case (lost a st reason param s' er)
  then show ?thesis using running_db_Finish_eq [OF lost(4)] by (simp add: swap_kept_def)
qed (simp_all add: swap_kept_def)

lemma swap_kept_rstep: "rstep e s s' \<Longrightarrow> runner_inv e s \<Longrightarrow> swap_kept s s'"
proof (induction rule: rstep.induct)
  case (pass s workers)
  then show ?case using running_pass [OF pass] by (simp add: swap_kept_def)
next
  case (swap s i)
  have "swap_kept s (upd_active i (\<lambda>a. a\<lparr>a_swapping := True\<rparr>) s)" by (rule swap_kept_upd) simp_all
  then show ?case by (auto simp: Swap_def swap_kept_same split: option.splits)
next
  case (idle s i on)
  have "swap_kept s (upd_active i (\<lambda>a. a\<lparr>a_idle := on\<rparr>) s)" by (rule swap_kept_upd) simp_all
  then show ?case by (simp add: Idle_def Let_def swap_kept_def)
qed (simp_all add: swap_kept_Enqueue swap_kept_Cancel swap_kept_Close swap_kept_handler_returns swap_kept_record_result
    swap_kept_same running_Skip unpark_one_def)

end
