(* ===== verification/Jobs_Pass.thy ===== *)
theory Jobs_Pass
  imports Jobs_Safety
begin

text \<open>
  What \<^verbatim>\<open>pass\<close> of \<^verbatim>\<open>internal/service/internal/flow/jobs/jobs.go\<close> starts and in which order, that it starts all it may, and
  the properties of the runner.
\<close>

section \<open>The loop of a pass\<close>

text \<open>A job the loop starts overlaps nothing that was busy and nothing listed before it.\<close>

lemma pass_loop_started:
  "loop_ok e busy js s \<Longrightarrow> map_of (r_running (fst (pass_loop e n busy js s))) i = Some a \<Longrightarrow> map_of (r_running s) i = None
    \<Longrightarrow> \<exists>pre j post. js = pre @ j # post \<and> j_ID j = i \<and> (\<forall>b \<in> set busy. \<not> Overlaps (j_LockSet j) b)
      \<and> (\<forall>o' \<in> set pre. \<not> Overlaps (j_LockSet j) (j_LockSet o'))"
proof (induction rule: pass_loop_rule)
  case (blocked busy x js s)
  then obtain pre j post where "js = pre @ j # post" "j_ID j = i" "\<forall>b \<in> set (busy @ [j_LockSet x]). \<not> Overlaps (j_LockSet j) b"
    "\<forall>o' \<in> set pre. \<not> Overlaps (j_LockSet j) (j_LockSet o')" by blast
  then show ?case by (intro exI [of _ "x # pre"] exI [of _ j] exI [of _ post]) simp
next
  case (fails busy j js s s' er)
  then show ?case by (cases rule: start_cases [of e "tick s" j]) auto
next
  case (starts busy x js s s')
  show ?case
  proof (cases "i = j_ID x")
    case True
    then show ?thesis using starts(2) by (intro exI [of _ "[]"] exI [of _ x] exI [of _ js]) (simp add: list_ex_iff)
  next
    case False
    have "map_of (r_running s') i = None"
      using starts(7) False loop_ok_start(3) [OF loop_ok_tick [OF starts(1)] starts(2,4)] by (metis fun_upd_other tick_simps(2))
    then obtain pre j post where "js = pre @ j # post" "j_ID j = i" "\<forall>b \<in> set (busy @ [j_LockSet x]). \<not> Overlaps (j_LockSet j) b"
      "\<forall>o' \<in> set pre. \<not> Overlaps (j_LockSet j) (j_LockSet o')" using starts(5,6) by blast
    then show ?thesis by (intro exI [of _ "x # pre"] exI [of _ j] exI [of _ post]) simp
  qed
qed simp_all

text \<open>
  A loop that ended well and was not held started every listed job, but those a busy lock or an earlier
  one is in the way of, or it filled the workers.
\<close>

lemma pass_loop_starts_all:
  "loop_ok e busy js s \<Longrightarrow> snd (pass_loop e n busy js s) = None \<Longrightarrow> \<forall>m. \<not> e_hold e m
    \<Longrightarrow> int (busyWorkers (fst (pass_loop e n busy js s))) < n \<Longrightarrow> js = pre @ j # post
    \<Longrightarrow> map_of (r_running (fst (pass_loop e n busy js s))) (j_ID j) \<noteq> None
      \<or> (\<exists>b \<in> set busy. Overlaps (j_LockSet j) b) \<or> (\<exists>o' \<in> set pre. Overlaps (j_LockSet j) (j_LockSet o'))"
proof (induction arbitrary: pre rule: pass_loop_rule)
  case (blocked busy x js s)
  show ?case
  proof (cases pre)
    case Nil
    then show ?thesis using blocked by simp
  next
    case (Cons y ys)
    then have "y = x" "js = ys @ j # post" using blocked.prems by simp_all
    then show ?thesis using blocked(3) [OF blocked.prems(1-3), of ys] Cons by auto
  qed
next
  case (starts busy x js s s')
  show ?case
  proof (cases pre)
    case Nil
    note ok = loop_ok_start [OF loop_ok_tick [OF starts(1)] starts(2,4)]
    have "map_of (r_running s') (j_ID x) \<noteq> None" by (rule ok(4))
    then show ?thesis using running_pass_loop [OF ok(1)] Nil starts.prems by fastforce
  next
    case (Cons y ys)
    then have "y = x" "js = ys @ j # post" using starts.prems by simp_all
    then show ?thesis using starts(5) [OF starts.prems(1-3), of ys] Cons by auto
  qed
qed simp_all

lemma pass_loop_workers:
  "loop_ok e busy js s \<Longrightarrow> int (busyWorkers (fst (pass_loop e n busy js s))) \<le> max n (int (busyWorkers s))"
proof (induction rule: pass_loop_rule)
  case (fails busy j js s s' er)
  then have "busyWorkers s' = busyWorkers s"
    by (cases rule: start_cases [of e "tick s" j]) (auto simp: busyWorkers_def)
  then show ?case by simp
next
  case (starts busy j js s s')
  have "busyWorkers s' = Suc (busyWorkers s)"
    using loop_ok_start(2) [OF loop_ok_tick [OF starts(1)] starts(2,4)] by (simp add: busyWorkers_def)
  then show ?case using starts(3,5) by simp
qed (simp_all add: busyWorkers_def)

lemma pass_loop_no_fault:
  "loop_ok e busy js s \<Longrightarrow> \<forall>m. \<not> e_fault e m \<Longrightarrow> snd (pass_loop e n busy js s) = None"
proof (induction rule: pass_loop_rule)
  case (fails busy j js s s' er)
  then show ?case by (cases rule: start_cases [of e "tick s" j]) auto
qed simp_all

section \<open>A pass over the rows\<close>

lemma leaf_List_sorted: "sorted (map j_CreatedAt (leaf_List order rows states))"
  by (simp add: leaf_List_def)

lemma pass_Inr:
  assumes "\<not> e_fault e (r_calls s)"
  shows "pass e (Inr n) s = pass_loop e n (map (\<lambda>(i, a). a_lock a) (r_running s))
    (leaf_List (e_order e (r_calls s)) (r_rows s) [Queued]) (tick s)"
  using assms by (simp add: pass_def db_List_def)

lemma pass_fault: "e_fault e (r_calls s) \<Longrightarrow> pass e (Inr n) s = (tick s, Some db_err)"
  by (simp add: pass_def db_List_def)

lemma sorted_earlier:
  assumes "sorted (map f (pre @ x # post))" "y \<in> set (pre @ x # post)" "f y < (f x :: int)"
  shows "y \<in> set pre"
  using assms by (auto simp: sorted_append)

text \<open>What a started job had ahead of it.\<close>

lemma pass_started:
  assumes inv: "runner_inv e s" and out: "map_of (r_running s) i = None"
    and run: "map_of (r_running (fst (pass e (Inr n) s))) i = Some a"
  obtains j where "rows_Get (r_rows s) i = Some j" "j_State j = Queued"
    "\<And>k b. map_of (r_running s) k = Some b \<Longrightarrow> \<not> Overlaps (j_LockSet j) (a_lock b)"
    "\<And>o'. o' \<in> set (r_rows s) \<Longrightarrow> j_State o' = Queued \<Longrightarrow> j_CreatedAt o' < j_CreatedAt j \<Longrightarrow> \<not> Overlaps (j_LockSet j) (j_LockSet o')"
proof (cases "e_fault e (r_calls s)")
  case True
  then show ?thesis using out run by (simp add: pass_fault)
next
  case False
  let ?q = "leaf_List (e_order e (r_calls s)) (r_rows s) [Queued]" and ?busy = "map (\<lambda>(i, a). a_lock a) (r_running s)"
  note L = leaf_List_listed [OF inv, where states = "[Queued]" and n = "r_calls s"]
  obtain pre j post where q: "?q = pre @ j # post" and i: "j_ID j = i" and b: "\<forall>b \<in> set ?busy. \<not> Overlaps (j_LockSet j) b"
    and p: "\<forall>o' \<in> set pre. \<not> Overlaps (j_LockSet j) (j_LockSet o')"
    using pass_loop_started [OF pass_loop_ok [OF inv] run [unfolded pass_Inr [OF False]]] out unfolding tick_simps by blast
  have j: "j \<in> set ?q" by (simp add: q)
  show ?thesis
  proof (rule that)
    show "rows_Get (r_rows s) i = Some j" using L(1) j i by (auto simp: listed_def)
    show "j_State j = Queued" using L(2) [of j] j by simp
    show "\<not> Overlaps (j_LockSet j) (a_lock b')" if "map_of (r_running s) k = Some b'" for k b'
      using map_of_SomeD [OF that] b by force
    show "\<not> Overlaps (j_LockSet j) (j_LockSet o')"
      if "o' \<in> set (r_rows s)" "j_State o' = Queued" "j_CreatedAt o' < j_CreatedAt j" for o'
    proof -
      have "o' \<in> set (pre @ j # post)" using L(2) [of o'] that(1,2) unfolding q by simp
      then have "o' \<in> set pre" by (rule sorted_earlier [OF leaf_List_sorted [where rows = "r_rows s" and order = "e_order e (r_calls s)" and states = "[Queued]", unfolded q] _ that(3)])
      then show ?thesis using p by blast
    qed
  qed
qed


section \<open>Superseding\<close>

text \<open>A job the loop of \<^verbatim>\<open>Enqueue\<close> does not replace keeps its row and its entry.\<close>

lemma supersede_older_others:
  "\<forall>o' \<in> set os. Overlaps (j_LockSet j) (j_LockSet o') \<longrightarrow> Supersedes j o' \<longrightarrow> j_ID o' \<noteq> i
     \<Longrightarrow> map_of (r_running (fst (supersede_older e j os s))) i = map_of (r_running s) i
       \<and> rows_Get (r_rows (fst (supersede_older e j os s))) i = rows_Get (r_rows s) i"
proof (induction os arbitrary: s)
  case (Cons o' os)
  let ?up = "upd_active (j_ID o') (\<lambda>a. cancel_ctx CauseSuperseded (a\<lparr>a_superseded := True\<rparr>)) s"
  obtain s' er where w: "db_Finish e s o' Superseded [] = (s', er)" by (cases "db_Finish e s o' Superseded []")
  note IH = Cons.IH [of s] Cons.IH [of ?up] Cons.IH [of "add_ended o' s'"]
  show ?case
  proof (cases "Overlaps (j_LockSet j) (j_LockSet o') \<and> Supersedes j o'")
    case True
    then have ne: "i \<noteq> j_ID o'" using Cons.prems by auto
    have run: "r_running s' = r_running s" by (rule running_db_Finish_eq [OF w])
    have row: "rows_Get (r_rows s') i = rows_Get (r_rows s) i"
      using w ne by (auto simp: db_Finish_def db_write_def job_rows.get_update finished_def split: if_splits)
    show ?thesis using IH Cons.prems w run row ne True
      by (cases er) (simp_all add: map_of_upd_active option.map_ident split: option.splits)
  next
    case False
    then show ?thesis using IH(1) Cons.prems by auto
  qed
qed simp

text \<open>
  What the loop leaves of each older job it replaces: a swapping one goes on, one that builds is told that it is superseded and its
  context is cancelled (with the first cause), and a queued or waiting one has its row finished.
\<close>

definition told :: "active \<Rightarrow> active" where
  "told a = (if a_swapping a then a
     else a\<lparr>a_superseded := True, a_cause := Some (case a_cause a of None \<Rightarrow> CauseSuperseded | Some c \<Rightarrow> c)\<rparr>)"

definition replaced :: "runner \<Rightarrow> runner \<Rightarrow> job \<Rightarrow> bool" where
  "replaced s s' o' \<longleftrightarrow> (case map_of (r_running s) (j_ID o') of
     Some a \<Rightarrow> map_of (r_running s') (j_ID o') = Some (told a)
   | None \<Rightarrow> j_State o' \<noteq> Running \<longrightarrow> (\<exists>r. rows_Get (r_rows s') (j_ID o') = Some r \<and> j_State r = Superseded))"

lemma replaced_later:
  assumes "replaced s2 s' x" "map_of (r_running s2) (j_ID x) = map_of (r_running s) (j_ID x)"
  shows "replaced s s' x"
  using assms by (simp add: replaced_def)

lemma supersede_older_replaces:
  assumes "listed (r_rows s) os" "\<forall>o' \<in> set os. \<not> Terminal (j_State o')" "snd (supersede_older e j os s) = None"
    "x \<in> set os" "Overlaps (j_LockSet j) (j_LockSet x)" "Supersedes j x"
  shows "replaced s (fst (supersede_older e j os s)) x"
  using assms
proof (induction os arbitrary: s)
  case (Cons o' os)
  have g: "rows_Get (r_rows s) (j_ID o') = Some o'" and l: "listed (r_rows s) os"
    and ne: "x \<noteq> o' \<Longrightarrow> j_ID x \<noteq> j_ID o'" using Cons.prems(1,4) by (auto simp: listed_def)
  note hit = Cons.prems(5,6)
  let ?up = "upd_active (j_ID o') (\<lambda>a. cancel_ctx CauseSuperseded (a\<lparr>a_superseded := True\<rparr>)) s"
  obtain s' er where w: "db_Finish e s o' Superseded [] = (s', er)" by (cases "db_Finish e s o' Superseded []")
  have run: "r_running s' = r_running s" by (rule running_db_Finish_eq [OF w])
  have row: "rows_Get (r_rows s') i = (if i = j_ID o' then Some (finished o' Superseded [] (e_now e (r_calls s))) else rows_Get (r_rows s) i)"
    if "er = None" for i
    using w that g by (auto simp: db_Finish_def db_write_def job_rows.get_update finished_def split: if_splits)
  have l': "listed (r_rows s') os" if "er = None" by (rule listed_Cons [OF Cons.prems(1)]) (simp add: row [OF that])
  show ?case
  proof (cases "x = o'")
    case True
    show ?thesis
    proof (cases "map_of (r_running s) (j_ID o')")
      case (Some a)
      have "j_ID y \<noteq> j_ID o'" if "y \<in> set os" for y using Cons.prems(1) that by (force simp: listed_def)
      then have o: "map_of (r_running (fst (supersede_older e j os t))) (j_ID o') = map_of (r_running t) (j_ID o')" for t
        using supersede_older_others [of os j "j_ID o'" e t] by blast
      show ?thesis using True Some hit by (simp add: replaced_def told_def o map_of_upd_active cancel_ctx_def split: option.split)
    next
      case None
      have "\<exists>r. rows_Get (r_rows (fst (supersede_older e j os (add_ended o' s')))) (j_ID o') = Some r \<and> j_State r = Superseded"
        if "er = None"
      proof -
        have "kept (r_rows s') (r_rows (fst (supersede_older e j os (add_ended o' s'))))"
          using kept_supersede_older [of "add_ended o' s'" os] l' [OF that] Cons.prems(2) by simp
        then show ?thesis using row [OF that, of "j_ID o'"] by (force simp: kept_def same_job_def finished_def)
      qed
      then show ?thesis using True None hit w Cons.prems(3) by (cases er; cases "j_State o' = Running") (simp_all add: replaced_def)
    qed
  next
    case False
    then have x: "x \<in> set os" using Cons.prems(4) by simp
    note IH = Cons.IH [OF _ _ _ x hit]
    have "replaced s (fst (supersede_older e j os s2)) x"
      if "listed (r_rows s2) os" "snd (supersede_older e j os s2) = None" "map_of (r_running s2) (j_ID x) = map_of (r_running s) (j_ID x)" for s2
      using replaced_later [OF IH [OF that(1) _ that(2)] that(3)] Cons.prems(2) by simp
    note rest = this [of s] this [of ?up] this [of "add_ended o' s'"]
    show ?thesis using rest l l' Cons.prems(3) w run ne [OF False]
      by (cases er) (auto simp: map_of_upd_active option.map_ident split: if_splits option.splits)
  qed
qed simp

section \<open>A concrete run\<close>

text \<open>A store that never fails, ids by number, one database order.\<close>

definition ex_renv :: env where
  "ex_renv = \<lparr>e_fault = \<lambda>n. False, e_now = int, e_uuid = nat_str, e_order = \<lambda>n xs. xs, e_hold = \<lambda>n. False, e_survived = \<lambda>j. False,
     e_kinds = \<lambda>k. True, e_uncapped = \<lambda>k. False, e_logDir = ''/data/jobs'', e_cap = ''30m0s'', e_text = \<lambda>er. ''error'', e_mkdir = None\<rparr>"

definition ex_boot :: runner where
  "ex_boot = fst (Start ex_renv (new_runner [] []))"

definition ex_queued :: runner where
  "ex_queued = fst (Enqueue ex_renv ''deploy'' [''b''] ''{}'' None ([], [])
     (fst (Enqueue ex_renv ''deploy'' [''a''] ''{}'' None ([], []) ex_boot)))"

definition ex_running :: runner where
  "ex_running = fst (pass ex_renv (Inr 2) ex_queued)"

lemma ex_renv_ok: "order_ok ex_renv" "inj (e_uuid ex_renv)" "\<not> e_fault ex_renv n" "\<not> e_hold ex_renv n"
  by (simp_all add: ex_renv_def order_ok_def inj_def)

lemma ex_reachable: "reachable ex_renv ex_boot" "reachable ex_renv ex_queued" "reachable ex_renv ex_running"
proof -
  have "Start ex_renv (new_runner [] []) = (ex_boot, None)"
    by (simp add: ex_boot_def Start_def db_List_def new_runner_def ex_renv_def leaf_List_def rows_ListRecent_def)
  then show b: "reachable ex_renv ex_boot"
    by (rule reachable.boot [rotated 4]) (simp_all add: ex_renv_ok fresh_ids_def)
  show q: "reachable ex_renv ex_queued" unfolding ex_queued_def
    by (rule reachable.step [OF reachable.step [OF b rstep.enqueue] rstep.enqueue])
  show "reachable ex_renv ex_running" unfolding ex_running_def by (rule reachable.step [OF q rstep.pass])
qed


section \<open>Properties\<close>

text \<open>
  C1: Mutual exclusion. In every state the runner reaches, whatever store calls failed on the way, the
  lock sets of two running jobs never overlap: no tile is worked on by two jobs, and a job holding the
  lock of everything runs alone.
\<close>

theorem running_locks_disjoint:
  assumes "reachable e s" "map_of (r_running s) i = Some a" "map_of (r_running s) k = Some b" "i \<noteq> k"
  shows "\<not> Overlaps (a_lock a) (a_lock b)"
  using reachable_inv [OF assms(1)] assms(2-4) by (auto simp: runner_inv_def core_def disjoint_locks_def)

theorem running_locks_disjoint_witness:
  "\<not> Overlaps (a_lock (the (map_of (r_running ex_running) ''2''))) (a_lock (the (map_of (r_running ex_running) ''4'')))"
proof -
  have "map_of (r_running ex_running) ''2'' \<noteq> None" "map_of (r_running ex_running) ''4'' \<noteq> None" "''2'' \<noteq> ''4''"
    by code_simp+
  then show ?thesis using running_locks_disjoint [OF ex_reachable(3)] by fastforce
qed

text \<open>
  C14: A pass starts a job in turn: the job was queued, and of the jobs \<open>Ahead\<close> of it (what the jobs list
  shows it waits behind) none is queued and none runs in this process.
\<close>

theorem pass_starts_in_order:
  assumes "reachable e s" "map_of (r_running s) i = None" "map_of (r_running (fst (pass e (Inr n) s))) i = Some a"
  shows "\<exists>j. rows_Get (r_rows s) i = Some j \<and> j_State j = Queued
     \<and> (\<forall>o' \<in> set (Ahead j (r_rows s)). j_State o' = Running \<and> map_of (r_running s) (j_ID o') = None)"
proof -
  note inv = reachable_inv [OF assms(1)]
  obtain j where j: "rows_Get (r_rows s) i = Some j" "j_State j = Queued"
    "\<And>k b. map_of (r_running s) k = Some b \<Longrightarrow> \<not> Overlaps (j_LockSet j) (a_lock b)"
    "\<And>o'. o' \<in> set (r_rows s) \<Longrightarrow> j_State o' = Queued \<Longrightarrow> j_CreatedAt o' < j_CreatedAt j \<Longrightarrow> \<not> Overlaps (j_LockSet j) (j_LockSet o')"
    by (rule pass_started [OF inv assms(2,3)]) blast
  have "a_lock b = j_LockSet o'" if "o' \<in> set (r_rows s)" "map_of (r_running s) (j_ID o') = Some b" for o' b
  proof -
    have "rows_Get (r_rows s) (j_ID o') = Some o'" using inv that(1) by (simp add: runner_inv_def core_def rows_Get_iff)
    then show ?thesis using inv_act [OF inv that(2)] by (simp add: act_ok_def)
  qed
  then have "map_of (r_running s) (j_ID o') = None" if "o' \<in> set (r_rows s)" "Overlaps (j_LockSet j) (j_LockSet o')" for o'
    using that j(3) [of "j_ID o'"] by (cases "map_of (r_running s) (j_ID o')") fastforce+
  then show ?thesis using j by (auto simp: Ahead_def)
qed

theorem pass_starts_in_order_witness:
  "\<exists>j. rows_Get (r_rows ex_queued) ''4'' = Some j \<and> j_State j = Queued
     \<and> (\<forall>o' \<in> set (Ahead j (r_rows ex_queued)). j_State o' = Running \<and> map_of (r_running ex_queued) (j_ID o') = None)"
proof -
  have "map_of (r_running ex_queued) ''4'' = None" "map_of (r_running (fst (pass ex_renv (Inr 2) ex_queued))) ''4'' \<noteq> None"
    by code_simp+
  then show ?thesis using pass_starts_in_order [OF ex_reachable(2)] by blast
qed

text \<open>
  C17: A pass leaves no work undone: when it ends without an error and nothing holds the queue, every
  queued job runs after it, unless the workers are full, the job's lock is taken by a running job, or an
  overlapping queued job that is not newer is in front of it.
\<close>

theorem pass_starts_all:
  assumes "reachable e s" "snd (pass e (Inr n) s) = None" "\<forall>m. \<not> e_hold e m" "j \<in> set (r_rows s)" "j_State j = Queued"
  shows "map_of (r_running (fst (pass e (Inr n) s))) (j_ID j) \<noteq> None
    \<or> int (busyWorkers (fst (pass e (Inr n) s))) \<ge> n
    \<or> (\<exists>k b. map_of (r_running s) k = Some b \<and> Overlaps (j_LockSet j) (a_lock b))
    \<or> (\<exists>o' \<in> set (r_rows s). j_State o' = Queued \<and> j_ID o' \<noteq> j_ID j \<and> j_CreatedAt o' \<le> j_CreatedAt j \<and> Overlaps (j_LockSet j) (j_LockSet o'))"
proof -
  note inv = reachable_inv [OF assms(1)]
  let ?q = "leaf_List (e_order e (r_calls s)) (r_rows s) [Queued]" and ?busy = "map (\<lambda>(i, a). a_lock a) (r_running s)"
  note L = leaf_List_listed [OF inv, where states = "[Queued]" and n = "r_calls s"]
  have nf: "\<not> e_fault e (r_calls s)" using assms(2) pass_fault by force
  have "j \<in> set ?q" using L(2) [of j] assms(4,5) by simp
  then obtain pre post where q: "?q = pre @ j # post" by (meson split_list)
  have pre: "o' \<in> set (r_rows s) \<and> j_State o' = Queued \<and> j_ID o' \<noteq> j_ID j \<and> j_CreatedAt o' \<le> j_CreatedAt j" if "o' \<in> set pre" for o'
  proof -
    have "j_ID j \<notin> j_ID ` set pre" using L(1) [unfolded q] by (auto simp: listed_def)
    then have "j_ID o' \<noteq> j_ID j" using that by (metis imageI)
    then show ?thesis using that L(2) [of o', unfolded q]
      leaf_List_sorted [where rows = "r_rows s" and order = "e_order e (r_calls s)" and states = "[Queued]", unfolded q]
      by (simp add: sorted_append)
  qed
  have run: "\<exists>k b. map_of (r_running s) k = Some b \<and> Overlaps (j_LockSet j) (a_lock b)" if "b \<in> set ?busy" "Overlaps (j_LockSet j) b" for b
    using that inv by (auto simp: runner_inv_def core_def intro!: map_of_is_SomeI)
  have "map_of (r_running (fst (pass e (Inr n) s))) (j_ID j) \<noteq> None \<or> (\<exists>b \<in> set ?busy. Overlaps (j_LockSet j) b)
      \<or> (\<exists>o' \<in> set pre. Overlaps (j_LockSet j) (j_LockSet o'))" if "\<not> int (busyWorkers (fst (pass e (Inr n) s))) \<ge> n"
    using pass_loop_starts_all [OF pass_loop_ok [OF inv, of "r_calls s"] _ assms(3) _ q, of n] assms(2) that
    unfolding pass_Inr [OF nf] by simp
  then show ?thesis using run pre by blast
qed

theorem pass_starts_all_witness:
  "map_of (r_running (fst (pass ex_renv (Inr 3) ex_queued))) ''4'' \<noteq> None
    \<and> ''4'' \<in> set (map j_ID (r_rows ex_queued))"
proof -
  let ?j = "the (rows_Get (r_rows ex_queued) ''4'')"
  have ne: "snd (pass ex_renv (Inr 3) ex_queued) = None" "?j \<in> set (r_rows ex_queued)" "j_State ?j = Queued" "j_ID ?j = ''4''"
    "busyWorkers (fst (pass ex_renv (Inr 3) ex_queued)) = 2" "r_running ex_queued = []"
    "list_all (\<lambda>o'. j_ID o' = j_ID ?j \<or> \<not> Overlaps (j_LockSet ?j) (j_LockSet o')) (r_rows ex_queued)"
    "''4'' \<in> set (map j_ID (r_rows ex_queued))"
    by code_simp+
  then show ?thesis using pass_starts_all [OF ex_reachable(2) ne(1) _ ne(2,3)] by (auto simp: ex_renv_ok list_all_iff)
qed


text \<open>The first of the listed jobs starts when nothing stands in its way.\<close>

lemma pass_starts_oldest:
  assumes r: "reachable e s" and idle: "r_running s = []" and n: "n > 0" and j: "j \<in> set (r_rows s)" "j_State j = Queued"
    and env: "\<forall>m. \<not> e_hold e m" "\<forall>m. \<not> e_fault e m"
  shows "\<exists>k \<in> set (r_rows s). j_State k = Queued \<and> map_of (r_running (fst (pass e (Inr n) s))) (j_ID k) \<noteq> None
     \<and> (\<forall>o' \<in> set (r_rows s). j_State o' = Queued \<longrightarrow> j_CreatedAt k \<le> j_CreatedAt o')"
proof -
  note inv = reachable_inv [OF r] and L = leaf_List_listed [OF reachable_inv [OF r], where states = "[Queued]" and n = "r_calls s"]
  let ?q = "leaf_List (e_order e (r_calls s)) (r_rows s) [Queued]"
  note ok = pass_loop_ok [OF inv, of "r_calls s"] and p = pass_Inr [of e s, OF env(2) [rule_format]]
  have "?q \<noteq> []" using L(2) [of j] j by force
  then obtain k ks where q: "?q = k # ks" by (meson neq_Nil_conv)
  have k: "k \<in> set (r_rows s)" "j_State k = Queued" using L(2) [of k] unfolding q by simp_all
  have old: "j_CreatedAt k \<le> j_CreatedAt o'" if "o' \<in> set (r_rows s)" "j_State o' = Queued" for o'
    using L(2) [of o', unfolded q] that leaf_List_sorted [where rows = "r_rows s" and order = "e_order e (r_calls s)" and states = "[Queued]", unfolded q]
    by auto
  have b: "busyWorkers (tick s) = 0" using idle by (simp add: busyWorkers_def)
  obtain s' er where st: "start e (tick (tick s)) k = (s', er)" by (cases "start e (tick (tick s)) k")
  have none: "er = None" using st env(2) by (cases rule: start_cases [of e "tick (tick s)" k]) auto
  have "pass e (Inr n) s = pass_loop e n [j_LockSet k] ks s'"
    using p n st none b env(1) by (simp add: q idle)
  moreover have "loop_ok e [j_LockSet k] ks s'" "map_of (r_running s') (j_ID k) \<noteq> None"
    using loop_ok_start [OF loop_ok_tick [OF ok [unfolded q idle list.map]] _ st [unfolded none]] by simp_all
  ultimately have "map_of (r_running (fst (pass e (Inr n) s))) (j_ID k) \<noteq> None" using running_pass_loop by fastforce
  then show ?thesis using k old by blast
qed

text \<open>
  C15: The queue never stalls: with no job running, a worker, a store that answers and no hold, a pass
  over a queue with a job in it starts a job, and one no older queued job is ahead of.
\<close>

theorem pass_never_stalls:
  assumes r: "reachable e s" and idle: "r_running s = []" and n: "n > 0" and j: "j \<in> set (r_rows s)" "j_State j = Queued"
    and env: "\<forall>m. \<not> e_hold e m" "\<forall>m. \<not> e_fault e m"
  shows "\<exists>k \<in> set (r_rows s). j_State k = Queued \<and> map_of (r_running (fst (pass e (Inr n) s))) (j_ID k) \<noteq> None
     \<and> (\<forall>o' \<in> set (r_rows s). j_State o' = Queued \<longrightarrow> j_CreatedAt k \<le> j_CreatedAt o')"
  by (rule pass_starts_oldest [OF assms])

theorem pass_never_stalls_witness:
  "\<exists>k \<in> set (r_rows ex_queued). j_State k = Queued \<and> map_of (r_running (fst (pass ex_renv (Inr 1) ex_queued))) (j_ID k) \<noteq> None
     \<and> (\<forall>o' \<in> set (r_rows ex_queued). j_State o' = Queued \<longrightarrow> j_CreatedAt k \<le> j_CreatedAt o')"
proof -
  let ?j = "hd (r_rows ex_queued)"
  have "r_running ex_queued = []" "?j \<in> set (r_rows ex_queued)" "j_State ?j = Queued" "(0::int) < 1" by code_simp+
  then show ?thesis using pass_never_stalls [OF ex_reachable(2)] by (auto simp: ex_renv_ok)
qed

text \<open>
  A pass never has more jobs at work than the workers it was given, but those that were at work
  before it (a setting lowered since, or jobs that stopped waiting on others).
\<close>

theorem pass_fills_workers:
  assumes "reachable e s"
  shows "int (busyWorkers (fst (pass e (Inr n) s))) \<le> max n (int (busyWorkers s))"
proof (cases "e_fault e (r_calls s)")
  case True
  then show ?thesis by (simp add: pass_fault busyWorkers_def)
next
  case False
  have "busyWorkers (tick s) = busyWorkers s" by (simp add: busyWorkers_def)
  then show ?thesis using pass_loop_workers [OF pass_loop_ok [OF reachable_inv [OF assms], of "r_calls s"], of n]
    by (simp add: pass_Inr [OF False])
qed

theorem pass_fills_workers_witness:
  "int (busyWorkers (fst (pass ex_renv (Inr 1) ex_queued))) \<le> 1"
proof -
  have "busyWorkers ex_queued = 0" by code_simp
  then show ?thesis using pass_fills_workers [OF ex_reachable(2), of 1] by simp
qed

text \<open>
  C13: No operation of the runner drops a row or changes a job's kind, lock, age or log, and a row that
  reached a final state stays exactly as it is: a job that finished, failed, was skipped, cancelled or
  superseded is never brought back, whatever races with it.
\<close>

theorem finished_rows_stay:
  assumes "reachable e s" "rstep e s s'" "rows_Get (r_rows s) i = Some r"
  shows "\<exists>r'. rows_Get (r_rows s') i = Some r' \<and> same_job r r'"
  using kept_rstep [OF assms(2) reachable_inv [OF assms(1)]] assms(3) by (simp add: kept_def)

theorem finished_rows_stay_witness:
  "\<exists>r'. rows_Get (r_rows (fst (pass ex_renv (Inr 2) ex_queued))) ''4'' = Some r' \<and> same_job (the (rows_Get (r_rows ex_queued) ''4'')) r'"
proof -
  have "rows_Get (r_rows ex_queued) ''4'' \<noteq> None" by code_simp
  then show ?thesis using finished_rows_stay [OF ex_reachable(2) rstep.pass] by fastforce
qed

text \<open>
  C16: Once a job is swapping containers no newer job takes over and no stop button ends it: it is not
  superseded, and while it runs every operation leaves it swapping and its context as it was, but the
  shutdown of the runner.
\<close>

theorem swap_is_not_aborted:
  assumes "reachable e s" "map_of (r_running s) i = Some a" "a_swapping a"
  shows "a_cause a \<noteq> Some CauseSuperseded
    \<and> (\<forall>s' a'. rstep e s s' \<longrightarrow> map_of (r_running s') i = Some a'
        \<longrightarrow> a_swapping a' \<and> (a_cause a' = a_cause a \<or> a_cause a' = Some CauseShutdown))"
proof -
  note inv = reachable_inv [OF assms(1)]
  have "a_cause a \<noteq> Some CauseSuperseded" using inv_act [OF inv assms(2)] assms(3) by (auto simp: act_ok_def)
  then show ?thesis using swap_kept_rstep [OF _ inv] assms(2,3) unfolding swap_kept_def by blast
qed

definition ex_swapping :: runner where
  "ex_swapping = fst (Swap ''2'' ex_running)"

lemma ex_swapping_reachable: "reachable ex_renv ex_swapping"
proof -
  have "acts ex_running ''2''" by code_simp
  then show ?thesis unfolding ex_swapping_def by (intro reachable.step [OF ex_reachable(3)] rstep.swap)
qed

theorem swap_is_not_aborted_witness:
  "a_cause (the (map_of (r_running (fst (Cancel ex_renv ''2'' ex_swapping))) ''2'')) = None"
proof -
  have *: "map_of (r_running ex_swapping) ''2'' = Some (the (map_of (r_running ex_swapping) ''2''))"
    "a_swapping (the (map_of (r_running ex_swapping) ''2''))" "a_cause (the (map_of (r_running ex_swapping) ''2'')) = None"
    "map_of (r_running (fst (Cancel ex_renv ''2'' ex_swapping))) ''2'' = Some (the (map_of (r_running (fst (Cancel ex_renv ''2'' ex_swapping))) ''2''))"
    "a_cause (the (map_of (r_running (fst (Cancel ex_renv ''2'' ex_swapping))) ''2'')) \<noteq> Some CauseShutdown"
    by code_simp+
  show ?thesis using swap_is_not_aborted [OF ex_swapping_reachable *(1,2)] *(3-5) rstep.cancel by metis
qed


text \<open>
  The hook that lets go of what a job holds runs at most once for a job, and only after its row is
  final.
\<close>

theorem ended_once:
  assumes "reachable e s"
  shows "distinct (map j_ID (r_ended s)) \<and> (\<forall>j \<in> set (r_ended s). \<exists>r. rows_Get (r_rows s) (j_ID j) = Some r \<and> Terminal (j_State r))"
  using reachable_inv [OF assms] by (simp add: runner_inv_def core_def ended_ok_def)

definition ex_ended :: runner where
  "ex_ended = record_result ex_renv ''2'' (handler_returns ex_renv ''2'' False (Returned None) None ex_running)"

lemma ex_ended_reachable: "reachable ex_renv ex_ended"
  unfolding ex_ended_def by (rule reachable.step [OF reachable.step [OF ex_reachable(3) rstep.returns] rstep.recorded])

theorem ended_once_witness:
  "map j_ID (r_ended ex_ended) = [''2''] \<and> Terminal (j_State (the (rows_Get (r_rows ex_ended) ''2'')))"
proof -
  have "map j_ID (r_ended ex_ended) = [''2'']" by code_simp
  then show ?thesis using ended_once [OF ex_ended_reachable] by auto
qed

text \<open>
  C22: The rows the runner keeps are well formed in every state it reaches: ids are unique, a row's state
  is one of the eight, it has a finish time exactly when that state is final, a waiting row names what it
  waits on and a queued or running one does not, a running row has its start time, and its lock set is
  sorted without duplicates.
\<close>

theorem rows_well_formed:
  assumes "reachable e s"
  shows "distinct (map j_ID (r_rows s)) \<and> list_all row_ok (r_rows s)"
  using reachable_inv [OF assms] by (simp add: runner_inv_def core_def)

theorem rows_well_formed_witness:
  "list_all row_ok (r_rows ex_ended) \<and> map j_State (r_rows ex_ended) = [Done, Running]"
proof -
  have "map j_State (r_rows ex_ended) = [Done, Running]" by code_simp
  then show ?thesis using rows_well_formed [OF ex_ended_reachable] by simp
qed

text \<open>The live jobs a new one redoes: of its kind, with no lock beside the new one's, and sharing one with it (or the new one takes all).\<close>

definition redone :: "string \<Rightarrow> string list \<Rightarrow> job \<Rightarrow> bool" where
  "redone kind lock x \<longleftrightarrow> \<not> Terminal (j_State x) \<and> j_Kind x = kind \<and> set (j_LockSet x) \<subseteq> set lock \<and> (j_LockSet x \<noteq> [] \<or> All \<in> set lock)"

text \<open>
  C21: Enqueue replaces what the new job redoes and nothing else. After it succeeds, every live job of the same kind whose locks
  the new one covers (one with no locks only when the new one takes all) is superseded when it was queued or waiting, has its context cancelled and
  is marked superseded when it ran and had not begun to swap, and goes on when it was swapping. Every other job keeps its
  row and its place among the running ones as they were.
\<close>

theorem Enqueue_supersedes:
  assumes r: "reachable e s" and ok: "snd (Enqueue e kind lock payload rel actor s) = None" and x: "x \<in> set (r_rows s)"
  shows "if redone kind lock x then replaced s (fst (Enqueue e kind lock payload rel actor s)) x
     else rows_Get (r_rows (fst (Enqueue e kind lock payload rel actor s))) (j_ID x) = Some x
       \<and> map_of (r_running (fst (Enqueue e kind lock payload rel actor s))) (j_ID x) = map_of (r_running s) (j_ID x)"
proof -
  note inv = reachable_inv [OF r]
  let ?older = "leaf_List (e_order e (r_calls s)) (r_rows s) [Queued, Waiting, Running]"
  note L = leaf_List_listed [OF inv, where states = "[Queued, Waiting, Running]" and n = "r_calls s"]
  obtain s2 j er where w: "db_Create e (tick s) kind lock payload rel actor = (s2, j, er)"
    using prod_cases3 by blast
  have nf: "\<not> e_fault e (r_calls s)" and er: "er = None" and so: "snd (supersede_older e j ?older s2) = None"
    using ok w by (auto simp: Enqueue_def db_List_def split: if_splits option.splits prod.splits)
  have eq: "fst (Enqueue e kind lock payload rel actor s) = poke (fst (supersede_older e j ?older s2))"
    using nf er so w by (cases "supersede_older e j ?older s2") (simp add: Enqueue_def db_List_def)
  have j: "j_Kind j = kind" "set (j_LockSet j) = set lock"
    using w by (auto simp: db_Create_def Let_def new_job_def split: prod.splits)
  note keep = inv_db_Create(5) [OF inv_tick [OF inv] w]
  have l: "listed (r_rows s2) ?older" using L(1) keep by (auto simp: listed_def)
  have hit: "redone kind lock o' \<longleftrightarrow> Overlaps (j_LockSet j) (j_LockSet o') \<and> Supersedes j o'" if "\<not> Terminal (j_State o')" for o'
  proof -
    have "set (j_LockSet o') \<subseteq> set lock \<Longrightarrow> (j_LockSet o' \<noteq> [] \<or> All \<in> set lock) \<longleftrightarrow> Overlaps (j_LockSet j) (j_LockSet o')"
      using j(2) by (cases "j_LockSet o'") (auto simp: Overlaps_iff)
    then show ?thesis using that j by (auto simp: redone_def Supersedes_def list_all_iff)
  qed
  have run: "map_of (r_running s2) i = map_of (r_running s) i" for i using running_db_Create_eq [OF w] by simp
  show ?thesis
  proof (cases "redone kind lock x")
    case True
    then have t: "\<not> Terminal (j_State x)" by (simp add: redone_def)
    have "replaced s2 (fst (supersede_older e j ?older s2)) x"
    proof (rule supersede_older_replaces [OF l _ so])
      show "\<forall>o' \<in> set ?older. \<not> Terminal (j_State o')" by (auto simp: L(2))
      show "x \<in> set ?older" using x t by (auto simp: L(2) Terminal_def Live_def)
    qed (use True hit [OF t] in blast)+
    moreover have "replaced s (poke t) x = replaced s2 t x" for t using run by (simp add: replaced_def poke_def split: option.splits)
    ultimately show ?thesis using True unfolding eq by simp
  next
    case False
    have g: "rows_Get (r_rows s) (j_ID x) = Some x" using inv x by (simp add: runner_inv_def core_def rows_Get_iff)
    have "j_ID o' \<noteq> j_ID x" if "o' \<in> set ?older" "Overlaps (j_LockSet j) (j_LockSet o')" "Supersedes j o'" for o'
    proof
      assume "j_ID o' = j_ID x"
      then have "o' = x" using L(1) that(1) g by (force simp: listed_def)
      then show False using False hit [of x] that L(2) [of x] by auto
    qed
    then show ?thesis using False supersede_older_others [of ?older j "j_ID x" e s2] run keep [of "j_ID x" x] g unfolding eq by (auto simp: poke_def)
  qed
qed

theorem Enqueue_supersedes_witness:
  "j_State (the (rows_Get (r_rows (fst (Enqueue ex_renv ''deploy'' [''b'', ''c''] ''{}'' None ([], []) ex_queued))) ''4'')) = Superseded
   \<and> rows_Get (r_rows (fst (Enqueue ex_renv ''deploy'' [''b'', ''c''] ''{}'' None ([], []) ex_queued))) ''2'' = rows_Get (r_rows ex_queued) ''2''"
proof -
  let ?s' = "fst (Enqueue ex_renv ''deploy'' [''b'', ''c''] ''{}'' None ([], []) ex_queued)"
  let ?x = "the (rows_Get (r_rows ex_queued) ''4'')" and ?y = "the (rows_Get (r_rows ex_queued) ''2'')"
  have ok: "snd (Enqueue ex_renv ''deploy'' [''b'', ''c''] ''{}'' None ([], []) ex_queued) = None" by code_simp
  have x: "?x \<in> set (r_rows ex_queued)" "redone ''deploy'' [''b'', ''c''] ?x" "r_running ex_queued = []" "j_ID ?x = ''4''" "j_State ?x \<noteq> Running"
    by code_simp+
  have y: "?y \<in> set (r_rows ex_queued)" "\<not> redone ''deploy'' [''b'', ''c''] ?y" "j_ID ?y = ''2''" "rows_Get (r_rows ex_queued) ''2'' = Some ?y"
    by code_simp+
  show ?thesis
    using Enqueue_supersedes [OF ex_reachable(2) ok x(1)] Enqueue_supersedes [OF ex_reachable(2) ok y(1)] x(2-) y(2-) by (auto simp: replaced_def)
qed

text \<open>
  A stop that comes before the swap does not keep the job from swapping: Cancel of a running job that is
  still building answers that it stopped it, and the job's Swap after it is still granted, since Swap
  refuses a superseded job only.
\<close>

theorem cancelled_job_may_swap:
  "\<exists>e s s' s'' a. reachable e s \<and> Cancel e ''2'' s = (s', None) \<and> Swap ''2'' s' = (s'', None)
     \<and> map_of (r_running s'') ''2'' = Some a \<and> a_swapping a \<and> a_cause a = Some CauseCancelled"
proof -
  let ?s' = "fst (Cancel ex_renv ''2'' ex_running)"
  let ?s'' = "fst (Swap ''2'' ?s')" and ?a = "the (map_of (r_running (fst (Swap ''2'' (fst (Cancel ex_renv ''2'' ex_running))))) ''2'')"
  have *: "snd (Cancel ex_renv ''2'' ex_running) = None" "snd (Swap ''2'' ?s') = None" "map_of (r_running ?s'') ''2'' = Some ?a"
    "a_swapping ?a" "a_cause ?a = Some CauseCancelled" by code_simp+
  show ?thesis
    by (rule exI [of _ ex_renv], rule exI [of _ ex_running], rule exI [of _ ?s'], rule exI [of _ ?s''], rule exI [of _ ?a])
      (use * ex_reachable(3) in \<open>simp add: prod_eq_iff\<close>)
qed

end
