(* ===== verification/Params_Ref.thy ===== *)
theory Params_Ref
  imports Slug Errs
begin

text \<open>
  \<^verbatim>\<open>internal/service/internal/leaf/params/ref.go\<close>: references in tile values.  The scanner of \<^verbatim>\<open>${{ ... }}\<close>, the grammar of a
  reference, where each kind may stand, and the resolver that substitutes them from a snapshot
  the caller gathered.  A Go map is a map here (a nil map is empty); the resolver's three sets are
  its state.
\<close>

section \<open>Model: the scanner\<close>

text \<open>
  \<^verbatim>\<open>refRe\<close>: three characters open a reference, its body is everything up to the first closing brace,
  and two braces close it.  The expression matches the leftmost such text and goes on after it.
\<close>

definition match_ref :: "string \<Rightarrow> (string \<times> string) option" where
  "match_ref s =
     (if has_prefix ''${{'' s then
        let t = drop 3 s; body = takeWhile (\<lambda>c. c \<noteq> CHR ''}'') t; rest = dropWhile (\<lambda>c. c \<noteq> CHR ''}'') t
        in if has_prefix ''}}'' rest then Some (body, drop 2 rest) else None
      else None)"

datatype piece = Lit char | Body string

lemma match_ref_text: "match_ref s = Some (body, rest) \<Longrightarrow> s = ''${{'' @ body @ ''}}'' @ rest"
proof -
  assume m: "match_ref s = Some (body, rest)"
  let ?t = "drop 3 s"
  have p: "take 3 s = ''${{''" and b: "body = takeWhile (\<lambda>c. c \<noteq> CHR ''}'') ?t" and q: "take 2 (dropWhile (\<lambda>c. c \<noteq> CHR ''}'') ?t) = ''}}''"
    and r: "rest = drop 2 (dropWhile (\<lambda>c. c \<noteq> CHR ''}'') ?t)"
    using m by (auto simp: match_ref_def has_prefix_def Let_def eval_nat_numeral split: if_splits)
  have "s = take 3 s @ takeWhile (\<lambda>c. c \<noteq> CHR ''}'') ?t @ take 2 (dropWhile (\<lambda>c. c \<noteq> CHR ''}'') ?t) @ drop 2 (dropWhile (\<lambda>c. c \<noteq> CHR ''}'') ?t)"
    by simp
  then show ?thesis unfolding p q b r .
qed

function pieces :: "string \<Rightarrow> piece list" where
  "pieces [] = []"
| "pieces (c # s) = (case match_ref (c # s) of
     Some (body, rest) \<Rightarrow> Body body # pieces rest
   | None \<Rightarrow> Lit c # pieces s)"
  by pat_completeness auto
termination
  by (relation "measure length") (auto dest: match_ref_text)

definition bodies :: "piece list \<Rightarrow> string list" where
  "bodies ps = List.map_filter (\<lambda>p. case p of Lit _ \<Rightarrow> None | Body b \<Rightarrow> Some b) ps"

definition HasRef :: "string \<Rightarrow> bool" where
  "HasRef s \<longleftrightarrow> bodies (pieces s) \<noteq> []"

definition Refs :: "string \<Rightarrow> string list" where
  "Refs s = map trim_space (bodies (pieces s))"

section \<open>Model: the grammar\<close>

datatype kind = KindParam | KindOrgParam | KindSelf | KindTile | KindStackr | KindBackup | KindEnv | KindServerParam

primrec kind_str :: "kind \<Rightarrow> string" where
  "kind_str KindParam = ''param''"
| "kind_str KindOrgParam = ''org_param''"
| "kind_str KindSelf = ''self''"
| "kind_str KindTile = ''tile''"
| "kind_str KindStackr = ''stackr''"
| "kind_str KindBackup = ''backup''"
| "kind_str KindEnv = ''env''"
| "kind_str KindServerParam = ''server_param''"

record ref =
  rf_Kind :: kind
  rf_Slug :: string
  rf_Env :: string
  rf_Name :: string
  rf_Source :: string

definition ProxyIP :: string where "ProxyIP = ''PROXY_IP''"
definition ProxyCIDR :: string where "ProxyCIDR = ''PROXY_CIDR''"

definition platformNames :: "string list" where
  "platformNames = [ProxyIP, ProxyCIDR]"

text \<open>The typed error \<^verbatim>\<open>Removed\<close> is only ever printed; it is its message here.\<close>

definition Removed :: "string \<Rightarrow> string \<Rightarrow> err" where
  "Removed src form = Errorf ''%s: %s refs are gone; declare a slice tile, see DECIDE 194'' [src, form]"

text \<open>Position of the collection, the only part that takes a qualifier.\<close>

definition collection_at :: "string list \<Rightarrow> nat option" where
  "collection_at p =
     (if length p = 3 \<and> p ! 0 = ''params'' then Some 1
      else if length p = 4 \<and> p ! 0 = ''org'' \<and> p ! 1 = ''params'' then Some 2 else None)"

definition qualifier :: "string \<Rightarrow> string \<Rightarrow> string list \<Rightarrow> err + (string list \<times> string)" where
  "qualifier src b p = (case collection_at p of
     Some ci \<Rightarrow> (case cut_at CHR ''['' (p ! ci) of
         None \<Rightarrow> Inr (p, [])
       | Some (pre, post) \<Rightarrow>
         let e = trim_suffix '']'' post in
         if e = post \<or> \<not> Valid e then Inl (Errorf ''%s: want %s[<env>], where <env> is a slug or pr'' [src, pre])
         else Inr (p[ci := pre], e))
   | None \<Rightarrow> if CHR ''['' \<in> set b \<or> CHR '']'' \<in> set b
       then Inl (Errorf ''%s: an [env] qualifier is only valid on params.<collection>[<env>].<name> and org.params.<collection>[<tier>].<name>'' [src])
       else Inr (p, []))"

text \<open>The last checks, on the collection and on the name.\<close>

definition check_names :: "ref \<Rightarrow> err + ref" where
  "check_names r =
     (if (rf_Kind r = KindParam \<or> rf_Kind r = KindOrgParam \<or> rf_Kind r = KindServerParam) \<and> \<not> ValidName (rf_Slug r)
      then Inl (Errorf ''%s: %q is not a valid collection name'' [rf_Source r, rf_Slug r])
      else if \<not> (if rf_Kind r = KindTile \<or> rf_Kind r = KindSelf then ValidEnvKey else ValidName) (rf_Name r)
      then Inl (Errorf ''%s: %q is not a valid name'' [rf_Source r, rf_Name r])
      else Inr r)"

definition mk_ref :: "kind \<Rightarrow> string \<Rightarrow> string \<Rightarrow> string \<Rightarrow> string \<Rightarrow> ref" where
  "mk_ref k slug env name src = \<lparr>rf_Kind = k, rf_Slug = slug, rf_Env = env, rf_Name = name, rf_Source = src\<rparr>"

definition parse_parts :: "string \<Rightarrow> string list \<Rightarrow> string \<Rightarrow> err + ref" where
  "parse_parts src p env =
     (if length p = 3 \<and> p ! 0 = ''params'' then check_names (mk_ref KindParam (p ! 1) env (p ! 2) src)
      else if length p = 4 \<and> p ! 0 = ''org'' \<and> p ! 1 = ''params'' then check_names (mk_ref KindOrgParam (p ! 2) env (p ! 3) src)
      else if length p = 4 \<and> p ! 0 = ''server'' \<and> p ! 1 = ''params'' then check_names (mk_ref KindServerParam (p ! 2) env (p ! 3) src)
      else if p ! 0 = ''server'' then Inl (Errorf ''%s: want server.params.<collection>.<name>'' [src])
      else if length p = 3 \<and> p ! 0 = ''org'' \<and> p ! 1 = ''backups'' then
        (if \<not> Valid (p ! 2) then Inl (Errorf ''%s: %q is not a valid name'' [src, p ! 2])
         else Inr (mk_ref KindBackup [] env (p ! 2) src))
      else if length p = 2 \<and> p ! 0 = ''env'' then
        (if p ! 1 \<noteq> ''name'' then Inl (Errorf ''%s: the only env ref is ${{ env.name }}'' [src])
         else Inr (mk_ref KindEnv [] env (p ! 1) src))
      else if length p = 2 \<and> p ! 0 = ''self'' then check_names (mk_ref KindSelf [] env (p ! 1) src)
      else if length p = 2 \<and> p ! 0 = ''stackr'' then
        (if p ! 1 \<notin> set platformNames
         then Inl (Errorf ''%s: %q is not a stackr value (want %s or %s)'' [src, p ! 1, ProxyCIDR, ProxyIP])
         else Inr (mk_ref KindStackr [] env (p ! 1) src))
      else if length p = 3 \<and> (p ! 0 = ''tile'' \<or> p ! 0 = ''stack'' \<or> p ! 0 = ''org'') then
        (if p ! 1 = ''params'' then Inl (Errorf ''%s: params is reserved; write ${{ %s.params.<collection>.<name> }}'' [src, p ! 0])
         else if p ! 0 \<noteq> ''tile'' then Inl (Removed src (p ! 0 @ ''.'' @ p ! 1))
         else if \<not> Valid (p ! 1) then Inl (Errorf ''%s: %q is not a valid tile name'' [src, p ! 1])
         else check_names (mk_ref KindTile (p ! 1) env (p ! 2) src))
      else Inl (Errorf ''%s: want params.<collection>.<name>, org.params.<collection>.<name>, self.<output>, tile.<slug>.<output>, stackr.<NAME>, org.backups.<name> or env.name'' [src]))"

definition Parse :: "string \<Rightarrow> err + ref" where
  "Parse body =
     (let b = trim_space body; p = split_on CHR ''.'' b; src = ''${{ '' @ b @ '' }}'' in
      case qualifier src b p of Inl e \<Rightarrow> Inl e | Inr (p', env) \<Rightarrow> parse_parts src p' env)"

section \<open>Model: where a reference stands\<close>

datatype ref_where = InEnv | InCommand | InDomain | InBackupDest | InProvisionFrom | InServerFile

primrec where_str :: "ref_where \<Rightarrow> string" where
  "where_str InEnv = ''env''"
| "where_str InCommand = ''command''"
| "where_str InDomain = ''domain''"
| "where_str InBackupDest = ''backup_dest''"
| "where_str InProvisionFrom = ''provision_from''"
| "where_str InServerFile = ''server_file''"

fun allowed :: "ref_where \<Rightarrow> kind \<Rightarrow> bool" where
  "allowed InProvisionFrom k \<longleftrightarrow> k = KindParam \<or> k = KindEnv"
| "allowed InDomain k \<longleftrightarrow> k = KindParam \<or> k = KindOrgParam"
| "allowed InBackupDest k \<longleftrightarrow> k = KindBackup"
| "allowed InServerFile k \<longleftrightarrow> k = KindServerParam"
| "allowed _ k \<longleftrightarrow> k \<noteq> KindBackup \<and> k \<noteq> KindEnv \<and> k \<noteq> KindServerParam"

section \<open>Model: the resolver\<close>

record pvalue =
  pv_V :: string
  pv_Secret :: bool

record block =
  bl_Locked :: bool
  bl_Values :: "string \<rightharpoonup> pvalue"

record source =
  so_Outputs :: "string \<rightharpoonup> string"
  so_Slice :: bool
  so_Managed :: bool
  so_Attached :: bool
  so_Network :: string
  so_Host :: string

record snapshot =
  sn_Env :: string
  sn_EnvParams :: "string \<rightharpoonup> pvalue"
  sn_OrgParams :: "string \<rightharpoonup> pvalue"
  sn_Tier :: string
  sn_Other :: "string \<rightharpoonup> block"
  sn_ServerParams :: "string \<rightharpoonup> pvalue"
  sn_Stackr :: "string \<rightharpoonup> string"
  sn_Backups :: "string \<rightharpoonup> string"
  sn_Self :: source
  sn_Tiles :: "string \<rightharpoonup> source"

record resolver =
  rs_snap :: snapshot
  rs_deps :: "string list"
  rs_nets :: "string list"
  rs_hosts :: "string list"

definition NewResolver :: "snapshot \<Rightarrow> resolver" where
  "NewResolver s = \<lparr>rs_snap = s, rs_deps = [], rs_nets = [], rs_hosts = []\<rparr>"

definition Deps :: "resolver \<Rightarrow> string list" where
  "Deps rr = sort (remdups (rs_deps rr))"

definition Networks :: "resolver \<Rightarrow> string list" where
  "Networks rr = sort (remdups (rs_nets rr))"

definition Hosts :: "resolver \<Rightarrow> string list" where
  "Hosts rr = sort (remdups (rs_hosts rr))"

text \<open>The closure \<^verbatim>\<open>param\<close> of \<^verbatim>\<open>lookup\<close>: a value, unset, or a secret where none may go.\<close>

definition param :: "ref_where \<Rightarrow> ref \<Rightarrow> pvalue option \<Rightarrow> string \<Rightarrow> err + string" where
  "param w r v unset =
     (let key = rf_Slug r @ ''.'' @ rf_Name r in
      case v of None \<Rightarrow> Inl (Unset unset)
      | Some v \<Rightarrow>
        if pv_Secret v \<and> w = InDomain then Inl (Errorf ''%s: %s is a secret, and a domain is public'' [rf_Source r, key])
        else if pv_Secret v \<and> w = InProvisionFrom
        then Inl (Errorf ''%s: %s is a secret, and a provision_from target reaches plans and logs'' [rf_Source r, key])
        else Inr (pv_V v))"

definition read_qualified :: "snapshot \<Rightarrow> ref_where \<Rightarrow> ref \<Rightarrow> err + string" where
  "read_qualified sn w r =
     (let key = rf_Slug r @ ''.'' @ rf_Name r;
          unset0 = rf_Slug r @ ''['' @ rf_Env r @ ''].'' @ rf_Name r;
          (vals, unset, own, what, pre) =
            (if rf_Kind r = KindOrgParam
             then (sn_OrgParams sn, ''org.'' @ unset0, sn_Tier sn \<noteq> [] \<and> rf_Env r = sn_Tier sn, ''tier'', ''org:'')
             else (sn_EnvParams sn, unset0, rf_Env r = sn_Env sn, ''env'', ''stack:''))
      in if own then param w r (vals key) unset
         else (case sn_Other sn (pre @ rf_Env r) of
             None \<Rightarrow> Inl (Errorf ''%s: no %s %s'' [rf_Source r, what, rf_Env r])
           | Some b \<Rightarrow>
             if bl_Locked b then Inl (Errorf ''%s: %s is locked; unlock it to read it from here'' [rf_Source r, rf_Env r])
             else param w r (bl_Values b key) unset))"

definition resolve_tile :: "resolver \<Rightarrow> ref \<Rightarrow> resolver \<times> (err + string)" where
  "resolve_tile rr r = (case sn_Tiles (rs_snap rr) (rf_Slug r) of
     None \<Rightarrow> (rr, Inl (Errorf ''%s: no tile or slice in this environment named %q'' [rf_Source r, rf_Slug r]))
   | Some src \<Rightarrow>
     if so_Managed src then (rr, Inl (Errorf ''%s: %s is a managed tile; refs read a slice cut from it (a slice tile with provision_from <stack>:<env>:%s)'' [rf_Source r, rf_Slug r, rf_Slug r]))
     else if so_Slice src \<and> \<not> so_Attached src then (rr, Inl (Errorf ''%s: slice %s is not bound to this tile'' [rf_Source r, rf_Slug r]))
     else (case so_Outputs src (rf_Name r) of
         None \<Rightarrow> (rr, Inl (Errorf ''%s: %s publishes no output named %q'' [rf_Source r, rf_Slug r, rf_Name r]))
       | Some v \<Rightarrow>
         let rr1 = rr\<lparr>rs_deps := rf_Slug r # rs_deps rr\<rparr>;
             rr2 = (if so_Host src \<noteq> [] then rr1\<lparr>rs_hosts := so_Host src # rs_hosts rr1\<rparr>
                    else if so_Network src \<noteq> [] then rr1\<lparr>rs_nets := so_Network src # rs_nets rr1\<rparr> else rr1)
         in (rr2, Inr v)))"

definition lookup :: "resolver \<Rightarrow> ref_where \<Rightarrow> ref \<Rightarrow> resolver \<times> (err + string)" where
  "lookup rr w r =
     (let sn = rs_snap rr; key = rf_Slug r @ ''.'' @ rf_Name r in
      if rf_Env r \<noteq> [] then (rr, read_qualified sn w r)
      else (case rf_Kind r of
          KindParam \<Rightarrow> (rr, param w r (sn_EnvParams sn key) key)
        | KindOrgParam \<Rightarrow> (rr, param w r (sn_OrgParams sn key) (''org.'' @ key))
        | KindServerParam \<Rightarrow> (rr, param w r (sn_ServerParams sn key) (''server.params.'' @ key))
        | KindStackr \<Rightarrow> (rr, case sn_Stackr sn (rf_Name r) of
              Some v \<Rightarrow> if v \<noteq> [] then Inr v else Inl (Errorf ''%s: only a tile with a domain has one; the proxy reaches the tile over that domain's network'' [rf_Source r])
            | None \<Rightarrow> Inl (Errorf ''%s: only a tile with a domain has one; the proxy reaches the tile over that domain's network'' [rf_Source r]))
        | KindEnv \<Rightarrow> (rr, if sn_Env sn = [] then Inl (Errorf ''%s: no environment here'' [rf_Source r]) else Inr (sn_Env sn))
        | KindBackup \<Rightarrow> (rr, case sn_Backups sn (rf_Name r) of Some v \<Rightarrow> Inr v
            | None \<Rightarrow> Inl (Errorf ''%s: this org has no backup destination named %q'' [rf_Source r, rf_Name r]))
        | KindSelf \<Rightarrow> (rr, case so_Outputs (sn_Self sn) (rf_Name r) of Some v \<Rightarrow> Inr v
            | None \<Rightarrow> Inl (Errorf ''%s: this tile publishes no output named %q'' [rf_Source r, rf_Name r]))
        | KindTile \<Rightarrow> resolve_tile rr r))"

definition serverRefErr :: "ref \<Rightarrow> ref_where \<Rightarrow> err" where
  "serverRefErr r w = Errorf ''%s: server params are readable only in the server file (stackr-server.yml), never in %s'' [rf_Source r, where_str w]"

definition one :: "resolver \<Rightarrow> ref_where \<Rightarrow> string \<Rightarrow> resolver \<times> (err + string)" where
  "one rr w body = (case Parse body of
     Inl e \<Rightarrow> (rr, Inl e)
   | Inr r \<Rightarrow>
     if rf_Kind r = KindServerParam \<and> w \<noteq> InServerFile then (rr, Inl (serverRefErr r w))
     else if \<not> allowed w (rf_Kind r) then (rr, Inl (Errorf ''%s: a %s ref is not allowed in %s'' [rf_Source r, kind_str (rf_Kind r), where_str w]))
     else lookup rr w r)"

text \<open>\<^verbatim>\<open>ReplaceAllStringFunc\<close> with the closure of \<^verbatim>\<open>Expand\<close>: every reference is looked up, the first error kept.\<close>

fun replace_all :: "ref_where \<Rightarrow> piece list \<Rightarrow> resolver \<Rightarrow> error \<Rightarrow> resolver \<times> error \<times> string" where
  "replace_all w [] rr firstErr = (rr, firstErr, [])"
| "replace_all w (Lit c # ps) rr firstErr = (case replace_all w ps rr firstErr of (rr', er, out') \<Rightarrow> (rr', er, c # out'))"
| "replace_all w (Body b # ps) rr firstErr =
     (let (rr1, res) = one rr w b;
          (v, firstErr') = (case res of Inr v \<Rightarrow> (v, firstErr) | Inl e \<Rightarrow> ([], if firstErr = None then Some e else firstErr))
      in case replace_all w ps rr1 firstErr' of (rr', er, out') \<Rightarrow> (rr', er, v @ out'))"

definition Expand :: "resolver \<Rightarrow> ref_where \<Rightarrow> string \<Rightarrow> resolver \<times> (err + string)" where
  "Expand rr w val =
     (if \<not> HasRef val then (rr, Inr val)
      else (case replace_all w (pieces val) rr None of
          (rr', Some e, _) \<Rightarrow> (rr', Inl e)
        | (rr', None, out') \<Rightarrow> (rr', Inr out')))"

text \<open>The first server reference of the bodies, as its error.\<close>

fun refuse_bodies :: "ref_where \<Rightarrow> string list \<Rightarrow> error" where
  "refuse_bodies w [] = None"
| "refuse_bodies w (b # bs) = (case Parse b of
     Inr r \<Rightarrow> if rf_Kind r = KindServerParam then Some (serverRefErr r w) else refuse_bodies w bs
   | Inl _ \<Rightarrow> refuse_bodies w bs)"

definition RefuseServerRefs :: "ref_where \<Rightarrow> string list \<Rightarrow> error" where
  "RefuseServerRefs w vals = refuse_bodies w (concat (map Refs vals))"

fun server_refs :: "string list \<Rightarrow> err + string list" where
  "server_refs [] = Inr []"
| "server_refs (b # bs) = (case Parse b of
     Inl e \<Rightarrow> Inl e
   | Inr r \<Rightarrow> if rf_Kind r \<noteq> KindServerParam
       then Inl (Errorf ''%s: the server file reads only ${{ server.params.<collection>.<name> }}'' [rf_Source r])
       else (case server_refs bs of Inl e \<Rightarrow> Inl e | Inr out' \<Rightarrow> Inr ((rf_Slug r @ ''.'' @ rf_Name r) # out')))"

definition ServerRefs :: "string \<Rightarrow> err + string list" where
  "ServerRefs s = server_refs (Refs s)"

section \<open>Model: a service tile's outputs\<close>

record ep_domain =
  ed_Host :: string
  ed_HTTPS :: bool
  ed_Redirect :: bool

record endpoint =
  ep_Alias :: string
  ep_Port :: int
  ep_Protocol :: string
  ep_Domains :: "ep_domain list"

definition Outputs :: "endpoint \<Rightarrow> (string \<rightharpoonup> string)" where
  "Outputs e =
     (if ep_Port e = 0 then Map.empty
      else let port = itoa (ep_Port e);
               proto = (if ep_Protocol e = [] then ''http'' else ep_Protocol e);
               out0 = Map.empty(''host'' \<mapsto> ep_Alias e, ''port'' \<mapsto> port);
               out1 = (if proto = ''http'' \<or> proto = ''https'' then out0(''url'' \<mapsto> proto @ ''://'' @ ep_Alias e @ '':'' @ port) else out0)
           in (case find (\<lambda>d. \<not> ed_Redirect d) (ep_Domains e) of
               None \<Rightarrow> out1
             | Some d \<Rightarrow> out1(''public_url'' \<mapsto> (if ed_HTTPS d then ''https'' else ''http'') @ ''://'' @ ed_Host d, ''public_domain'' \<mapsto> ed_Host d)))"


section \<open>Specification: the language of references\<close>

definition ref_parts :: "ref \<Rightarrow> string list" where
  "ref_parts r = (let q = (if rf_Env r = [] then [] else ''['' @ rf_Env r @ '']'') in
     case rf_Kind r of
       KindParam \<Rightarrow> [''params'', rf_Slug r @ q, rf_Name r]
     | KindOrgParam \<Rightarrow> [''org'', ''params'', rf_Slug r @ q, rf_Name r]
     | KindServerParam \<Rightarrow> [''server'', ''params'', rf_Slug r, rf_Name r]
     | KindBackup \<Rightarrow> [''org'', ''backups'', rf_Name r]
     | KindEnv \<Rightarrow> [''env'', rf_Name r]
     | KindSelf \<Rightarrow> [''self'', rf_Name r]
     | KindStackr \<Rightarrow> [''stackr'', rf_Name r]
     | KindTile \<Rightarrow> [''tile'', rf_Slug r, rf_Name r])"

definition ref_text :: "ref \<Rightarrow> string" where
  "ref_text r = join_with ''.'' (ref_parts r)"

definition valid_ref :: "ref \<Rightarrow> bool" where
  "valid_ref r = (case rf_Kind r of
       KindParam \<Rightarrow> ValidName (rf_Slug r) \<and> (rf_Env r = [] \<or> Valid (rf_Env r)) \<and> ValidName (rf_Name r)
     | KindOrgParam \<Rightarrow> ValidName (rf_Slug r) \<and> (rf_Env r = [] \<or> Valid (rf_Env r)) \<and> ValidName (rf_Name r)
     | KindServerParam \<Rightarrow> ValidName (rf_Slug r) \<and> rf_Env r = [] \<and> ValidName (rf_Name r)
     | KindBackup \<Rightarrow> rf_Slug r = [] \<and> rf_Env r = [] \<and> Valid (rf_Name r)
     | KindEnv \<Rightarrow> rf_Slug r = [] \<and> rf_Env r = [] \<and> rf_Name r = ''name''
     | KindSelf \<Rightarrow> rf_Slug r = [] \<and> rf_Env r = [] \<and> ValidEnvKey (rf_Name r)
     | KindStackr \<Rightarrow> rf_Slug r = [] \<and> rf_Env r = [] \<and> rf_Name r \<in> set platformNames
     | KindTile \<Rightarrow> Valid (rf_Slug r) \<and> rf_Slug r \<noteq> ''params'' \<and> rf_Env r = [] \<and> ValidEnvKey (rf_Name r))"

section \<open>Lemmas: the grammar\<close>

lemma ValidName_not_in: "ValidName s \<Longrightarrow> CHR ''.'' \<notin> set s \<and> CHR ''['' \<notin> set s \<and> CHR '']'' \<notin> set s"
  unfolding ValidName_def by (rule ValidEnvKey_not_in)

lemma Valid_no_bracket: "Valid s \<Longrightarrow> CHR ''['' \<notin> set s \<and> CHR '']'' \<notin> set s \<and> CHR ''.'' \<notin> set s"
  using Valid_chars by (fastforce simp: char_classes)

lemma platform_no_sep: "s \<in> set platformNames \<Longrightarrow> CHR ''.'' \<notin> set s \<and> CHR ''['' \<notin> set s \<and> CHR '']'' \<notin> set s"
  by (auto simp: platformNames_def ProxyIP_def ProxyCIDR_def)

lemma ref_parts_no_dot: "valid_ref r \<Longrightarrow> ref_parts r \<noteq> [] \<and> (\<forall>w \<in> set (ref_parts r). CHR ''.'' \<notin> set w)"
  by (cases "rf_Kind r") (auto simp: valid_ref_def ref_parts_def Let_def dest: ValidName_not_in Valid_no_bracket ValidEnvKey_not_in platform_no_sep)

lemma ref_text_split: "valid_ref r \<Longrightarrow> split_on CHR ''.'' (ref_text r) = ref_parts r"
  using ref_parts_no_dot [of r] split_join_with [of "ref_parts r" "CHR ''.''"] by (simp add: ref_text_def)

lemma cut_at_append: "c \<notin> set a \<Longrightarrow> cut_at c (a @ c # b) = Some (a, b)"
  by (induction a) (auto simp: cut_at_def)

lemma cut_at_None: "cut_at c s = None \<longleftrightarrow> c \<notin> set s"
  by (simp add: cut_at_def)

lemma cut_at_SomeD: "cut_at c s = Some (a, b) \<Longrightarrow> s = a @ c # b \<and> c \<notin> set a"
proof -
  assume *: "cut_at c s = Some (a, b)"
  then have "c \<in> set s" by (simp add: cut_at_def split: if_splits)
  then obtain ys zs where s: "s = ys @ c # zs" "c \<notin> set ys" by (meson split_list_first)
  then show ?thesis using * cut_at_append [OF s(2)] by simp
qed

lemma trim_suffix_one: "trim_suffix [c] (s @ [c]) = s"
  by (simp add: trim_suffix_def has_suffix_def has_prefix_def)

lemma trim_suffix_oneD: "trim_suffix [c] s \<noteq> s \<Longrightarrow> s = trim_suffix [c] s @ [c]"
  by (cases s rule: rev_cases) (auto simp: trim_suffix_def has_suffix_def has_prefix_def split: if_splits)

lemma qualifier_plain: "valid_ref r \<Longrightarrow> rf_Kind r \<noteq> KindParam \<Longrightarrow> rf_Kind r \<noteq> KindOrgParam
    \<Longrightarrow> qualifier src (ref_text r) (ref_parts r) = Inr (ref_parts r, [])"
  by (cases "rf_Kind r")
    (auto simp: qualifier_def collection_at_def ref_parts_def ref_text_def valid_ref_def Let_def
      dest: ValidName_not_in Valid_no_bracket ValidEnvKey_not_in platform_no_sep)

lemma qualifier_param:
  assumes "valid_ref r" "rf_Kind r = KindParam \<or> rf_Kind r = KindOrgParam"
  shows "qualifier src b (ref_parts r) = Inr (ref_parts (r\<lparr>rf_Env := []\<rparr>), rf_Env r)"
proof -
  have n: "CHR ''['' \<notin> set (rf_Slug r)" using assms by (auto simp: valid_ref_def dest: ValidName_not_in)
  have e: "rf_Env r \<noteq> [] \<Longrightarrow> Valid (rf_Env r)" using assms by (auto simp: valid_ref_def)
  have c: "cut_at CHR ''['' (rf_Slug r @ CHR ''['' # rf_Env r @ '']'') = Some (rf_Slug r, rf_Env r @ '']'')" by (rule cut_at_append [OF n])
  have "cut_at CHR ''['' (rf_Slug r) = None" using n by (simp add: cut_at_None)
  then show ?thesis using assms(2) e c
    by (cases "rf_Env r = []"; elim disjE)
      (simp_all add: qualifier_def collection_at_def ref_parts_def Let_def trim_suffix_one)
qed

lemma parse_valid:
  assumes "valid_ref r" "rf_Source r = src"
  shows "(case qualifier src (ref_text r) (ref_parts r) of Inl e \<Rightarrow> Inl e | Inr (p', env) \<Rightarrow> parse_parts src p' env) = Inr r"
proof (cases "rf_Kind r = KindParam \<or> rf_Kind r = KindOrgParam")
  case True
  then show ?thesis using assms unfolding qualifier_param [OF assms(1) True]
    by (elim disjE) (simp_all add: parse_parts_def ref_parts_def valid_ref_def check_names_def mk_ref_def)
next
  case False
  then show ?thesis using assms qualifier_plain [OF assms(1), of src]
    by (cases "rf_Kind r") (auto simp: parse_parts_def ref_parts_def valid_ref_def check_names_def mk_ref_def)
qed

lemma check_names_Inr: "check_names r = Inr r' \<Longrightarrow> r' = r
    \<and> ((rf_Kind r = KindParam \<or> rf_Kind r = KindOrgParam \<or> rf_Kind r = KindServerParam) \<longrightarrow> ValidName (rf_Slug r)) \<and> ValidName (rf_Name r)"
  by (auto simp: check_names_def ValidName_def split: if_splits)

lemma qualifier_Inr:
  assumes "qualifier src b p = Inr (p', env)"
  shows "(env = [] \<and> p' = p) \<or> (\<exists>ci pre. collection_at p = Some ci \<and> p ! ci = pre @ ''['' @ env @ '']'' \<and> p' = p[ci := pre] \<and> Valid env)"
  using assms by (auto simp: qualifier_def Let_def split: option.splits if_splits prod.splits dest!: cut_at_SomeD trim_suffix_oneD)

lemma list_upto4:
  obtains "p = []" | a where "p = [a]" | a b where "p = [a, b]" | a b c where "p = [a, b, c]"
  | a b c d where "p = [a, b, c, d]" | a b c d e' rest where "p = a # b # c # d # e' # rest"
  by (metis neq_Nil_conv)

lemma parse_parts_plain:
  assumes "parse_parts src p [] = Inr r" "p \<noteq> []"
  shows "valid_ref r \<and> ref_parts r = p \<and> rf_Source r = src \<and> rf_Env r = []"
  using assms
  by (cases rule: list_upto4 [of p])
    (auto simp: parse_parts_def mk_ref_def ref_parts_def valid_ref_def ValidName_def dest!: check_names_Inr split: if_splits)


lemma parse_parts_qualified:
  assumes "collection_at p = Some ci" "p ! ci = pre @ ''['' @ env @ '']''" "Valid env" "parse_parts src (p[ci := pre]) env = Inr r"
  shows "valid_ref r \<and> ref_parts r = p \<and> rf_Source r = src"
proof -
  have ne: "env \<noteq> []" using assms(3) by auto
  show ?thesis using assms ne
    by (cases rule: list_upto4 [of p])
      (auto simp: collection_at_def parse_parts_def mk_ref_def ref_parts_def valid_ref_def dest!: check_names_Inr split: if_splits)
qed

text \<open>Parsing decides the language, and gives back what was written.\<close>

lemma Parse_iff:
  "Parse body = Inr r \<longleftrightarrow> valid_ref r \<and> trim_space body = ref_text r \<and> rf_Source r = ''${{ '' @ ref_text r @ '' }}''"
proof
  let ?b = "trim_space body" and ?src = "''${{ '' @ trim_space body @ '' }}''"
  let ?p = "split_on CHR ''.'' ?b"
  assume "Parse body = Inr r"
  then obtain p' env where q: "qualifier ?src ?b ?p = Inr (p', env)" and pp: "parse_parts ?src p' env = Inr r"
    by (auto simp: Parse_def Let_def split: sum.splits)
  have "valid_ref r \<and> ref_parts r = ?p \<and> rf_Source r = ?src"
    using qualifier_Inr [OF q]
  proof
    assume "env = [] \<and> p' = ?p"
    then show ?thesis using parse_parts_plain [of ?src ?p r] pp by simp
  next
    assume "\<exists>ci pre. collection_at ?p = Some ci \<and> ?p ! ci = pre @ ''['' @ env @ '']'' \<and> p' = ?p[ci := pre] \<and> Valid env"
    then show ?thesis using parse_parts_qualified pp by blast
  qed
  moreover from this have "ref_text r = ?b" using join_split_on [of "CHR ''.''" ?b] by (simp add: ref_text_def)
  ultimately show "valid_ref r \<and> ?b = ref_text r \<and> rf_Source r = ''${{ '' @ ref_text r @ '' }}''" by simp
next
  assume *: "valid_ref r \<and> trim_space body = ref_text r \<and> rf_Source r = ''${{ '' @ ref_text r @ '' }}''"
  then have v: "valid_ref r" and t: "trim_space body = ref_text r" and s: "rf_Source r = ''${{ '' @ ref_text r @ '' }}''" by blast+
  show "Parse body = Inr r" unfolding Parse_def Let_def t ref_text_split [OF v] by (rule parse_valid [OF v s])
qed

section \<open>Lemmas: trimming\<close>

lemma strip_one_shorter: "strip_one seqs s = Some s' \<Longrightarrow> length s' < length s"
  by (auto simp: strip_one_def find_Some_iff has_prefix_def split: list.splits if_splits)

lemma strip_rounds_fix: "length s \<le> n \<Longrightarrow> strip_one seqs (strip_rounds n seqs s) = None"
proof (induction n arbitrary: s)
  case (Suc n)
  then show ?case using strip_one_shorter by (fastforce split: option.splits)
qed (simp add: strip_one_def)

lemma strip_rounds_suffix: "\<exists>pre. s = pre @ strip_rounds n seqs s"
proof (induction n arbitrary: s)
  case (Suc n)
  show ?case
  proof (cases "strip_one seqs s")
    case (Some s')
    then have "\<exists>k. s' = drop k s"
      by (cases s) (auto simp: strip_one_def split: if_splits intro: exI [of _ 1])
    then obtain pre where "s = pre @ s'" by (metis append_take_drop_id)
    moreover obtain pre' where "s' = pre' @ strip_rounds n seqs s'" using Suc.IH by blast
    ultimately show ?thesis using Some by (intro exI [of _ "pre @ pre'"]) simp
  qed simp
qed simp

lemma strip_one_prefix: "strip_one seqs (s @ t) = None \<Longrightarrow> strip_one seqs s = None"
proof (cases s)
  case (Cons c cs)
  have "has_prefix q (c # cs) \<Longrightarrow> has_prefix q (c # cs @ t)" for q by (auto simp: has_prefix_iff) (metis append_Cons append_assoc)
  moreover assume "strip_one seqs (s @ t) = None"
  ultimately show ?thesis using Cons by (auto simp: strip_one_def find_None_iff split: if_splits)
qed (simp add: strip_one_def)

lemma trim_left_fixed: "strip_one seqs s = None \<Longrightarrow> trim_left_space seqs s = s"
  by (cases "length s") (simp_all add: trim_left_space_def)

lemma trim_space_idem [simp]: "trim_space (trim_space s) = trim_space s"
proof -
  let ?t = "trim_left_space unicode_spaces s"
  let ?u = "trim_left_space (map rev unicode_spaces) (rev ?t)"
  have t: "strip_one unicode_spaces ?t = None" and u: "strip_one (map rev unicode_spaces) ?u = None"
    by (simp_all add: trim_left_space_def strip_rounds_fix)
  obtain pre where "rev ?t = pre @ ?u" unfolding trim_left_space_def [of "map rev unicode_spaces"] using strip_rounds_suffix by blast
  then have "?t = rev ?u @ rev pre" by (metis rev_append rev_rev_ident)
  then have "strip_one unicode_spaces (rev ?u) = None" using t strip_one_prefix by metis
  then show ?thesis using u by (simp add: trim_space_def trim_left_fixed)
qed

lemma Parse_trim [simp]: "Parse (trim_space b) = Parse b"
  by (simp add: Parse_def)

section \<open>Lemmas: the resolver\<close>

fun piece_text :: "piece \<Rightarrow> string" where
  "piece_text (Lit c) = [c]"
| "piece_text (Body b) = ''${{'' @ b @ ''}}''"

lemma pieces_text: "concat (map piece_text (pieces s)) = s"
proof (induction s rule: pieces.induct)
  case (2 c s)
  then show ?case by (cases "match_ref (c # s)") (auto dest: match_ref_text)
qed simp

text \<open>
  What the expression means, without the scanner: a reference is the opening, a body with no closing
  brace in it, and the closing.  A list of pieces scans a value when it writes out as the value, every
  body is a reference's, and no character kept as text is the first of a reference.
\<close>

definition ref_at :: "string \<Rightarrow> string \<Rightarrow> string \<Rightarrow> bool" where
  "ref_at s b t \<longleftrightarrow> s = ''${{'' @ b @ ''}}'' @ t \<and> CHR ''}'' \<notin> set b"

definition scan_of :: "string \<Rightarrow> piece list \<Rightarrow> bool" where
  "scan_of s ps \<longleftrightarrow> concat (map piece_text ps) = s
     \<and> (\<forall>b. Body b \<in> set ps \<longrightarrow> CHR ''}'' \<notin> set b)
     \<and> (\<forall>pre c post. ps = pre @ Lit c # post \<longrightarrow> (\<nexists>b t. ref_at (concat (map piece_text (Lit c # post))) b t))"

lemma match_ref_of_ref:
  assumes "CHR ''}'' \<notin> set b"
  shows "match_ref (''${{'' @ b @ ''}}'' @ t) = Some (b, t)"
proof -
  have "takeWhile (\<lambda>c. c \<noteq> CHR ''}'') (b @ ''}}'' @ t) = b" "dropWhile (\<lambda>c. c \<noteq> CHR ''}'') (b @ ''}}'' @ t) = ''}}'' @ t"
    using assms by (induction b) auto
  then show ?thesis by (simp add: match_ref_def has_prefix_def)
qed

lemma match_ref_iff: "match_ref s = Some (b, t) \<longleftrightarrow> ref_at s b t"
proof
  assume m: "match_ref s = Some (b, t)"
  then have "b = takeWhile (\<lambda>c. c \<noteq> CHR ''}'') (drop 3 s)" by (auto simp: match_ref_def Let_def split: if_splits)
  then have "CHR ''}'' \<notin> set b" by (auto dest: set_takeWhileD)
  then show "ref_at s b t" using match_ref_text [OF m] by (simp add: ref_at_def)
qed (auto simp: ref_at_def match_ref_of_ref [simplified])

lemma match_ref_None: "match_ref s = None \<longleftrightarrow> (\<nexists>b t. ref_at s b t)"
proof -
  have "match_ref s = None \<longleftrightarrow> (\<nexists>x. match_ref s = Some x)" by (cases "match_ref s") auto
  then show ?thesis by (simp add: split_paired_Ex match_ref_iff)
qed

lemma scan_of_tl: "scan_of s (p # ps) \<Longrightarrow> scan_of (concat (map piece_text ps)) ps"
  unfolding scan_of_def by (metis append_Cons list.set_intros(2))

lemma scan_of_pieces: "scan_of s (pieces s)"
proof (induction s rule: pieces.induct)
  case (2 c s)
  show ?case
  proof (cases "match_ref (c # s)")
    case None
    then have IH: "scan_of s (pieces s)" using 2 by simp
    show ?thesis unfolding scan_of_def
    proof (intro conjI allI impI)
      show "concat (map piece_text (pieces (c # s))) = c # s" by (rule pieces_text)
      show "CHR ''}'' \<notin> set b" if "Body b \<in> set (pieces (c # s))" for b using that IH None by (auto simp: scan_of_def)
      fix pre d post
      assume e: "pieces (c # s) = pre @ Lit d # post"
      show "\<nexists>b t. ref_at (concat (map piece_text (Lit d # post))) b t"
      proof (cases pre)
        case Nil
        then have "concat (map piece_text (Lit d # post)) = c # s" using e pieces_text [of "c # s"] by simp
        then show ?thesis using None match_ref_None by simp
      next
        case (Cons p pre')
        then have "pieces s = pre' @ Lit d # post" using e None by simp
        then show ?thesis using IH unfolding scan_of_def by blast
      qed
    qed
  next
    case (Some m)
    obtain b t where m: "m = (b, t)" by (cases m)
    have IH: "scan_of t (pieces t)" using 2 Some m by simp
    have r: "ref_at (c # s) b t" using Some m match_ref_iff by simp
    have p: "pieces (c # s) = Body b # pieces t" using Some m by simp
    show ?thesis unfolding scan_of_def
    proof (intro conjI allI impI)
      show "concat (map piece_text (pieces (c # s))) = c # s" by (rule pieces_text)
      show "CHR ''}'' \<notin> set b'" if "Body b' \<in> set (pieces (c # s))" for b' using that IH r p by (auto simp: scan_of_def ref_at_def)
      fix pre d post
      assume e: "pieces (c # s) = pre @ Lit d # post"
      then have "Body b # pieces t = pre @ Lit d # post" using p by metis
      then obtain pre' where "pieces t = pre' @ Lit d # post" by (cases pre) auto
      then show "\<nexists>b t. ref_at (concat (map piece_text (Lit d # post))) b t" using IH unfolding scan_of_def by blast
    qed
  qed
qed (simp add: scan_of_def)

lemma scan_of_unique: "scan_of s ps \<Longrightarrow> ps = pieces s"
proof (induction ps arbitrary: s)
  case Nil
  then show ?case by (simp add: scan_of_def)
next
  case (Cons p ps)
  note tl = Cons.IH [OF scan_of_tl [OF Cons.prems]]
  have s: "s = piece_text p @ concat (map piece_text ps)" using Cons.prems by (simp add: scan_of_def)
  show ?case
  proof (cases p)
    case (Lit c)
    have "\<nexists>b t. ref_at (concat (map piece_text (Lit c # ps))) b t" using Cons.prems Lit unfolding scan_of_def by blast
    then have "match_ref s = None" using s Lit match_ref_None by simp
    then show ?thesis using Lit s tl by simp
  next
    case (Body b)
    then have "CHR ''}'' \<notin> set b" using Cons.prems by (simp add: scan_of_def)
    then have "match_ref s = Some (b, concat (map piece_text ps))" using match_ref_of_ref s Body by simp
    then show ?thesis using Body s tl by simp
  qed
qed

lemma scan_of_iff: "scan_of s ps \<longleftrightarrow> ps = pieces s"
  using scan_of_pieces scan_of_unique by blast

lemma bodies_simps [simp]:
  "bodies [] = []" "bodies (Lit c # ps) = bodies ps" "bodies (Body b # ps) = b # bodies ps"
  by (simp_all add: bodies_def List.map_filter_def)

text \<open>What one reference stands for; it depends on the snapshot only.\<close>

definition ref_value :: "snapshot \<Rightarrow> ref_where \<Rightarrow> string \<Rightarrow> err + string" where
  "ref_value sn w b = snd (one (NewResolver sn) w b)"

lemma NewResolver_snap [simp]: "rs_snap (NewResolver sn) = sn"
  by (simp add: NewResolver_def)

lemma resolve_tile_snap [simp]: "rs_snap (fst (resolve_tile rr r)) = rs_snap rr"
  by (simp add: resolve_tile_def Let_def split: option.splits)

lemma resolve_tile_value: "snd (resolve_tile rr r) = snd (resolve_tile (NewResolver (rs_snap rr)) r)"
  by (simp add: resolve_tile_def Let_def split: option.splits)

lemma lookup_snap [simp]: "rs_snap (fst (lookup rr w r)) = rs_snap rr"
  by (simp add: lookup_def Let_def split: kind.splits)

lemma lookup_value: "snd (lookup rr w r) = snd (lookup (NewResolver (rs_snap rr)) w r)"
  by (cases "rf_Kind r") (simp_all add: lookup_def Let_def resolve_tile_value [of rr])

lemma one_snap [simp]: "rs_snap (fst (one rr w b)) = rs_snap rr"
  by (simp add: one_def split: sum.splits)

lemma one_value: "snd (one rr w b) = ref_value (rs_snap rr) w b"
  by (simp add: one_def ref_value_def lookup_value [of rr] split: sum.splits)

lemma one_eq: "one rr w b = (rr', res) \<Longrightarrow> rs_snap rr' = rs_snap rr \<and> res = ref_value (rs_snap rr) w b"
  using one_snap [of rr w b] one_value [of rr w b] by simp

definition value_text :: "snapshot \<Rightarrow> ref_where \<Rightarrow> piece \<Rightarrow> string" where
  "value_text sn w p = (case p of Lit c \<Rightarrow> [c] | Body b \<Rightarrow> (case ref_value sn w b of Inr v \<Rightarrow> v | Inl _ \<Rightarrow> []))"

lemma value_text_simps [simp]: "value_text sn w (Lit c) = [c]"
  "value_text sn w (Body b) = (case ref_value sn w b of Inr v \<Rightarrow> v | Inl _ \<Rightarrow> [])"
  by (simp_all add: value_text_def)

definition first_error :: "snapshot \<Rightarrow> ref_where \<Rightarrow> string list \<Rightarrow> error" where
  "first_error sn w bs = (case find isl (map (ref_value sn w) bs) of Some (Inl e) \<Rightarrow> Some e | _ \<Rightarrow> None)"

lemma first_error_simps [simp]:
  "first_error sn w [] = None"
  "first_error sn w (b # bs) = (case ref_value sn w b of Inl e \<Rightarrow> Some e | Inr _ \<Rightarrow> first_error sn w bs)"
  by (simp_all add: first_error_def split: sum.splits)

lemma set_bodies: "b \<in> set (bodies ps) \<longleftrightarrow> Body b \<in> set ps"
proof (induction ps)
  case (Cons p ps)
  then show ?case by (cases p) auto
qed simp

lemma no_error_allowed:
  assumes "first_error sn w bs = None" "b \<in> set bs"
  shows "\<exists>r. Parse b = Inr r \<and> allowed w (rf_Kind r)"
proof -
  have "\<not> isl (ref_value sn w b)" using assms
    by (induction bs) (auto split: sum.splits)
  then show ?thesis by (auto simp: ref_value_def one_def split: sum.splits if_splits)
qed

lemma replace_all_value:
  "snd (replace_all w ps rr er) = (if er = None then first_error (rs_snap rr) w (bodies ps) else er, concat (map (value_text (rs_snap rr) w) ps))"
proof (induction ps arbitrary: rr er)
  case (Cons p ps)
  show ?case
  proof (cases p)
    case (Lit c)
    then show ?thesis using Cons.IH [of rr er] by (cases "replace_all w ps rr er") simp
  next
    case (Body b)
    obtain rr1 res where o: "one rr w b = (rr1, res)" by (cases "one rr w b")
    note eq = one_eq [OF o]
    show ?thesis
    proof (cases res)
      case (Inr v)
      then show ?thesis using Body o eq Cons.IH [of rr1 er] by (cases "replace_all w ps rr1 er") simp
    next
      case (Inl e)
      let ?er = "if er = None then Some e else er"
      have rv: "ref_value (rs_snap rr) w b = Inl e" using eq Inl by simp
      show ?thesis using Body o [unfolded Inl] eq rv Cons.IH [of rr1 ?er] by (cases "replace_all w ps rr1 ?er"; cases er) simp_all
    qed
  qed
qed simp

lemma Expand_value:
  "snd (Expand rr w val) = (case first_error (rs_snap rr) w (bodies (pieces val)) of Some e \<Rightarrow> Inl e
     | None \<Rightarrow> Inr (concat (map (value_text (rs_snap rr) w) (pieces val))))"
proof (cases "HasRef val")
  case True
  then show ?thesis using replace_all_value [of w "pieces val" rr None]
    by (cases "replace_all w (pieces val) rr None"; cases "fst (snd (replace_all w (pieces val) rr None))") (simp_all add: Expand_def)
next
  case False
  have "bodies ps = [] \<Longrightarrow> concat (map (value_text sn w) ps) = concat (map piece_text ps)" for ps sn
  proof (induction ps)
    case (Cons p ps)
    then show ?case by (cases p) simp_all
  qed simp
  then show ?thesis using False pieces_text [of val] by (simp add: Expand_def HasRef_def)
qed

text \<open>What a domain or a provision target may show of a snapshot: no secret's value and no server param.\<close>

definition hide :: "pvalue \<Rightarrow> pvalue" where
  "hide v = (if pv_Secret v then v\<lparr>pv_V := []\<rparr> else v)"

definition public :: "snapshot \<Rightarrow> snapshot" where
  "public sn = sn\<lparr>sn_EnvParams := map_option hide \<circ> sn_EnvParams sn, sn_OrgParams := map_option hide \<circ> sn_OrgParams sn,
     sn_Other := map_option (\<lambda>b. b\<lparr>bl_Values := map_option hide \<circ> bl_Values b\<rparr>) \<circ> sn_Other sn, sn_ServerParams := Map.empty\<rparr>"

lemma param_hide: "w = InDomain \<or> w = InProvisionFrom \<Longrightarrow> param w r (map_option hide v) unset = param w r v unset"
  by (cases v) (auto simp: param_def hide_def Let_def)

lemma ref_value_public:
  assumes "w = InDomain \<or> w = InProvisionFrom"
  shows "ref_value (public sn) w b = ref_value sn w b"
proof (cases "Parse b")
  case (Inr r)
  have q: "read_qualified (public sn) w r = read_qualified sn w r"
    by (auto simp: read_qualified_def public_def Let_def param_hide [OF assms] split: option.splits)
  have l: "snd (lookup (NewResolver (public sn)) w r) = snd (lookup (NewResolver sn) w r)" if "allowed w (rf_Kind r)"
    using that assms q param_hide [OF assms, of r]
    by (cases "rf_Kind r") (auto simp: lookup_def Let_def public_def)
  show ?thesis using Inr l by (simp add: ref_value_def one_def)
qed (simp add: ref_value_def one_def)

lemma ref_value_server:
  assumes "w \<noteq> InServerFile"
  shows "ref_value (sn\<lparr>sn_ServerParams := m\<rparr>) w b = ref_value sn w b"
proof (cases "Parse b")
  case (Inr r)
  have "read_qualified (sn\<lparr>sn_ServerParams := m\<rparr>) w r = read_qualified sn w r" by (simp add: read_qualified_def Let_def)
  then show ?thesis using Inr assms
    by (cases "rf_Kind r") (simp_all add: ref_value_def one_def lookup_def Let_def resolve_tile_def split: option.splits)
qed (simp add: ref_value_def one_def)

lemma first_error_cong: "(\<And>b. ref_value sn w b = ref_value sn' w b) \<Longrightarrow> first_error sn w bs = first_error sn' w bs"
proof -
  assume "\<And>b. ref_value sn w b = ref_value sn' w b"
  then have "ref_value sn w = ref_value sn' w" by (rule ext)
  then show ?thesis by (simp add: first_error_def)
qed

lemma Expand_cong:
  assumes "\<And>b. ref_value (rs_snap rr) w b = ref_value (rs_snap rr') w b"
  shows "snd (Expand rr w val) = snd (Expand rr' w val)"
proof -
  have "value_text (rs_snap rr) w p = value_text (rs_snap rr') w p" for p by (cases p) (simp_all add: assms)
  then have "value_text (rs_snap rr) w = value_text (rs_snap rr') w" by (rule ext)
  then show ?thesis unfolding Expand_value first_error_cong [OF assms] by (simp split: option.splits)
qed

lemma refuse_bodies_Some: "refuse_bodies w bs = Some e \<Longrightarrow> \<exists>b \<in> set bs. \<exists>r. Parse b = Inr r \<and> rf_Kind r = KindServerParam"
  by (induction bs) (auto split: sum.splits if_splits)

lemma first_error_None: "first_error sn w bs = None \<longleftrightarrow> (\<forall>b \<in> set bs. \<not> isl (ref_value sn w b))"
  by (induction bs) (auto split: sum.splits)

section \<open>Lemmas: the dependencies\<close>

definition tile_slugs :: "string list \<Rightarrow> string set" where
  "tile_slugs bs = {rf_Slug r |b r. b \<in> set bs \<and> Parse b = Inr r \<and> rf_Kind r = KindTile}"

lemma tile_slugs_simps [simp]: "tile_slugs [] = {}"
  "tile_slugs (b # bs) = (case Parse b of Inr r \<Rightarrow> if rf_Kind r = KindTile then insert (rf_Slug r) (tile_slugs bs) else tile_slugs bs | Inl _ \<Rightarrow> tile_slugs bs)"
  by (auto simp: tile_slugs_def split: sum.splits)

lemma tile_no_env: "Parse b = Inr r \<Longrightarrow> rf_Kind r = KindTile \<Longrightarrow> rf_Env r = []"
  by (auto simp: Parse_iff valid_ref_def)

lemma one_deps:
  assumes "ref_value (rs_snap rr) w b = Inr v"
  shows "set (rs_deps (fst (one rr w b))) = set (rs_deps rr) \<union> tile_slugs [b]"
proof (cases "Parse b")
  case (Inr r)
  have "snd (one rr w b) = Inr v" using assms by (simp add: one_value)
  then show ?thesis using Inr tile_no_env [OF Inr]
    by (cases "rf_Kind r") (auto simp: one_def lookup_def Let_def resolve_tile_def split: if_splits option.splits)
qed (use assms in \<open>simp add: ref_value_def one_def\<close>)

lemma replace_all_deps:
  "first_error (rs_snap rr) w (bodies ps) = None \<Longrightarrow>
     set (rs_deps (fst (replace_all w ps rr er))) = set (rs_deps rr) \<union> tile_slugs (bodies ps)"
proof (induction ps arbitrary: rr)
  case (Cons p ps)
  show ?case
  proof (cases p)
    case (Lit c)
    then show ?thesis using Cons.IH [of rr] Cons.prems by (cases "replace_all w ps rr er") simp
  next
    case (Body b)
    obtain rr1 res where o: "one rr w b = (rr1, res)" by (cases "one rr w b")
    obtain v where v: "ref_value (rs_snap rr) w b = Inr v" using Cons.prems Body by (auto split: sum.splits)
    have res: "res = Inr v" and s: "rs_snap rr1 = rs_snap rr" using one_eq [OF o] v by simp_all
    have "set (rs_deps rr1) = set (rs_deps rr) \<union> tile_slugs [b]" using one_deps [OF v] o by simp
    moreover have "set (rs_deps (fst (replace_all w ps rr1 er))) = set (rs_deps rr1) \<union> tile_slugs (bodies ps)"
      using Cons.IH [of rr1] Cons.prems Body v s by simp
    moreover have "tile_slugs (b # bodies ps) = tile_slugs [b] \<union> tile_slugs (bodies ps)" by (auto split: sum.splits)
    ultimately show ?thesis using Body o res by (cases "replace_all w ps rr1 er") auto
  qed
qed simp


section \<open>Properties\<close>

text \<open>
  C24: Parsing a reference decides the language of references and loses nothing: a body parses to \<open>r\<close>
  exactly when \<open>r\<close> is a well-formed reference (its collection, qualifier, tile and name each in its own
  grammar) and the body, trimmed, is \<open>r\<close> written out; the source kept for errors is that text in its braces.
\<close>

theorem Parse_roundtrip:
  "Parse body = Inr r \<longleftrightarrow> valid_ref r \<and> trim_space body = ref_text r \<and> rf_Source r = ''${{ '' @ ref_text r @ '' }}''"
  by (rule Parse_iff)

text \<open>
  C23: Expanding a value substitutes every reference in place and keeps all other text, or gives the first
  error and no value: never a half-expanded string. What is a reference is said without the scanner: a
  value has exactly one reading as text and references in which a reference is the opening braces, any body
  without a closing brace, the empty one included, and the closing braces, and in which no kept character
  starts a reference. On that reading, an expansion gives the error of the first reference that has one, or the
  text with each reference replaced by its value; and when it gives a value, every reference of the reading
  was well formed and of a kind that may stand there. So a malformed body is an error, never left as literal text.
\<close>

theorem Expand_substitutes:
  "(\<exists>!ps. scan_of val ps)
   \<and> (\<forall>ps. scan_of val ps \<longrightarrow>
        snd (Expand rr w val) = (case first_error (rs_snap rr) w (bodies ps) of Some e \<Rightarrow> Inl e
          | None \<Rightarrow> Inr (concat (map (value_text (rs_snap rr) w) ps)))
        \<and> (\<forall>v b. snd (Expand rr w val) = Inr v \<and> Body b \<in> set ps \<longrightarrow> (\<exists>r. Parse b = Inr r \<and> allowed w (rf_Kind r))))"
proof (intro conjI allI impI)
  show "\<exists>!ps. scan_of val ps" by (simp add: scan_of_iff)
  fix ps
  assume s: "scan_of val ps"
  then have ps: "pieces val = ps" by (simp add: scan_of_iff)
  show e: "snd (Expand rr w val) = (case first_error (rs_snap rr) w (bodies ps) of Some e \<Rightarrow> Inl e
          | None \<Rightarrow> Inr (concat (map (value_text (rs_snap rr) w) ps)))"
    unfolding Expand_value ps by (rule refl)
  fix v b
  assume v: "snd (Expand rr w val) = Inr v \<and> Body b \<in> set ps"
  then have "first_error (rs_snap rr) w (bodies ps) = None" using e by (auto split: option.splits)
  moreover have "b \<in> set (bodies ps)" using v by (simp add: set_bodies)
  ultimately show "\<exists>r. Parse b = Inr r \<and> allowed w (rf_Kind r)" by (rule no_error_allowed)
qed

text \<open>
  C4: What a domain or a provision target expands to does not depend on any secret: two snapshots that
  differ only in the values of secrets (own block, org block, other envs' blocks) and in server params
  give the same result, errors included.
\<close>

theorem Expand_hides_secrets:
  assumes "w = InDomain \<or> w = InProvisionFrom" "public sn = public sn'"
  shows "snd (Expand (NewResolver sn) w val) = snd (Expand (NewResolver sn') w val)"
proof (rule Expand_cong)
  fix b
  show "ref_value (rs_snap (NewResolver sn)) w b = ref_value (rs_snap (NewResolver sn')) w b"
    using ref_value_public [OF assms(1), of sn b] ref_value_public [OF assms(1), of sn' b] assms(2) by simp
qed

definition ex_source :: source where
  "ex_source = \<lparr>so_Outputs = Map.empty, so_Slice = False, so_Managed = False, so_Attached = False, so_Network = [], so_Host = []\<rparr>"

definition ex_snap :: "string \<Rightarrow> snapshot" where
  "ex_snap pw = \<lparr>sn_Env = ''prod'', sn_EnvParams = [''db.host'' \<mapsto> \<lparr>pv_V = ''db1'', pv_Secret = False\<rparr>, ''db.pw'' \<mapsto> \<lparr>pv_V = pw, pv_Secret = True\<rparr>],
     sn_OrgParams = Map.empty, sn_Tier = [], sn_Other = Map.empty, sn_ServerParams = Map.empty, sn_Stackr = Map.empty, sn_Backups = Map.empty,
     sn_Self = ex_source, sn_Tiles = [''api'' \<mapsto> ex_source\<lparr>so_Outputs := [''host'' \<mapsto> ''api'']\<rparr>]\<rparr>"

theorem Expand_hides_secrets_witness:
  "snd (Expand (NewResolver (ex_snap ''hunter2'')) InDomain ''${{ params.db.host }}.x'') = snd (Expand (NewResolver (ex_snap ''s3cret'')) InDomain ''${{ params.db.host }}.x'')
   \<and> snd (Expand (NewResolver (ex_snap ''s3cret'')) InDomain ''${{ params.db.host }}.x'') = Inr ''db1.x''"
proof -
  have "public (ex_snap ''hunter2'') = public (ex_snap ''s3cret'')"
    by (simp add: public_def ex_snap_def hide_def fun_eq_iff)
  then have "snd (Expand (NewResolver (ex_snap ''hunter2'')) InDomain ''${{ params.db.host }}.x'') = snd (Expand (NewResolver (ex_snap ''s3cret'')) InDomain ''${{ params.db.host }}.x'')"
    by (intro Expand_hides_secrets) simp_all
  moreover have "snd (Expand (NewResolver (ex_snap ''s3cret'')) InDomain ''${{ params.db.host }}.x'') = Inr ''db1.x''" by code_simp
  ultimately show ?thesis by simp
qed

theorem Expand_substitutes_witness:
  "snd (Expand (NewResolver (ex_snap ''pw'')) InEnv ''h=${{ params.db.host }}!'') = Inr ''h=db1!''
   \<and> isl (snd (Expand (NewResolver (ex_snap ''pw'')) InEnv ''h=${{}}!''))"
proof -
  let ?ok = "map Lit ''h='' @ [Body '' params.db.host '', Lit CHR ''!'']" and ?bad = "map Lit ''h='' @ [Body [], Lit CHR ''!'']"
  have s: "scan_of ''h=${{ params.db.host }}!'' ?ok" "scan_of ''h=${{}}!'' ?bad" unfolding scan_of_iff by code_simp+
  have f: "first_error (ex_snap ''pw'') InEnv (bodies ?ok) = None" "concat (map (value_text (ex_snap ''pw'') InEnv) ?ok) = ''h=db1!''"
    "first_error (ex_snap ''pw'') InEnv (bodies ?bad) \<noteq> None" by code_simp+
  note sub = Expand_substitutes [of "''h=${{ params.db.host }}!''" "NewResolver (ex_snap ''pw'')" InEnv]
    Expand_substitutes [of "''h=${{}}!''" "NewResolver (ex_snap ''pw'')" InEnv]
  show ?thesis using sub s f by auto
qed

text \<open>
  Server params never leave the server file: expanding anywhere else gives the same result whatever
  they hold, and a value that is refused at save time for a server reference does not expand either.
\<close>

theorem server_params_stay_home:
  assumes "w \<noteq> InServerFile"
  shows "snd (Expand (NewResolver (sn\<lparr>sn_ServerParams := m\<rparr>)) w val) = snd (Expand (NewResolver sn) w val)
    \<and> (RefuseServerRefs w [val] = Some e \<longrightarrow> isl (snd (Expand (NewResolver sn) w val)))"
proof (intro conjI impI)
  show "snd (Expand (NewResolver (sn\<lparr>sn_ServerParams := m\<rparr>)) w val) = snd (Expand (NewResolver sn) w val)"
    by (rule Expand_cong) (simp add: ref_value_server [OF assms])
  assume "RefuseServerRefs w [val] = Some e"
  then obtain b r where b: "b \<in> set (bodies (pieces val))" and p: "Parse b = Inr r" "rf_Kind r = KindServerParam"
    by (auto simp: RefuseServerRefs_def Refs_def dest!: refuse_bodies_Some)
  then have "isl (ref_value sn w b)" using assms by (simp add: ref_value_def one_def)
  then have "first_error sn w (bodies (pieces val)) \<noteq> None" using b by (auto simp: first_error_None)
  then show "isl (snd (Expand (NewResolver sn) w val))" by (auto simp: Expand_value split: option.splits)
qed

theorem server_params_stay_home_witness:
  "RefuseServerRefs InEnv [''${{ server.params.smtp.pw }}''] \<noteq> None
   \<and> isl (snd (Expand (NewResolver (ex_snap ''pw'')) InEnv ''${{ server.params.smtp.pw }}''))"
proof -
  have r: "RefuseServerRefs InEnv [''${{ server.params.smtp.pw }}''] \<noteq> None" by code_simp
  then show ?thesis using server_params_stay_home [of InEnv, where sn = "ex_snap ''pw''" and val = "''${{ server.params.smtp.pw }}''"] by auto
qed

text \<open>
  The dependencies a tile's values make are exact: after a value expanded, the resolver's deps are the
  ones before and the tiles the value names, sorted and each once.
\<close>

theorem Expand_deps:
  assumes "snd (Expand rr w val) = Inr out'"
  shows "set (Deps (fst (Expand rr w val))) = set (Deps rr) \<union> tile_slugs (bodies (pieces val))
    \<and> sorted (Deps (fst (Expand rr w val))) \<and> distinct (Deps (fst (Expand rr w val)))"
proof -
  have n: "first_error (rs_snap rr) w (bodies (pieces val)) = None" using assms by (auto simp: Expand_value split: option.splits)
  have "set (rs_deps (fst (Expand rr w val))) = set (rs_deps rr) \<union> tile_slugs (bodies (pieces val))"
  proof (cases "HasRef val")
    case True
    have "fst (snd (replace_all w (pieces val) rr None)) = None" using replace_all_value [of w "pieces val" rr None] n by simp
    then show ?thesis using True replace_all_deps [OF n, of None]
      by (cases "replace_all w (pieces val) rr None") (simp add: Expand_def)
  qed (simp add: Expand_def HasRef_def)
  then show ?thesis by (simp add: Deps_def)
qed

theorem Expand_deps_witness:
  "set (Deps (fst (Expand (NewResolver (ex_snap [])) InEnv ''http://${{ tile.api.host }}''))) = {''api''}"
proof -
  have v: "snd (Expand (NewResolver (ex_snap [])) InEnv ''http://${{ tile.api.host }}'') = Inr ''http://api''"
    and b: "bodies (pieces ''http://${{ tile.api.host }}'') = ['' tile.api.host '']" by code_simp+
  have p: "Parse '' tile.api.host '' = Inr (mk_ref KindTile ''api'' [] ''host'' ''${{ tile.api.host }}'')" by code_simp
  show ?thesis using Expand_deps [OF v] unfolding b by (simp add: p mk_ref_def Deps_def NewResolver_def)
qed

end
