(* ===== verification/Planfile.thy ===== *)
theory Planfile
  imports Params_Ref "HOL-Library.Multiset" "HOL-Library.Sublist"
begin

text \<open>
  \<^verbatim>\<open>internal/service/internal/planfile/planfile.go\<close>: what the org file and the server file share.  A plan and its approve
  contract, with the whole gate of \<^verbatim>\<open>internal/service/approve.go\<close>, the grammar of params, the secrets a file may not hold, and
  the one tag rule.  The YAML decoding is a library's and is not modelled; the stored plan's JSON is taken
  decoded, or as the error of its decoding.  A Go map is the list of its entries in the order an
  iteration visits them; the properties hold for every order.
\<close>

section \<open>Model: changes and plans\<close>

record change =
  ch_Kind :: string
  ch_Tile :: string
  ch_Field :: string
  ch_Old :: string
  ch_New :: string
  ch_Note :: string
  ch_Impact :: string
  ch_Optional :: bool
  ch_Key :: string

definition Line :: "change \<Rightarrow> string" where
  "Line c =
     (let s0 = ch_Kind c;
          s1 = (if ch_Tile c \<noteq> [] then s0 @ '' '' @ ch_Tile c else s0);
          s2 = (if ch_Field c \<noteq> [] then s1 @ '' '' @ ch_Field c @ (if ch_Old c \<noteq> [] then '':'' else []) else s1);
          s3 = (if ch_Old c \<noteq> [] \<and> ch_New c \<noteq> [] \<or> (ch_Old c \<noteq> [] \<or> ch_New c \<noteq> []) \<and> (ch_Tile c \<noteq> [] \<or> ch_Field c \<noteq> [])
                then s2 @ '' '' @ trim_space (ch_Old c @ '' -> '' @ ch_New c)
                else if ch_Old c \<noteq> [] \<or> ch_New c \<noteq> [] then s2 @ '' '' @ ch_Old c @ ch_New c else s2)
      in if ch_Note c \<noteq> [] then s3 @ '' ('' @ ch_Note c @ '')'' else s3)"

record gap =
  gp_Kind :: string
  gp_Scope :: string
  gp_Env :: string
  gp_Key :: string
  gp_Tags :: "string list"

record plan =
  pl_Changes :: "change list"
  pl_Blockers :: "string list"
  pl_Notes :: "string list"
  pl_Gaps :: "gap list"

definition Blocked :: "plan \<Rightarrow> bool" where
  "Blocked p \<longleftrightarrow> length (pl_Blockers p) > 0"

text \<open>\<^verbatim>\<open>fmt.Sprintf\<close> is an argument: it only words the line.\<close>

definition Block :: "(string \<Rightarrow> string list \<Rightarrow> string) \<Rightarrow> plan \<Rightarrow> string \<Rightarrow> string list \<Rightarrow> plan" where
  "Block Sprintf p format args = p\<lparr>pl_Blockers := pl_Blockers p @ [Sprintf format args]\<rparr>"

definition Add :: "plan \<Rightarrow> change \<Rightarrow> plan" where
  "Add p c = p\<lparr>pl_Changes := pl_Changes p @ [c]\<rparr>"

definition Risky :: "plan \<Rightarrow> bool" where
  "Risky p \<longleftrightarrow> list_ex (\<lambda>c. ch_Impact c \<noteq> []) (pl_Changes p)"

definition Impacts :: "plan \<Rightarrow> string list" where
  "Impacts p = map ch_Impact (filter (\<lambda>c. ch_Impact c \<noteq> []) (pl_Changes p))"

definition Removals :: "plan \<Rightarrow> change list" where
  "Removals p = filter ch_Optional (pl_Changes p)"

definition CanApprove :: "plan \<Rightarrow> bool" where
  "CanApprove p \<longleftrightarrow> \<not> Blocked p \<and> length (pl_Changes p) > 0"

definition AutoOK :: "plan \<Rightarrow> bool" where
  "AutoOK p \<longleftrightarrow> \<not> Blocked p \<and> \<not> Risky p \<and> length (Removals p) = 0 \<and> (length (pl_Changes p) > 0 \<or> length (pl_Gaps p) = 0)"

definition TickedRemovals :: "plan \<Rightarrow> string list \<Rightarrow> change list" where
  "TickedRemovals p keys = filter (\<lambda>c. ch_Key c \<in> set keys) (Removals p)"

definition OnlyTicked :: "plan \<Rightarrow> string list \<Rightarrow> plan" where
  "OnlyTicked p keys = p\<lparr>pl_Changes := filter (\<lambda>c. \<not> ch_Optional c \<or> ch_Key c \<in> set keys) (pl_Changes p)\<rparr>"

definition Approvable :: "plan \<Rightarrow> string list \<Rightarrow> bool \<Rightarrow> error" where
  "Approvable p ticked confirm =
     (let removals = map ch_Key (Removals p) in
      case find (\<lambda>k. k \<notin> set removals) ticked of
        Some k \<Rightarrow> Some (Invalidf ''ticked'' ''%q is not a removal in this plan.'' [k])
      | None \<Rightarrow> if Risky p \<and> \<not> confirm then Some (Conflictf ''This plan has impact lines; confirm to approve.'' []) else None)"

text \<open>
  \<^verbatim>\<open>checkApprove\<close> of \<^verbatim>\<open>internal/service/approve.go\<close>, what both approve calls ask; \<open>decoded\<close> is the stored plan read
  back, or the decoder's error.
\<close>

definition checkApprove :: "string \<Rightarrow> err + plan \<Rightarrow> string list \<Rightarrow> bool \<Rightarrow> error" where
  "checkApprove planID decoded ticked confirm = (case decoded of
     Inl e \<Rightarrow> Some (Wrap (''plan %s: %w'', [planID]) e)
   | Inr p \<Rightarrow>
       if Blocked p then Some (Conflictf ''This plan is blocked: %s'' [join_with ''; '' (pl_Blockers p)])
       else if length (pl_Changes p) = 0 \<and> length (pl_Gaps p) > 0
       then Some (Conflictf ''Nothing to apply yet: fill in what the plan is missing.'' [])
       else Approvable p ticked confirm)"

definition Summary :: "(string \<Rightarrow> bool) \<Rightarrow> plan \<Rightarrow> string" where
  "Summary isAdd p =
     (let remove = length (filter ch_Optional (pl_Changes p));
          add = length (filter (\<lambda>c. \<not> ch_Optional c \<and> isAdd (ch_Kind c)) (pl_Changes p));
          change = length (filter (\<lambda>c. \<not> ch_Optional c \<and> \<not> isAdd (ch_Kind c)) (pl_Changes p));
          n = length (pl_Blockers p);
          parts = (if add > 0 then [nat_str add @ '' to add''] else [])
            @ (if change > 0 then [nat_str change @ '' to change''] else [])
            @ (if remove = 0 then [] else if remove = 1 then [''1 removal to review''] else [nat_str remove @ '' removals to review'']);
          parts1 = (if parts = [] then [''no changes''] else parts)
            @ (if Risky p then [''needs confirm''] else [])
            @ (if n = 1 then [''1 blocker''] else if n > 1 then [nat_str n @ '' blockers''] else [])
      in join_with '', '' parts1)"

section \<open>Model: params and secrets of a file\<close>

record file_param =
  fp_Type :: string
  fp_Value :: "string option"
  fp_Generate :: int

text \<open>\<^verbatim>\<open>strings.Count\<close> of a non-empty text: occurrences that do not overlap, from the left.\<close>

function count_str :: "string \<Rightarrow> string \<Rightarrow> nat" where
  "count_str p s = (if p = [] \<or> length s < length p then 0
     else if has_prefix p s then Suc (count_str p (drop (length p) s)) else count_str p (tl s))"
  by pat_completeness auto
termination
proof (relation "measure (\<lambda>(p, s). length s)", goal_cases)
  case (2 p s)
  then show ?case by (cases p) auto
next
  case (3 p s)
  then show ?case by (cases p; cases s) auto
qed simp

declare count_str.simps [simp del]

definition IsRef :: "string \<Rightarrow> bool" where
  "IsRef s0 \<longleftrightarrow> (let s = trim_space s0 in
     has_prefix ''${{'' s \<and> has_suffix ''}}'' s \<and> count_str ''${{'' s = 1 \<and> count_str ''}}'' s = 1)"

definition check_param :: "bool \<Rightarrow> string \<Rightarrow> string \<times> file_param \<Rightarrow> error" where
  "check_param allowGenerate c np = (case np of (n, p) \<Rightarrow>
     if \<not> ValidName n then Some (Errorf ''params: %s.%s: a name is letters, digits and _, starting with a letter or _'' [c, n])
     else if fp_Generate p \<noteq> 0 \<and> \<not> allowGenerate then Some (Errorf ''params: %s.%s: generate is only read in a stack file'' [c, n])
     else if fp_Generate p \<noteq> 0 \<and> fp_Type p \<noteq> ''secret'' then Some (Errorf ''params: %s.%s: generate is only for type: secret'' [c, n])
     else if fp_Generate p \<noteq> 0 \<and> fp_Value p \<noteq> None then Some (Errorf ''params: %s.%s: generate and value are exclusive'' [c, n])
     else if fp_Generate p \<noteq> 0 \<and> (fp_Generate p < 16 \<or> fp_Generate p > 128) then Some (Errorf ''params: %s.%s: generate is a length from 16 to 128'' [c, n])
     else if fp_Type p = ''secret'' \<and> fp_Value p \<noteq> None then Some (Errorf ''params: %s.%s is a secret; its value never goes in the file'' [c, n])
     else if fp_Type p \<noteq> ''secret'' \<and> fp_Type p \<noteq> ''param'' then Some (Errorf ''params: %s.%s: type must be param or secret'' [c, n])
     else None)"

fun first_err :: "('a \<Rightarrow> error) \<Rightarrow> 'a list \<Rightarrow> error" where
  "first_err f [] = None"
| "first_err f (x # xs) = (case f x of Some e \<Rightarrow> Some e | None \<Rightarrow> first_err f xs)"

definition CheckWide :: "(string \<times> (string \<times> file_param) list) list \<Rightarrow> bool \<Rightarrow> error" where
  "CheckWide ps allowGenerate = first_err (\<lambda>(c, entries).
     if \<not> ValidName c then Some (Errorf ''params: collection %q is letters, digits and _, starting with a letter or _'' [c])
     else first_err (check_param allowGenerate c) entries) ps"

definition KeepSecretPair :: "string option \<Rightarrow> string option \<Rightarrow> string option \<Rightarrow> string option \<Rightarrow> string option \<times> string option" where
  "KeepSecretPair user pass liveUser livePass =
     (if user = None \<and> pass = None then (liveUser, livePass)
      else if user = Some [] \<and> pass = Some [] then (None, None)
      else (user, pass))"

definition CheckSecretRef :: "string \<Rightarrow> string \<Rightarrow> error" where
  "CheckSecretRef what v =
     (if v \<noteq> [] \<and> \<not> IsRef v then Some (Errorf ''%s is a ${{ ... }} reference, never the value (the file goes in git)'' [what]) else None)"

definition CheckProtect :: "string option \<Rightarrow> error" where
  "CheckProtect protect_password = (case protect_password of None \<Rightarrow> None | Some v \<Rightarrow> CheckSecretRef ''protect_password'' v)"

section \<open>Model: the tag rule\<close>

record needs =
  nd_Storage :: bool
  nd_Ingress :: bool
  nd_Egress :: bool

definition Fits :: "string list \<Rightarrow> needs \<Rightarrow> string list" where
  "Fits tags n = map (\<lambda>(need, tag). ''needs '' @ tag)
     (filter (\<lambda>(need, tag). need \<and> tag \<notin> set tags)
       [(nd_Storage n, ''storage''), (nd_Ingress n, ''ingress''), (nd_Egress n, ''egress'')])"

section \<open>Lemmas\<close>

lemma find_key_None: "find (\<lambda>k. k \<notin> set ks) xs = None \<longleftrightarrow> set xs \<subseteq> set ks"
  by (auto simp: find_None_iff)

lemma first_err_None: "first_err f xs = None \<longleftrightarrow> (\<forall>x \<in> set xs. f x = None)"
  by (induction xs) (auto split: option.splits)

text \<open>What the gate lets through, row by row, and when an unticked plan loses nothing.\<close>

lemma checkApprove_None:
  "checkApprove planID decoded ticked confirm = None \<longleftrightarrow>
     (\<exists>p. decoded = Inr p \<and> pl_Blockers p = [] \<and> (pl_Changes p \<noteq> [] \<or> pl_Gaps p = [])
        \<and> (\<forall>k \<in> set ticked. \<exists>c \<in> set (pl_Changes p). ch_Optional c \<and> ch_Key c = k)
        \<and> ((\<exists>c \<in> set (pl_Changes p). ch_Impact c \<noteq> []) \<longrightarrow> confirm))"
proof (cases decoded)
  case (Inr p)
  have "Approvable p ticked confirm = None \<longleftrightarrow> set ticked \<subseteq> ch_Key ` set (Removals p) \<and> (Risky p \<longrightarrow> confirm)"
    using find_key_None [of "map ch_Key (Removals p)" ticked]
    by (auto simp: Approvable_def Let_def split: option.splits)
  moreover have "set ticked \<subseteq> ch_Key ` set (Removals p) \<longleftrightarrow> (\<forall>k \<in> set ticked. \<exists>c \<in> set (pl_Changes p). ch_Optional c \<and> ch_Key c = k)"
    by (auto simp: Removals_def)
  ultimately show ?thesis using Inr by (simp add: checkApprove_def Blocked_def Risky_def list_ex_iff)
qed (simp add: checkApprove_def)

lemma OnlyTicked_none: "OnlyTicked p [] = p \<longleftrightarrow> Removals p = []"
proof -
  have "OnlyTicked p [] = p \<longleftrightarrow> filter (\<lambda>c. \<not> ch_Optional c) (pl_Changes p) = pl_Changes p"
    by (cases p) (simp add: OnlyTicked_def)
  then show ?thesis by (auto simp: Removals_def filter_id_conv filter_empty_conv)
qed

lemma mset_split: "mset xs = mset (filter (\<lambda>x. \<not> P x) xs) + {#x \<in># mset xs. P x#}"
  by (induction xs) simp_all

text \<open>A param declaration a file may hold.\<close>

definition param_ok :: "bool \<Rightarrow> string \<times> file_param \<Rightarrow> bool" where
  "param_ok allowGenerate np = (case np of (n, p) \<Rightarrow> ValidName n
     \<and> (fp_Type p = ''param'' \<and> fp_Generate p = 0
        \<or> fp_Type p = ''secret'' \<and> fp_Value p = None \<and> (fp_Generate p = 0 \<or> allowGenerate \<and> 16 \<le> fp_Generate p \<and> fp_Generate p \<le> 128)))"

lemma check_param_None: "check_param allow c np = None \<longleftrightarrow> param_ok allow np"
  by (cases np) (auto simp: check_param_def param_ok_def)

lemma pieces_of_ref: "CHR ''}'' \<notin> set b \<Longrightarrow> pieces (''${{'' @ b @ ''}}'') = [Body b]"
  using match_ref_of_ref [of b "[]"] by simp

lemma IsRef_shape:
  assumes "IsRef s"
  shows "\<exists>b. trim_space s = ''${{'' @ b @ ''}}''"
proof -
  let ?t = "trim_space s"
  obtain u where u: "?t = ''${{'' @ u" using assms by (auto simp: IsRef_def Let_def has_prefix_iff)
  obtain v where "rev ?t = rev ''}}'' @ v" using assms by (auto simp: IsRef_def Let_def has_suffix_def has_prefix_iff)
  then have v: "?t = rev v @ ''}}''" by (metis rev_append rev_rev_ident)
  from u v have "''${{'' @ u = rev v @ ''}}''" by simp
  then consider us where "''${{'' = rev v @ us" "us @ u = ''}}''" | us where "''${{'' @ us = rev v" "u = us @ ''}}''"
    unfolding append_eq_append_conv2 by metis
  then show ?thesis
  proof cases
    case (1 us)
    have "set us \<subseteq> set ''${{''" unfolding 1(1) by simp
    then have "CHR ''}'' \<notin> set us" by auto
    then have "us = []" using 1(2) by (cases us) auto
    then show ?thesis using 1 u by (intro exI [of _ "[]"]) simp
  next
    case (2 us)
    then show ?thesis using u by auto
  qed
qed


section \<open>Properties\<close>

text \<open>
  C32: The approve contract of a configuration plan. An approval passes the gate exactly when the stored plan
  decodes, has no blocker, has something to apply or no gap, every ticked key is the key of one of its
  removal rows, and, if a row has an impact line, the approver confirmed. What an apply then walks is the
  plan with its rows in their order, less exactly the removal rows nobody ticked: every plain row stays
  (the removal of a plain param, which the diff does not make a removal row, is one of them), and its
  removal rows are the ticked ones. A plan may apply by itself exactly when it passes that gate with nothing
  ticked and no confirm and loses no row by it.
\<close>

theorem approve_gate_and_walk:
  "(checkApprove planID decoded ticked confirm = None \<longleftrightarrow>
      (\<exists>p. decoded = Inr p \<and> pl_Blockers p = [] \<and> (pl_Changes p \<noteq> [] \<or> pl_Gaps p = [])
        \<and> (\<forall>k \<in> set ticked. \<exists>c \<in> set (pl_Changes p). ch_Optional c \<and> ch_Key c = k)
        \<and> ((\<exists>c \<in> set (pl_Changes p). ch_Impact c \<noteq> []) \<longrightarrow> confirm)))
   \<and> subseq (pl_Changes (OnlyTicked p ticked)) (pl_Changes p)
   \<and> mset (pl_Changes p) = mset (pl_Changes (OnlyTicked p ticked)) + {#c \<in># mset (pl_Changes p). ch_Optional c \<and> ch_Key c \<notin> set ticked#}
   \<and> TickedRemovals p ticked = Removals (OnlyTicked p ticked)
   \<and> (AutoOK p \<longleftrightarrow> checkApprove planID (Inr p) [] False = None \<and> OnlyTicked p [] = p)"
proof (intro conjI)
  show "checkApprove planID decoded ticked confirm = None \<longleftrightarrow>
      (\<exists>p. decoded = Inr p \<and> pl_Blockers p = [] \<and> (pl_Changes p \<noteq> [] \<or> pl_Gaps p = [])
        \<and> (\<forall>k \<in> set ticked. \<exists>c \<in> set (pl_Changes p). ch_Optional c \<and> ch_Key c = k)
        \<and> ((\<exists>c \<in> set (pl_Changes p). ch_Impact c \<noteq> []) \<longrightarrow> confirm))"
    by (rule checkApprove_None)
  show "subseq (pl_Changes (OnlyTicked p ticked)) (pl_Changes p)" by (simp add: OnlyTicked_def)
  show "mset (pl_Changes p) = mset (pl_Changes (OnlyTicked p ticked)) + {#c \<in># mset (pl_Changes p). ch_Optional c \<and> ch_Key c \<notin> set ticked#}"
    using mset_split [of "pl_Changes p" "\<lambda>c. ch_Optional c \<and> ch_Key c \<notin> set ticked"] by (simp add: OnlyTicked_def)
  show "TickedRemovals p ticked = Removals (OnlyTicked p ticked)"
    unfolding OnlyTicked_def TickedRemovals_def Removals_def by simp (rule filter_cong, blast+)
  show "AutoOK p \<longleftrightarrow> checkApprove planID (Inr p) [] False = None \<and> OnlyTicked p [] = p"
    unfolding OnlyTicked_none checkApprove_None AutoOK_def Blocked_def Risky_def list_ex_iff by auto
qed

definition ex_change :: "string \<Rightarrow> bool \<Rightarrow> string \<Rightarrow> change" where
  "ex_change tile opt key = \<lparr>ch_Kind = ''update'', ch_Tile = tile, ch_Field = ''port'', ch_Old = ''80'', ch_New = ''8080'', ch_Note = [], ch_Impact = [],
     ch_Optional = opt, ch_Key = key\<rparr>"

definition ex_plan :: plan where
  "ex_plan = \<lparr>pl_Changes = [ex_change ''api'' False [], ex_change ''old'' True ''route:old''], pl_Blockers = [], pl_Notes = [], pl_Gaps = []\<rparr>"

theorem approve_gate_and_walk_witness:
  "checkApprove ''p1'' (Inr ex_plan) [''route:old''] False = None
   \<and> checkApprove ''p1'' (Inr ex_plan) [''route:new''] False \<noteq> None
   \<and> checkApprove ''p1'' (Inr (Block (\<lambda>f args. f) ex_plan ''no node'' [])) [] True \<noteq> None
   \<and> \<not> AutoOK ex_plan \<and> AutoOK (OnlyTicked ex_plan [])"
proof -
  have f: "pl_Blockers ex_plan = []" "pl_Changes ex_plan \<noteq> []" "pl_Blockers (Block (\<lambda>f args. f) ex_plan ''no node'' []) \<noteq> []"
    "\<forall>k \<in> set [''route:old'']. \<exists>c \<in> set (pl_Changes ex_plan). ch_Optional c \<and> ch_Key c = k"
    "\<not> (\<exists>c \<in> set (pl_Changes ex_plan). ch_Impact c \<noteq> [])"
    "\<not> (\<forall>k \<in> set [''route:new'']. \<exists>c \<in> set (pl_Changes ex_plan). ch_Optional c \<and> ch_Key c = k)"
    by (simp_all add: ex_plan_def ex_change_def Block_def)
  have w: "OnlyTicked ex_plan [] \<noteq> ex_plan" "OnlyTicked (OnlyTicked ex_plan []) [] = OnlyTicked ex_plan []"
    "checkApprove ''p1'' (Inr (OnlyTicked ex_plan [])) [] False = None"
    by (simp_all add: OnlyTicked_def ex_plan_def ex_change_def checkApprove_def Approvable_def Blocked_def Risky_def)
  note gate = approve_gate_and_walk [of "''p1''"]
  have "checkApprove ''p1'' (Inr ex_plan) [''route:old''] False = None"
    unfolding conjunct1 [OF gate [of "Inr ex_plan" "[''route:old'']" False ex_plan]] using f by blast
  moreover have "checkApprove ''p1'' (Inr ex_plan) [''route:new''] False \<noteq> None"
    unfolding conjunct1 [OF gate [of "Inr ex_plan" "[''route:new'']" False ex_plan]] using f(6) by blast
  moreover have "checkApprove ''p1'' (Inr (Block (\<lambda>f args. f) ex_plan ''no node'' [])) [] True \<noteq> None"
    unfolding conjunct1 [OF gate [of "Inr (Block (\<lambda>f args. f) ex_plan ''no node'' [])" "[]" True ex_plan]] using f(3) by blast
  moreover have "\<not> AutoOK ex_plan" using gate [of "Inr ex_plan" "[]" False ex_plan] w(1) by blast
  moreover have "AutoOK (OnlyTicked ex_plan [])"
    using gate [of "Inr ex_plan" "[]" False "OnlyTicked ex_plan []"] w(2,3) by simp
  ultimately show ?thesis by blast
qed

text \<open>
  The params grammar of a file accepts exactly the declarations it means to, whatever order the
  decoder visits them in: valid names, a plain param without generate, or a secret with no value, whose
  generated length, where the file may ask for one, is from 16 to 128. So no accepted file holds a secret.
\<close>

theorem CheckWide_accepts:
  "CheckWide ps allow = None \<longleftrightarrow> (\<forall>(c, entries) \<in> set ps. ValidName c \<and> list_all (param_ok allow) entries)"
  by (auto simp: CheckWide_def first_err_None check_param_None list_all_iff split: if_splits prod.splits)

theorem CheckWide_accepts_witness:
  "CheckWide [(''db'', [(''pw'', \<lparr>fp_Type = ''secret'', fp_Value = None, fp_Generate = 32\<rparr>)])] True = None"
proof -
  have "\<forall>(c, entries) \<in> set [(''db'', [(''pw'', \<lparr>fp_Type = ''secret'', fp_Value = None, fp_Generate = 32\<rparr>)])]. ValidName c \<and> list_all (param_ok True) entries"
    by code_simp
  then show ?thesis using CheckWide_accepts by blast
qed

text \<open>
  A credential a file may hold is empty or, when no closing brace stands inside it, one reference and
  nothing else for the resolver of params: its only piece is a reference body, so expanding it never
  yields text of the file.
\<close>

theorem CheckSecretRef_is_reference:
  assumes "CheckSecretRef what v = None" "v \<noteq> []" "CHR ''}'' \<notin> set (butlast (butlast (trim_space v)))"
  shows "\<exists>b. pieces (trim_space v) = [Body b]"
proof -
  have "IsRef v" using assms(1,2) by (simp add: CheckSecretRef_def split: if_splits)
  then obtain b where b: "trim_space v = ''${{'' @ b @ ''}}''" using IsRef_shape by blast
  have "butlast (butlast (''${{'' @ b @ ''}}'')) = ''${{'' @ b" by (simp add: butlast_append)
  then have "CHR ''}'' \<notin> set b" using assms(3) unfolding b by auto
  then show ?thesis unfolding b using pieces_of_ref by blast
qed

theorem CheckSecretRef_is_reference_witness:
  "\<exists>b. pieces (trim_space ''${{ server.params.smtp.pw }}'') = [Body b]"
proof -
  have "CheckSecretRef ''w'' ''${{ server.params.smtp.pw }}'' = None" "''${{ server.params.smtp.pw }}'' \<noteq> []"
    "CHR ''}'' \<notin> set (butlast (butlast (trim_space ''${{ server.params.smtp.pw }}'')))" by code_simp+
  then show ?thesis by (rule CheckSecretRef_is_reference)
qed

text \<open>
  Without that condition it fails: a literal with a closing brace inside is taken for a reference by the
  file's check, and is plain text for the resolver, which gives it back as it stands.
\<close>

theorem CheckSecretRef_accepts_literal:
  "CheckSecretRef ''protect_password'' ''${{ hunter}2 }}'' = None \<and> \<not> HasRef ''${{ hunter}2 }}''
   \<and> snd (Expand rr InEnv ''${{ hunter}2 }}'') = Inr ''${{ hunter}2 }}''"
proof -
  have a: "CheckSecretRef ''protect_password'' ''${{ hunter}2 }}'' = None" and h: "\<not> HasRef ''${{ hunter}2 }}''" by code_simp+
  then show ?thesis by (simp add: Expand_def)
qed

text \<open>
  A node fits what an env asks of it exactly when it has the tag of every need; what is missing is
  named once, in a fixed order.
\<close>

theorem Fits_iff:
  "Fits tags n = [] \<longleftrightarrow> (nd_Storage n \<longrightarrow> ''storage'' \<in> set tags) \<and> (nd_Ingress n \<longrightarrow> ''ingress'' \<in> set tags) \<and> (nd_Egress n \<longrightarrow> ''egress'' \<in> set tags)"
  by (auto simp: Fits_def)

end
