(* ===== verification/Settings.thy ===== *)
theory Settings
  imports Errs "HOL-Library.Word" "HOL-Library.Log_Nat"
begin

text \<open>
  \<^verbatim>\<open>internal/service/internal/leaf/settings\<close> (\<^verbatim>\<open>catalogue.go\<close>, \<^verbatim>\<open>settings.go\<close>, \<^verbatim>\<open>flat.go\<close>): the catalogue of knobs, the cascade of
  overrides and the install-wide rows.  A \<^verbatim>\<open>float64\<close> is a rational, an infinity or not a number, with
  the comparisons Go makes; a conversion from int rounds to 53 bits.  The number, cron and JSON
  libraries are the fields of \<open>set_env\<close>.
\<close>

unbundle bit_operations_syntax

section \<open>Model: floats\<close>

datatype float64 = Fin rat | PosInf | NegInf | NaN

fun f_less :: "float64 \<Rightarrow> float64 \<Rightarrow> bool" where
  "f_less NaN _ = False"
| "f_less _ NaN = False"
| "f_less (Fin x) (Fin y) = (x < y)"
| "f_less (Fin x) PosInf = True"
| "f_less NegInf (Fin y) = True"
| "f_less NegInf PosInf = True"
| "f_less _ _ = False"

definition f_eq :: "float64 \<Rightarrow> float64 \<Rightarrow> bool" where
  "f_eq a b \<longleftrightarrow> a = b \<and> a \<noteq> NaN"

text \<open>Round half to even at 53 bits of mantissa, and back to an int64 (out of range: the least one).\<close>

definition round53 :: "int \<Rightarrow> int" where
  "round53 x =
     (let k = nat (bitlen \<bar>x\<bar> - 53); q = \<bar>x\<bar> div 2 ^ k; r = \<bar>x\<bar> mod 2 ^ k;
          q' = (if 2 * r > 2 ^ k \<or> 2 * r = 2 ^ k \<and> odd q then q + 1 else q)
      in if k = 0 then x else sgn x * q' * 2 ^ k)"

definition f_of_int :: "int \<Rightarrow> float64" where
  "f_of_int x = Fin (rat_of_int (round53 x))"

definition int_of_f :: "float64 \<Rightarrow> int" where
  "int_of_f f = (case f of
     Fin x \<Rightarrow> let i = (if x < 0 then - \<lfloor>- x\<rfloor> else \<lfloor>x\<rfloor>) in if - (2 ^ 63) \<le> i \<and> i < 2 ^ 63 then i else - (2 ^ 63)
   | _ \<Rightarrow> - (2 ^ 63))"

section \<open>Model: the catalogue\<close>

datatype knob_type = TInt | TFloat | TBool | TStr

type_synonym scope = "8 word"

definition ScServer :: scope where "ScServer = 1"
definition ScOrg :: scope where "ScOrg = 2"
definition ScStack :: scope where "ScStack = 4"
definition ScEnv :: scope where "ScEnv = 8"
definition ScTile :: scope where "ScTile = 16"
definition ScFlat :: scope where "ScFlat = 32"
definition Below :: scope where "Below = ScOrg OR ScStack OR ScEnv"
definition AllScopes :: scope where "AllScopes = ScServer OR Below"

definition scope_String :: "scope \<Rightarrow> string" where
  "scope_String s =
     (if s = ScServer then ''server'' else if s = ScOrg then ''org'' else if s = ScStack then ''stack''
      else if s = ScEnv then ''environment'' else if s = ScTile then ''tile'' else if s = ScFlat then ''install'' else ''scope'')"

record knob =
  k_Key :: string
  k_Label :: string
  k_Type :: knob_type
  k_Default :: string
  k_Scopes :: scope
  k_AllowZero :: bool
  k_EmptyOff :: bool
  k_ReadOnly :: bool
  k_ConfigOnly :: bool
  k_Desc :: string

definition knob_row :: "string \<Rightarrow> string \<Rightarrow> knob_type \<Rightarrow> string \<Rightarrow> scope \<Rightarrow> bool \<Rightarrow> bool \<Rightarrow> bool \<Rightarrow> bool \<Rightarrow> string \<Rightarrow> knob" where
  "knob_row key label ty dflt scopes zero emptyoff readonly configonly desc =
     \<lparr>k_Key = key, k_Label = label, k_Type = ty, k_Default = dflt, k_Scopes = scopes, k_AllowZero = zero,
      k_EmptyOff = emptyoff, k_ReadOnly = readonly, k_ConfigOnly = configonly, k_Desc = desc\<rparr>"

definition DefaultsKey :: string where
  "DefaultsKey = ''defaults''"

text \<open>The columns: key, label, type, default, scopes, AllowZero, EmptyOff, ReadOnly, ConfigOnly, description.\<close>

definition Catalogue :: "knob list" where
  "Catalogue =
    [knob_row ''cpu_limit'' ''CPU limit (cores)'' TFloat ''0'' (AllScopes OR ScTile) True False False False
       ''CPU cores; 0 is unlimited; a lower level stays within a higher one'',
     knob_row ''mem_limit_mb'' ''Memory limit (MB)'' TInt ''0'' (AllScopes OR ScTile) True False False False
       ''memory cap in MB; 0 is unlimited; a lower level stays within a higher one'',
     knob_row ''protect'' ''Password protect URLs'' TBool ''false'' (AllScopes) False False False False
       ''basic auth in front of every URL below this level'',
     knob_row ''protect_user'' ''Protect user'' TStr [] (AllScopes) False False False False
       ''basic auth user'',
     knob_row ''protect_password'' ''Protect password'' TStr [] (AllScopes) False False False False
       ''plain text or a ${{ }} ref'',
     knob_row ''workers'' ''Job workers'' TInt ''2'' (ScFlat) False False False False
       ''jobs that run at once'',
     knob_row ''image_check_interval'' ''Image check interval (minutes)'' TInt ''60'' (ScFlat) True False False False
       ''minutes between checks for newer images; 0 is off'',
     knob_row ''seed_max_gb'' ''Largest seed dump (GB)'' TInt ''10'' (ScFlat) False False False False
       ''the biggest dump a new database may start from'',
     knob_row ''orphan_retention_days'' ''Orphan retention (days)'' TInt ''30'' (ScFlat) False False False False
       ''days an orphaned volume is kept before its last backup and delete'',
     knob_row ''pids_limit'' ''Process limit per container'' TInt ''4096'' (ScFlat) True False False False
       ''processes and threads one container may hold, so a fork bomb stays in it; 0 is unlimited'',
     knob_row ''backup_run_concurrency'' ''Backups at once'' TInt ''2'' (ScFlat) False False False False
       ''backups that run at once'',
     knob_row ''backup_restore_concurrency'' ''Restores at once'' TInt ''1'' (ScFlat) False False False False
       ''restores that run at once'',
     knob_row ''panel_domain'' ''Panel domain'' TStr [] (ScFlat) False False False False
       ''the domain the panel answers on'',
     knob_row ''root_domain'' ''Root domain'' TStr [] (ScFlat) False False False False
       ''the root domain; tiles get names under it'',
     knob_row ''acme_email'' ''ACME email'' TStr [] (ScFlat) False False False False
       ''contact address for certificates'',
     knob_row ''ipv6'' ''IPv6'' TBool ''false'' (ScFlat) False False False False
       ''serve and publish AAAA records over IPv6'',
     knob_row ''trusted_proxies'' ''Trusted proxies'' TStr [] (ScFlat) False False False False
       ''CIDRs whose X-Forwarded-For is trusted'',
     knob_row ''proxy_custom'' ''Custom Caddy config'' TStr [] (ScFlat) False False False False
       ''admin-only extra Caddy config'',
     knob_row ''cleanup_enabled'' ''Nightly cleanup'' TBool ''true'' (ScFlat) False False False False
       ''nightly image and build cache sweep'',
     knob_row ''cleanup_schedule'' ''Cleanup schedule'' TStr ''30 4 * * *'' (ScFlat) False False False False
       ''five-field cron. Empty is 4:30 daily.'',
     knob_row ''registry_cleanup_schedule'' ''Registry cleanup schedule'' TStr ''15 4 * * *'' (ScFlat) False True False False
       ''five-field cron. Empty is off.'',
     knob_row ''registry_keep'' ''Registry versions kept'' TInt ''3'' (ScFlat) False False False False
       ''newest versions kept per repository. A version an env runs is always kept.'',
     knob_row ''orphans_enabled'' ''Orphan sweep'' TBool ''true'' (ScFlat) False False False False
       ''back up and delete orphaned volumes past retention'',
     knob_row ''orphans_schedule'' ''Orphan sweep schedule'' TStr ''@daily'' (ScFlat) False False False False
       ''five-field cron. Empty is 0:00 daily.'',
     knob_row ''panel_backup_enabled'' ''Panel backups'' TBool ''true'' (ScFlat) False False False False
       ''the panel archives itself on its schedule'',
     knob_row ''panel_backup_schedule'' ''Panel backup schedule'' TStr ''0 3 * * *'' (ScFlat) False False False False
       ''five-field cron. Empty is 3:00 daily.'',
     knob_row ''panel_backup_keep'' ''Panel backups kept'' TInt ''14'' (ScFlat) False False False False
       ''scheduled panel archives kept at the destination'',
     knob_row ''panel_backup_dest'' ''Panel backup destination id'' TStr [] (ScFlat) False False False False
       ''global backup destination id for panel archives; empty is local'',
     knob_row ''observe_enabled'' ''Keep metrics history'' TBool ''true'' (ScFlat) False False False False
       ''keep metrics history in the stackr-observe container'',
     knob_row ''observe_metrics_retention'' ''Metrics retention (days)'' TInt ''30'' (ScFlat) False False False False
       ''days of metrics history kept'',
     knob_row ''observe_min_free'' ''Free disk floor (GB)'' TInt ''5'' (ScFlat) False False False False
       ''GB of free disk below which metrics stop being written'',
     knob_row ''observe_logs_enabled'' ''Keep logs'' TBool ''true'' (ScFlat) False False False False
       ''keep logs in the stackr-observe container, with metrics history on'',
     knob_row ''observe_logs_retention'' ''Logs retention (days)'' TInt ''7'' (ScFlat) False False False False
       ''days of logs kept'',
     knob_row ''observe_logs_max_size'' ''Logs size cap (GB)'' TInt ''10'' (ScFlat) False False False False
       ''GB of disk the logs may use; the oldest days go first'',
     knob_row ''observe_max_memory'' ''Memory cap (MB)'' TInt ''1024'' (ScFlat) False False False False
       ''MB of memory the stackr-observe container may use, at least 256'',
     knob_row ''observe_access_query'' ''Access log query string'' TBool ''false'' (ScFlat) False False False False
       ''keep the query string in access logs'',
     knob_row ''observe_access_ip'' ''Access log client IP'' TBool ''true'' (ScFlat) False False False False
       ''keep the client address in access logs'',
     knob_row ''observe_access_headers'' ''Access log headers'' TBool ''false'' (ScFlat) False False False False
       ''keep all request headers in access logs, cookies and Authorization included; off keeps User-Agent only'',
     knob_row ''alert_webhook_url'' ''Alert webhook URL'' TStr [] (ScFlat) False False False False
       ''where alerts are posted as JSON; empty is off (the Alerts tab)'',
     knob_row ''heartbeat_url'' ''Heartbeat URL'' TStr [] (ScFlat) False False False False
       ''a dead-man's-switch URL the panel GETs every minute; empty is off (the Alerts tab)'',
     knob_row ''server_config_connector'' ''Server file connector'' TStr [] (ScFlat) False False False True
       ''id of the server connector the server file is read through'',
     knob_row ''server_config_repo'' ''Server file repo'' TStr [] (ScFlat) False False False True
       ''the repo that holds stackr-server.yml; empty is unbound'',
     knob_row ''server_config_branch'' ''Server file branch'' TStr [] (ScFlat) False False False True
       ''the branch of the server file; empty is the repo's default'',
     knob_row ''server_config_path'' ''Server file path'' TStr [] (ScFlat) False False False True
       ''path of the server file in the repo; empty is stackr-server.yml'',
     knob_row ''server_config_auto'' ''Server file auto apply'' TBool ''false'' (ScFlat) False False False True
       ''apply a server plan with no impact lines and no removals by itself'']"

definition knob_lookup :: "string \<Rightarrow> knob option" where
  "knob_lookup key = find (\<lambda>k. k_Key k = key) Catalogue"

definition Default :: "string \<Rightarrow> string" where
  "Default key = (case knob_lookup key of None \<Rightarrow> [] | Some k \<Rightarrow> k_Default k)"

definition cronKnobs :: "string list" where
  "cronKnobs = [''panel_backup_schedule'', ''cleanup_schedule'', ''orphans_schedule'', ''registry_cleanup_schedule'']"

definition IsCron :: "string \<Rightarrow> bool" where
  "IsCron key \<longleftrightarrow> key \<in> set cronKnobs"

section \<open>Model: one level and the cascade\<close>

record settings =
  st_CPULimit :: "float64 option"
  st_MemLimitMB :: "int option"
  st_Protect :: "bool option"
  st_ProtectUser :: "string option"
  st_ProtectPassword :: "string option"

record resolved =
  rv_CPULimit :: float64
  rv_MemLimitMB :: int
  rv_Protect :: bool
  rv_ProtectUser :: string
  rv_ProtectPassword :: string

definition no_settings :: settings where
  "no_settings = \<lparr>st_CPULimit = None, st_MemLimitMB = None, st_Protect = None, st_ProtectUser = None, st_ProtectPassword = None\<rparr>"

definition capped :: "float64 \<Rightarrow> float64 \<Rightarrow> float64" where
  "capped child parent = (if f_less (Fin 0) parent \<and> (f_eq child (Fin 0) \<or> f_less parent child) then parent else child)"

definition deref :: "string option \<Rightarrow> string" where
  "deref p = (case p of None \<Rightarrow> [] | Some s \<Rightarrow> s)"

definition resolve_level :: "resolved \<Rightarrow> settings \<Rightarrow> resolved" where
  "resolve_level r0 s =
     (let r1 = (case st_CPULimit s of None \<Rightarrow> r0 | Some c \<Rightarrow> r0\<lparr>rv_CPULimit := capped c (rv_CPULimit r0)\<rparr>);
          r2 = (case st_MemLimitMB s of None \<Rightarrow> r1
                | Some m \<Rightarrow> r1\<lparr>rv_MemLimitMB := int_of_f (capped (f_of_int m) (f_of_int (rv_MemLimitMB r1)))\<rparr>);
          r3 = (case st_Protect s of None \<Rightarrow> r2 | Some p \<Rightarrow> r2\<lparr>rv_Protect := p\<rparr>)
      in if st_ProtectUser s \<noteq> None \<or> st_ProtectPassword s \<noteq> None
         then r3\<lparr>rv_ProtectUser := deref (st_ProtectUser s), rv_ProtectPassword := deref (st_ProtectPassword s)\<rparr> else r3)"

definition zero_resolved :: resolved where
  "zero_resolved = \<lparr>rv_CPULimit = Fin 0, rv_MemLimitMB = 0, rv_Protect = False, rv_ProtectUser = [], rv_ProtectPassword = []\<rparr>"

definition settings_Resolve :: "settings list \<Rightarrow> resolved" where
  "settings_Resolve levels = foldl resolve_level zero_resolved levels"

definition EffectiveLimits :: "resolved \<Rightarrow> float64 \<Rightarrow> int \<Rightarrow> float64 \<times> int" where
  "EffectiveLimits r cpu memMB = (capped cpu (rv_CPULimit r), int_of_f (capped (f_of_int memMB) (f_of_int (rv_MemLimitMB r))))"

definition settings_Check :: "settings \<Rightarrow> error" where
  "settings_Check s =
     (let user = (case st_ProtectUser s of None \<Rightarrow> False | Some u \<Rightarrow> u \<noteq> []);
          pass = (case st_ProtectPassword s of None \<Rightarrow> False | Some p \<Rightarrow> p \<noteq> [])
      in if user = pass then None
         else if user then Some (Errorf ''protection needs a password as well as a user'' [])
         else Some (Errorf ''protection needs a user as well as a password'' []))"

section \<open>Model: parsing values\<close>

record set_env =
  se_parseFloat :: "string \<Rightarrow> float64 option"
  se_cronOK :: "string \<Rightarrow> bool"
  se_routes :: "string \<Rightarrow> string + bool list"
  se_encode :: "settings \<Rightarrow> string"
  se_decode :: "string \<Rightarrow> err + settings"
  se_text :: "err \<Rightarrow> string"

text \<open>
  \<^verbatim>\<open>strconv.ParseFloat\<close>, \<^verbatim>\<open>cron.ParseStandard\<close>, the decoding of the custom routes (an error's text, or for each element
  whether it is null), the JSON form of a level, and \<^verbatim>\<open>Error()\<close>.
\<close>

definition parse_bool :: "string \<Rightarrow> bool option" where
  "parse_bool s =
     (if s \<in> {''1'', ''t'', ''T'', ''TRUE'', ''true'', ''True''} then Some True
      else if s \<in> {''0'', ''f'', ''F'', ''FALSE'', ''false'', ''False''} then Some False else None)"

definition invalid :: "knob \<Rightarrow> string \<Rightarrow> string list \<Rightarrow> err" where
  "invalid k format args = Invalid (k_Key k) (k_Label k) (format, args) 0"

primrec typeWords :: "knob_type \<Rightarrow> string" where
  "typeWords TInt = ''a whole number''"
| "typeWords TFloat = ''a number''"
| "typeWords TBool = ''true or false''"
| "typeWords TStr = ''text''"

definition opt_str :: "string \<Rightarrow> string option" where
  "opt_str raw = (if raw = [] then None else Some raw)"

definition parseOpt :: "knob \<Rightarrow> string \<Rightarrow> (string \<Rightarrow> 'a option) \<Rightarrow> 'a option \<times> error" where
  "parseOpt k raw parse =
     (if raw = [] then (None, None)
      else (case parse raw of
          None \<Rightarrow> (None, Some (invalid k ''Use %s, not %q.'' [typeWords (k_Type k), raw]))
        | Some v \<Rightarrow> (Some v, None)))"

definition usable :: "knob \<Rightarrow> float64 \<Rightarrow> error" where
  "usable k v =
     (if f_less v (Fin 0) \<and> k_AllowZero k then Some (invalid k ''Use 0 or more.'' [])
      else if f_less v (Fin 1) \<and> k_Type k = TInt \<and> \<not> k_AllowZero k then Some (invalid k ''Use 1 or more.'' [])
      else if (f_less v (Fin 0) \<or> f_eq v (Fin 0)) \<and> \<not> k_AllowZero k then Some (invalid k ''Use a number above 0.'' [])
      else None)"

text \<open>\<open>num\<close> is the value as the comparisons see it.\<close>

definition parseNum :: "('a \<Rightarrow> float64) \<Rightarrow> knob \<Rightarrow> string \<Rightarrow> (string \<Rightarrow> 'a option) \<Rightarrow> 'a option \<times> error" where
  "parseNum num k raw parse = (case parseOpt k raw parse of
     (v, Some e) \<Rightarrow> (v, Some e)
   | (None, None) \<Rightarrow> (None, None)
   | (Some v, None) \<Rightarrow> (case usable k (num v) of Some e \<Rightarrow> (None, Some e) | None \<Rightarrow> (Some v, None)))"

definition int_num :: "int \<Rightarrow> float64" where
  "int_num i = Fin (rat_of_int i)"

definition settings_Set :: "set_env \<Rightarrow> settings \<Rightarrow> string \<Rightarrow> string \<Rightarrow> settings \<times> error" where
  "settings_Set e s key raw0 = (case knob_lookup key of
     None \<Rightarrow> (s, Some (Errorf ''no setting named %q'' [key]))
   | Some k \<Rightarrow>
     if k_Scopes k AND ScFlat \<noteq> 0 then (s, Some (Errorf ''no setting named %q'' [key]))
     else let raw = trim_space raw0 in
       if key = ''cpu_limit'' then (case parseNum id k raw (se_parseFloat e) of (v, er) \<Rightarrow> (s\<lparr>st_CPULimit := v\<rparr>, er))
       else if key = ''mem_limit_mb'' then (case parseNum int_num k raw atoi of (v, er) \<Rightarrow> (s\<lparr>st_MemLimitMB := v\<rparr>, er))
       else if key = ''protect'' then (case parseOpt k raw parse_bool of (v, er) \<Rightarrow> (s\<lparr>st_Protect := v\<rparr>, er))
       else if key = ''protect_user'' then (s\<lparr>st_ProtectUser := opt_str raw\<rparr>, None)
       else if key = ''protect_password'' then (s\<lparr>st_ProtectPassword := opt_str raw\<rparr>, None)
       else (s, None))"

fun merge_knobs :: "set_env \<Rightarrow> (string \<times> string) list \<Rightarrow> scope \<Rightarrow> knob list \<Rightarrow> settings \<Rightarrow> err + settings" where
  "merge_knobs e vals sc [] s = Inr s"
| "merge_knobs e vals sc (k # ks) s = (case map_of vals (k_Key k) of
     None \<Rightarrow> merge_knobs e vals sc ks s
   | Some raw \<Rightarrow>
     if k_Scopes k AND sc = 0 then Inl (invalid k ''This cannot be set on a %s.'' [scope_String sc])
     else (case settings_Set e s (k_Key k) raw of
         (s', Some er) \<Rightarrow> Inl er
       | (s', None) \<Rightarrow> merge_knobs e vals sc ks s'))"

definition settings_Merge :: "set_env \<Rightarrow> settings \<Rightarrow> (string \<times> string) list \<Rightarrow> scope \<Rightarrow> settings \<times> error" where
  "settings_Merge e s vals sc = (case merge_knobs e vals sc Catalogue s of
     Inl er \<Rightarrow> (s, Some er)
   | Inr out' \<Rightarrow> (case find (\<lambda>(key, _). knob_lookup key = None) vals of
       Some (key, _) \<Rightarrow> (s, Some (Errorf ''no setting named %q'' [key]))
     | None \<Rightarrow> (case settings_Check out' of Some er \<Rightarrow> (s, Some er) | None \<Rightarrow> (out', None))))"

text \<open>\<^verbatim>\<open>Parse\<close> and \<^verbatim>\<open>JSON\<close>: \<^verbatim>\<open>json.Marshal\<close> refuses a number that is not finite, and \<^verbatim>\<open>JSON\<close> drops its error.\<close>

definition settings_Parse :: "set_env \<Rightarrow> string \<Rightarrow> err + settings" where
  "settings_Parse e blob = (if trim_space blob = [] then Inr no_settings
     else (case se_decode e blob of Inl er \<Rightarrow> Inl (Wrap (''settings: %w'', []) er) | Inr s \<Rightarrow> Inr s))"

definition settings_JSON :: "set_env \<Rightarrow> settings \<Rightarrow> string" where
  "settings_JSON e s = (case st_CPULimit s of
     Some PosInf \<Rightarrow> [] | Some NegInf \<Rightarrow> [] | Some NaN \<Rightarrow> []
   | _ \<Rightarrow> se_encode e s)"

section \<open>Model: the rows\<close>

text \<open>The table of rows, and for each call whether the store answers.\<close>

record set_leaf =
  sl_rows :: "string \<rightharpoonup> string"
  sl_boot :: "string \<rightharpoonup> string"
  sl_fault :: error

definition unknown :: "string \<Rightarrow> err" where
  "unknown key = Invalidf [] ''unknown setting %s'' [key]"

definition Leaf_Get :: "set_leaf \<Rightarrow> string \<Rightarrow> err + string" where
  "Leaf_Get l key = (case knob_lookup key of
     None \<Rightarrow> Inl (unknown key)
   | Some k \<Rightarrow> if k_Scopes k \<noteq> ScFlat then Inl (unknown key)
     else (case sl_fault l of Some er \<Rightarrow> Inl er
       | None \<Rightarrow> (case sl_rows l key of Some v \<Rightarrow> Inr v
         | None \<Rightarrow> (case sl_boot l key of Some b \<Rightarrow> Inr b | None \<Rightarrow> Inr (k_Default k)))))"

definition Leaf_Int :: "set_leaf \<Rightarrow> string \<Rightarrow> err + int" where
  "Leaf_Int l key = (case Leaf_Get l key of Inl er \<Rightarrow> Inl er
     | Inr v \<Rightarrow> (case atoi v of None \<Rightarrow> Inl (Errorf ''strconv.Atoi: parsing %q'' [v]) | Some i \<Rightarrow> Inr i))"

definition validate :: "set_env \<Rightarrow> knob \<Rightarrow> string \<Rightarrow> error" where
  "validate e k raw =
     (if IsCron (k_Key k) \<and> \<not> se_cronOK e raw
      then Some (invalid k ''Not a cron schedule. Use five fields, like 0 3 * * * for 03:00 every day.'' [])
      else let custom = (if k_Key k = ''proxy_custom'' then
             (case se_routes e raw of
                Inl er \<Rightarrow> Some (invalid k (''Use a JSON array of Caddy route objects.'' @ [CHR 0x0A] @ ''%s'') [er])
              | Inr nulls \<Rightarrow> if list_ex id nulls then Some (invalid k ''Use a JSON array of Caddy route objects, with no null in it.'' []) else None)
             else None)
        in if custom \<noteq> None then custom
        else (case k_Type k of
            TInt \<Rightarrow> (case atoi raw of
                None \<Rightarrow> Some (invalid k ''Use a whole number, not %q.'' [raw])
              | Some v \<Rightarrow> if k_Key k = ''observe_max_memory'' \<and> v < 256 then Some (invalid k ''Use 256 MB or more.'' []) else usable k (int_num v))
          | TFloat \<Rightarrow> (case se_parseFloat e raw of None \<Rightarrow> Some (invalid k ''Use a number, not %q.'' [raw]) | Some v \<Rightarrow> usable k v)
          | TBool \<Rightarrow> (case parse_bool raw of None \<Rightarrow> Some (invalid k ''Use true or false, not %q.'' [raw]) | Some _ \<Rightarrow> None)
          | TStr \<Rightarrow> None))"

definition flat_Check :: "set_env \<Rightarrow> string \<Rightarrow> string \<Rightarrow> error" where
  "flat_Check e key raw0 = (case knob_lookup key of
     None \<Rightarrow> Some (unknown key)
   | Some k \<Rightarrow> if k_Scopes k \<noteq> ScFlat then Some (unknown key)
     else if k_ReadOnly k then Some (invalid k ''This comes from the installer and cannot be changed here.'' [])
     else let raw = trim_space raw0 in
       if raw = [] then None else validate e k raw)"

definition Leaf_Set :: "set_env \<Rightarrow> set_leaf \<Rightarrow> string \<Rightarrow> string \<Rightarrow> set_leaf \<times> error" where
  "Leaf_Set e l key raw0 = (case flat_Check e key raw0 of
     Some er \<Rightarrow> (l, Some er)
   | None \<Rightarrow>
     let raw = trim_space raw0;
         emptyOff = (case knob_lookup key of None \<Rightarrow> False | Some k \<Rightarrow> k_EmptyOff k)
     in if sl_fault l \<noteq> None then (l, sl_fault l)
        else if raw = [] \<and> \<not> emptyOff then (l\<lparr>sl_rows := (sl_rows l)(key := None)\<rparr>, None)
        else (l\<lparr>sl_rows := (sl_rows l)(key \<mapsto> raw)\<rparr>, None))"

definition Leaf_Defaults :: "set_env \<Rightarrow> set_leaf \<Rightarrow> err + settings" where
  "Leaf_Defaults e l = (case sl_fault l of Some er \<Rightarrow> Inl er
     | None \<Rightarrow> settings_Parse e (deref (sl_rows l DefaultsKey)))"

definition Leaf_SetDefaults :: "set_env \<Rightarrow> set_leaf \<Rightarrow> (string \<times> string) list \<Rightarrow> set_leaf \<times> error" where
  "Leaf_SetDefaults e l vals = (case Leaf_Defaults e l of
     Inl er \<Rightarrow> (l, Some er)
   | Inr cur \<Rightarrow> (case settings_Merge e cur vals ScServer of
       (_, Some er) \<Rightarrow> (l, Some (if IsInvalid er = None then Invalidf [] ''%s'' [se_text e er] else er))
     | (nxt, None) \<Rightarrow>
       if sl_fault l \<noteq> None then (l, sl_fault l)
       else (l\<lparr>sl_rows := (sl_rows l)(DefaultsKey \<mapsto> settings_JSON e nxt)\<rparr>, None)))"


text \<open>\<^verbatim>\<open>bootSettings\<close> of \<^verbatim>\<open>internal/service/orchestrator.go\<close>; the watch interval is in nanoseconds.\<close>

record boot_config =
  bc_Workers :: int
  bc_ImageWatchInterval :: int
  bc_OrphanRetentionDays :: int
  bc_PanelDomain :: string
  bc_RootDomain :: string
  bc_ACMEEmail :: string
  bc_TrustedProxies :: string

definition bootSettings :: "boot_config \<Rightarrow> (string \<rightharpoonup> string)" where
  "bootSettings cfg =
     (let b0 = Map.empty;
          b1 = (if bc_Workers cfg > 0 then b0(''workers'' \<mapsto> itoa (bc_Workers cfg)) else b0);
          b2 = (if bc_ImageWatchInterval cfg > 0 then b1(''image_check_interval'' \<mapsto> itoa (bc_ImageWatchInterval cfg div 60000000000)) else b1);
          b3 = (if bc_OrphanRetentionDays cfg > 0 then b2(''orphan_retention_days'' \<mapsto> itoa (bc_OrphanRetentionDays cfg)) else b2)
      in foldl (\<lambda>b (k, v). if v \<noteq> [] then b(k \<mapsto> v) else b) b3
           [(''panel_domain'', bc_PanelDomain cfg), (''root_domain'', bc_RootDomain cfg), (''acme_email'', bc_ACMEEmail cfg), (''trusted_proxies'', bc_TrustedProxies cfg)])"

section \<open>Lemmas: limits\<close>

text \<open>The ceiling rule on exact numbers.\<close>

definition cap :: "'a::linordered_idom \<Rightarrow> 'a \<Rightarrow> 'a" where
  "cap c p = (if 0 < p \<and> (c = 0 \<or> p < c) then p else c)"

lemma cap_nonneg: "0 \<le> c \<Longrightarrow> 0 \<le> p \<Longrightarrow> 0 \<le> cap c p"
  by (simp add: cap_def)

lemma cap_parent: "0 < p \<Longrightarrow> 0 \<le> c \<Longrightarrow> 0 < cap c p \<and> cap c p \<le> p"
  by (auto simp: cap_def)

lemma cap_child: "0 < c \<Longrightarrow> 0 \<le> p \<Longrightarrow> 0 < cap c p \<and> cap c p \<le> c"
  by (auto simp: cap_def)

lemma cap_bound: "c < b \<Longrightarrow> p < b \<Longrightarrow> cap c p < b"
  by (simp add: cap_def)

lemma capped_Fin: "capped (Fin c) (Fin p) = Fin (cap c p)"
  by (auto simp: capped_def cap_def f_eq_def)

lemma round53_exact: "\<bar>x\<bar> < 2 ^ 53 \<Longrightarrow> round53 x = x"
  using bitlen_le_iff_power [of "\<bar>x\<bar>" 53] by (simp add: round53_def Let_def)

lemma int_of_f_int: "\<bar>i\<bar> < 2 ^ 53 \<Longrightarrow> int_of_f (Fin (rat_of_int i)) = i"
  by (auto simp: int_of_f_def Let_def)

lemma capped_int:
  assumes "0 \<le> m" "m < 2 ^ 53" "0 \<le> p" "p < 2 ^ 53"
  shows "int_of_f (capped (f_of_int m) (f_of_int p)) = cap m p"
proof -
  have "cap (rat_of_int m) (rat_of_int p) = rat_of_int (cap m p)" by (auto simp: cap_def)
  then show ?thesis using assms cap_nonneg [of m p] cap_bound [of m "2 ^ 53" p]
    by (simp add: f_of_int_def round53_exact capped_Fin int_of_f_int)
qed

text \<open>A level whose limits are finite, not negative and (in MB) exact as a float.\<close>

definition level_ok :: "settings \<Rightarrow> bool" where
  "level_ok s \<longleftrightarrow> (case st_CPULimit s of None \<Rightarrow> True | Some (Fin c) \<Rightarrow> 0 \<le> c | _ \<Rightarrow> False)
     \<and> (case st_MemLimitMB s of None \<Rightarrow> True | Some m \<Rightarrow> 0 \<le> m \<and> m < 2 ^ 53)"

definition resolved_ok :: "resolved \<Rightarrow> bool" where
  "resolved_ok r \<longleftrightarrow> (case rv_CPULimit r of Fin c \<Rightarrow> 0 \<le> c | _ \<Rightarrow> False) \<and> 0 \<le> rv_MemLimitMB r \<and> rv_MemLimitMB r < 2 ^ 53"

lemma resolve_level_limits:
  "rv_CPULimit (resolve_level r s) = (case st_CPULimit s of None \<Rightarrow> rv_CPULimit r | Some c \<Rightarrow> capped c (rv_CPULimit r))"
  "rv_MemLimitMB (resolve_level r s) = (case st_MemLimitMB s of None \<Rightarrow> rv_MemLimitMB r
     | Some m \<Rightarrow> int_of_f (capped (f_of_int m) (f_of_int (rv_MemLimitMB r))))"
  by (simp_all add: resolve_level_def Let_def split: option.splits)

lemma resolve_level_ok:
  assumes "resolved_ok r" "level_ok s"
  shows "resolved_ok (resolve_level r s)"
  using assms
  by (auto simp: resolved_ok_def level_ok_def resolve_level_limits capped_Fin capped_int cap_nonneg cap_bound
      split: option.splits float64.splits)

lemma foldl_ok: "resolved_ok r \<Longrightarrow> \<forall>s \<in> set ls. level_ok s \<Longrightarrow> resolved_ok (foldl resolve_level r ls)"
  by (induction ls arbitrary: r) (auto intro: resolve_level_ok)

lemma zero_ok: "resolved_ok zero_resolved"
  by (simp add: resolved_ok_def zero_resolved_def)

text \<open>A limit that holds is never lost on the way down.\<close>

definition under :: "rat \<Rightarrow> int \<Rightarrow> resolved \<Rightarrow> bool" where
  "under x m r \<longleftrightarrow> (0 < x \<longrightarrow> (\<exists>y. rv_CPULimit r = Fin y \<and> 0 < y \<and> y \<le> x)) \<and> (0 < m \<longrightarrow> 0 < rv_MemLimitMB r \<and> rv_MemLimitMB r \<le> m)"

lemma under_level:
  assumes "under x m r" "resolved_ok r" "level_ok s"
  shows "under x m (resolve_level r s)"
proof -
  have "\<exists>y. rv_CPULimit (resolve_level r s) = Fin y \<and> 0 < y \<and> y \<le> x" if x: "0 < x"
  proof -
    obtain y where y: "rv_CPULimit r = Fin y" "0 < y" "y \<le> x" using assms(1) x by (auto simp: under_def)
    show ?thesis
    proof (cases "st_CPULimit s")
      case (Some f)
      then obtain c where "f = Fin c" "0 \<le> c" using assms(3) by (cases f) (auto simp: level_ok_def)
      then show ?thesis using Some y cap_parent [of y c] by (auto simp: resolve_level_limits capped_Fin)
    qed (use y in \<open>simp add: resolve_level_limits\<close>)
  qed
  moreover have "0 < rv_MemLimitMB (resolve_level r s) \<and> rv_MemLimitMB (resolve_level r s) \<le> m" if "0 < m"
  proof -
    have p: "0 < rv_MemLimitMB r" "rv_MemLimitMB r \<le> m" "rv_MemLimitMB r < 2 ^ 53" using assms(1,2) that by (auto simp: under_def resolved_ok_def)
    show ?thesis
    proof (cases "st_MemLimitMB s")
      case (Some c)
      then have "0 \<le> c" "c < 2 ^ 53" using assms(3) by (auto simp: level_ok_def)
      then show ?thesis using Some p cap_parent [of "rv_MemLimitMB r" c] by (auto simp: resolve_level_limits capped_int)
    qed (use p in \<open>simp add: resolve_level_limits\<close>)
  qed
  ultimately show ?thesis by (simp add: under_def)
qed

lemma under_foldl: "under x m r \<Longrightarrow> resolved_ok r \<Longrightarrow> \<forall>s \<in> set ls. level_ok s \<Longrightarrow> under x m (foldl resolve_level r ls)"
  by (induction ls arbitrary: r) (auto intro: under_level resolve_level_ok)

definition cpu_of :: "settings \<Rightarrow> rat" where
  "cpu_of s = (case st_CPULimit s of Some (Fin c) \<Rightarrow> c | _ \<Rightarrow> 0)"

definition mem_of :: "settings \<Rightarrow> int" where
  "mem_of s = (case st_MemLimitMB s of Some m \<Rightarrow> m | None \<Rightarrow> 0)"

lemma under_own_level:
  assumes "resolved_ok r" "level_ok s"
  shows "under (cpu_of s) (mem_of s) (resolve_level r s)"
proof -
  obtain p where p: "rv_CPULimit r = Fin p" "0 \<le> p" using assms(1) by (auto simp: resolved_ok_def split: float64.splits)
  have "\<exists>y. rv_CPULimit (resolve_level r s) = Fin y \<and> 0 < y \<and> y \<le> cpu_of s" if "0 < cpu_of s"
    using that p cap_child [of "cpu_of s" p]
    by (auto simp: cpu_of_def resolve_level_limits capped_Fin split: option.splits float64.splits)
  moreover have "0 < rv_MemLimitMB (resolve_level r s) \<and> rv_MemLimitMB (resolve_level r s) \<le> mem_of s" if "0 < mem_of s"
    using that assms cap_child [of "mem_of s" "rv_MemLimitMB r"]
    by (auto simp: mem_of_def resolve_level_limits capped_int level_ok_def resolved_ok_def split: option.splits)
  ultimately show ?thesis by (simp add: under_def)
qed

lemma Resolve_under:
  assumes "\<forall>s \<in> set levels. level_ok s" "s \<in> set levels"
  shows "under (cpu_of s) (mem_of s) (settings_Resolve levels)"
proof -
  obtain us vs where l: "levels = us @ s # vs" using assms(2) by (meson split_list)
  have "resolved_ok (foldl resolve_level zero_resolved us)" using assms(1) l by (intro foldl_ok zero_ok) auto
  then show ?thesis using assms(1) l
    by (auto simp: settings_Resolve_def intro!: under_foldl under_own_level resolve_level_ok)
qed


section \<open>Lemmas: merging\<close>

text \<open>The field a key stands for, alone.\<close>

definition field :: "string \<Rightarrow> settings \<Rightarrow> settings" where
  "field key s =
     (if key = ''cpu_limit'' then no_settings\<lparr>st_CPULimit := st_CPULimit s\<rparr>
      else if key = ''mem_limit_mb'' then no_settings\<lparr>st_MemLimitMB := st_MemLimitMB s\<rparr>
      else if key = ''protect'' then no_settings\<lparr>st_Protect := st_Protect s\<rparr>
      else if key = ''protect_user'' then no_settings\<lparr>st_ProtectUser := st_ProtectUser s\<rparr>
      else if key = ''protect_password'' then no_settings\<lparr>st_ProtectPassword := st_ProtectPassword s\<rparr>
      else no_settings)"

lemma five_keys:
  obtains "key = ''cpu_limit''" | "key = ''mem_limit_mb''" | "key = ''protect''" | "key = ''protect_user''" | "key = ''protect_password''"
  | "key \<noteq> ''cpu_limit''" "key \<noteq> ''mem_limit_mb''" "key \<noteq> ''protect''" "key \<noteq> ''protect_user''" "key \<noteq> ''protect_password''"
  by blast

lemma field_update:
  "key \<noteq> ''cpu_limit'' \<Longrightarrow> field key (s\<lparr>st_CPULimit := v1\<rparr>) = field key s"
  "key \<noteq> ''mem_limit_mb'' \<Longrightarrow> field key (s\<lparr>st_MemLimitMB := v2\<rparr>) = field key s"
  "key \<noteq> ''protect'' \<Longrightarrow> field key (s\<lparr>st_Protect := v3\<rparr>) = field key s"
  "key \<noteq> ''protect_user'' \<Longrightarrow> field key (s\<lparr>st_ProtectUser := v4\<rparr>) = field key s"
  "key \<noteq> ''protect_password'' \<Longrightarrow> field key (s\<lparr>st_ProtectPassword := v5\<rparr>) = field key s"
  by (simp_all add: field_def)

lemma field_Set_other: "key' \<noteq> key \<Longrightarrow> field key (fst (settings_Set e s key' raw)) = field key s"
  by (cases rule: five_keys [of key'])
    (simp_all add: settings_Set_def Let_def field_update split: option.splits prod.splits)

lemma Set_error: "snd (settings_Set e s key raw) = snd (settings_Set e s' key raw)"
  by (cases rule: five_keys [of key])
    (simp_all add: settings_Set_def Let_def split: option.splits prod.splits)

lemma field_Set:
  "snd (settings_Set e s key raw) = None \<Longrightarrow> field key (fst (settings_Set e s key raw)) = field key (fst (settings_Set e s' key raw))"
  by (cases rule: five_keys [of key])
    (simp_all add: settings_Set_def field_def Let_def split: option.splits prod.splits if_splits)

text \<open>What a submitted value sets a field to.\<close>

definition submitted :: "set_env \<Rightarrow> string \<Rightarrow> string \<Rightarrow> settings" where
  "submitted e key raw = field key (fst (settings_Set e no_settings key raw))"

lemma merge_knobs_fields:
  assumes "merge_knobs e vals sc ks s = Inr s'" "distinct (map k_Key ks)"
  shows "field key s' = (if key \<in> set (map k_Key ks) then case map_of vals key of None \<Rightarrow> field key s | Some raw \<Rightarrow> submitted e key raw else field key s)"
    and "k \<in> set ks \<Longrightarrow> map_of vals (k_Key k) = Some raw \<Longrightarrow> k_Scopes k AND sc \<noteq> 0 \<and> snd (settings_Set e no_settings (k_Key k) raw) = None"
proof -
  have "field key s' = (if key \<in> set (map k_Key ks) then case map_of vals key of None \<Rightarrow> field key s | Some raw \<Rightarrow> submitted e key raw else field key s)
    \<and> (\<forall>k \<in> set ks. \<forall>raw. map_of vals (k_Key k) = Some raw \<longrightarrow> k_Scopes k AND sc \<noteq> 0 \<and> snd (settings_Set e no_settings (k_Key k) raw) = None)"
    using assms
  proof (induction ks arbitrary: s)
    case (Cons k ks)
    show ?case
    proof (cases "map_of vals (k_Key k)")
      case None
      then show ?thesis using Cons by (auto split: if_splits)
    next
      case (Some raw)
      obtain s1 er where w: "settings_Set e s (k_Key k) raw = (s1, er)" by (cases "settings_Set e s (k_Key k) raw")
      have sc: "k_Scopes k AND sc \<noteq> 0" and er: "er = None" and m: "merge_knobs e vals sc ks s1 = Inr s'"
        using Cons.prems(1) Some w by (auto split: if_splits option.splits)
      have none: "snd (settings_Set e no_settings (k_Key k) raw) = None" using Set_error [of e s "k_Key k" raw no_settings] w er by simp
      have own: "field (k_Key k) s1 = submitted e (k_Key k) raw"
        using field_Set [of e s "k_Key k" raw no_settings] w er by (simp add: submitted_def)
      have other: "field key s1 = field key s" if "key \<noteq> k_Key k" using field_Set_other [of "k_Key k" key e s raw] w that by simp
      note IH = Cons.IH [OF m]
      show ?thesis using IH Cons.prems(2) Some sc none own other by (cases "key = k_Key k") (auto split: option.splits)
    qed
  qed simp
  then show "field key s' = (if key \<in> set (map k_Key ks) then case map_of vals key of None \<Rightarrow> field key s | Some raw \<Rightarrow> submitted e key raw else field key s)"
    and "k \<in> set ks \<Longrightarrow> map_of vals (k_Key k) = Some raw \<Longrightarrow> k_Scopes k AND sc \<noteq> 0 \<and> snd (settings_Set e no_settings (k_Key k) raw) = None"
    by blast+
qed

lemma Catalogue_distinct: "distinct (map k_Key Catalogue)"
  by code_simp

lemma cascade_keys: "field key s \<noteq> no_settings \<Longrightarrow> key \<in> set (map k_Key Catalogue)"
proof -
  have "set [''cpu_limit'', ''mem_limit_mb'', ''protect'', ''protect_user'', ''protect_password''] \<subseteq> set (map k_Key Catalogue)"
    by code_simp
  then show "field key s \<noteq> no_settings \<Longrightarrow> key \<in> set (map k_Key Catalogue)"
    unfolding field_def by (auto split: if_splits simp del: set_map)
qed

lemma Merge_ok:
  assumes "settings_Merge e s vals sc = (out', None)"
  shows "settings_Check out' = None" "merge_knobs e vals sc Catalogue s = Inr out'" "find (\<lambda>(key, _). knob_lookup key = None) vals = None"
  using assms by (auto simp: settings_Merge_def split: sum.splits option.splits prod.splits)

lemma Merge_refused: "settings_Merge e s vals sc = (out', Some er) \<Longrightarrow> out' = s"
  by (auto simp: settings_Merge_def split: sum.splits option.splits prod.splits)


section \<open>Lemmas: the number of workers\<close>

lemma workers_knob: "\<exists>k. knob_lookup ''workers'' = Some k \<and> k_Key k = ''workers'' \<and> k_Type k = TInt \<and> k_Scopes k = ScFlat
    \<and> \<not> k_AllowZero k \<and> \<not> k_EmptyOff k \<and> \<not> k_ReadOnly k \<and> k_Default k = ''2''"
  by (rule exI [of _ "the (knob_lookup ''workers'')"]) code_simp

text \<open>What the number of workers can be saved as: a positive number, or nothing (the default then).\<close>

lemma workers_check: "flat_Check e ''workers'' raw = None \<Longrightarrow> trim_space raw = [] \<or> (\<exists>n. atoi (trim_space raw) = Some n \<and> 1 \<le> n)"
proof -
  assume c: "flat_Check e ''workers'' raw = None"
  obtain k where k: "knob_lookup ''workers'' = Some k" "k_Key k = ''workers''" "k_Type k = TInt" "\<not> k_AllowZero k"
    using workers_knob by blast
  show ?thesis
  proof (cases "trim_space raw = []")
    case False
    have "\<not> IsCron ''workers''" by code_simp
    then have "validate e k (trim_space raw) = None" using c k(1) False by (simp add: flat_Check_def Let_def split: if_splits)
    then obtain n where "atoi (trim_space raw) = Some n" "usable k (int_num n) = None"
      using k \<open>\<not> IsCron ''workers''\<close> by (auto simp: validate_def Let_def split: option.splits if_splits)
    moreover from this have "1 \<le> n" using k(3,4) by (auto simp: usable_def int_num_def split: if_splits)
    ultimately show ?thesis by blast
  qed simp
qed

text \<open>A rung that says something of the basic-auth pair.\<close>

definition sets_pair :: "settings \<Rightarrow> bool" where
  "sets_pair s \<longleftrightarrow> st_ProtectUser s \<noteq> None \<or> st_ProtectPassword s \<noteq> None"

lemma bootSettings_workers: "bootSettings cfg ''workers'' = (if bc_Workers cfg > 0 then Some (itoa (bc_Workers cfg)) else None)"
  by (simp add: bootSettings_def Let_def)

text \<open>
  An install-wide setting reads back: after a save that was accepted, reading it gives the trimmed
  value; an empty save gives the boot value or the default again, and off for a setting whose empty value
  means off. No other setting changes.
\<close>

lemma Leaf_Set_Get:
  assumes ok: "Leaf_Set e l key raw = (l', None)" and k: "knob_lookup key = Some k"
  shows "Leaf_Get l' key = Inr (if trim_space raw \<noteq> [] \<or> k_EmptyOff k then trim_space raw
           else case sl_boot l key of Some b \<Rightarrow> b | None \<Rightarrow> k_Default k)
    \<and> (\<forall>key'. key' \<noteq> key \<longrightarrow> Leaf_Get l' key' = Leaf_Get l key')"
proof -
  have c: "flat_Check e key raw = None" and nf: "sl_fault l = None"
    using ok by (auto simp: Leaf_Set_def Let_def split: option.splits if_splits)
  have flat: "k_Scopes k = ScFlat" using c k by (auto simp: flat_Check_def split: if_splits)
  have l': "l' = l\<lparr>sl_rows := (sl_rows l)(key := if trim_space raw = [] \<and> \<not> k_EmptyOff k then None else Some (trim_space raw))\<rparr>"
    using ok k c nf by (auto simp: Leaf_Set_def Let_def split: if_splits)
  have "Leaf_Get l' key' = Leaf_Get l key'" if "key' \<noteq> key" for key' using that by (simp add: Leaf_Get_def l' split: option.splits)
  moreover have "Leaf_Get l' key = Inr (if trim_space raw \<noteq> [] \<or> k_EmptyOff k then trim_space raw
           else case sl_boot l key of Some b \<Rightarrow> b | None \<Rightarrow> k_Default k)"
    using k flat nf by (auto simp: Leaf_Get_def l' split: option.splits)
  ultimately show ?thesis by blast
qed

section \<open>Properties\<close>

text \<open>
  C31: A limit set on one rung holds for everything below it: with every rung's limits finite and not
  negative (and memory below 2 to the 53 MB, where the float detour of the code is exact), each positive
  CPU or memory limit of a rung is a ceiling of the resolved limit and of what a tile's own request
  comes to; neither becomes 0, which would mean unlimited.
\<close>

theorem limits_never_rise:
  assumes levels: "\<forall>s \<in> set levels. level_ok s" "s \<in> set levels" and tile: "0 \<le> cpu" "0 \<le> memMB" "memMB < 2 ^ 53"
    and lim: "EffectiveLimits (settings_Resolve levels) (Fin cpu) memMB = (c, m)"
  shows "(0 < cpu_of s \<longrightarrow> (\<exists>x y. rv_CPULimit (settings_Resolve levels) = Fin x \<and> 0 < x \<and> x \<le> cpu_of s \<and> c = Fin y \<and> 0 < y \<and> y \<le> x))
    \<and> (0 < mem_of s \<longrightarrow> 0 < rv_MemLimitMB (settings_Resolve levels) \<and> rv_MemLimitMB (settings_Resolve levels) \<le> mem_of s
        \<and> 0 < m \<and> m \<le> rv_MemLimitMB (settings_Resolve levels))"
proof -
  let ?r = "settings_Resolve levels"
  have ok: "resolved_ok ?r" unfolding settings_Resolve_def by (rule foldl_ok [OF zero_ok levels(1)])
  have m: "m = cap memMB (rv_MemLimitMB ?r)" using lim tile ok by (auto simp: EffectiveLimits_def capped_int resolved_ok_def)
  have "\<exists>y. c = Fin y \<and> 0 < y \<and> y \<le> x" if "rv_CPULimit ?r = Fin x" "0 < x" for x
    using lim that cap_parent [OF that(2) tile(1)] by (auto simp: EffectiveLimits_def capped_Fin)
  moreover have "0 < m \<and> m \<le> rv_MemLimitMB ?r" if "0 < rv_MemLimitMB ?r" using m cap_parent [OF that tile(2)] by simp
  ultimately show ?thesis using Resolve_under [OF levels] unfolding under_def by blast
qed

definition ex_level :: "rat \<Rightarrow> int \<Rightarrow> settings" where
  "ex_level c m = no_settings\<lparr>st_CPULimit := Some (Fin c), st_MemLimitMB := Some m\<rparr>"

theorem limits_never_rise_witness:
  "\<exists>x y. rv_CPULimit (settings_Resolve [ex_level 2 512, ex_level 4 0]) = Fin x \<and> 0 < x \<and> x \<le> 2
    \<and> fst (EffectiveLimits (settings_Resolve [ex_level 2 512, ex_level 4 0]) (Fin 8) 4096) = Fin y \<and> 0 < y \<and> y \<le> x"
proof -
  have a: "\<forall>s \<in> set [ex_level 2 512, ex_level 4 0]. level_ok s" "cpu_of (ex_level 2 512) = 2" by code_simp+
  obtain c m where l: "EffectiveLimits (settings_Resolve [ex_level 2 512, ex_level 4 0]) (Fin 8) 4096 = (c, m)"
    by (cases "EffectiveLimits (settings_Resolve [ex_level 2 512, ex_level 4 0]) (Fin 8) 4096")
  show ?thesis using limits_never_rise [OF a(1) _ _ _ _ l, of "ex_level 2 512"] a(2) l by simp
qed

text \<open>
  The user and the password that protect a URL always come from one rung: the last one that sets
  either of them, both empty when none does.
\<close>

theorem protect_pair_is_one_rung:
  "(rv_ProtectUser (settings_Resolve levels), rv_ProtectPassword (settings_Resolve levels)) =
     (case find sets_pair (rev levels) of
        None \<Rightarrow> ([], [])
      | Some s \<Rightarrow> (deref (st_ProtectUser s), deref (st_ProtectPassword s)))"
proof (induction levels rule: rev_induct)
  case Nil
  then show ?case by (simp add: settings_Resolve_def zero_resolved_def)
next
  case (snoc s levels)
  then show ?case by (auto simp: settings_Resolve_def resolve_level_def Let_def sets_pair_def split: option.splits)
qed

text \<open>
  A save of several settings is all or nothing. Refused, it leaves the level as it was; accepted, each
  submitted field has the value submitted for it, every other field is untouched, every submitted key is
  a setting that may be set on that rung and its value parsed, and no half of a basic-auth pair is left.
\<close>

theorem Merge_all_or_nothing:
  "(settings_Merge e s vals sc = (out', Some er) \<longrightarrow> out' = s)
   \<and> (settings_Merge e s vals sc = (out', None) \<longrightarrow>
        settings_Check out' = None
        \<and> (\<forall>key. field key out' = (case map_of vals key of None \<Rightarrow> field key s | Some raw \<Rightarrow> submitted e key raw))
        \<and> (\<forall>key raw. map_of vals key = Some raw \<longrightarrow>
             (\<exists>k. knob_lookup key = Some k \<and> k_Scopes k AND sc \<noteq> 0) \<and> snd (settings_Set e no_settings key raw) = None))"
proof (intro conjI impI)
  show "out' = s" if "settings_Merge e s vals sc = (out', Some er)" using that by (rule Merge_refused)
  assume ok: "settings_Merge e s vals sc = (out', None)"
  note m = Merge_ok [OF ok] and f = merge_knobs_fields [OF Merge_ok(2) [OF ok] Catalogue_distinct]
  show "settings_Check out' = None" by (rule m(1))
  have known: "\<exists>k \<in> set Catalogue. k_Key k = key \<and> knob_lookup key = Some k" if "map_of vals key = Some raw" for key raw
  proof -
    have "knob_lookup key \<noteq> None" using m(3) map_of_SomeD [OF that] by (auto simp: find_None_iff)
    then show ?thesis by (auto simp: knob_lookup_def find_Some_iff)
  qed
  show "\<forall>key. field key out' = (case map_of vals key of None \<Rightarrow> field key s | Some raw \<Rightarrow> submitted e key raw)"
  proof
    fix key
    show "field key out' = (case map_of vals key of None \<Rightarrow> field key s | Some raw \<Rightarrow> submitted e key raw)"
      using f(1) [of key] known [of key] by (cases "map_of vals key") (auto split: if_splits)
  qed
  show "\<forall>key raw. map_of vals key = Some raw \<longrightarrow>
      (\<exists>k. knob_lookup key = Some k \<and> k_Scopes k AND sc \<noteq> 0) \<and> snd (settings_Set e no_settings key raw) = None"
    using known f(2) by metis
qed

definition ex_set_env :: set_env where
  "ex_set_env = \<lparr>se_parseFloat = \<lambda>s. if s = ''NaN'' then Some NaN else map_option int_num (atoi s), se_cronOK = \<lambda>s. True, se_routes = \<lambda>s. Inr [],
     se_encode = \<lambda>s. ''{}'', se_decode = \<lambda>b. Inr no_settings, se_text = \<lambda>er. ''error''\<rparr>"

theorem Merge_all_or_nothing_witness:
  "field ''mem_limit_mb'' (fst (settings_Merge ex_set_env no_settings [(''mem_limit_mb'', ''512'')] ScOrg)) = no_settings\<lparr>st_MemLimitMB := Some 512\<rparr>"
proof -
  have ok: "snd (settings_Merge ex_set_env no_settings [(''mem_limit_mb'', ''512'')] ScOrg) = None"
    and v: "submitted ex_set_env ''mem_limit_mb'' ''512'' = no_settings\<lparr>st_MemLimitMB := Some 512\<rparr>" by code_simp+
  then show ?thesis
    using Merge_all_or_nothing [of ex_set_env no_settings "[(''mem_limit_mb'', ''512'')]" ScOrg "fst (settings_Merge ex_set_env no_settings [(''mem_limit_mb'', ''512'')] ScOrg)"]
    by (simp add: prod_eq_iff)
qed

text \<open>
  A CPU limit of NaN passes every check of a save, and the level then has no JSON form: the row is written
  empty, and reading the server's defaults back finds no settings at all, protection included.
\<close>

theorem NaN_limit_drops_the_level:
  assumes "se_parseFloat e ''NaN'' = Some NaN" "sl_fault l = None" "Leaf_Defaults e l = Inr cur" "settings_Check cur = None"
  shows "\<exists>l'. Leaf_SetDefaults e l [(''cpu_limit'', ''NaN'')] = (l', None) \<and> Leaf_Defaults e l' = Inr no_settings"
proof -
  obtain k where k: "knob_lookup ''cpu_limit'' = Some k" "k_Scopes k AND ScFlat = 0" "k_Scopes k AND ScServer \<noteq> 0"
  proof -
    have "\<exists>k. knob_lookup ''cpu_limit'' = Some k \<and> k_Scopes k AND ScFlat = 0 \<and> k_Scopes k AND ScServer \<noteq> 0"
      by (rule exI [of _ "the (knob_lookup ''cpu_limit'')"]) code_simp
    then show ?thesis using that by blast
  qed
  have t: "trim_space ''NaN'' = ''NaN''" "trim_space [] = []" by code_simp+
  have s: "settings_Set e cur ''cpu_limit'' ''NaN'' = (cur\<lparr>st_CPULimit := Some NaN\<rparr>, None)"
    using k assms(1) t by (simp add: settings_Set_def Let_def parseNum_def parseOpt_def usable_def f_eq_def)
  have cat: "Catalogue = the (knob_lookup ''cpu_limit'') # tl Catalogue" "''cpu_limit'' \<notin> set (map k_Key (tl Catalogue))"
    "k_Key (the (knob_lookup ''cpu_limit'')) = ''cpu_limit''" by code_simp+
  have rest: "merge_knobs e [(''cpu_limit'', ''NaN'')] ScServer ks r = Inr r" if "''cpu_limit'' \<notin> set (map k_Key ks)" for ks r
    using that by (induction ks) auto
  have "merge_knobs e [(''cpu_limit'', ''NaN'')] ScServer Catalogue cur = Inr (cur\<lparr>st_CPULimit := Some NaN\<rparr>)"
    using rest [OF cat(2)] cat(3) k s by (subst cat(1)) simp
  then have "settings_Merge e cur [(''cpu_limit'', ''NaN'')] ScServer = (cur\<lparr>st_CPULimit := Some NaN\<rparr>, None)"
    using k assms(4) by (simp add: settings_Merge_def settings_Check_def)
  then show ?thesis using assms t
    by (simp add: Leaf_SetDefaults_def settings_JSON_def Leaf_Defaults_def settings_Parse_def deref_def)
qed

end
