(* ===== verification/Schedule.thy ===== *)
theory Schedule
  imports Settings
begin

text \<open>
  \<^verbatim>\<open>internal/service/internal/flow/schedule/schedule.go\<close>: which schedules exist and how they are registered.  What an entry does
  when it fires is named, not run.  The cron library is its parser (which spec it takes) and a table
  of registered entries by id; ids are given in order.
\<close>

section \<open>Model: entries\<close>

record backup_schedule =
  bs_ID :: string
  bs_Cron :: string
  bs_Timezone :: string

record cron_tile =
  ct_ID :: string
  ct_Schedule :: string
  ct_Paused :: bool

text \<open>Which of the optional drivers are set.\<close>

record drivers =
  d_PanelBackup :: bool
  d_Cleanup :: bool
  d_RegistryClean :: bool
  d_Traffic :: bool
  d_Metrics :: bool
  d_Logs :: bool

datatype fire = FireOrphans | FireWatch | FirePanelBackup | FireCleanup | FireRegistryClean | FireTraffic | FireMetrics | FireLogs
  | FireBackup backup_schedule | FireCron cron_tile

record sched_entry =
  en_Name :: string
  en_Spec :: string
  en_Fire :: fire

definition knobSpec :: "(string \<Rightarrow> bool) \<Rightarrow> (string \<rightharpoonup> string) \<Rightarrow> string \<Rightarrow> string option" where
  "knobSpec cronOK st key =
     (let v0 = trim_space (deref (st key)); v = (if v0 = [] then Default key else v0)
      in if cronOK v then Some v else None)"

definition offSpec :: "(string \<Rightarrow> bool) \<Rightarrow> (string \<rightharpoonup> string) \<Rightarrow> string \<Rightarrow> string option" where
  "offSpec cronOK st key = (case st key of
     Some v \<Rightarrow> if trim_space v = [] then None else knobSpec cronOK st key
   | None \<Rightarrow> knobSpec cronOK st key)"

definition knobOn :: "(string \<rightharpoonup> string) \<Rightarrow> string \<Rightarrow> bool" where
  "knobOn st key = (case parse_bool (trim_space (deref (st key))) of
     Some on \<Rightarrow> on
   | None \<Rightarrow> (case parse_bool (Default key) of Some on \<Rightarrow> on | None \<Rightarrow> False))"

definition knob_entry :: "bool \<Rightarrow> string \<Rightarrow> string option \<Rightarrow> fire \<Rightarrow> sched_entry list" where
  "knob_entry on name spec f = (case spec of Some s \<Rightarrow> if on then [\<lparr>en_Name = name, en_Spec = s, en_Fire = f\<rparr>] else [] | None \<Rightarrow> [])"

definition backup_entry :: "backup_schedule \<Rightarrow> sched_entry" where
  "backup_entry s = \<lparr>en_Name = ''backup '' @ bs_ID s,
     en_Spec = (if bs_Timezone s \<noteq> [] then ''CRON_TZ='' @ bs_Timezone s @ '' '' @ bs_Cron s else bs_Cron s), en_Fire = FireBackup s\<rparr>"

definition cron_entry :: "cron_tile \<Rightarrow> sched_entry" where
  "cron_entry t = \<lparr>en_Name = ''cron '' @ ct_ID t, en_Spec = ct_Schedule t, en_Fire = FireCron t\<rparr>"

definition Entries :: "(string \<Rightarrow> bool) \<Rightarrow> drivers \<Rightarrow> backup_schedule list \<Rightarrow> cron_tile list \<Rightarrow> (string \<rightharpoonup> string) \<Rightarrow> sched_entry list" where
  "Entries cronOK d scheds crons st =
     knob_entry (knobOn st ''orphans_enabled'') ''orphans'' (knobSpec cronOK st ''orphans_schedule'') FireOrphans
     @ [\<lparr>en_Name = ''image-watch'', en_Spec = ''@every 1m'', en_Fire = FireWatch\<rparr>]
     @ knob_entry (knobOn st ''panel_backup_enabled'' \<and> d_PanelBackup d) ''panel-backup'' (knobSpec cronOK st ''panel_backup_schedule'') FirePanelBackup
     @ knob_entry (knobOn st ''cleanup_enabled'' \<and> d_Cleanup d) ''cleanup'' (knobSpec cronOK st ''cleanup_schedule'') FireCleanup
     @ knob_entry (d_RegistryClean d) ''registry-clean'' (offSpec cronOK st ''registry_cleanup_schedule'') FireRegistryClean
     @ knob_entry (d_Traffic d) ''traffic'' (Some ''@every 5s'') FireTraffic
     @ knob_entry (d_Metrics d) ''metrics'' (Some ''@every 30s'') FireMetrics
     @ knob_entry (d_Logs d) ''logs'' (Some ''@every 30s'') FireLogs
     @ map backup_entry scheds
     @ map cron_entry (filter (\<lambda>t. \<not> ct_Paused t) crons)"

section \<open>Model: the runner\<close>

record sched_runner =
  sr_table :: "(nat \<times> sched_entry) list"
  sr_next :: nat
  sr_entries :: "nat list"
  sr_names :: "string list"

definition new_sched :: sched_runner where
  "new_sched = \<lparr>sr_table = [], sr_next = 1, sr_entries = [], sr_names = []\<rparr>"

fun add_all :: "(string \<Rightarrow> bool) \<Rightarrow> sched_entry list \<Rightarrow> sched_runner \<Rightarrow> err list \<Rightarrow> sched_runner \<times> err list" where
  "add_all cronOK [] r bad = (r, bad)"
| "add_all cronOK (e # es) r bad =
     (if cronOK (en_Spec e)
      then add_all cronOK es (r\<lparr>sr_table := sr_table r @ [(sr_next r, e)], sr_next := Suc (sr_next r),
             sr_entries := sr_entries r @ [sr_next r], sr_names := sr_names r @ [en_Name e]\<rparr>) bad
      else add_all cronOK es r (bad @ [Errorf ''%s: %s'' [en_Name e, en_Spec e]]))"

text \<open>The text of the library's error stands as the spec it refused. \<^verbatim>\<open>errors.Join\<close>: nil errors are dropped, and joining none gives nil.\<close>

definition join_errs :: "err list \<Rightarrow> error" where
  "join_errs es = (if es = [] then None else Some (Joined es))"

text \<open>
  What the three reads answered: the schedules, and the settings and cron tiles (which read as empty when
  there is no such driver).
\<close>

definition load :: "(string \<Rightarrow> bool) \<Rightarrow> drivers \<Rightarrow> err + backup_schedule list \<Rightarrow> err + (string \<rightharpoonup> string) \<Rightarrow> err + cron_tile list
    \<Rightarrow> sched_runner \<Rightarrow> sched_runner \<times> error" where
  "load cronOK d scheds st crons r =
     (case (scheds, st, crons) of
        (Inr ss, Inr m, Inr cs) \<Rightarrow>
          let r1 = r\<lparr>sr_table := filter (\<lambda>(i, e). i \<notin> set (sr_entries r)) (sr_table r), sr_entries := [], sr_names := []\<rparr>;
              (r2, bad) = add_all cronOK (Entries cronOK d ss cs m) r1 []
          in (r2, join_errs bad)
      | _ \<Rightarrow> (r, join_errs ((case scheds of Inl e \<Rightarrow> [e] | _ \<Rightarrow> []) @ (case st of Inl e \<Rightarrow> [e] | _ \<Rightarrow> []) @ (case crons of Inl e \<Rightarrow> [e] | _ \<Rightarrow> []))))"

section \<open>Lemmas\<close>

text \<open>The runner knows every entry it registered, and ids are new.\<close>

definition sched_ok :: "sched_runner \<Rightarrow> bool" where
  "sched_ok r \<longleftrightarrow> map fst (sr_table r) = sr_entries r \<and> map (en_Name \<circ> snd) (sr_table r) = sr_names r
     \<and> distinct (sr_entries r) \<and> (\<forall>i \<in> set (sr_entries r). i < sr_next r)"

lemma sched_ok_new: "sched_ok new_sched"
  by (simp add: sched_ok_def new_sched_def)

lemma add_all_ok: "sched_ok r \<Longrightarrow> sched_ok (fst (add_all cronOK es r bad))"
proof (induction es arbitrary: r bad)
  case (Cons e es)
  have "sched_ok (r\<lparr>sr_table := sr_table r @ [(sr_next r, e)], sr_next := Suc (sr_next r),
             sr_entries := sr_entries r @ [sr_next r], sr_names := sr_names r @ [en_Name e]\<rparr>)"
    using Cons.prems by (auto simp: sched_ok_def)
  then show ?case using Cons by simp
qed simp

lemma add_all_table:
  "map snd (sr_table (fst (add_all cronOK es r bad))) = map snd (sr_table r) @ filter (\<lambda>e. cronOK (en_Spec e)) es"
  "snd (add_all cronOK es r bad) = bad @ map (\<lambda>e. Errorf ''%s: %s'' [en_Name e, en_Spec e]) (filter (\<lambda>e. \<not> cronOK (en_Spec e)) es)"
  by (induction es arbitrary: r bad) auto

lemma old_entries_gone:
  assumes "sched_ok r"
  shows "filter (\<lambda>(i, e). i \<notin> set (sr_entries r)) (sr_table r) = []"
proof -
  have "set (sr_entries r) = fst ` set (sr_table r)" using assms by (metis sched_ok_def set_map)
  then show ?thesis by (auto simp: filter_empty_conv intro: rev_image_eqI)
qed

lemma load_ok:
  assumes "sched_ok r"
  shows "sched_ok (fst (load cronOK d scheds st crons r))"
proof -
  have "sched_ok (r\<lparr>sr_table := filter (\<lambda>(i, e). i \<notin> set (sr_entries r)) (sr_table r), sr_entries := [], sr_names := []\<rparr>)"
    by (simp add: sched_ok_def old_entries_gone [OF assms])
  then show ?thesis using assms add_all_ok by (auto simp: load_def Let_def split: sum.splits prod.splits) (metis fst_conv)
qed

section \<open>Properties\<close>

text \<open>
  A reload makes the registered schedules exactly those that should exist: when the rows, settings and
  tiles were read, the table of the cron library holds the entries whose spec it takes, in order and
  each once, nothing of before is left, and the error is nil exactly when every entry's spec was taken;
  when a read failed nothing changes and the error says so. The runner stays able to find every entry it
  registered.
\<close>

theorem load_registers_exactly:
  assumes ok: "sched_ok r"
  shows "sched_ok (fst (load cronOK d scheds st crons r))
    \<and> (case (scheds, st, crons) of
        (Inr ss, Inr m, Inr cs) \<Rightarrow>
          map snd (sr_table (fst (load cronOK d scheds st crons r))) = filter (\<lambda>e. cronOK (en_Spec e)) (Entries cronOK d ss cs m)
          \<and> (snd (load cronOK d scheds st crons r) = None \<longleftrightarrow> (\<forall>e \<in> set (Entries cronOK d ss cs m). cronOK (en_Spec e)))
      | _ \<Rightarrow> fst (load cronOK d scheds st crons r) = r \<and> snd (load cronOK d scheds st crons r) \<noteq> None)"
proof -
  note e = old_entries_gone [OF ok]
  let ?r1 = "r\<lparr>sr_table := [], sr_entries := [], sr_names := []\<rparr>"
  have "map snd (sr_table (fst (load cronOK d (Inr ss) (Inr m) (Inr cs) r))) = filter (\<lambda>e. cronOK (en_Spec e)) (Entries cronOK d ss cs m)
    \<and> (snd (load cronOK d (Inr ss) (Inr m) (Inr cs) r) = None \<longleftrightarrow> (\<forall>e \<in> set (Entries cronOK d ss cs m). cronOK (en_Spec e)))" for ss m cs
    using add_all_table [of cronOK "Entries cronOK d ss cs m" ?r1 "[]"]
    by (cases "add_all cronOK (Entries cronOK d ss cs m) ?r1 []") (auto simp: load_def Let_def e join_errs_def filter_empty_conv)
  then show ?thesis using load_ok [OF ok]
    by (auto simp: load_def join_errs_def split: sum.splits)
qed

definition ex_drivers :: drivers where
  "ex_drivers = \<lparr>d_PanelBackup = True, d_Cleanup = False, d_RegistryClean = True, d_Traffic = True, d_Metrics = False, d_Logs = False\<rparr>"

theorem load_registers_exactly_witness:
  "map (en_Name \<circ> snd) (sr_table (fst (load (\<lambda>s. s \<noteq> ''bad'') ex_drivers (Inr [\<lparr>bs_ID = ''b1'', bs_Cron = ''bad'', bs_Timezone = []\<rparr>]) (Inr Map.empty)
      (Inr [\<lparr>ct_ID = ''t1'', ct_Schedule = ''0 3 * * *'', ct_Paused = False\<rparr>, \<lparr>ct_ID = ''t2'', ct_Schedule = ''0 4 * * *'', ct_Paused = True\<rparr>]) new_sched)))
    = [''orphans'', ''image-watch'', ''panel-backup'', ''registry-clean'', ''traffic'', ''cron t1'']"
proof -
  let ?ok = "\<lambda>s. s \<noteq> ''bad''" and ?ss = "[\<lparr>bs_ID = ''b1'', bs_Cron = ''bad'', bs_Timezone = []\<rparr>]"
    and ?cs = "[\<lparr>ct_ID = ''t1'', ct_Schedule = ''0 3 * * *'', ct_Paused = False\<rparr>, \<lparr>ct_ID = ''t2'', ct_Schedule = ''0 4 * * *'', ct_Paused = True\<rparr>]"
  have "map snd (sr_table (fst (load ?ok ex_drivers (Inr ?ss) (Inr Map.empty) (Inr ?cs) new_sched))) = filter (\<lambda>e. ?ok (en_Spec e)) (Entries ?ok ex_drivers ?ss ?cs Map.empty)"
    using load_registers_exactly [OF sched_ok_new, of ?ok ex_drivers "Inr ?ss" "Inr Map.empty" "Inr ?cs"] by simp
  then have "map (en_Name \<circ> snd) (sr_table (fst (load ?ok ex_drivers (Inr ?ss) (Inr Map.empty) (Inr ?cs) new_sched)))
      = map en_Name (filter (\<lambda>e. ?ok (en_Spec e)) (Entries ?ok ex_drivers ?ss ?cs Map.empty))" by (metis map_map)
  also have "\<dots> = [''orphans'', ''image-watch'', ''panel-backup'', ''registry-clean'', ''traffic'', ''cron t1'']" by code_simp
  finally show ?thesis .
qed

end
