(* ===== verification/Move.thy ===== *)
theory Move
  imports Errs "HOL-Library.Sublist"
begin

text \<open>
  \<^verbatim>\<open>internal/service/internal/flow/move/move.go\<close>: the flow that moves the volumes and containers of an env from
  one node to another, in phases that are written to \<^verbatim>\<open>env_moves\<close> before their work starts.

  The flow talks to the store, to the Docker of two nodes and to the env through injected interfaces.
  Here the state is the trace of those calls, newest first, each with its reply.  A \<open>world\<close> answers a call
  by the whole history, so every theorem holds for every behaviour of the outside, every failure
  included.  The table is what the successful writes of the trace left in it, and a process that dies
  anywhere leaves a suffix of the trace.  Log lines are not modelled.
\<close>

section \<open>Model: rows and calls\<close>

record env_move =
  mv_ID :: string
  mv_EnvID :: string
  mv_FromNode :: string
  mv_ToNode :: string
  mv_Live :: bool
  mv_Phase :: string
  mv_Bytes :: int
  mv_StartedAt :: int
  mv_FinishedAt :: "int option"
  mv_Error :: string
  mv_PlacementMoveID :: "string option"

record volume =
  vo_ID :: string
  vo_Slug :: string
  vo_Name :: string

record container_spec =
  cs_Name :: string
  cs_Image :: string
  cs_Cmd :: "string list"
  cs_Env :: "string list"
  cs_Labels :: "(string \<times> string) list"
  cs_Volumes :: "string list"
  cs_Ports :: "(string \<times> string) list"

text \<open>The calls, with the node they go to; and a reply, of which a call reads its own part.\<close>

datatype call =
    C_Create env_move
  | C_Update env_move
  | C_Get string
  | C_ListByEnv string
  | C_ListUnfinished
  | C_uuid
  | C_now
  | C_ctxErr
  | C_Docker string
  | C_Addr string
  | C_EnsureRsync
  | C_EnsureTool string
  | C_LocalDigest string string
  | C_Pull string string
  | C_CreateVolume string string string "(string \<times> string) list"
  | C_InspectVolume string string
  | C_TarVolume string string
  | C_UntarVolume string string
  | C_Run string container_spec
  | C_Wait string string
  | C_StopRemove string string
  | C_Volumes string
  | C_Stop string
  | C_Start string string
  | C_Remove string string

record reply =
  rp_err :: error
  rp_text :: string
  rp_num :: int
  rp_vols :: "volume list"

type_synonym trace = "(call \<times> reply) list"
type_synonym world = "trace \<Rightarrow> call \<Rightarrow> reply"

text \<open>The flow: its interfaces, whether \<^verbatim>\<open>EnsureRsync\<close> is set, and \<^verbatim>\<open>Error()\<close> of an error.\<close>

record flow =
  f_world :: world
  f_EnsureRsync :: bool
  f_text :: "err \<Rightarrow> string"

abbreviation PhQueued :: string where "PhQueued \<equiv> ''queued''"
abbreviation PhSyncing :: string where "PhSyncing \<equiv> ''syncing''"
abbreviation PhStopping :: string where "PhStopping \<equiv> ''stopping''"
abbreviation PhCopying :: string where "PhCopying \<equiv> ''copying''"
abbreviation PhFinal :: string where "PhFinal \<equiv> ''final''"
abbreviation PhStarting :: string where "PhStarting \<equiv> ''starting''"
abbreviation PhCleaning :: string where "PhCleaning \<equiv> ''cleaning''"
abbreviation PhDone :: string where "PhDone \<equiv> ''done''"
abbreviation PhRolledBack :: string where "PhRolledBack \<equiv> ''rolled_back''"

definition RsyncPort :: int where
  "RsyncPort = 8873"

definition RsyncImage :: string where
  "RsyncImage = ''localhost:5000/'' @ ''stackr.system'' @ ''/tools/rsync:1''"

section \<open>Model: making calls\<close>

definition ask :: "flow \<Rightarrow> call \<Rightarrow> trace \<Rightarrow> reply \<times> trace" where
  "ask f c tr = (f_world f tr c, (c, f_world f tr c) # tr)"

text \<open>A call of which only the error is read, and one whose error is dropped (\<^verbatim>\<open>_ = ...\<close>).\<close>

definition do_call :: "flow \<Rightarrow> call \<Rightarrow> trace \<Rightarrow> error \<times> trace" where
  "do_call f c tr = (let (r, tr') = ask f c tr in (rp_err r, tr'))"

definition try_call :: "flow \<Rightarrow> call \<Rightarrow> trace \<Rightarrow> trace" where
  "try_call f c tr = snd (ask f c tr)"

text \<open>\<^verbatim>\<open>if err := a; err != nil { return err }; b\<close>, and the same over a list; an error wrapped on its way out.\<close>

definition and_then :: "(trace \<Rightarrow> error \<times> trace) \<Rightarrow> (trace \<Rightarrow> error \<times> trace) \<Rightarrow> trace \<Rightarrow> error \<times> trace" where
  "and_then a b tr = (case a tr of (Some e, tr') \<Rightarrow> (Some e, tr') | (None, tr') \<Rightarrow> b tr')"

fun for_each :: "('a \<Rightarrow> trace \<Rightarrow> error \<times> trace) \<Rightarrow> 'a list \<Rightarrow> trace \<Rightarrow> error \<times> trace" where
  "for_each a [] tr = (None, tr)"
| "for_each a (x # xs) tr = and_then (a x) (for_each a xs) tr"

definition wrapped :: "string \<Rightarrow> string list \<Rightarrow> (trace \<Rightarrow> error \<times> trace) \<Rightarrow> trace \<Rightarrow> error \<times> trace" where
  "wrapped m args a tr = (let (e, tr') = a tr in (map_option (Wrap (m, args)) e, tr'))"

section \<open>Model: the table\<close>

fun move_rows :: "trace \<Rightarrow> env_move list" where
  "move_rows [] = []"
| "move_rows ((C_Create m, r) # tr) = (if rp_err r = None then move_rows tr @ [m] else move_rows tr)"
| "move_rows ((C_Update m, r) # tr) =
     (if rp_err r = None then map (\<lambda>x. if mv_ID x = mv_ID m then m else x) (move_rows tr) else move_rows tr)"
| "move_rows (_ # tr) = move_rows tr"

definition stored :: "trace \<Rightarrow> string \<Rightarrow> env_move option" where
  "stored tr i = find (\<lambda>m. mv_ID m = i) (move_rows tr)"

definition moves_Create :: "flow \<Rightarrow> env_move \<Rightarrow> trace \<Rightarrow> error \<times> trace" where
  "moves_Create f m tr =
     (if stored tr (mv_ID m) \<noteq> None then (Some (Wrap (''%w: %v'', []) (Conflictf ''already exists'' [])), tr)
      else do_call f (C_Create m) tr)"

definition moves_Update :: "flow \<Rightarrow> env_move \<Rightarrow> trace \<Rightarrow> error \<times> trace" where
  "moves_Update f m tr = (if stored tr (mv_ID m) = None then (Some ErrNotFound, tr) else do_call f (C_Update m) tr)"

definition moves_Get :: "flow \<Rightarrow> string \<Rightarrow> trace \<Rightarrow> (err + env_move) \<times> trace" where
  "moves_Get f i tr = (case do_call f (C_Get i) tr of
     (Some e, tr') \<Rightarrow> (Inl e, tr')
   | (None, tr') \<Rightarrow> ((case stored tr' i of None \<Rightarrow> Inl ErrNotFound | Some m \<Rightarrow> Inr m), tr'))"

definition moves_ListByEnv :: "flow \<Rightarrow> string \<Rightarrow> trace \<Rightarrow> (err + env_move list) \<times> trace" where
  "moves_ListByEnv f env tr = (case do_call f (C_ListByEnv env) tr of
     (Some e, tr') \<Rightarrow> (Inl e, tr')
   | (None, tr') \<Rightarrow> (Inr (filter (\<lambda>m. mv_EnvID m = env) (move_rows tr')), tr'))"

definition move_ended :: "string \<Rightarrow> bool" where
  "move_ended phase \<longleftrightarrow> phase = PhDone \<or> phase = PhRolledBack"

definition Unfinished :: "flow \<Rightarrow> trace \<Rightarrow> (err + env_move list) \<times> trace" where
  "Unfinished f tr = (case do_call f C_ListUnfinished tr of
     (Some e, tr') \<Rightarrow> (Inl e, tr')
   | (None, tr') \<Rightarrow> (Inr (filter (\<lambda>m. mv_Phase m \<notin> {PhDone, PhRolledBack}) (move_rows tr')), tr'))"

section \<open>Model: beginning a move\<close>

record request =
  rq_EnvID :: string
  rq_From :: string
  rq_To :: string
  rq_Live :: bool

definition move_none :: env_move where
  "move_none = \<lparr>mv_ID = [], mv_EnvID = [], mv_FromNode = [], mv_ToNode = [], mv_Live = False, mv_Phase = [], mv_Bytes = 0,
     mv_StartedAt = 0, mv_FinishedAt = None, mv_Error = [], mv_PlacementMoveID = None\<rparr>"

definition Begin :: "flow \<Rightarrow> request \<Rightarrow> trace \<Rightarrow> (env_move \<times> error) \<times> trace" where
  "Begin f r tr =
     (if rq_From r = rq_To r then ((move_none, Some (Invalidf ''node'' ''the env is already on that node'' [])), tr)
      else case moves_ListByEnv f (rq_EnvID r) tr of
        (Inl e, tr1) \<Rightarrow> ((move_none, Some e), tr1)
      | (Inr have, tr1) \<Rightarrow>
        if \<exists>m \<in> set have. \<not> move_ended (mv_Phase m)
        then ((move_none, Some (Conflictf ''a move of this env is already running'' [])), tr1)
        else let (u, tr2) = ask f C_uuid tr1; (n, tr3) = ask f C_now tr2;
                 m = move_none\<lparr>mv_ID := rp_text u, mv_EnvID := rq_EnvID r, mv_FromNode := rq_From r, mv_ToNode := rq_To r,
                       mv_Live := rq_Live r, mv_Phase := PhQueued, mv_StartedAt := rp_num n\<rparr>;
                 (e, tr4) = moves_Create f m tr3
             in ((m, e), tr4))"

section \<open>Model: the work of the phases\<close>

definition docks :: "flow \<Rightarrow> env_move \<Rightarrow> trace \<Rightarrow> error \<times> trace" where
  "docks f m = and_then (do_call f (C_Docker (mv_FromNode m))) (do_call f (C_Docker (mv_ToNode m)))"

definition with_volumes :: "flow \<Rightarrow> env_move \<Rightarrow> trace \<Rightarrow> (err + volume list) \<times> trace" where
  "with_volumes f m tr = (let (r, tr') = ask f (C_Volumes (mv_EnvID m)) tr in
     ((case rp_err r of Some e \<Rightarrow> Inl e | None \<Rightarrow> Inr (rp_vols r)), tr'))"

definition prepare_node :: "flow \<Rightarrow> env_move \<Rightarrow> string \<Rightarrow> trace \<Rightarrow> error \<times> trace" where
  "prepare_node f m node tr =
     (if \<not> mv_Live m then do_call f (C_EnsureTool node) tr
      else case do_call f (C_LocalDigest node RsyncImage) tr of
        (None, tr') \<Rightarrow> (None, tr')
      | (Some _, tr') \<Rightarrow> wrapped ''pull %s: %w'' [RsyncImage] (do_call f (C_Pull node RsyncImage)) tr')"

definition ensure_rsync :: "flow \<Rightarrow> env_move \<Rightarrow> trace \<Rightarrow> error \<times> trace" where
  "ensure_rsync f m = (if mv_Live m \<and> f_EnsureRsync f then wrapped ''rsync helper: %w'' [] (do_call f C_EnsureRsync) else Pair None)"

definition create_volume :: "flow \<Rightarrow> env_move \<Rightarrow> volume \<Rightarrow> trace \<Rightarrow> error \<times> trace" where
  "create_volume f m v = do_call f (C_CreateVolume (mv_ToNode m) (vo_Name v) ''local'' [(''stackr.volume'', vo_ID v)])"

definition prepare :: "flow \<Rightarrow> env_move \<Rightarrow> trace \<Rightarrow> error \<times> trace" where
  "prepare f m = and_then (docks f m) (\<lambda>tr. case with_volumes f m tr of
     (Inl e, tr1) \<Rightarrow> (Some e, tr1)
   | (Inr vols, tr1) \<Rightarrow>
     and_then (ensure_rsync f m)
      (and_then (for_each (prepare_node f m) [mv_FromNode m, mv_ToNode m]) (for_each (create_volume f m) vols)) tr1)"

text \<open>
  \<^verbatim>\<open>stream\<close>: the tar of the source and the untar of the target run at once over a pipe; the bytes that went
  through it are the number in the tar's reply.
\<close>

definition stream :: "flow \<Rightarrow> env_move \<Rightarrow> string \<Rightarrow> trace \<Rightarrow> (int \<times> error) \<times> trace" where
  "stream f m name tr =
     (let (t, tr1) = ask f (C_TarVolume (mv_FromNode m) name) tr; (u, tr2) = ask f (C_UntarVolume (mv_ToNode m) name) tr1
      in (case rp_err t of Some e \<Rightarrow> (0, Some e) | None \<Rightarrow> (rp_num t, rp_err u), tr2))"

fun copy_loop :: "flow \<Rightarrow> volume list \<Rightarrow> env_move \<Rightarrow> trace \<Rightarrow> (env_move \<times> error) \<times> trace" where
  "copy_loop f [] m tr = ((m, None), tr)"
| "copy_loop f (v # vs) m tr = (case stream f m (vo_Name v) tr of
     ((n, Some e), tr') \<Rightarrow> ((m, Some e), tr')
   | ((n, None), tr') \<Rightarrow> copy_loop f vs (m\<lparr>mv_Bytes := int64 (mv_Bytes m + n)\<rparr>) tr')"

definition copyCold :: "flow \<Rightarrow> env_move \<Rightarrow> trace \<Rightarrow> (env_move \<times> error) \<times> trace" where
  "copyCold f m tr = (case docks f m tr of
     (Some e, tr1) \<Rightarrow> ((m, Some e), tr1)
   | (None, tr1) \<Rightarrow> (case with_volumes f m tr1 of
       (Inl e, tr2) \<Rightarrow> ((m, Some e), tr2)
     | (Inr vols, tr2) \<Rightarrow> copy_loop f vols (m\<lparr>mv_Bytes := 0\<rparr>) tr2))"

definition helperName :: "string \<Rightarrow> nat \<Rightarrow> string \<Rightarrow> string" where
  "helperName moveID i role = ''stkr-rsync-'' @ moveID @ ''-'' @ nat_str i @ ''-'' @ role"

text \<open>The script holds a quote (27), a double quote (22) and, for each line, a backslash (5C) and an n for \<^verbatim>\<open>printf\<close>.\<close>

definition daemonScript :: string where
  "daemonScript =
     ''printf '' @ [CHR 0x27]
     @ concat (map (\<lambda>l. l @ [CHR 0x5C, CHR ''n''])
         [''use chroot = no'', ''numeric ids = yes'', ''[data]'', '' path = /data'', '' read only = no'', '' uid = 0'', '' gid = 0'',
          '' hosts allow = %s'', '' hosts deny = *''])
     @ [CHR 0x27] @ '' '' @ [CHR 0x22] @ ''$RSYNC_ALLOW'' @ [CHR 0x22]
     @ '' > /tmp/rsyncd.conf && exec rsync --daemon --no-detach --config=/tmp/rsyncd.conf''"

definition clientScript :: "string \<Rightarrow> string \<Rightarrow> int \<Rightarrow> string" where
  "clientScript flags addr port =
     ''i=0; while :; do rsync '' @ flags @ '' /data/ rsync://'' @ addr @ '':'' @ itoa port
     @ ''/data/; rc=$?; if [ $rc -ne 10 ] || [ $i -ge 60 ]; then exit $rc; fi; i=$((i+1)); sleep 1; done''"

definition rsync_flags :: "bool \<Rightarrow> string" where
  "rsync_flags check = ''-aH --numeric-ids --delete'' @ (if check then '' --checksum'' else [])"

definition daemon_spec :: "string \<Rightarrow> nat \<Rightarrow> volume \<Rightarrow> string \<Rightarrow> container_spec" where
  "daemon_spec moveID i v srcAddr = \<lparr>cs_Name = helperName moveID i ''d'', cs_Image = RsyncImage, cs_Cmd = [''sh'', ''-c'', daemonScript],
     cs_Env = [''RSYNC_ALLOW='' @ srcAddr], cs_Labels = [(''stackr.managed'', ''true'')], cs_Volumes = [vo_Name v @ '':/data''],
     cs_Ports = [(itoa (RsyncPort + int i), ''873'')]\<rparr>"

definition client_spec :: "string \<Rightarrow> nat \<Rightarrow> volume \<Rightarrow> string \<Rightarrow> bool \<Rightarrow> container_spec" where
  "client_spec moveID i v dstAddr check = \<lparr>cs_Name = helperName moveID i ''c'', cs_Image = RsyncImage,
     cs_Cmd = [''sh'', ''-c'', clientScript (rsync_flags check) dstAddr (RsyncPort + int i)],
     cs_Env = [], cs_Labels = [(''stackr.managed'', ''true'')], cs_Volumes = [vo_Name v @ '':/data:ro''], cs_Ports = []\<rparr>"

definition rsync_pass :: "flow \<Rightarrow> env_move \<Rightarrow> nat \<Rightarrow> volume \<Rightarrow> string \<Rightarrow> string \<Rightarrow> bool \<Rightarrow> trace \<Rightarrow> error \<times> trace" where
  "rsync_pass f m i v srcAddr dstAddr check tr =
     (let src = mv_FromNode m; dst = mv_ToNode m;
          tr1 = try_call f (C_StopRemove dst (helperName (mv_ID m) i ''d'')) tr;
          tr2 = try_call f (C_StopRemove src (helperName (mv_ID m) i ''c'')) tr1;
          (d, tr3) = ask f (C_Run dst (daemon_spec (mv_ID m) i v srcAddr)) tr2
      in case rp_err d of
        Some e \<Rightarrow> (Some (Wrap (''rsync daemon for %s: %w'', [vo_Slug v]) e), tr3)
      | None \<Rightarrow>
        let (c, tr4) = ask f (C_Run src (client_spec (mv_ID m) i v dstAddr check)) tr3
        in case rp_err c of
          Some e \<Rightarrow> (Some (Wrap (''rsync client for %s: %w'', [vo_Slug v]) e), try_call f (C_StopRemove dst (rp_text d)) tr4)
        | None \<Rightarrow>
          let (w, tr5) = ask f (C_Wait src (rp_text c)) tr4;
              tr6 = try_call f (C_StopRemove src (rp_text c)) tr5;
              tr7 = try_call f (C_StopRemove dst (rp_text d)) tr6
          in ((case rp_err w of
                Some e \<Rightarrow> Some e
              | None \<Rightarrow> if rp_num w \<noteq> 0 then Some (Errorf ''rsync of %s exited %d'' [vo_Slug v, itoa (rp_num w)]) else None), tr7))"

fun sync_loop :: "flow \<Rightarrow> string \<Rightarrow> string \<Rightarrow> bool \<Rightarrow> nat \<Rightarrow> volume list \<Rightarrow> env_move \<Rightarrow> trace \<Rightarrow> (env_move \<times> error) \<times> trace" where
  "sync_loop f srcAddr dstAddr check i [] m tr = ((m, None), tr)"
| "sync_loop f srcAddr dstAddr check i (v # vs) m tr = (case rsync_pass f m i v srcAddr dstAddr check tr of
     (Some e, tr1) \<Rightarrow> ((m, Some e), tr1)
   | (None, tr1) \<Rightarrow>
     let (info, tr2) = ask f (C_InspectVolume (mv_FromNode m) (vo_Name v)) tr1;
         m' = (if rp_err info = None \<and> rp_num info > 0 then m\<lparr>mv_Bytes := int64 (mv_Bytes m + rp_num info)\<rparr> else m)
     in sync_loop f srcAddr dstAddr check (Suc i) vs m' tr2)"

definition safeAddr :: "string \<Rightarrow> bool" where
  "safeAddr a \<longleftrightarrow> a \<noteq> [] \<and> trim_set ''0123456789abcdefABCDEF.:'' a = []"

definition sync :: "flow \<Rightarrow> bool \<Rightarrow> env_move \<Rightarrow> trace \<Rightarrow> (env_move \<times> error) \<times> trace" where
  "sync f check m tr = (case docks f m tr of
     (Some e, tr1) \<Rightarrow> ((m, Some e), tr1)
   | (None, tr1) \<Rightarrow>
     let (s, tr2) = ask f (C_Addr (mv_FromNode m)) tr1 in
     case rp_err s of Some e \<Rightarrow> ((m, Some e), tr2) | None \<Rightarrow>
     let (d, tr3) = ask f (C_Addr (mv_ToNode m)) tr2 in
     case rp_err d of Some e \<Rightarrow> ((m, Some e), tr3) | None \<Rightarrow>
     if \<not> safeAddr (rp_text s) \<or> \<not> safeAddr (rp_text d)
     then ((m, Some (Errorf ''node address %q / %q is not a plain address'' [rp_text s, rp_text d])), tr3)
     else case with_volumes f m tr3 of
       (Inl e, tr4) \<Rightarrow> ((m, Some e), tr4)
     | (Inr vols, tr4) \<Rightarrow> sync_loop f (rp_text s) (rp_text d) check 0 vols (m\<lparr>mv_Bytes := 0\<rparr>) tr4)"

fun drop_loop :: "flow \<Rightarrow> env_move \<Rightarrow> nat \<Rightarrow> volume list \<Rightarrow> trace \<Rightarrow> trace" where
  "drop_loop f m i [] tr = tr"
| "drop_loop f m i (v # vs) tr = drop_loop f m (Suc i) vs
     (try_call f (C_StopRemove (mv_FromNode m) (helperName (mv_ID m) i ''c''))
       (try_call f (C_StopRemove (mv_ToNode m) (helperName (mv_ID m) i ''d'')) tr))"

definition dropHelpers :: "flow \<Rightarrow> env_move \<Rightarrow> trace \<Rightarrow> trace" where
  "dropHelpers f m tr =
     (if \<not> mv_Live m then tr
      else case docks f m tr of
        (Some e, tr1) \<Rightarrow> tr1
      | (None, tr1) \<Rightarrow> (case with_volumes f m tr1 of (Inl e, tr2) \<Rightarrow> tr2 | (Inr vols, tr2) \<Rightarrow> drop_loop f m 0 vols tr2))"

section \<open>Model: the phases\<close>

definition reachedStop :: "env_move \<Rightarrow> bool" where
  "reachedStop m \<longleftrightarrow> mv_Phase m \<in> {PhStopping, PhCopying, PhFinal, PhStarting}"

definition phase_order :: "bool \<Rightarrow> string list" where
  "phase_order live = (if live then [PhQueued, PhSyncing, PhStopping, PhFinal, PhStarting, PhCleaning, PhDone]
     else [PhQueued, PhStopping, PhCopying, PhStarting, PhCleaning, PhDone])"

text \<open>\<^verbatim>\<open>order[i+1]\<close> at the last index, \<^verbatim>\<open>done\<close>, would panic; \<open>next_phase\<close> is asked of unfinished moves only.\<close>

definition next_phase :: "env_move \<Rightarrow> string" where
  "next_phase m = (case find_index (\<lambda>p. p = mv_Phase m) (phase_order (mv_Live m)) of
     Some i \<Rightarrow> phase_order (mv_Live m) ! Suc i | None \<Rightarrow> PhDone)"

definition phase_work :: "flow \<Rightarrow> env_move \<Rightarrow> trace \<Rightarrow> (env_move \<times> error) \<times> trace" where
  "phase_work f m tr =
     (if mv_Phase m = PhQueued then apfst (Pair m) (prepare f m tr)
      else if mv_Phase m = PhSyncing then sync f False m tr
      else if mv_Phase m = PhStopping then apfst (Pair m) (do_call f (C_Stop (mv_EnvID m)) tr)
      else if mv_Phase m = PhCopying then copyCold f m tr
      else if mv_Phase m = PhFinal then sync f True m tr
      else if mv_Phase m = PhStarting then apfst (Pair m) (do_call f (C_Start (mv_EnvID m) (mv_ToNode m)) tr)
      else if mv_Phase m = PhCleaning then apfst (Pair m) (do_call f (C_Remove (mv_EnvID m) (mv_FromNode m)) tr)
      else ((m, None), tr))"

definition advance :: "flow \<Rightarrow> env_move \<Rightarrow> trace \<Rightarrow> env_move \<times> trace" where
  "advance f m tr =
     (let m' = m\<lparr>mv_Phase := next_phase m, mv_Error := []\<rparr> in
      if move_ended (mv_Phase m') then let (n, tr') = ask f C_now tr in (m'\<lparr>mv_FinishedAt := Some (rp_num n)\<rparr>, tr') else (m', tr))"

definition move_step :: "flow \<Rightarrow> env_move \<Rightarrow> trace \<Rightarrow> (env_move \<times> error) \<times> trace" where
  "move_step f m tr = (case phase_work f m tr of
     ((m1, Some e), tr1) \<Rightarrow> ((m1, Some e), tr1)
   | ((m1, None), tr1) \<Rightarrow> let (m2, tr2) = advance f m1 tr1 in apfst (Pair m2) (moves_Update f m2 tr2))"

text \<open>
  \<^verbatim>\<open>Rollback\<close> in two parts: clearing the target and starting the source, then the write of the row.  \<open>cause\<close> is
  printed with \<^verbatim>\<open>%v\<close>, which writes a nil error as \<^verbatim>\<open><nil>\<close>.
\<close>

definition rollback_env :: "flow \<Rightarrow> env_move \<Rightarrow> trace \<Rightarrow> error \<times> trace" where
  "rollback_env f m tr =
     (let tr1 = (if mv_Phase m = PhStarting then try_call f (C_Remove (mv_EnvID m) (mv_ToNode m)) tr else tr);
          tr2 = dropHelpers f m tr1
      in if reachedStop m then do_call f (C_Start (mv_EnvID m) (mv_FromNode m)) tr2 else (None, tr2))"

definition rollback_row :: "flow \<Rightarrow> env_move \<Rightarrow> error \<Rightarrow> error \<Rightarrow> trace \<Rightarrow> (env_move \<times> error) \<times> trace" where
  "rollback_row f m cause rerr tr = (case rerr of
     Some re \<Rightarrow>
       let m' = m\<lparr>mv_Error := (case cause of Some c \<Rightarrow> f_text f c | None \<Rightarrow> ''<nil>'') @ ''; rollback: '' @ f_text f re\<rparr>;
           (ue, tr1) = moves_Update f m' tr
       in ((m', errors_Join [cause, rerr, ue]), tr1)
   | None \<Rightarrow>
       let (n, tr1) = ask f C_now tr;
           m' = m\<lparr>mv_Phase := PhRolledBack, mv_FinishedAt := Some (rp_num n), mv_Error := (case cause of Some c \<Rightarrow> f_text f c | None \<Rightarrow> [])\<rparr>;
           (ue, tr2) = moves_Update f m' tr1
       in ((m', errors_Join [cause, ue]), tr2))"

definition Rollback :: "flow \<Rightarrow> env_move \<Rightarrow> error \<Rightarrow> trace \<Rightarrow> (env_move \<times> error) \<times> trace" where
  "Rollback f m cause tr =
     (if mv_Phase m = PhCleaning \<or> move_ended (mv_Phase m)
      then ((m, Some (Conflictf ''the move already started on the target'' [])), tr)
      else let (rerr, tr1) = rollback_env f m tr in rollback_row f m cause rerr tr1)"

text \<open>
  The loop of \<^verbatim>\<open>Run\<close>.  It ends because every successful step moves the phase on: \<open>phase_rank\<close> counts the phases
  that are left.
\<close>

definition phase_rank :: "env_move \<Rightarrow> nat" where
  "phase_rank m = (case find_index (\<lambda>p. p = mv_Phase m) (phase_order (mv_Live m)) of
     Some i \<Rightarrow> length (phase_order (mv_Live m)) - i | None \<Rightarrow> Suc (length (phase_order (mv_Live m))))"

definition run_failed :: "flow \<Rightarrow> env_move \<Rightarrow> err \<Rightarrow> trace \<Rightarrow> (env_move \<times> error) \<times> trace" where
  "run_failed f m e tr = (case do_call f C_ctxErr tr of
     (Some _, tr1) \<Rightarrow> ((m, Some e), tr1)
   | (None, tr1) \<Rightarrow>
     if mv_Phase m = PhCleaning
     then let m' = m\<lparr>mv_Error := f_text f e\<rparr>; (ue, tr2) = moves_Update f m' tr1 in ((m', errors_Join [Some e, ue]), tr2)
     else Rollback f m (Some e) tr1)"

lemma ask_simps [simp]: "fst (ask f c tr) = f_world f tr c" "snd (ask f c tr) = (c, f_world f tr c) # tr"
  by (simp_all add: ask_def)

lemma do_call_eq: "do_call f c tr = (rp_err (f_world f tr c), (c, f_world f tr c) # tr)"
  by (simp add: do_call_def ask_def)

lemma try_call_eq: "try_call f c tr = (c, f_world f tr c) # tr"
  by (simp add: try_call_def)

lemmas calls = do_call_eq try_call_eq ask_def

text \<open>The work of a phase changes the byte count of the row and nothing else.\<close>

lemma copy_loop_row: "\<exists>b. fst (fst (copy_loop f vs m tr)) = m\<lparr>mv_Bytes := b\<rparr>"
proof (induction vs arbitrary: m tr)
  case Nil
  then show ?case by (auto intro: exI [of _ "mv_Bytes m"])
next
  case (Cons v vs)
  obtain n e tr' where s: "stream f m (vo_Name v) tr = ((n, e), tr')" by (metis prod.exhaust)
  show ?case
  proof (cases e)
    case None
    then show ?thesis using Cons.IH [of "m\<lparr>mv_Bytes := int64 (mv_Bytes m + n)\<rparr>" tr'] s by auto
  qed (auto simp: s intro: exI [of _ "mv_Bytes m"])
qed

lemma sync_loop_row: "\<exists>b. fst (fst (sync_loop f sa da check i vs m tr)) = m\<lparr>mv_Bytes := b\<rparr>"
proof (induction vs arbitrary: i m tr)
  case Nil
  then show ?case by (auto intro: exI [of _ "mv_Bytes m"])
next
  case (Cons v vs)
  obtain e tr' where s: "rsync_pass f m i v sa da check tr = (e, tr')" by (metis prod.exhaust)
  let ?r = "f_world f tr' (C_InspectVolume (mv_FromNode m) (vo_Name v))"
  show ?case
  proof (cases e)
    case None
    then show ?thesis
      using Cons.IH [of "Suc i" m "(C_InspectVolume (mv_FromNode m) (vo_Name v), ?r) # tr'"]
        Cons.IH [of "Suc i" "m\<lparr>mv_Bytes := int64 (mv_Bytes m + rp_num ?r)\<rparr>" "(C_InspectVolume (mv_FromNode m) (vo_Name v), ?r) # tr'"] s
      by (auto simp: ask_def)
  qed (auto simp: s intro: exI [of _ "mv_Bytes m"])
qed

lemma keep_row: "\<exists>b. m = m\<lparr>mv_Bytes := b\<rparr>"
  by (rule exI [of _ "mv_Bytes m"]) simp

lemma copyCold_row: "\<exists>b. fst (fst (copyCold f m tr)) = m\<lparr>mv_Bytes := b\<rparr>"
proof -
  have "\<exists>b. fst (fst (copy_loop f vs (m\<lparr>mv_Bytes := 0\<rparr>) tr')) = m\<lparr>mv_Bytes := b\<rparr>" for vs tr'
    using copy_loop_row [of f vs "m\<lparr>mv_Bytes := 0\<rparr>" tr'] by auto
  then show ?thesis
    by (auto simp: copyCold_def keep_row split: prod.splits option.splits sum.splits)
qed

lemma sync_row: "\<exists>b. fst (fst (sync f check m tr)) = m\<lparr>mv_Bytes := b\<rparr>"
proof -
  have "\<exists>b. fst (fst (sync_loop f sa da check i vs (m\<lparr>mv_Bytes := 0\<rparr>) tr')) = m\<lparr>mv_Bytes := b\<rparr>" for sa da i vs tr'
    using sync_loop_row [of f sa da check i vs "m\<lparr>mv_Bytes := 0\<rparr>" tr'] by auto
  then show ?thesis
    by (auto simp: sync_def keep_row ask_def Let_def split: prod.splits option.splits sum.splits)
qed

lemma phase_work_row: "\<exists>b. fst (fst (phase_work f m tr)) = m\<lparr>mv_Bytes := b\<rparr>"
  unfolding phase_work_def using copyCold_row [of f m tr] sync_row [of f _ m tr] keep_row [of m]
  by (simp only: if_distrib [of fst] fst_apfst fst_conv split: if_split) blast

lemma next_phase_cong: "mv_Phase m = mv_Phase m' \<Longrightarrow> mv_Live m = mv_Live m' \<Longrightarrow> next_phase m = next_phase m'"
  unfolding next_phase_def by (drule sym, drule sym, simp only:)

lemma move_step_next:
  assumes "move_step f m tr = ((m', None), tr')"
  shows "mv_Phase m' = next_phase m \<and> mv_Live m' = mv_Live m"
proof -
  obtain b e tr1 where w: "phase_work f m tr = ((m\<lparr>mv_Bytes := b\<rparr>, e), tr1)"
    using phase_work_row [of f m tr] by (metis prod.collapse)
  have "next_phase (m\<lparr>mv_Bytes := b\<rparr>) = next_phase m" by (rule next_phase_cong) simp_all
  then show ?thesis using assms w
    by (auto simp: move_step_def advance_def Let_def apfst_def map_prod_def split: option.splits prod.splits if_splits)
qed

lemma phase_rank_next:
  assumes "\<not> move_ended (mv_Phase m)" "mv_Phase m' = next_phase m" "mv_Live m' = mv_Live m"
  shows "phase_rank m' < phase_rank m"
proof (cases "mv_Phase m \<in> set (phase_order (mv_Live m))")
  case False
  then have "find_index (\<lambda>p. p = mv_Phase m) (phase_order (mv_Live m)) = None" by (auto simp: find_index_None)
  then show ?thesis using assms by (simp add: phase_rank_def next_phase_def) (simp add: phase_order_def)
next
  case p: True
  show ?thesis
proof (cases "mv_Live m")
  case True
  then consider "mv_Phase m = PhQueued" | "mv_Phase m = PhSyncing" | "mv_Phase m = PhStopping"
    | "mv_Phase m = PhFinal" | "mv_Phase m = PhStarting" | "mv_Phase m = PhCleaning"
    using assms(1) p by (auto simp: phase_order_def move_ended_def)
  then show ?thesis
    by cases (use True assms(2,3) in \<open>simp_all add: phase_rank_def next_phase_def phase_order_def\<close>)
next
  case False
  then consider "mv_Phase m = PhQueued" | "mv_Phase m = PhStopping"
    | "mv_Phase m = PhCopying" | "mv_Phase m = PhStarting" | "mv_Phase m = PhCleaning"
    using assms(1) p by (auto simp: phase_order_def move_ended_def)
  then show ?thesis
    by cases (use False assms(2,3) in \<open>simp_all add: phase_rank_def next_phase_def phase_order_def\<close>)
qed
qed

function run_loop :: "flow \<Rightarrow> env_move \<Rightarrow> trace \<Rightarrow> (env_move \<times> error) \<times> trace" where
  "run_loop f m tr =
     (if move_ended (mv_Phase m) then ((m, None), tr)
      else case move_step f m tr of
        ((m', Some e), tr') \<Rightarrow> run_failed f m' e tr'
      | ((m', None), tr') \<Rightarrow> run_loop f m' tr')"
  by pat_completeness auto
termination
  by (relation "measure (\<lambda>(f, m, tr). phase_rank m)") (auto dest!: move_step_next [OF sym] intro: phase_rank_next)

declare run_loop.simps [simp del]

definition Run :: "flow \<Rightarrow> string \<Rightarrow> trace \<Rightarrow> (env_move \<times> error) \<times> trace" where
  "Run f i tr = (case moves_Get f i tr of
     (Inl e, tr1) \<Rightarrow> ((move_none, Some e), tr1)
   | (Inr m, tr1) \<Rightarrow> run_loop f m tr1)"

end
