(* ===== verification/Move_Safety.thy ===== *)
theory Move_Safety
  imports Move
begin

text \<open>
  What the trace of a move shows, whatever the world answers and wherever the process dies: each recorded
  phase promises something about the calls made so far (\<open>phase_inv\<close>), every operation keeps those promises
  after each of its calls (\<open>path\<close>), and the life of a move is any number of runs cut off anywhere.  The
  properties: the target starts from a full copy, the source is removed last, a finished move runs
  somewhere, and a move that was cut off gets done.
\<close>

section \<open>What a trace says about a move\<close>

text \<open>
  Of the row \<open>k\<close> a move began with, its id, env, nodes and kind never change.  \<open>stopped\<close>: the env has been stopped.
  \<open>since_stop\<close>: what happened since it last was.  \<open>rolled\<close>: a rollback has started the env on the source again.
  \<open>last_start\<close>: the node of the env's last start, and whether that start succeeded.
\<close>

definition same_move :: "env_move \<Rightarrow> env_move \<Rightarrow> bool" where
  "same_move k m \<longleftrightarrow> mv_ID m = mv_ID k \<and> mv_EnvID m = mv_EnvID k \<and> mv_FromNode m = mv_FromNode k \<and> mv_ToNode m = mv_ToNode k
     \<and> mv_Live m = mv_Live k"

definition happened :: "trace \<Rightarrow> call \<Rightarrow> bool" where
  "happened tr c \<longleftrightarrow> c \<in> fst ` set tr"

definition succeeded :: "trace \<Rightarrow> call \<Rightarrow> reply \<Rightarrow> bool" where
  "succeeded tr c r \<longleftrightarrow> (c, r) \<in> set tr \<and> rp_err r = None"

definition stopped :: "env_move \<Rightarrow> trace \<Rightarrow> bool" where
  "stopped k tr \<longleftrightarrow> (\<exists>r. succeeded tr (C_Stop (mv_EnvID k)) r)"

definition since_stop :: "env_move \<Rightarrow> trace \<Rightarrow> trace" where
  "since_stop k tr = takeWhile (\<lambda>(c, r). \<not> (c = C_Stop (mv_EnvID k) \<and> rp_err r = None)) tr"

definition rolled :: "env_move \<Rightarrow> trace \<Rightarrow> bool" where
  "rolled k tr \<longleftrightarrow> happened tr (C_Start (mv_EnvID k) (mv_FromNode k))"

fun last_start :: "string \<Rightarrow> trace \<Rightarrow> (string \<times> bool) option" where
  "last_start env [] = None"
| "last_start env ((C_Start e node, r) # tr) = (if e = env then Some (node, rp_err r = None) else last_start env tr)"
| "last_start env (_ # tr) = last_start env tr"

text \<open>
  A volume is copied cold by a tar and an untar that both succeed; live, by an rsync client with
  checksums on the source that ends with code 0, its daemon on the target holding the same volume.
\<close>

definition copied :: "env_move \<Rightarrow> trace \<Rightarrow> volume \<Rightarrow> bool" where
  "copied k tr v \<longleftrightarrow>
     (if mv_Live k
      then \<exists>i a s c d w. succeeded tr (C_Addr (mv_ToNode k)) a
             \<and> succeeded tr (C_Run (mv_ToNode k) (daemon_spec (mv_ID k) i v s)) d
             \<and> succeeded tr (C_Run (mv_FromNode k) (client_spec (mv_ID k) i v (rp_text a) True)) c
             \<and> succeeded tr (C_Wait (mv_FromNode k) (rp_text c)) w \<and> rp_num w = 0
      else \<exists>t u. succeeded tr (C_TarVolume (mv_FromNode k) (vo_Name v)) t \<and> succeeded tr (C_UntarVolume (mv_ToNode k) (vo_Name v)) u)"

definition ready :: "env_move \<Rightarrow> trace \<Rightarrow> bool" where
  "ready k tr \<longleftrightarrow> stopped k tr
     \<and> (\<exists>r. succeeded (since_stop k tr) (C_Volumes (mv_EnvID k)) r \<and> (\<forall>v \<in> set (rp_vols r). copied k (since_stop k tr) v))"

text \<open>What a recorded phase promises about the trace.\<close>

definition phase_inv :: "env_move \<Rightarrow> string \<Rightarrow> trace \<Rightarrow> bool" where
  "phase_inv k p tr \<longleftrightarrow> p \<in> set (phase_order (mv_Live k)) \<union> {PhRolledBack}
     \<and> (p = PhQueued \<or> p = PhSyncing \<longrightarrow> \<not> happened tr (C_Stop (mv_EnvID k)))
     \<and> (p = PhCopying \<or> p = PhFinal \<longrightarrow> rolled k tr \<or> stopped k tr)
     \<and> (p = PhStarting \<longrightarrow> rolled k tr \<or> ready k tr)
     \<and> (p = PhCleaning \<or> p = PhDone \<longrightarrow> last_start (mv_EnvID k) tr = Some (mv_ToNode k, True))
     \<and> (p = PhDone \<longrightarrow> (\<exists>r. succeeded tr (C_Remove (mv_EnvID k) (mv_FromNode k)) r))
     \<and> (p = PhRolledBack \<longrightarrow> \<not> happened tr (C_Stop (mv_EnvID k)) \<or> last_start (mv_EnvID k) tr = Some (mv_FromNode k, True))"

text \<open>What must hold at every moment: the row's promise, and the guard of the newest call.\<close>

fun safe_call :: "env_move \<Rightarrow> trace \<Rightarrow> bool" where
  "safe_call k [] \<longleftrightarrow> True"
| "safe_call k ((c, r) # tr) \<longleftrightarrow>
     (c = C_Start (mv_EnvID k) (mv_ToNode k) \<longrightarrow> rolled k tr \<or> ready k tr)
     \<and> (c = C_Remove (mv_EnvID k) (mv_FromNode k) \<longrightarrow> last_start (mv_EnvID k) tr = Some (mv_ToNode k, True))"

definition move_inv :: "env_move \<Rightarrow> trace \<Rightarrow> bool" where
  "move_inv k tr \<longleftrightarrow> mv_FromNode k \<noteq> mv_ToNode k
     \<and> (\<exists>m. stored tr (mv_ID k) = Some m \<and> same_move k m \<and> phase_inv k (mv_Phase m) tr) \<and> safe_call k tr"

section \<open>Calls that change no row and do nothing to an env\<close>

fun env_call :: "call \<Rightarrow> bool" where
  "env_call (C_Stop e) = True"
| "env_call (C_Start e n) = True"
| "env_call (C_Remove e n) = True"
| "env_call _ = False"

fun row_call :: "call \<Rightarrow> bool" where
  "row_call (C_Create m) = True"
| "row_call (C_Update m) = True"
| "row_call _ = False"

definition grows :: "trace \<Rightarrow> trace \<Rightarrow> bool" where
  "grows tr tr' \<longleftrightarrow> (\<exists>new. tr' = new @ tr \<and> (\<forall>(c, r) \<in> set new. \<not> env_call c \<and> \<not> row_call c))"

named_theorems grows \<open>operations whose calls only look at the env and change no row\<close>

lemma grows_refl [simp, grows]: "grows tr tr"
  by (simp add: grows_def)

lemma grows_trans: "grows tr tr' \<Longrightarrow> grows tr' tr'' \<Longrightarrow> grows tr tr''"
  unfolding grows_def by (metis (no_types, lifting) Un_iff append_assoc set_append)

lemma grows_Cons [grows]: "grows tr tr' \<Longrightarrow> \<not> env_call c \<Longrightarrow> \<not> row_call c \<Longrightarrow> grows tr ((c, r) # tr')"
  unfolding grows_def by (metis (no_types, lifting) Cons_eq_appendI case_prodI set_ConsD)

lemma grows_do_call [grows]: "\<not> env_call c \<Longrightarrow> \<not> row_call c \<Longrightarrow> grows tr (snd (do_call f c tr))"
  by (simp add: do_call_eq grows)

lemma grows_and_then:
  assumes "\<And>tr. grows tr (snd (a tr))" "\<And>tr. grows tr (snd (b tr))"
  shows "grows tr (snd (and_then a b tr))"
  using assms(1) [of tr] assms(2) [of "snd (a tr)"]
  by (auto simp: and_then_def intro: grows_trans split: prod.splits option.splits)

lemma grows_for_each:
  assumes "\<And>x tr. grows tr (snd (a x tr))"
  shows "grows tr (snd (for_each a xs tr))"
proof (induction xs arbitrary: tr)
  case (Cons x xs)
  show ?case unfolding for_each.simps by (rule grows_and_then [OF assms Cons])
qed simp

lemma grows_wrapped: "grows tr (snd (a tr)) \<Longrightarrow> grows tr (snd (wrapped m args a tr))"
  by (cases "a tr") (simp add: wrapped_def)

lemma grows_docks [grows]: "grows tr (snd (docks f m tr))"
  unfolding docks_def by (rule grows_and_then) (simp_all add: grows)

lemma grows_prepare_node [grows]: "grows tr (snd (prepare_node f m node tr))"
  by (auto simp: prepare_node_def do_call_eq wrapped_def Let_def intro!: grows split: option.splits)

lemma grows_with_volumes: "grows tr (snd (with_volumes f m tr))"
  by (simp add: with_volumes_def ask_def grows)

lemma grows_prepare [grows]: "grows tr (snd (prepare f m tr))"
proof -
  have 1: "grows tr (snd (ensure_rsync f m tr))" for tr
    by (simp add: ensure_rsync_def grows grows_wrapped)
  have 2: "grows tr (snd (for_each (prepare_node f m) ns tr))" "grows tr (snd (for_each (create_volume f m) vols tr))" for tr ns vols
    by (rule grows_for_each, simp add: grows create_volume_def)+
  have 3: "grows tr (snd (and_then (ensure_rsync f m) (and_then (for_each (prepare_node f m) ns) (for_each (create_volume f m) vols)) tr))"
    for tr ns vols by (rule grows_and_then [OF 1 grows_and_then [OF 2]])
  have 4: "grows tr (snd (case with_volumes f m tr of (Inl e, tr1) \<Rightarrow> (Some e, tr1) | (Inr vols, tr1) \<Rightarrow>
       and_then (ensure_rsync f m) (and_then (for_each (prepare_node f m) [mv_FromNode m, mv_ToNode m]) (for_each (create_volume f m) vols)) tr1))" for tr
    using grows_with_volumes [of tr f m] grows_trans [OF _ 3]
    by (cases "with_volumes f m tr"; cases "fst (with_volumes f m tr)") simp_all
  show ?thesis unfolding prepare_def by (rule grows_and_then [OF grows_docks 4])
qed

lemma grows_drop_loop: "grows tr (drop_loop f m i vs tr)"
proof (induction vs arbitrary: i tr)
  case (Cons v vs)
  show ?case by (auto simp: try_call_eq intro!: grows_trans [OF _ Cons] grows)
qed simp

lemma grows_dropHelpers [grows]: "grows tr (dropHelpers f m tr)"
proof -
  have "grows tr (drop_loop f m 0 vs ((c, r) # snd (docks f m tr)))" if "\<not> env_call c" "\<not> row_call c" for vs c r
    using that by (auto intro!: grows_trans [OF _ grows_drop_loop] grows_Cons grows_docks)
  then show ?thesis using grows_docks [of tr f m]
    by (auto simp: dropHelpers_def with_volumes_def ask_def Let_def intro: grows split: prod.splits option.splits sum.splits)
qed

lemma succeeded_append [simp]: "succeeded (a @ b) c r \<longleftrightarrow> succeeded a c r \<or> succeeded b c r"
  by (auto simp: succeeded_def)

lemma succeeded_Cons [simp]: "succeeded ((c', r') # tr) c r \<longleftrightarrow> c' = c \<and> r' = r \<and> rp_err r = None \<or> succeeded tr c r"
  by (auto simp: succeeded_def)

lemma succeeded_Nil [simp]: "\<not> succeeded [] c r"
  by (simp add: succeeded_def)

lemma copied_mono: "copied k a v \<Longrightarrow> copied k (a @ b) v" "copied k b v \<Longrightarrow> copied k (a @ b) v"
  unfolding copied_def by (simp_all split: if_splits) blast+

lemma copied_same: "same_move k m \<Longrightarrow> copied m = copied k"
  by (simp add: fun_eq_iff copied_def same_move_def)

lemma growsE:
  assumes "grows tr tr'"
  obtains new where "tr' = new @ tr" "\<forall>(c, r) \<in> set new. \<not> env_call c \<and> \<not> row_call c"
  using assms unfolding grows_def by blast

text \<open>A copy that succeeds has copied each of its volumes, in calls made since it began.\<close>

definition copy_of :: "env_move \<Rightarrow> volume list \<Rightarrow> trace \<Rightarrow> trace \<Rightarrow> bool" where
  "copy_of m vs tr tr' \<longleftrightarrow> (\<exists>new. tr' = new @ tr \<and> (\<forall>v \<in> set vs. copied m new v))"

lemma copy_of_Nil: "grows tr tr' \<Longrightarrow> copy_of m [] tr tr'"
  unfolding copy_of_def grows_def by auto

lemma copy_of_Cons:
  assumes "tr1 = a @ tr" "copied m a v" "copy_of m vs tr1 tr'"
  shows "copy_of m (v # vs) tr tr'"
proof -
  obtain new where "tr' = new @ tr1" "\<forall>v \<in> set vs. copied m new v" using assms(3) unfolding copy_of_def by blast
  then show ?thesis using assms(1,2) unfolding copy_of_def by (intro exI [of _ "new @ a"]) (auto intro: copied_mono)
qed

lemma copy_of_bytes [simp]: "copy_of (m\<lparr>mv_Bytes := b\<rparr>) = copy_of m"
  by (simp add: fun_eq_iff copy_of_def copied_def)

lemma copy_loop_copies:
  assumes "copy_loop f vs m tr = ((m', e), tr')"
  shows "grows tr tr' \<and> (e = None \<and> \<not> mv_Live m \<longrightarrow> copy_of m vs tr tr')"
  using assms
proof (induction vs arbitrary: m tr)
  case Nil
  then show ?case by (simp add: copy_of_Nil)
next
  case (Cons v vs)
  let ?t = "C_TarVolume (mv_FromNode m) (vo_Name v)" and ?u = "C_UntarVolume (mv_ToNode m) (vo_Name v)"
  let ?tr1 = "(?t, f_world f tr ?t) # tr"
  let ?new = "[(?u, f_world f ?tr1 ?u), (?t, f_world f tr ?t)]"
  have g: "grows tr (?new @ tr)" by (simp add: grows)
  show ?case
  proof (cases "rp_err (f_world f tr ?t) = None \<and> rp_err (f_world f ?tr1 ?u) = None")
    case True
    let ?m = "m\<lparr>mv_Bytes := int64 (mv_Bytes m + rp_num (f_world f tr ?t))\<rparr>"
    have "copy_loop f vs ?m (?new @ tr) = ((m', e), tr')"
      using Cons.prems True by (simp add: stream_def ask_def)
    from Cons.IH [OF this] have IH: "grows (?new @ tr) tr'" "e = None \<and> \<not> mv_Live m \<Longrightarrow> copy_of m vs (?new @ tr) tr'" by simp_all
    have "\<not> mv_Live m \<Longrightarrow> copied m ?new v" using True by (auto simp: copied_def)
    then show ?thesis using grows_trans [OF g IH(1)] IH(2) copy_of_Cons [OF refl] by blast
  next
    case False
    then show ?thesis using Cons.prems g by (auto simp: stream_def ask_def split: option.splits)
  qed
qed

lemma rsync_pass_copies:
  assumes "rsync_pass f m i v sa da check tr = (e, tr')"
  shows "\<exists>new. tr' = new @ tr \<and> grows tr tr' \<and> (e = None \<longrightarrow>
    (\<exists>c d w. succeeded new (C_Run (mv_ToNode m) (daemon_spec (mv_ID m) i v sa)) d
       \<and> succeeded new (C_Run (mv_FromNode m) (client_spec (mv_ID m) i v da check)) c
       \<and> succeeded new (C_Wait (mv_FromNode m) (rp_text c)) w \<and> rp_num w = 0))"
proof -
  let ?c1 = "C_StopRemove (mv_ToNode m) (helperName (mv_ID m) i ''d'')" and ?c2 = "C_StopRemove (mv_FromNode m) (helperName (mv_ID m) i ''c'')"
  let ?t1 = "(?c1, f_world f tr ?c1) # tr"
  let ?t2 = "(?c2, f_world f ?t1 ?c2) # ?t1"
  let ?c3 = "C_Run (mv_ToNode m) (daemon_spec (mv_ID m) i v sa)"
  let ?d = "f_world f ?t2 ?c3"
  let ?t3 = "(?c3, ?d) # ?t2"
  let ?c4 = "C_Run (mv_FromNode m) (client_spec (mv_ID m) i v da check)"
  let ?c = "f_world f ?t3 ?c4"
  let ?t4 = "(?c4, ?c) # ?t3"
  let ?c5 = "C_Wait (mv_FromNode m) (rp_text ?c)"
  let ?t5 = "(?c5, f_world f ?t4 ?c5) # ?t4"
  show ?thesis
  proof (cases "rp_err ?d")
    case (Some x)
    then have "tr' = ?t3" "e \<noteq> None" using assms by (auto simp: rsync_pass_def try_call_eq ask_def Let_def)
    then show ?thesis by (auto simp: grows)
  next
    case d: None
    show ?thesis
    proof (cases "rp_err ?c")
      case (Some x)
      then have "tr' = try_call f (C_StopRemove (mv_ToNode m) (rp_text ?d)) ?t4" "e \<noteq> None"
        using assms d by (auto simp: rsync_pass_def try_call_eq ask_def Let_def)
      then show ?thesis by (auto simp: try_call_eq grows)
    next
      case c: None
      then have t: "tr' = try_call f (C_StopRemove (mv_ToNode m) (rp_text ?d)) (try_call f (C_StopRemove (mv_FromNode m) (rp_text ?c)) ?t5)"
        and e: "e = None \<Longrightarrow> rp_err (f_world f ?t4 ?c5) = None \<and> rp_num (f_world f ?t4 ?c5) = 0"
        using assms d by (auto simp: rsync_pass_def try_call_eq ask_def Let_def split: option.splits if_splits)
      show ?thesis
      proof (intro exI conjI impI)
        show "grows tr tr'" unfolding t by (simp add: try_call_eq grows)
        assume "e = None"
        note e = e [OF this]
        show "succeeded (take (length tr' - length tr) tr') ?c3 ?d" "succeeded (take (length tr' - length tr) tr') ?c4 ?c"
          "succeeded (take (length tr' - length tr) tr') ?c5 (f_world f ?t4 ?c5)" "rp_num (f_world f ?t4 ?c5) = 0"
          using d c e by (simp_all add: t try_call_eq)
      qed (simp add: t try_call_eq)
    qed
  qed
qed

definition rsynced :: "env_move \<Rightarrow> string \<Rightarrow> bool \<Rightarrow> trace \<Rightarrow> volume \<Rightarrow> bool" where
  "rsynced m da check tr v \<longleftrightarrow> (\<exists>i s c d w. succeeded tr (C_Run (mv_ToNode m) (daemon_spec (mv_ID m) i v s)) d
     \<and> succeeded tr (C_Run (mv_FromNode m) (client_spec (mv_ID m) i v da check)) c
     \<and> succeeded tr (C_Wait (mv_FromNode m) (rp_text c)) w \<and> rp_num w = 0)"

lemma rsynced_mono: "rsynced m da check a v \<Longrightarrow> rsynced m da check (a @ b) v" "rsynced m da check b v \<Longrightarrow> rsynced m da check (a @ b) v"
  unfolding rsynced_def by (simp_all split: if_splits) blast+

lemma rsynced_bytes [simp]: "rsynced (m\<lparr>mv_Bytes := b\<rparr>) = rsynced m"
  by (simp add: fun_eq_iff rsynced_def)

lemma sync_loop_copies:
  assumes "sync_loop f sa da check i vs m tr = ((m', e), tr')"
  shows "grows tr tr' \<and> (e = None \<longrightarrow> (\<exists>new. tr' = new @ tr \<and> (\<forall>v \<in> set vs. rsynced m da check new v)))"
  using assms
proof (induction vs arbitrary: i m tr)
  case Nil
  then show ?case by simp
next
  case (Cons v vs)
  obtain e1 tr1 where p: "rsync_pass f m i v sa da check tr = (e1, tr1)" by (metis prod.exhaust)
  obtain a where a: "tr1 = a @ tr" "grows tr tr1" "e1 = None \<Longrightarrow> rsynced m da check a v"
    using rsync_pass_copies [OF p] unfolding rsynced_def by blast
  show ?case
  proof (cases e1)
    case None
    let ?c = "C_InspectVolume (mv_FromNode m) (vo_Name v)"
    let ?tr2 = "(?c, f_world f tr1 ?c) # tr1"
    obtain b where "sync_loop f sa da check (Suc i) vs (m\<lparr>mv_Bytes := b\<rparr>) ?tr2 = ((m', e), tr')"
    proof (cases "rp_err (f_world f tr1 ?c) = None \<and> rp_num (f_world f tr1 ?c) > 0")
      case True
      then show thesis using Cons.prems p None by (intro that) (simp add: ask_def)
    next
      case False
      then show thesis using Cons.prems p None that [of "mv_Bytes m"] by (auto simp: ask_def split: if_splits)
    qed
    from Cons.IH [OF this] have IH: "grows ?tr2 tr'"
      "e = None \<Longrightarrow> \<exists>new. tr' = new @ ?tr2 \<and> (\<forall>v \<in> set vs. rsynced m da check new v)" by simp_all
    have "grows tr ?tr2" using a(2) by (simp add: grows)
    moreover have "\<exists>new. tr' = new @ tr \<and> (\<forall>v' \<in> set (v # vs). rsynced m da check new v')" if e: "e = None"
    proof -
      obtain new where "tr' = new @ ?tr2" "\<forall>v \<in> set vs. rsynced m da check new v" using IH(2) [OF e] by blast
      then show ?thesis using a(1) a(3) [OF None]
          rsynced_mono(2) [of m da check a v "new @ [(?c, f_world f tr1 ?c)]"]
        by (intro exI [of _ "(new @ [(?c, f_world f tr1 ?c)]) @ a"]) (auto intro: rsynced_mono)
    qed
    ultimately show ?thesis using grows_trans [OF _ IH(1)] by blast
  next
    case (Some x)
    then show ?thesis using Cons.prems p a(2) by auto
  qed
qed

text \<open>The copies of \<^verbatim>\<open>copyCold\<close> and of the final \<^verbatim>\<open>sync\<close>: the volumes are listed and each listed one is copied.\<close>

definition copied_all :: "env_move \<Rightarrow> trace \<Rightarrow> trace \<Rightarrow> bool" where
  "copied_all m tr tr' \<longleftrightarrow> (\<exists>new r. tr' = new @ tr \<and> succeeded new (C_Volumes (mv_EnvID m)) r \<and> (\<forall>v \<in> set (rp_vols r). copied m new v))"

lemma copied_allI:
  assumes "grows tr tr1" "rp_err r = None" "copy_of m (rp_vols r) ((C_Volumes (mv_EnvID m), r) # tr1) tr'"
  shows "copied_all m tr tr'"
proof -
  obtain a where a: "tr1 = a @ tr" using assms(1) unfolding grows_def by blast
  obtain new where n: "tr' = new @ (C_Volumes (mv_EnvID m), r) # tr1" "\<forall>v \<in> set (rp_vols r). copied m new v"
    using assms(3) unfolding copy_of_def by blast
  show ?thesis unfolding copied_all_def
    by (rule exI [of _ "new @ (C_Volumes (mv_EnvID m), r) # a"], rule exI [of _ r]) (use a n assms(2) in \<open>simp add: copied_mono\<close>)
qed

lemma copyCold_copies:
  assumes "copyCold f m tr = ((m', e), tr')"
  shows "grows tr tr' \<and> (e = None \<and> \<not> mv_Live m \<longrightarrow> copied_all m tr tr')"
proof -
  obtain e1 tr1 where d: "docks f m tr = (e1, tr1)" by (metis prod.exhaust)
  have g: "grows tr tr1" using grows_docks [of tr f m] d by simp
  let ?r = "f_world f tr1 (C_Volumes (mv_EnvID m))" and ?tr2 = "(C_Volumes (mv_EnvID m), f_world f tr1 (C_Volumes (mv_EnvID m))) # tr1"
  have g2: "grows tr ?tr2" using g by (simp add: grows)
  show ?thesis
  proof (cases "e1 = None \<and> rp_err ?r = None")
    case True
    then have "copy_loop f (rp_vols ?r) (m\<lparr>mv_Bytes := 0\<rparr>) ?tr2 = ((m', e), tr')"
      using assms d by (simp add: copyCold_def with_volumes_def ask_def)
    from copy_loop_copies [OF this] show ?thesis using grows_trans [OF g2] copied_allI [OF g] True by auto
  next
    case False
    then show ?thesis using assms d g g2 by (auto simp: copyCold_def with_volumes_def ask_def split: option.splits)
  qed
qed

lemma sync_copies:
  assumes "sync f check m tr = ((m', e), tr')"
  shows "grows tr tr' \<and> (e = None \<and> check \<and> mv_Live m \<longrightarrow> copied_all m tr tr')"
proof -
  obtain e1 tr1 where d: "docks f m tr = (e1, tr1)" by (metis prod.exhaust)
  have g: "grows tr tr1" using grows_docks [of tr f m] d by simp
  let ?s = "f_world f tr1 (C_Addr (mv_FromNode m))"
  let ?tr2 = "(C_Addr (mv_FromNode m), ?s) # tr1"
  let ?a = "f_world f ?tr2 (C_Addr (mv_ToNode m))"
  let ?tr3 = "(C_Addr (mv_ToNode m), ?a) # ?tr2"
  let ?r = "f_world f ?tr3 (C_Volumes (mv_EnvID m))"
  let ?tr4 = "(C_Volumes (mv_EnvID m), ?r) # ?tr3"
  have gs: "grows tr ?tr2" "grows tr ?tr3" "grows tr ?tr4" using g by (simp_all add: grows)
  show ?thesis
  proof (cases "e1 = None \<and> rp_err ?s = None \<and> rp_err ?a = None \<and> safeAddr (rp_text ?s) \<and> safeAddr (rp_text ?a) \<and> rp_err ?r = None")
    case True
    then have "sync_loop f (rp_text ?s) (rp_text ?a) check 0 (rp_vols ?r) (m\<lparr>mv_Bytes := 0\<rparr>) ?tr4 = ((m', e), tr')"
      using assms d by (simp add: sync_def with_volumes_def ask_def)
    from sync_loop_copies [OF this] have l: "grows ?tr4 tr'"
      "e = None \<Longrightarrow> \<exists>new. tr' = new @ ?tr4 \<and> (\<forall>v \<in> set (rp_vols ?r). rsynced m (rp_text ?a) check new v)" by simp_all
    have "copied_all m tr tr'" if c: "e = None" "check" "mv_Live m"
    proof -
      obtain new where new: "tr' = new @ ?tr4" "\<forall>v \<in> set (rp_vols ?r). rsynced m (rp_text ?a) True new v"
        using l(2) c by auto
      obtain b where b: "tr1 = b @ tr" using g unfolding grows_def by blast
      let ?n = "new @ [(C_Volumes (mv_EnvID m), ?r), (C_Addr (mv_ToNode m), ?a), (C_Addr (mv_FromNode m), ?s)] @ b"
      have "\<forall>v \<in> set (rp_vols ?r). copied m ?n v"
        using new(2) c(3) True unfolding copied_def rsynced_def by (simp, blast)
      then show ?thesis unfolding copied_all_def using new(1) b True by (intro exI [of _ ?n] exI [of _ ?r]) simp
    qed
    then show ?thesis using grows_trans [OF gs(3) l(1)] by blast
  next
    case False
    then show ?thesis using assms d g gs by (auto simp: sync_def with_volumes_def ask_def Let_def split: option.splits if_splits)
  qed
qed

section \<open>The promise of a phase along a trace\<close>

lemma happened_Cons [simp]: "happened ((c', r) # tr) c \<longleftrightarrow> c' = c \<or> happened tr c"
  by (auto simp: happened_def)

lemma rolled_Cons [simp]: "rolled k ((c, r) # tr) \<longleftrightarrow> c = C_Start (mv_EnvID k) (mv_FromNode k) \<or> rolled k tr"
  by (simp add: rolled_def)

lemma stopped_Cons [simp]: "stopped k ((c, r) # tr) \<longleftrightarrow> c = C_Stop (mv_EnvID k) \<and> rp_err r = None \<or> stopped k tr"
  by (auto simp: stopped_def)

lemma last_start_Cons [simp]: "(\<And>n. c \<noteq> C_Start env n) \<Longrightarrow> last_start env ((c, r) # tr) = last_start env tr"
  by (cases c) auto

lemma since_stop_Cons [simp]: "c \<noteq> C_Stop (mv_EnvID k) \<Longrightarrow> since_stop k ((c, r) # tr) = (c, r) # since_stop k tr"
  by (simp add: since_stop_def)

lemma ready_Cons: "c \<noteq> C_Stop (mv_EnvID k) \<Longrightarrow> ready k tr \<Longrightarrow> ready k ((c, r) # tr)"
  unfolding ready_def using copied_mono(2) [of k "since_stop k tr" _ "[(c, r)]"] by auto

text \<open>Only stopping or starting the env can break a promise.\<close>

lemma phase_inv_Cons:
  assumes "phase_inv k p tr" "c \<noteq> C_Stop (mv_EnvID k)" "\<And>n. c \<noteq> C_Start (mv_EnvID k) n"
  shows "phase_inv k p ((c, r) # tr)"
proof -
  have r: "rolled k ((c, r) # tr) \<longleftrightarrow> rolled k tr" "stopped k ((c, r) # tr) \<longleftrightarrow> stopped k tr"
    "happened ((c, r) # tr) (C_Stop (mv_EnvID k)) \<longleftrightarrow> happened tr (C_Stop (mv_EnvID k))"
    "last_start (mv_EnvID k) ((c, r) # tr) = last_start (mv_EnvID k) tr" using assms(2,3) by simp_all
  have m: "\<exists>x. succeeded tr c' x \<Longrightarrow> \<exists>x. succeeded ((c, r) # tr) c' x" for c' by auto
  note imp = ready_Cons [OF assms(2), of tr r] m [of "C_Remove (mv_EnvID k) (mv_FromNode k)"]
  show ?thesis using assms(1) unfolding phase_inv_def r
    by (elim conjE, intro conjI) (assumption | rule impI, drule (1) mp, erule disjE, erule disjI1, erule disjI2 [OF imp(1)]
      | rule impI, drule (1) mp, erule imp(2))+
qed

lemma phase_inv_quiet: "phase_inv k p tr \<Longrightarrow> \<not> env_call c \<Longrightarrow> phase_inv k p ((c, r) # tr)"
  by (erule phase_inv_Cons) auto

lemma phase_inv_grows:
  assumes "grows tr tr'" "phase_inv k p tr"
  shows "phase_inv k p tr'"
proof -
  obtain new where "tr' = new @ tr" "\<forall>(c, r) \<in> set new. \<not> env_call c \<and> \<not> row_call c" using assms(1) by (rule growsE)
  then show ?thesis
  proof (induction new arbitrary: tr')
    case (Cons e new)
    then show ?case by (cases e) (auto intro: phase_inv_quiet)
  qed (simp add: assms(2))
qed

lemma move_rows_quiet [simp]: "\<not> row_call c \<Longrightarrow> move_rows ((c, r) # tr) = move_rows tr"
  by (cases c) auto

lemma stored_quiet [simp]: "\<not> row_call c \<Longrightarrow> stored ((c, r) # tr) i = stored tr i"
  by (simp add: stored_def)

lemma stored_grows: "grows tr tr' \<Longrightarrow> stored tr' i = stored tr i"
proof (erule growsE)
  fix new assume "tr' = new @ tr" "\<forall>(c, r) \<in> set new. \<not> env_call c \<and> \<not> row_call c"
  then show ?thesis by (induction new arbitrary: tr') auto
qed

lemma stored_Update:
  assumes "stored tr (mv_ID m) = Some m0"
  shows "stored ((C_Update m, r) # tr) (mv_ID m) = Some (if rp_err r = None then m else m0)"
proof -
  have "find (\<lambda>x. mv_ID x = mv_ID m) (map (\<lambda>x. if mv_ID x = mv_ID m then m else x) xs) = Some m"
    if "find (\<lambda>x. mv_ID x = mv_ID m) xs = Some m0" for xs
    using that by (induction xs) (auto split: if_splits)
  then show ?thesis using assms by (simp add: stored_def)
qed

lemma ready_copied:
  assumes "stopped k tr" "grows tr tr'" "copied_all m tr tr'" "same_move k m"
  shows "ready k tr'"
proof -
  obtain new where n: "tr' = new @ tr" "\<forall>(c, r) \<in> set new. \<not> env_call c \<and> \<not> row_call c" using assms(2) by (rule growsE)
  have env: "mv_EnvID m = mv_EnvID k" using assms(4) by (simp add: same_move_def)
  from n have s: "since_stop k tr' = new @ since_stop k tr"
    by (force simp: since_stop_def intro!: takeWhile_append2)
  obtain r where r: "succeeded new (C_Volumes (mv_EnvID k)) r" "\<forall>v \<in> set (rp_vols r). copied k new v"
    using assms(3) n(1) env copied_same [OF assms(4)] unfolding copied_all_def by auto
  have "stopped k tr'" using assms(1) n(1) by (auto simp: stopped_def)
  then show ?thesis unfolding ready_def s using r by (auto intro: copied_mono)
qed

section \<open>Paths: what holds at every moment\<close>

text \<open>\<open>path I tr tr'\<close>: the trace grows from \<open>tr\<close> to \<open>tr'\<close>, and \<open>I\<close> holds after every call on the way.\<close>

inductive path :: "(trace \<Rightarrow> bool) \<Rightarrow> trace \<Rightarrow> trace \<Rightarrow> bool" for I where
  path_refl: "path I tr tr"
| path_call: "path I tr tr' \<Longrightarrow> I (e # tr') \<Longrightarrow> path I tr (e # tr')"

lemma path_trans: "path I tr' tr'' \<Longrightarrow> path I tr tr' \<Longrightarrow> path I tr tr''"
  by (induction rule: path.induct) (auto intro: path.intros)

lemma path_suffix: "path I tr tr' \<Longrightarrow> suffix tr tr'"
  by (induction rule: path.induct) (auto intro: suffix_ConsI)

lemma path_between:
  assumes "path I tr tr'" "suffix s tr'" "suffix tr s" "I tr"
  shows "I s"
  using assms
proof (induction rule: path.induct)
  case (path_refl tr)
  then show ?case using suffix_order.antisym by blast
next
  case (path_call tr tr' e)
  then show ?case by (auto simp: suffix_Cons)
qed

lemma path_end: "path I tr tr' \<Longrightarrow> I tr \<Longrightarrow> I tr'"
  by (induction rule: path.induct) auto

lemma move_inv_end: "path (move_inv k) tr tr' \<Longrightarrow> move_inv k tr \<Longrightarrow> move_inv k tr'"
  by (rule path_end)

lemma move_inv_quiet: "move_inv k tr \<Longrightarrow> \<not> env_call c \<Longrightarrow> \<not> row_call c \<Longrightarrow> move_inv k ((c, r) # tr)"
  unfolding move_inv_def by (auto intro: phase_inv_quiet)

lemma path_grows:
  assumes "grows tr tr'" "move_inv k tr"
  shows "path (move_inv k) tr tr'"
proof -
  obtain new where "tr' = new @ tr" "\<forall>(c, r) \<in> set new. \<not> env_call c \<and> \<not> row_call c" using assms(1) by (rule growsE)
  then show ?thesis
  proof (induction new arbitrary: tr')
    case (Cons e new)
    then have "path (move_inv k) tr (new @ tr)" by auto
    with Cons show ?case using move_inv_end [OF _ assms(2)]
      by (cases e) (auto intro!: path_call move_inv_quiet)
  qed (simp add: path_refl)
qed

lemma move_inv_Update:
  assumes "move_inv k tr" "same_move k m" "phase_inv k (mv_Phase m) tr"
  shows "move_inv k ((C_Update m, r) # tr)"
proof -
  obtain m0 where m0: "stored tr (mv_ID m) = Some m0" "same_move k m0" "phase_inv k (mv_Phase m0) tr"
    using assms(1,2) unfolding move_inv_def same_move_def by auto
  then have s: "stored ((C_Update m, r) # tr) (mv_ID k) = Some (if rp_err r = None then m else m0)"
    using stored_Update [OF m0(1)] assms(2) by (simp add: same_move_def)
  show ?thesis unfolding move_inv_def s using assms m0 by (auto simp: move_inv_def intro!: phase_inv_quiet)
qed

section \<open>A step keeps the promises\<close>

definition synced :: "env_move \<Rightarrow> env_move \<Rightarrow> trace \<Rightarrow> bool" where
  "synced k m tr \<longleftrightarrow> move_inv k tr \<and> same_move k m \<and> stored tr (mv_ID k) = Some m"

lemma synced_phase: "synced k m tr \<Longrightarrow> phase_inv k (mv_Phase m) tr"
  by (auto simp: synced_def move_inv_def)

lemma phase_inv_next:
  "phase_inv k PhStopping tr"
  "mv_Live k \<Longrightarrow> \<not> happened tr (C_Stop (mv_EnvID k)) \<Longrightarrow> phase_inv k PhSyncing tr"
  "\<not> mv_Live k \<Longrightarrow> rolled k tr \<or> stopped k tr \<Longrightarrow> phase_inv k PhCopying tr"
  "mv_Live k \<Longrightarrow> rolled k tr \<or> stopped k tr \<Longrightarrow> phase_inv k PhFinal tr"
  "rolled k tr \<or> ready k tr \<Longrightarrow> phase_inv k PhStarting tr"
  "last_start (mv_EnvID k) tr = Some (mv_ToNode k, True) \<Longrightarrow> phase_inv k PhCleaning tr"
  by (simp_all add: phase_inv_def phase_order_def)

lemma phase_inv_finished:
  "last_start (mv_EnvID k) tr = Some (mv_ToNode k, True) \<Longrightarrow> succeeded tr (C_Remove (mv_EnvID k) (mv_FromNode k)) r \<Longrightarrow> phase_inv k PhDone tr"
  "\<not> happened tr (C_Stop (mv_EnvID k)) \<or> last_start (mv_EnvID k) tr = Some (mv_FromNode k, True) \<Longrightarrow> phase_inv k PhRolledBack tr"
  by (auto simp: phase_inv_def phase_order_def)

lemma phase_inv_says:
  "phase_inv k PhSyncing tr \<Longrightarrow> mv_Live k" "phase_inv k PhCopying tr \<Longrightarrow> \<not> mv_Live k \<and> (rolled k tr \<or> stopped k tr)"
  "phase_inv k PhFinal tr \<Longrightarrow> mv_Live k \<and> (rolled k tr \<or> stopped k tr)"
  "phase_inv k PhStarting tr \<Longrightarrow> rolled k tr \<or> ready k tr"
  "phase_inv k PhCleaning tr \<Longrightarrow> last_start (mv_EnvID k) tr = Some (mv_ToNode k, True)"
  "phase_inv k PhQueued tr \<Longrightarrow> \<not> happened tr (C_Stop (mv_EnvID k))"
  "phase_inv k PhSyncing tr \<Longrightarrow> \<not> happened tr (C_Stop (mv_EnvID k))"
  by (simp_all add: phase_inv_def phase_order_def split: if_splits)

lemma next_phase_table:
  "mv_Phase m = PhQueued \<Longrightarrow> next_phase m = (if mv_Live m then PhSyncing else PhStopping)"
  "mv_Phase m = PhSyncing \<Longrightarrow> mv_Live m \<Longrightarrow> next_phase m = PhStopping"
  "mv_Phase m = PhStopping \<Longrightarrow> next_phase m = (if mv_Live m then PhFinal else PhCopying)"
  "mv_Phase m = PhCopying \<Longrightarrow> \<not> mv_Live m \<Longrightarrow> next_phase m = PhStarting"
  "mv_Phase m = PhFinal \<Longrightarrow> mv_Live m \<Longrightarrow> next_phase m = PhStarting"
  "mv_Phase m = PhStarting \<Longrightarrow> next_phase m = PhCleaning"
  "mv_Phase m = PhCleaning \<Longrightarrow> next_phase m = PhDone"
  by (simp_all add: next_phase_def phase_order_def)

lemma open_phases:
  assumes "phase_inv k p tr" "\<not> move_ended p"
  obtains "p = PhQueued" | "p = PhSyncing" | "p = PhStopping" | "p = PhCopying" | "p = PhFinal" | "p = PhStarting" | "p = PhCleaning"
proof -
  have "p \<in> set (phase_order True) \<union> set (phase_order False)" using assms unfolding phase_inv_def move_ended_def
    by (cases "mv_Live k") auto
  then have "p = PhQueued \<or> p = PhSyncing \<or> p = PhStopping \<or> p = PhCopying \<or> p = PhFinal \<or> p = PhStarting \<or> p = PhCleaning \<or> p = PhDone"
    unfolding phase_order_def by auto
  then show thesis using assms(2) by (elim disjE) (erule that | simp add: move_ended_def)+
qed

text \<open>What the work of a phase does: it keeps the invariant, leaves the row, and earns the next phase.\<close>

definition works :: "env_move \<Rightarrow> env_move \<Rightarrow> trace \<Rightarrow> error \<Rightarrow> trace \<Rightarrow> bool" where
  "works k m tr e tr1 \<longleftrightarrow> path (move_inv k) tr tr1 \<and> stored tr1 (mv_ID k) = Some m \<and> phase_inv k (mv_Phase m) tr1
     \<and> (e = None \<longrightarrow> phase_inv k (next_phase m) tr1)"

lemma works_grows:
  assumes "synced k m tr" "grows tr tr1" "e = None \<Longrightarrow> phase_inv k (next_phase m) tr1"
  shows "works k m tr e tr1"
  using assms path_grows [OF assms(2)] phase_inv_grows [OF assms(2) synced_phase [OF assms(1)]] stored_grows [OF assms(2)]
  by (simp add: works_def synced_def)

lemma works_call:
  assumes "synced k m tr" "\<not> row_call c" "safe_call k ((c, r) # tr)" "phase_inv k (mv_Phase m) ((c, r) # tr)"
    "rp_err r = None \<Longrightarrow> phase_inv k (next_phase m) ((c, r) # tr)"
  shows "works k m tr (rp_err r) ((c, r) # tr)"
proof -
  have "move_inv k ((c, r) # tr)" using assms(1-4) by (auto simp: move_inv_def synced_def)
  then show ?thesis using assms by (simp add: works_def synced_def path_call path_refl)
qed

lemma same_move_simps:
  "same_move k m \<Longrightarrow> mv_ID m = mv_ID k" "same_move k m \<Longrightarrow> mv_EnvID m = mv_EnvID k" "same_move k m \<Longrightarrow> mv_FromNode m = mv_FromNode k"
  "same_move k m \<Longrightarrow> mv_ToNode m = mv_ToNode k" "same_move k m \<Longrightarrow> mv_Live m = mv_Live k"
  by (simp_all add: same_move_def)

lemma phase_work_works:
  assumes s: "synced k m tr" and o: "\<not> move_ended (mv_Phase m)" and w: "phase_work f m tr = ((m1, e), tr1)"
  shows "works k m tr e tr1"
proof -
  have sm: "same_move k m" and ne: "mv_FromNode k \<noteq> mv_ToNode k" using s by (simp_all add: synced_def move_inv_def)
  note f = same_move_simps [OF sm] and p = synced_phase [OF s]
  from p o show ?thesis
  proof (cases rule: open_phases)
    case 1
    then have g: "grows tr tr1" using w grows_prepare [of tr f m] by (auto simp: phase_work_def apfst_def map_prod_def split: prod.splits)
    then have "\<not> happened tr1 (C_Stop (mv_EnvID k))" using phase_inv_says(6) phase_inv_grows [OF g p] 1 by simp
    then show ?thesis using works_grows [OF s g] phase_inv_next(1,2) next_phase_table(1) [OF 1] f by simp
  next
    case 2
    then have "grows tr tr1" using w sync_copies by (simp add: phase_work_def)
    moreover have "mv_Live k" using phase_inv_says(1) p 2 by simp
    ultimately show ?thesis using works_grows [OF s] phase_inv_next(1) next_phase_table(2) [OF 2] f by simp
  next
    case 3
    let ?r = "f_world f tr (C_Stop (mv_EnvID m))"
    have t: "tr1 = (C_Stop (mv_EnvID k), ?r) # tr" "e = rp_err ?r" using w 3 f by (simp_all add: phase_work_def do_call_eq)
    show ?thesis unfolding t
      by (rule works_call [OF s]) (use 3 f in \<open>simp_all add: phase_inv_next next_phase_table(3)\<close>)
  next
    case 4
    have c: "grows tr tr1" "e = None \<and> \<not> mv_Live m \<Longrightarrow> copied_all m tr tr1" using w 4 copyCold_copies by (simp_all add: phase_work_def)
    have l: "\<not> mv_Live k" "rolled k tr \<or> stopped k tr" using phase_inv_says(2) p 4 by simp_all
    then have "e = None \<Longrightarrow> rolled k tr1 \<or> ready k tr1"
      using ready_copied [OF _ c(1) _ sm] c(2) f(5) c(1) by (auto simp: rolled_def happened_def grows_def)
    then show ?thesis using works_grows [OF s c(1)] phase_inv_next(5) next_phase_table(4) [OF 4] l f by simp
  next
    case 5
    have c: "grows tr tr1" "e = None \<and> mv_Live m \<Longrightarrow> copied_all m tr tr1" using w 5 sync_copies by (simp_all add: phase_work_def)
    have l: "mv_Live k" "rolled k tr \<or> stopped k tr" using phase_inv_says(3) p 5 by simp_all
    then have "e = None \<Longrightarrow> rolled k tr1 \<or> ready k tr1"
      using ready_copied [OF _ c(1) _ sm] c(2) f(5) c(1) by (auto simp: rolled_def happened_def grows_def)
    then show ?thesis using works_grows [OF s c(1)] phase_inv_next(5) next_phase_table(5) [OF 5] l f by simp
  next
    case 6
    let ?r = "f_world f tr (C_Start (mv_EnvID m) (mv_ToNode m))"
    have t: "tr1 = (C_Start (mv_EnvID k) (mv_ToNode k), ?r) # tr" "e = rp_err ?r" using w 6 f by (simp_all add: phase_work_def do_call_eq)
    have "rolled k tr \<or> ready k tr" using phase_inv_says(4) p 6 by simp
    then show ?thesis unfolding t
      by (intro works_call [OF s]) (use 6 f ready_Cons in \<open>auto simp: phase_inv_next next_phase_table(6)\<close>)
  next
    case 7
    let ?r = "f_world f tr (C_Remove (mv_EnvID m) (mv_FromNode m))"
    have t: "tr1 = (C_Remove (mv_EnvID k) (mv_FromNode k), ?r) # tr" "e = rp_err ?r" using w 7 f by (simp_all add: phase_work_def do_call_eq)
    have "last_start (mv_EnvID k) tr = Some (mv_ToNode k, True)" using phase_inv_says(5) p 7 by simp
    then show ?thesis unfolding t
      by (intro works_call [OF s]) (use 7 f in \<open>auto simp: phase_inv_next next_phase_table(7) intro!: phase_inv_finished\<close>)
  qed
qed

lemma Update_path:
  assumes "move_inv k tr" "same_move k m" "phase_inv k (mv_Phase m) tr" "moves_Update f m tr = (e, tr')"
  shows "path (move_inv k) tr tr' \<and> (phase_inv k p tr \<longrightarrow> phase_inv k p tr')
     \<and> stored tr' (mv_ID k) = (if e = None then Some m else stored tr (mv_ID k))"
proof -
  have i: "mv_ID m = mv_ID k" using assms(2) by (simp add: same_move_def)
  obtain m0 where m0: "stored tr (mv_ID m) = Some m0" using assms(1) i by (auto simp: move_inv_def)
  then have t: "tr' = (C_Update m, f_world f tr (C_Update m)) # tr" "e = rp_err (f_world f tr (C_Update m))"
    using assms(4) by (simp_all add: moves_Update_def do_call_eq)
  have "path (move_inv k) tr tr'" unfolding t by (intro path_call path_refl move_inv_Update assms)
  then show ?thesis unfolding t using phase_inv_quiet stored_Update [OF m0] m0 i by simp
qed

definition kept :: "env_move \<Rightarrow> trace \<Rightarrow> env_move \<Rightarrow> trace \<Rightarrow> bool" where
  "kept k tr m' tr' \<longleftrightarrow> path (move_inv k) tr tr' \<and> same_move k m' \<and> phase_inv k (mv_Phase m') tr'"

lemma move_kept_trans: "path (move_inv k) tr tr1 \<Longrightarrow> kept k tr1 m' tr' \<Longrightarrow> kept k tr m' tr'"
  using path_trans by (auto simp: kept_def)

lemma same_move_update [simp]:
  "same_move k (m\<lparr>mv_Bytes := b\<rparr>) = same_move k m" "same_move k (m\<lparr>mv_Phase := p\<rparr>) = same_move k m"
  "same_move k (m\<lparr>mv_Error := e\<rparr>) = same_move k m" "same_move k (m\<lparr>mv_FinishedAt := t\<rparr>) = same_move k m"
  by (simp_all add: same_move_def)

lemma move_step_kept:
  assumes s: "synced k m tr" and o: "\<not> move_ended (mv_Phase m)" and st: "move_step f m tr = ((m', e), tr')"
  shows "kept k tr m' tr' \<and> (e = None \<longrightarrow> synced k m' tr')
     \<and> (e \<noteq> None \<longrightarrow> stored tr' (mv_ID k) = Some m \<and> mv_Phase m' \<in> {mv_Phase m, next_phase m})"
proof -
  obtain b e1 tr1 where w: "phase_work f m tr = ((m\<lparr>mv_Bytes := b\<rparr>, e1), tr1)"
    using phase_work_row [of f m tr] by (metis prod.collapse)
  have wk: "path (move_inv k) tr tr1" "stored tr1 (mv_ID k) = Some m" "phase_inv k (mv_Phase m) tr1"
    "e1 = None \<Longrightarrow> phase_inv k (next_phase m) tr1" using phase_work_works [OF s o w] by (simp_all add: works_def)
  have sm: "same_move k m" and i: "move_inv k tr" using s by (simp_all add: synced_def)
  show ?thesis
  proof (cases e1)
    case (Some x)
    then show ?thesis using st w wk sm by (auto simp: move_step_def kept_def)
  next
    case None
    obtain m2 tr2 where a: "advance f (m\<lparr>mv_Bytes := b\<rparr>) tr1 = (m2, tr2)" by (metis prod.exhaust)
    have "next_phase (m\<lparr>mv_Bytes := b\<rparr>) = next_phase m" by (rule next_phase_cong) simp_all
    then have m2: "same_move k m2" "mv_Phase m2 = next_phase m" "grows tr1 tr2"
      using a sm by (auto simp: advance_def Let_def ask_def grows split: if_splits)
    have u: "moves_Update f m2 tr2 = (e, tr')" "m' = m2"
      using st w a None by (cases "moves_Update f m2 tr2"; simp add: move_step_def)+
    have i2: "path (move_inv k) tr tr2" using path_trans [OF path_grows [OF m2(3) move_inv_end [OF wk(1) i]] wk(1)] .
    note p2 = phase_inv_grows [OF m2(3) wk(4) [OF None]]
    note U = Update_path [OF move_inv_end [OF i2 i] m2(1) _ u(1), unfolded m2(2), OF p2]
    have "path (move_inv k) tr tr'" using U path_trans [OF _ i2] by blast
    moreover have "stored tr2 (mv_ID k) = Some m" using stored_grows [OF m2(3)] wk(2) by simp
    ultimately show ?thesis using U [of "next_phase m"] p2 m2 u(2) move_inv_end [OF _ i]
      by (auto simp: kept_def synced_def)
  qed
qed

lemma phase_inv_source_start:
  assumes "phase_inv k p tr" "\<not> move_ended p" "p \<noteq> PhCleaning"
  shows "phase_inv k p ((C_Start (mv_EnvID k) (mv_FromNode k), r) # tr)"
  using assms unfolding phase_inv_def move_ended_def by simp

lemma Update_kept:
  assumes "path (move_inv k) tr tr1" "move_inv k tr" "same_move k m" "phase_inv k (mv_Phase m) tr1" "moves_Update f m tr1 = (ue, tr2)"
  shows "kept k tr m tr2"
  using Update_path [OF move_inv_end [OF assms(1,2)] assms(3,4,5), of "mv_Phase m"] path_trans [OF _ assms(1)] assms(3,4)
  by (simp add: kept_def)

lemma rollback_row_kept:
  assumes i: "path (move_inv k) tr tr1" "move_inv k tr" and sm: "same_move k m'"
    and p: "phase_inv k (mv_Phase m') tr1" "rerr = None \<Longrightarrow> phase_inv k PhRolledBack tr1"
    and r: "rollback_row f m' cause rerr tr1 = ((m'', e), tr'')"
  shows "kept k tr m'' tr''"
proof (cases rerr)
  case (Some x)
  define mf where "mf = m'\<lparr>mv_Error := (case cause of Some c \<Rightarrow> f_text f c | None \<Rightarrow> ''<nil>'') @ ''; rollback: '' @ f_text f x\<rparr>"
  obtain ue where u: "moves_Update f mf tr1 = (ue, tr'')" "m'' = mf"
    using r Some by (auto simp: rollback_row_def Let_def mf_def split: prod.splits)
  show ?thesis unfolding u(2) by (rule Update_kept [OF i _ _ u(1)]) (use sm p(1) in \<open>simp_all add: mf_def\<close>)
next
  case None
  let ?n = "f_world f tr1 C_now"
  define mf where "mf = m'\<lparr>mv_Phase := PhRolledBack, mv_FinishedAt := Some (rp_num ?n), mv_Error := (case cause of Some c \<Rightarrow> f_text f c | None \<Rightarrow> [])\<rparr>"
  obtain ue where u: "moves_Update f mf ((C_now, ?n) # tr1) = (ue, tr'')" "m'' = mf"
    using r None by (auto simp: rollback_row_def ask_def Let_def mf_def split: prod.splits)
  have "path (move_inv k) tr ((C_now, ?n) # tr1)"
    by (rule path_call [OF i(1) move_inv_quiet [OF move_inv_end [OF i]]]) simp_all
  then show ?thesis unfolding u(2) by (rule Update_kept [OF _ i(2) _ _ u(1)]) (use sm p(2) None in \<open>simp_all add: mf_def phase_inv_quiet\<close>)
qed

lemma rollback_env_path:
  assumes i: "move_inv k tr" and sm: "same_move k m'" and p: "phase_inv k (mv_Phase m') tr"
    and m: "stored tr (mv_ID k) = Some m" "\<not> move_ended (mv_Phase m)" "mv_Phase m \<noteq> PhCleaning"
    and o: "\<not> move_ended (mv_Phase m')" "mv_Phase m' \<noteq> PhCleaning" and rb: "rollback_env f m' tr = (rerr, tr')"
  shows "path (move_inv k) tr tr' \<and> phase_inv k (mv_Phase m') tr' \<and> (rerr = None \<longrightarrow> phase_inv k PhRolledBack tr')"
proof -
  note fs = same_move_simps [OF sm]
  have ne: "mv_FromNode k \<noteq> mv_ToNode k" using i by (simp add: move_inv_def)
  define tr1 where "tr1 = (if mv_Phase m' = PhStarting then try_call f (C_Remove (mv_EnvID m') (mv_ToNode m')) tr else tr)"
  define tr2 where "tr2 = dropHelpers f m' tr1"
  have q: "phase_inv k p tr1" if "phase_inv k p tr" for p
    using that by (auto simp: tr1_def try_call_eq intro!: phase_inv_Cons)
  have st1: "stored tr1 (mv_ID k) = Some m" using m(1) by (simp add: tr1_def try_call_eq)
  have "move_inv k tr1" using i ne fs q unfolding move_inv_def by (auto simp: tr1_def try_call_eq)
  then have 1: "path (move_inv k) tr tr1" by (auto simp: tr1_def try_call_eq intro!: path_call path_refl)
  have g: "grows tr1 tr2" unfolding tr2_def by (rule grows_dropHelpers)
  have 2: "path (move_inv k) tr tr2" using path_trans [OF path_grows [OF g] 1] \<open>move_inv k tr1\<close> by blast
  have p2: "phase_inv k (mv_Phase m') tr2" by (rule phase_inv_grows [OF g q [OF p]])
  have i2: "move_inv k tr2" by (rule move_inv_end [OF 2 i])
  have pm: "stored tr2 (mv_ID k) = Some m" "phase_inv k (mv_Phase m) tr2"
    using i2 st1 stored_grows [OF g] by (simp_all add: move_inv_def)
  show ?thesis
  proof (cases "reachedStop m'")
    case True
    let ?tr3 = "(C_Start (mv_EnvID k) (mv_FromNode k), f_world f tr2 (C_Start (mv_EnvID k) (mv_FromNode k))) # tr2"
    have t: "tr' = ?tr3" "rerr = rp_err (f_world f tr2 (C_Start (mv_EnvID k) (mv_FromNode k)))"
      using rb True fs unfolding rollback_env_def tr1_def [symmetric] tr2_def [symmetric] Let_def by (simp_all add: do_call_eq)
    have "move_inv k ?tr3" using i2 ne phase_inv_source_start [OF pm(2) m(2,3)] pm(1) unfolding move_inv_def by auto
    then show ?thesis unfolding t using path_call [OF 2] phase_inv_source_start [OF p2 o] phase_inv_finished(2) by simp
  next
    case False
    have t: "tr' = tr2" using rb False unfolding rollback_env_def tr1_def [symmetric] tr2_def [symmetric] Let_def by simp
    have "mv_Phase m' = PhQueued \<or> mv_Phase m' = PhSyncing"
      by (rule open_phases [OF p o(1)]) (use False o(2) in \<open>simp_all add: reachedStop_def\<close>)
    then have "\<not> happened tr2 (C_Stop (mv_EnvID k))" using p2 phase_inv_says(6,7) by auto
    then show ?thesis unfolding t using 2 p2 phase_inv_finished(2) by blast
  qed
qed

lemma run_failed_kept:
  assumes i: "move_inv k tr" and sm: "same_move k m'" and p: "phase_inv k (mv_Phase m') tr"
    and m: "stored tr (mv_ID k) = Some m" "\<not> move_ended (mv_Phase m)" "mv_Phase m' \<in> {mv_Phase m, next_phase m}"
    and r: "run_failed f m' e tr = ((m'', e'), tr'')"
  shows "kept k tr m'' tr''"
proof -
  let ?tr1 = "(C_ctxErr, f_world f tr C_ctxErr) # tr"
  have q: "path (move_inv k) tr ?tr1" "phase_inv k (mv_Phase m') ?tr1" "move_inv k ?tr1" "stored ?tr1 (mv_ID k) = Some m"
    using i p m(1) by (auto intro!: path_call path_refl move_inv_quiet phase_inv_quiet)
  consider (gone) "rp_err (f_world f tr C_ctxErr) \<noteq> None" | (clean) "rp_err (f_world f tr C_ctxErr) = None" "mv_Phase m' = PhCleaning"
    | (refuse) "rp_err (f_world f tr C_ctxErr) = None" "mv_Phase m' \<noteq> PhCleaning" "move_ended (mv_Phase m')"
    | (undo) "rp_err (f_world f tr C_ctxErr) = None" "mv_Phase m' \<noteq> PhCleaning" "\<not> move_ended (mv_Phase m')" by blast
  then show ?thesis
  proof cases
    case gone
    then show ?thesis using r q sm by (auto simp: run_failed_def do_call_eq kept_def)
  next
    case clean
    then obtain ue where u: "moves_Update f (m'\<lparr>mv_Error := f_text f e\<rparr>) ?tr1 = (ue, tr'')" "m'' = m'\<lparr>mv_Error := f_text f e\<rparr>"
      using r by (auto simp: run_failed_def do_call_eq Let_def split: prod.splits)
    show ?thesis unfolding u(2) by (rule Update_kept [OF q(1) i _ _ u(1)]) (use sm q(2) in simp_all)
  next
    case refuse
    then show ?thesis using r q sm by (simp add: run_failed_def do_call_eq Rollback_def kept_def)
  next
    case undo
    have "mv_Phase m \<noteq> PhCleaning" using m(3) undo(2,3) next_phase_table(7) by (auto simp: move_ended_def)
    obtain rerr tr2 where b: "rollback_env f m' ?tr1 = (rerr, tr2)" by (metis prod.exhaust)
    then have "rollback_row f m' (Some e) rerr tr2 = ((m'', e'), tr'')"
      using r undo by (simp add: run_failed_def do_call_eq Rollback_def)
    moreover note rollback_env_path [OF q(3) sm q(2) q(4) m(2) \<open>mv_Phase m \<noteq> PhCleaning\<close> undo(3,2) b]
    ultimately have "kept k ?tr1 m'' tr''" using rollback_row_kept [OF _ q(3) sm] by blast
    then show ?thesis by (rule move_kept_trans [OF q(1)])
  qed
qed

lemma run_loop_kept:
  assumes "synced k m tr" "run_loop f m tr = ((m', e), tr')"
  shows "kept k tr m' tr' \<and> (e = None \<longrightarrow> move_ended (mv_Phase m') \<and> stored tr' (mv_ID k) = Some m')"
  using assms
proof (induction f m tr rule: run_loop.induct)
  case (1 f m tr)
  have sm: "same_move k m" and i: "move_inv k tr" using "1.prems"(1) by (simp_all add: synced_def)
  show ?case
  proof (cases "move_ended (mv_Phase m)")
    case True
    then show ?thesis using "1.prems" synced_phase [OF "1.prems"(1)]
      by (simp add: run_loop.simps [of f m tr] kept_def path_refl synced_def)
  next
    case False
    obtain m1 e1 tr1 where st: "move_step f m tr = ((m1, e1), tr1)" by (metis prod.exhaust)
    note S = move_step_kept [OF "1.prems"(1) False st]
    show ?thesis
    proof (cases e1)
      case None
      then have "run_loop f m1 tr1 = ((m', e), tr')" using "1.prems"(2) st False by (simp add: run_loop.simps [of f m tr])
      with "1.IH" [OF False st [symmetric] refl None] S None show ?thesis
        using move_kept_trans by (auto simp: kept_def)
    next
      case (Some x)
      then have r: "run_failed f m1 x tr1 = ((m', e), tr')" using "1.prems"(2) st False by (simp add: run_loop.simps [of f m tr])
      have "move_inv k tr1" using S move_inv_end [OF _ i] by (auto simp: kept_def)
      then have "kept k tr1 m' tr'" using run_failed_kept [OF _ _ _ _ False _ r] S Some by (auto simp: kept_def)
      moreover have "e \<noteq> None" using r Some
        by (auto simp: run_failed_def do_call_eq Rollback_def rollback_row_def errors_Join_def map_filter_simps Let_def
            split: option.splits if_splits prod.splits)
      ultimately show ?thesis using S move_kept_trans by (auto simp: kept_def)
    qed
  qed
qed

section \<open>The life of a move\<close>

text \<open>
  The trace of one move, from the write of its row: \<^verbatim>\<open>Run\<close> is called any number of times, and each time the
  process may die after any call.  What happened before the row was written is part of the world.
\<close>

inductive lifetime :: "flow \<Rightarrow> env_move \<Rightarrow> trace \<Rightarrow> bool" for f k where
  created: "rp_err r = None \<Longrightarrow> mv_Phase k = PhQueued \<Longrightarrow> mv_FromNode k \<noteq> mv_ToNode k \<Longrightarrow> lifetime f k [(C_Create k, r)]"
| ran: "lifetime f k tr \<Longrightarrow> suffix tr' (snd (Run f (mv_ID k) tr)) \<Longrightarrow> suffix tr tr' \<Longrightarrow> lifetime f k tr'"

lemma Run_kept:
  assumes i: "move_inv k tr" and r: "Run f (mv_ID k) tr = ((m, e), tr')"
  shows "path (move_inv k) tr tr' \<and> (m = move_none \<and> e \<noteq> None \<or> kept k tr m tr' \<and> (e = None \<longrightarrow> move_ended (mv_Phase m) \<and> stored tr' (mv_ID k) = Some m))"
proof -
  let ?tr1 = "(C_Get (mv_ID k), f_world f tr (C_Get (mv_ID k))) # tr"
  have i1: "move_inv k ?tr1" by (rule move_inv_quiet [OF i]) simp_all
  then have p1: "path (move_inv k) tr ?tr1" by (intro path_call path_refl)
  obtain m0 where m0: "stored ?tr1 (mv_ID k) = Some m0" "same_move k m0" using i1 unfolding move_inv_def by blast
  show ?thesis
  proof (cases "rp_err (f_world f tr (C_Get (mv_ID k)))")
    case None
    then have "run_loop f m0 ?tr1 = ((m, e), tr')" using r m0 by (simp add: Run_def moves_Get_def do_call_eq)
    moreover have "synced k m0 ?tr1" using i1 m0 by (simp add: synced_def)
    ultimately show ?thesis using run_loop_kept move_kept_trans [OF p1] by (blast intro: kept_def [THEN iffD1, THEN conjunct1])
  next
    case (Some x)
    then show ?thesis using r p1 by (auto simp: Run_def moves_Get_def do_call_eq)
  qed
qed

lemma lifetime_inv: "lifetime f k tr \<Longrightarrow> move_inv k tr"
proof (induction rule: lifetime.induct)
  case (created r)
  then show ?case by (simp add: move_inv_def stored_def same_move_def phase_inv_def phase_order_def happened_def)
next
  case (ran tr tr')
  obtain m e tr2 where r: "Run f (mv_ID k) tr = ((m, e), tr2)" by (metis prod.exhaust)
  then show ?case using Run_kept [OF ran.IH r] path_between ran by auto
qed

lemma lifetime_suffix: "lifetime f k tr \<Longrightarrow> suffix s tr \<Longrightarrow> s \<noteq> [] \<Longrightarrow> lifetime f k s"
proof (induction arbitrary: s rule: lifetime.induct)
  case (created r)
  then show ?case using lifetime.created by (auto simp: suffix_Cons)
next
  case (ran tr tr')
  consider "suffix s tr" | "suffix tr s" using suffix_same_cases [OF ran.prems(1) ran.hyps(3)] by blast
  then show ?case
  proof cases
    case 2
    then show ?thesis using lifetime.ran [OF ran.hyps(1) _ 2] suffix_order.trans [OF ran.prems(1) ran.hyps(2)] by blast
  qed (simp add: ran.IH ran.prems)
qed

lemma lifetime_call: "lifetime f k (after @ e # before) \<Longrightarrow> safe_call k (e # before)"
  using lifetime_inv [OF lifetime_suffix [of f k "after @ e # before" "e # before"]] by (auto simp: move_inv_def suffix_def)

text \<open>\<^verbatim>\<open>Begin\<close> writes such a row.\<close>

lemma Begin_creates:
  assumes "Begin f r tr = ((m, None), tr')"
  shows "\<exists>x tr0. tr' = (C_Create m, x) # tr0 \<and> rp_err x = None \<and> mv_Phase m = PhQueued \<and> mv_FromNode m \<noteq> mv_ToNode m
     \<and> mv_EnvID m = rq_EnvID r \<and> mv_FromNode m = rq_From r \<and> mv_ToNode m = rq_To r \<and> mv_Live m = rq_Live r"
  using assms by (auto simp: Begin_def moves_Create_def do_call_eq ask_def Let_def split: if_splits sum.splits prod.splits)

section \<open>Properties\<close>

text \<open>
  C5: A move never starts the env on the target from an incomplete copy. Whatever fails and wherever the
  process dies and resumes: when the env is started on the target node, it has been stopped, and since that
  stop its volumes were listed and each of them was copied in full (by a tar and an untar that both
  succeeded, or by a checksum rsync from the source that ended with code 0), unless a rollback had already
  started the source again.
\<close>

theorem move_starts_target_from_full_copy:
  assumes "lifetime f k (after @ (C_Start (mv_EnvID k) (mv_ToNode k), r) # before)" "\<not> rolled k before"
  shows "ready k before"
  using lifetime_call [OF assms(1)] assms(2) by simp

text \<open>
  A move removes the env's containers on the source only after the target runs: whenever it does, the
  env's last start was on the target node and succeeded.
\<close>

theorem move_removes_source_last:
  assumes "lifetime f k (after @ (C_Remove (mv_EnvID k) (mv_FromNode k), r) # before)"
  shows "last_start (mv_EnvID k) before = Some (mv_ToNode k, True)"
  using lifetime_call [OF assms] by simp

text \<open>
  C7: However a move ends, the env runs somewhere. A run that returns a move as done leaves the env last
  started, successfully, on the target and removed from the source; a run that returns it as rolled back
  leaves the env never stopped, or last started, successfully, on the source. A run with no error ends in one of
  the two, as the row says.
\<close>

theorem move_ends_running:
  assumes "lifetime f k tr" and r: "Run f (mv_ID k) tr = ((m, e), tr')"
  shows "(mv_Phase m = PhDone \<longrightarrow> last_start (mv_EnvID k) tr' = Some (mv_ToNode k, True)
         \<and> (\<exists>r. succeeded tr' (C_Remove (mv_EnvID k) (mv_FromNode k)) r))
     \<and> (mv_Phase m = PhRolledBack \<longrightarrow> \<not> happened tr' (C_Stop (mv_EnvID k)) \<or> last_start (mv_EnvID k) tr' = Some (mv_FromNode k, True))
     \<and> (e = None \<longrightarrow> (mv_Phase m = PhDone \<or> mv_Phase m = PhRolledBack) \<and> stored tr' (mv_ID k) = Some m)"
proof -
  consider "m = move_none" "e \<noteq> None" | "phase_inv k (mv_Phase m) tr'" "e = None \<longrightarrow> move_ended (mv_Phase m) \<and> stored tr' (mv_ID k) = Some m"
    using Run_kept [OF lifetime_inv [OF assms(1)] r] by (auto simp: kept_def)
  then show ?thesis
  proof cases
    case 1
    then show ?thesis by (simp add: move_none_def)
  next
    case 2
    then show ?thesis unfolding phase_inv_def move_ended_def by simp
  qed
qed

section \<open>Examples\<close>

definition ex_reply :: reply where
  "ex_reply = \<lparr>rp_err = None, rp_text = ''10.1.0.2'', rp_num = 0, rp_vols = [\<lparr>vo_ID = ''v1'', vo_Slug = ''data'', vo_Name = ''stackr-vol-v1''\<rparr>]\<rparr>"

definition ex_flow :: flow where
  "ex_flow = \<lparr>f_world = \<lambda>tr c. ex_reply, f_EnsureRsync = True, f_text = \<lambda>e. ''failed''\<rparr>"

definition ex_move :: env_move where
  "ex_move = move_none\<lparr>mv_ID := ''m1'', mv_EnvID := ''e1'', mv_FromNode := ''a'', mv_ToNode := ''b'', mv_Live := True, mv_Phase := PhQueued\<rparr>"

definition ex_trace :: trace where
  "ex_trace = snd (Run ex_flow ''m1'' [(C_Create ex_move, ex_reply)])"

text \<open>The part of the trace from the newest call \<open>c\<close> on.\<close>

definition back_to :: "call \<Rightarrow> trace \<Rightarrow> trace" where
  "back_to c tr = dropWhile (\<lambda>e. fst e \<noteq> c) tr"

lemma ex_lifetime: "lifetime ex_flow ex_move [(C_Create ex_move, ex_reply)]" "lifetime ex_flow ex_move ex_trace"
proof -
  show c: "lifetime ex_flow ex_move [(C_Create ex_move, ex_reply)]" by (rule created) (simp_all add: ex_reply_def ex_move_def)
  have "suffix [(C_Create ex_move, ex_reply)] ex_trace" unfolding suffix_to_prefix by code_simp
  then show "lifetime ex_flow ex_move ex_trace"
    by (intro ran [OF c]) (simp_all add: ex_trace_def ex_move_def)
qed

lemma ex_back_to:
  assumes "back_to c tr \<noteq> []"
  shows "tr = takeWhile (\<lambda>e. fst e \<noteq> c) tr @ (c, snd (hd (back_to c tr))) # tl (back_to c tr)"
proof -
  have "fst (hd (back_to c tr)) = c" using assms hd_dropWhile [of "\<lambda>e. fst e \<noteq> c" tr] unfolding back_to_def by simp
  then have "(c, snd (hd (back_to c tr))) # tl (back_to c tr) = back_to c tr" using assms by (cases "back_to c tr") auto
  then show ?thesis by (simp add: back_to_def)
qed

theorem move_starts_target_from_full_copy_witness:
  "C_Start ''e1'' ''b'' \<in> fst ` set ex_trace \<and> ready ex_move (tl (back_to (C_Start ''e1'' ''b'') ex_trace))"
proof
  let ?c = "C_Start ''e1'' ''b''"
  show "?c \<in> fst ` set ex_trace" by code_simp
  have "back_to ?c ex_trace \<noteq> []" by code_simp
  note t = ex_back_to [OF this]
  have "?c = C_Start (mv_EnvID ex_move) (mv_ToNode ex_move)" by (simp add: ex_move_def)
  moreover have "\<not> rolled ex_move (tl (back_to ?c ex_trace))" by code_simp
  ultimately show "ready ex_move (tl (back_to ?c ex_trace))"
    using move_starts_target_from_full_copy ex_lifetime(2) t by metis
qed

theorem move_removes_source_last_witness:
  "C_Remove ''e1'' ''a'' \<in> fst ` set ex_trace \<and> last_start ''e1'' (tl (back_to (C_Remove ''e1'' ''a'') ex_trace)) = Some (''b'', True)"
proof
  let ?c = "C_Remove ''e1'' ''a''"
  show "?c \<in> fst ` set ex_trace" by code_simp
  have "back_to ?c ex_trace \<noteq> []" by code_simp
  note t = ex_back_to [OF this]
  have "?c = C_Remove (mv_EnvID ex_move) (mv_FromNode ex_move)" "mv_EnvID ex_move = ''e1''" "mv_ToNode ex_move = ''b''" by (simp_all add: ex_move_def)
  then show "last_start ''e1'' (tl (back_to ?c ex_trace)) = Some (''b'', True)"
    using move_removes_source_last ex_lifetime(2) t by metis
qed

theorem move_ends_running_witness:
  "mv_Phase (fst (fst (Run ex_flow ''m1'' [(C_Create ex_move, ex_reply)]))) = PhDone \<and> last_start ''e1'' ex_trace = Some (''b'', True)"
proof
  show p: "mv_Phase (fst (fst (Run ex_flow ''m1'' [(C_Create ex_move, ex_reply)]))) = PhDone" by code_simp
  have e: "mv_ID ex_move = ''m1''" "mv_EnvID ex_move = ''e1''" "mv_ToNode ex_move = ''b''" by (simp_all add: ex_move_def)
  obtain m e tr' where r: "Run ex_flow (mv_ID ex_move) [(C_Create ex_move, ex_reply)] = ((m, e), tr')" by (metis prod.exhaust)
  show "last_start ''e1'' ex_trace = Some (''b'', True)"
    using move_ends_running [OF ex_lifetime(1) r] p r e by (simp add: ex_trace_def)
qed

text \<open>
  A rollback is not a phase. When the write that records it is lost (the store fails, or the process dies
  between the start of the source and the write), the row still says \<^verbatim>\<open>copying\<close>. The next run resumes there: it
  copies the volumes of the env that runs again and starts it on the target too, and the last start of the env before that
  was the successful one on the source.
\<close>

definition ex_lossy :: flow where
  "ex_lossy = ex_flow\<lparr>f_world := \<lambda>tr c. case c of
     C_TarVolume n v \<Rightarrow> if c \<in> fst ` set tr then ex_reply else ex_reply\<lparr>rp_err := Some (Plain (''disk gone'', []))\<rparr>
   | C_Update m \<Rightarrow> if mv_Phase m = PhRolledBack then ex_reply\<lparr>rp_err := Some (Plain (''database is locked'', []))\<rparr> else ex_reply
   | _ \<Rightarrow> ex_reply\<rparr>"

definition ex_cold :: env_move where
  "ex_cold = ex_move\<lparr>mv_Live := False\<rparr>"

lemma lost_rollback_starts_both:
  "\<exists>after r before. lifetime ex_lossy ex_cold (after @ (C_Start (mv_EnvID ex_cold) (mv_ToNode ex_cold), r) # before)
     \<and> last_start (mv_EnvID ex_cold) before = Some (mv_FromNode ex_cold, True)"
proof -
  let ?t0 = "[(C_Create ex_cold, ex_reply)]" and ?c = "C_Start ''e1'' ''b''"
  let ?t1 = "snd (Run ex_lossy ''m1'' ?t0)"
  let ?t2 = "snd (Run ex_lossy ''m1'' ?t1)"
  have f: "mv_ID ex_cold = ''m1''" "mv_EnvID ex_cold = ''e1''" "mv_FromNode ex_cold = ''a''" "mv_ToNode ex_cold = ''b''"
    by (simp_all add: ex_cold_def ex_move_def)
  have l0: "lifetime ex_lossy ex_cold ?t0" by (rule created) (simp_all add: ex_reply_def ex_cold_def ex_move_def)
  have "suffix ?t0 ?t1" "suffix ?t1 ?t2" unfolding suffix_to_prefix by code_simp+
  then have "lifetime ex_lossy ex_cold ?t2" using ran [OF ran [OF l0]] f by (metis suffix_order.refl)
  moreover have "back_to ?c ?t2 \<noteq> []" "last_start ''e1'' (tl (back_to ?c ?t2)) = Some (''a'', True)" by code_simp+
  ultimately show ?thesis using ex_back_to [of ?c ?t2] f by metis
qed

section \<open>A world that never fails\<close>

definition obliging :: "flow \<Rightarrow> bool" where
  "obliging f \<longleftrightarrow> (\<forall>tr c. rp_err (f_world f tr c) = None) \<and> (\<forall>tr n i. rp_num (f_world f tr (C_Wait n i)) = 0)
     \<and> (\<forall>tr n. safeAddr (rp_text (f_world f tr (C_Addr n))))"

lemma obliging_do_call: "obliging f \<Longrightarrow> fst (do_call f c tr) = None"
  by (simp add: obliging_def do_call_eq)

lemma and_then_None: "(\<And>tr. fst (a tr) = None) \<Longrightarrow> (\<And>tr. fst (b tr) = None) \<Longrightarrow> fst (and_then a b tr) = None"
  by (auto simp: and_then_def split: prod.splits option.splits) (metis fst_conv option.distinct(1))

lemma for_each_None: "(\<And>x tr. fst (a x tr) = None) \<Longrightarrow> fst (for_each a xs tr) = None"
proof (induction xs arbitrary: tr)
  case (Cons x xs)
  then show ?case unfolding for_each.simps by (intro and_then_None) blast+
qed simp

lemma obliging_docks: "obliging f \<Longrightarrow> fst (docks f m tr) = None"
  unfolding docks_def by (intro and_then_None obliging_do_call)

lemma obliging_volumes: "obliging f \<Longrightarrow> \<exists>vs. fst (with_volumes f m tr) = Inr vs"
  by (simp add: obliging_def with_volumes_def ask_def)

lemma obliging_prepare:
  assumes o: "obliging f"
  shows "fst (prepare f m tr) = None"
  unfolding prepare_def
proof (rule and_then_None [OF obliging_docks [OF o]])
  fix tr
  have n: "fst (prepare_node f m node tr) = None" for node tr
    using o by (auto simp: prepare_node_def do_call_eq wrapped_def obliging_def)
  have e: "fst (ensure_rsync f m tr) = None" for tr using o by (auto simp: ensure_rsync_def wrapped_def do_call_eq obliging_def)
  have c: "fst (create_volume f m v tr) = None" for v tr by (simp add: create_volume_def obliging_do_call [OF o])
  have a: "fst (and_then (ensure_rsync f m) (and_then (for_each (prepare_node f m) ns) (for_each (create_volume f m) vols)) tr) = None" for ns vols tr
    by (intro and_then_None for_each_None e n c)
  obtain vols tr1 where "with_volumes f m tr = (Inr vols, tr1)" using obliging_volumes [OF o] by (metis prod.collapse)
  then show "fst (case with_volumes f m tr of (Inl e, tr1) \<Rightarrow> (Some e, tr1) | (Inr vols, tr1) \<Rightarrow>
      and_then (ensure_rsync f m) (and_then (for_each (prepare_node f m) [mv_FromNode m, mv_ToNode m]) (for_each (create_volume f m) vols)) tr1) = None"
    using a by simp
qed

lemma obliging_copyCold: "obliging f \<Longrightarrow> snd (fst (copyCold f m tr)) = None"
proof -
  assume o: "obliging f"
  have "snd (fst (copy_loop f vs m tr)) = None" for vs m tr
    by (induction vs arbitrary: m tr) (use o in \<open>simp_all add: stream_def ask_def obliging_def\<close>)
  moreover obtain tr1 where "docks f m tr = (None, tr1)" using obliging_docks [OF o] by (metis prod.collapse)
  moreover obtain vols tr2 where "with_volumes f m tr1 = (Inr vols, tr2)" using obliging_volumes [OF o] by (metis prod.collapse)
  ultimately show ?thesis by (simp add: copyCold_def)
qed

lemma obliging_sync: "obliging f \<Longrightarrow> snd (fst (sync f check m tr)) = None"
proof -
  assume o: "obliging f"
  have p: "fst (rsync_pass f m i v sa da check tr) = None" for m i v sa da tr
    using o by (simp add: rsync_pass_def ask_def try_call_eq Let_def obliging_def)
  have l: "snd (fst (sync_loop f sa da check i vs m tr)) = None" for sa da i vs m tr
  proof (induction vs arbitrary: i m tr)
    case (Cons v vs)
    obtain tr1 where "rsync_pass f m i v sa da check tr = (None, tr1)" using p by (metis prod.collapse)
    then show ?case using Cons by (simp add: ask_def)
  qed simp
  obtain tr1 where "docks f m tr = (None, tr1)" using obliging_docks [OF o] by (metis prod.collapse)
  then show ?thesis using o l by (simp add: sync_def ask_def with_volumes_def obliging_def)
qed

lemma obliging_step:
  assumes o: "obliging f" and s: "synced k m tr" and op: "\<not> move_ended (mv_Phase m)"
  shows "snd (fst (move_step f m tr)) = None"
proof -
  have w: "snd (fst (phase_work f m tr)) = None"
    using obliging_prepare [OF o] obliging_sync [OF o] obliging_copyCold [OF o] obliging_do_call [OF o] by (simp add: phase_work_def)
  obtain b tr1 where p: "phase_work f m tr = ((m\<lparr>mv_Bytes := b\<rparr>, None), tr1)"
    using phase_work_row [of f m tr] w by (metis prod.collapse)
  obtain m2 tr2 where a: "advance f (m\<lparr>mv_Bytes := b\<rparr>) tr1 = (m2, tr2)" by (metis prod.exhaust)
  have "stored tr1 (mv_ID k) = Some m" using phase_work_works [OF s op p] by (simp add: works_def)
  moreover have "grows tr1 tr2" "mv_ID m2 = mv_ID m" using a by (auto simp: advance_def Let_def ask_def grows split: if_splits)
  moreover have "mv_ID m = mv_ID k" using s by (simp add: synced_def same_move_def)
  ultimately have "fst (moves_Update f m2 tr2) = None"
    using stored_grows obliging_do_call [OF o] by (simp add: moves_Update_def)
  then show ?thesis using p a by (simp add: move_step_def)
qed

lemma next_not_rolled: "mv_Phase m \<noteq> PhDone \<Longrightarrow> next_phase m \<noteq> PhRolledBack"
proof (cases "mv_Phase m \<in> set (phase_order (mv_Live m))")
  case False
  then have "find_index (\<lambda>p. p = mv_Phase m) (phase_order (mv_Live m)) = None" by (auto simp: find_index_None)
  then show ?thesis by (simp add: next_phase_def)
next
  case True
  assume "mv_Phase m \<noteq> PhDone"
  with True show ?thesis by (cases "mv_Live m") (auto simp: phase_order_def next_phase_table next_phase_def)
qed

lemma obliging_run_loop:
  assumes "obliging f" "synced k m tr" "mv_Phase m \<noteq> PhRolledBack"
  shows "snd (fst (run_loop f m tr)) = None \<and> mv_Phase (fst (fst (run_loop f m tr))) = PhDone"
  using assms
proof (induction f m tr rule: run_loop.induct)
  case (1 f m tr)
  show ?case
  proof (cases "move_ended (mv_Phase m)")
    case True
    then show ?thesis using "1.prems"(3) by (simp add: run_loop.simps [of f m tr] move_ended_def)
  next
    case False
    obtain m1 tr1 where st: "move_step f m tr = ((m1, None), tr1)" using obliging_step [OF "1.prems"(1,2) False] by (metis prod.collapse)
    have "synced k m1 tr1" using move_step_kept [OF "1.prems"(2) False st] by simp
    moreover have "mv_Phase m1 \<noteq> PhRolledBack" using move_step_next [OF st] next_not_rolled False by (simp add: move_ended_def)
    ultimately show ?thesis using "1.IH" [OF False st [symmetric] refl refl "1.prems"(1)] st False by (simp add: run_loop.simps [of f m tr])
  qed
qed

text \<open>
  C33: A move gets done. From whatever phase an interrupted move was left in, unless it was rolled back, one run
  in which no call fails ends it: the run returns no error and the row says done.
\<close>

theorem resumed_move_gets_done:
  assumes "lifetime f k tr" "obliging g" "stored tr (mv_ID k) = Some m" "mv_Phase m \<noteq> PhRolledBack"
  shows "snd (fst (Run g (mv_ID k) tr)) = None \<and> (\<exists>m'. stored (snd (Run g (mv_ID k) tr)) (mv_ID k) = Some m' \<and> mv_Phase m' = PhDone)"
proof -
  let ?tr1 = "(C_Get (mv_ID k), f_world g tr (C_Get (mv_ID k))) # tr"
  have i: "move_inv k ?tr1" by (rule move_inv_quiet [OF lifetime_inv [OF assms(1)]]) simp_all
  then have s: "synced k m ?tr1" using assms(3) by (auto simp: synced_def move_inv_def)
  have r: "Run g (mv_ID k) tr = run_loop g m ?tr1" using assms(2,3) by (simp add: Run_def moves_Get_def do_call_eq obliging_def)
  obtain m' tr' where l: "run_loop g m ?tr1 = ((m', None), tr')" "mv_Phase m' = PhDone"
    using obliging_run_loop [OF assms(2) s assms(4)] by (metis prod.collapse)
  show ?thesis unfolding r using run_loop_kept [OF s l(1)] l by simp
qed

text \<open>The witness resumes the move whose first run died during its copy.\<close>

theorem resumed_move_gets_done_witness:
  "snd (fst (Run ex_flow ''m1'' (back_to (C_Stop ''e1'') ex_trace))) = None"
proof -
  let ?tr = "back_to (C_Stop ''e1'') ex_trace"
  have "?tr \<noteq> []" by code_simp
  moreover have "suffix ?tr ex_trace" by (simp add: back_to_def suffix_dropWhile)
  ultimately have l: "lifetime ex_flow ex_move ?tr" using lifetime_suffix ex_lifetime(2) by blast
  have "safeAddr ''10.1.0.2''" by code_simp
  then have o: "obliging ex_flow" by (simp add: obliging_def ex_flow_def ex_reply_def)
  have id: "mv_ID ex_move = ''m1''" by (simp add: ex_move_def)
  have "map_option mv_Phase (stored ?tr (mv_ID ex_move)) = Some PhStopping" by code_simp
  then obtain m where "stored ?tr (mv_ID ex_move) = Some m" "mv_Phase m = PhStopping" by auto
  then show ?thesis using resumed_move_gets_done [OF l o] id by simp
qed

end
