(* ===== verification/Move_Rows.thy ===== *)
theory Move_Rows
  imports Move_Safety
begin

text \<open>
  The table of moves over the whole history of the flow: any number of envs and moves, begun and run, each operation cut
  off anywhere, a begin split into its check and its insert.  An env whose begins do not overlap has at most one unfinished
  move; two overlapping begins leave two.
\<close>

abbreviation unfinished :: "env_move \<Rightarrow> bool" where
  "unfinished m \<equiv> \<not> move_ended (mv_Phase m)"

text \<open>
  Ids are unique, no env of \<open>A\<close> has two unfinished moves, and none of \<open>B\<close> has one.
\<close>

definition one_open :: "string set \<Rightarrow> string set \<Rightarrow> trace \<Rightarrow> bool" where
  "one_open A B tr \<longleftrightarrow> distinct (map mv_ID (move_rows tr))
     \<and> distinct (map mv_EnvID (filter (\<lambda>m. unfinished m \<and> mv_EnvID m \<in> A) (move_rows tr)))
     \<and> (\<forall>m \<in> set (move_rows tr). unfinished m \<longrightarrow> mv_EnvID m \<notin> B)"

lemma one_open_less: "one_open A B tr \<Longrightarrow> B' \<subseteq> B \<Longrightarrow> one_open A B' tr"
  unfolding one_open_def by blast

text \<open>A trace that grows without a write to the table.\<close>

definition no_write :: "trace \<Rightarrow> trace \<Rightarrow> bool" where
  "no_write tr tr' \<longleftrightarrow> (\<exists>new. tr' = new @ tr \<and> (\<forall>(c, r) \<in> set new. \<not> row_call c))"

lemma no_write_grows: "grows tr tr' \<Longrightarrow> no_write tr tr'"
  unfolding no_write_def grows_def by blast

lemma no_write_call: "\<not> row_call c \<Longrightarrow> no_write tr ((c, r) # tr)"
  unfolding no_write_def by (intro exI [of _ "[(c, r)]"]) simp

lemma no_write_trans: "no_write tr tr' \<Longrightarrow> no_write tr' tr'' \<Longrightarrow> no_write tr tr''"
  unfolding no_write_def by (metis (no_types, lifting) Un_iff append_assoc set_append)

lemma no_write_rows: "no_write tr tr' \<Longrightarrow> move_rows tr' = move_rows tr"
proof -
  assume "no_write tr tr'"
  then obtain new where "tr' = new @ tr" "\<forall>(c, r) \<in> set new. \<not> row_call c" unfolding no_write_def by blast
  then show ?thesis by (induction new arbitrary: tr') auto
qed

lemma one_open_quiet: "one_open A B tr \<Longrightarrow> \<not> row_call c \<Longrightarrow> one_open A B ((c, r) # tr)"
  by (simp add: one_open_def)

lemma path_no_write:
  assumes "no_write tr tr'" "one_open A B tr"
  shows "path (one_open A B) tr tr'"
proof -
  obtain new where "tr' = new @ tr" "\<forall>(c, r) \<in> set new. \<not> row_call c" using assms(1) unfolding no_write_def by blast
  then show ?thesis
  proof (induction new arbitrary: tr')
    case (Cons e new)
    then have "path (one_open A B) tr (new @ tr)" by auto
    with Cons show ?case using path_end [of "one_open A B", OF _ assms(2)]
      by (cases e) (auto intro!: path_call one_open_quiet)
  qed (simp add: path_refl)
qed

lemma stored_no_write: "no_write tr tr' \<Longrightarrow> stored tr' i = stored tr i"
  by (simp add: stored_def no_write_rows)

section \<open>Writes\<close>

lemma stored_in_rows: "stored tr i = Some m \<Longrightarrow> m \<in> set (move_rows tr) \<and> mv_ID m = i"
  unfolding stored_def by (auto simp: find_Some_iff)

lemma open_envs_replace:
  assumes "\<forall>x \<in> set xs. mv_ID x = mv_ID m \<longrightarrow> unfinished x \<and> mv_EnvID x = mv_EnvID m"
    "distinct (map mv_EnvID (filter (\<lambda>m. unfinished m \<and> mv_EnvID m \<in> A) xs))"
  defines "up \<equiv> \<lambda>x. if mv_ID x = mv_ID m then m else x"
  defines "envs \<equiv> \<lambda>xs. map mv_EnvID (filter (\<lambda>m. unfinished m \<and> mv_EnvID m \<in> A) xs)"
  shows "distinct (envs (map up xs)) \<and> set (envs (map up xs)) \<subseteq> set (envs xs)"
  using assms(1,2)
proof (induction xs)
  case (Cons x xs)
  then have IH: "distinct (envs (map up xs))" "set (envs (map up xs)) \<subseteq> set (envs xs)" by (auto simp: envs_def split: if_splits)
  show ?case
  proof (cases "mv_ID x = mv_ID m")
    case True
    then have x: "unfinished x" "mv_EnvID m = mv_EnvID x" "up x = m" using Cons.prems(1) by (simp_all add: up_def)
    then have "mv_EnvID m \<in> A \<Longrightarrow> mv_EnvID m \<notin> set (envs xs)" using Cons.prems(2) by (simp add: envs_def)
    then show ?thesis using IH x by (auto simp: envs_def)
  next
    case False
    then have "up x = x" by (simp add: up_def)
    moreover have "unfinished x \<Longrightarrow> mv_EnvID x \<in> A \<Longrightarrow> mv_EnvID x \<notin> set (envs (map up xs))"
      using Cons.prems(2) IH(2) by (auto simp: envs_def)
    ultimately show ?thesis using IH by (auto simp: envs_def)
  qed
qed (simp add: envs_def)

lemma one_open_Update:
  assumes "one_open A B tr" "stored tr (mv_ID m) = Some m0" "unfinished m0" "mv_EnvID m = mv_EnvID m0"
  shows "one_open A B ((C_Update m, r) # tr)"
proof -
  have m0: "x = m0" if "x \<in> set (move_rows tr)" "mv_ID x = mv_ID m" for x
    using that stored_in_rows [OF assms(2)] assms(1) unfolding one_open_def distinct_map inj_on_def by auto
  then have u: "\<forall>x \<in> set (move_rows tr). mv_ID x = mv_ID m \<longrightarrow> unfinished x \<and> mv_EnvID x = mv_EnvID m" using assms(3,4) by auto
  have i: "map mv_ID (map (\<lambda>x. if mv_ID x = mv_ID m then m else x) xs) = map mv_ID xs" for xs by simp
  have b: "\<forall>x \<in> set (map (\<lambda>x. if mv_ID x = mv_ID m then m else x) (move_rows tr)). unfinished x \<longrightarrow> mv_EnvID x \<notin> B"
    using assms(1) u unfolding one_open_def by auto
  show ?thesis using assms(1) i [of "move_rows tr"] b conjunct1 [OF open_envs_replace [OF u, of A]] unfolding one_open_def move_rows.simps
    by (simp only: if_True if_False split: if_split) blast
qed

lemma one_open_Create:
  assumes "one_open A B tr" "stored tr (mv_ID m) = None" "mv_EnvID m \<in> A \<Longrightarrow> mv_EnvID m \<in> B" "B' \<subseteq> B" "mv_EnvID m \<notin> B'"
  shows "one_open A B' ((C_Create m, r) # tr)"
  using assms unfolding one_open_def stored_def find_None_iff by auto

text \<open>An update of an unfinished row.\<close>

lemma Update_open:
  assumes "one_open A B tr" "stored tr (mv_ID m) = Some m0" "unfinished m0" "mv_EnvID m = mv_EnvID m0" "moves_Update f m tr = (e, tr')"
  shows "path (one_open A B) tr tr' \<and> stored tr' (mv_ID m) = (if e = None then Some m else Some m0)"
proof -
  have t: "tr' = (C_Update m, f_world f tr (C_Update m)) # tr" "e = rp_err (f_world f tr (C_Update m))"
    using assms(2,5) by (simp_all add: moves_Update_def do_call_eq)
  show ?thesis unfolding t using stored_Update [OF assms(2)] one_open_Update [OF assms(1-4)] by (simp add: path_call path_refl)
qed

section \<open>Begin and Run\<close>

lemma phase_work_no_write: "no_write tr (snd (phase_work f m tr))"
proof -
  have s: "no_write tr (snd (sync f check m tr))" for check using sync_copies [of f check m tr] no_write_grows by (metis prod.collapse)
  have c: "no_write tr (snd (copyCold f m tr))" using copyCold_copies [of f m tr] no_write_grows by (metis prod.collapse)
  show ?thesis using s c no_write_grows [OF grows_prepare] no_write_grows [OF grows_refl]
    by (simp add: phase_work_def do_call_eq no_write_call)
qed

definition row_kept :: "env_move \<Rightarrow> env_move \<Rightarrow> trace \<Rightarrow> bool" where
  "row_kept m m' tr \<longleftrightarrow> mv_ID m' = mv_ID m \<and> mv_EnvID m' = mv_EnvID m \<and> stored tr (mv_ID m) = Some m \<and> unfinished m"

lemma move_step_open:
  assumes i: "one_open A B tr" and k: "row_kept m m tr" and st: "move_step f m tr = ((m', e), tr')"
  shows "path (one_open A B) tr tr' \<and> (e = None \<longrightarrow> stored tr' (mv_ID m') = Some m') \<and> (e \<noteq> None \<longrightarrow> row_kept m m' tr')"
proof -
  obtain b e1 tr1 where w: "phase_work f m tr = ((m\<lparr>mv_Bytes := b\<rparr>, e1), tr1)"
    using phase_work_row [of f m tr] by (metis prod.collapse)
  have n: "no_write tr tr1" using phase_work_no_write [of tr f m] w by simp
  show ?thesis
  proof (cases e1)
    case (Some x)
    then show ?thesis using st w k path_no_write [OF n i] stored_no_write [OF n] by (auto simp: move_step_def row_kept_def)
  next
    case None
    obtain m2 tr2 where a: "advance f (m\<lparr>mv_Bytes := b\<rparr>) tr1 = (m2, tr2)" by (metis prod.exhaust)
    then have m2: "mv_ID m2 = mv_ID m" "mv_EnvID m2 = mv_EnvID m" "no_write tr1 tr2"
      by (auto simp: advance_def Let_def ask_def no_write_call no_write_grows split: if_splits)
    have u: "moves_Update f m2 tr2 = (e, tr')" "m' = m2"
      using st w a None by (cases "moves_Update f m2 tr2"; simp add: move_step_def)+
    have n2: "no_write tr tr2" by (rule no_write_trans [OF n m2(3)])
    note p2 = path_no_write [OF n2 i]
    have "stored tr2 (mv_ID m2) = Some m" using k stored_no_write [OF n2] m2(1) by (simp add: row_kept_def)
    from Update_open [OF path_end [of "one_open A B", OF p2 i] this _ m2(2) u(1)] show ?thesis
      using k m2 u(2) path_trans [OF _ p2] by (auto simp: row_kept_def)
  qed
qed

lemma rollback_env_no_write: "no_write tr (snd (rollback_env f m tr))"
proof -
  let ?tr1 = "if mv_Phase m = PhStarting then try_call f (C_Remove (mv_EnvID m) (mv_ToNode m)) tr else tr"
  have 1: "no_write tr ?tr1" by (auto simp: try_call_eq no_write_call no_write_grows)
  have 2: "no_write tr (dropHelpers f m ?tr1)" by (rule no_write_trans [OF 1 no_write_grows [OF grows_dropHelpers]])
  then show ?thesis using no_write_trans [OF 2 no_write_call] by (auto simp: rollback_env_def Let_def do_call_eq)
qed

lemma rollback_row_open:
  assumes i: "one_open A B tr" and k: "row_kept m m' tr" and r: "rollback_row f m' cause rerr tr = ((m'', e), tr'')"
  shows "path (one_open A B) tr tr''"
proof -
  let ?n = "f_world f tr C_now"
  have wr: "path (one_open A B) tr tr''" if u: "moves_Update f m2 tr1 = (ue, tr'')" and m2: "mv_ID m2 = mv_ID m'" "mv_EnvID m2 = mv_EnvID m'" and n: "no_write tr tr1"
    for m2 tr1 ue
  proof -
    note p = path_no_write [OF n i]
    have "stored tr1 (mv_ID m2) = Some m" using k m2 stored_no_write [OF n] by (simp add: row_kept_def)
    from Update_open [OF path_end [of "one_open A B", OF p i] this _ _ u] show ?thesis using k m2 path_trans [OF _ p] by (auto simp: row_kept_def)
  qed
  show ?thesis
  proof (cases rerr)
    case (Some x)
    show ?thesis using r Some by (auto simp: rollback_row_def Let_def no_write_grows split: prod.splits intro!: wr)
  next
    case None
    show ?thesis using r None by (auto simp: rollback_row_def ask_def Let_def no_write_call split: prod.splits intro!: wr)
  qed
qed

lemma run_failed_open:
  assumes i: "one_open A B tr" and k: "row_kept m m' tr" and r: "run_failed f m' x tr = ((m'', e), tr'')"
  shows "path (one_open A B) tr tr''"
proof -
  let ?tr1 = "(C_ctxErr, f_world f tr C_ctxErr) # tr"
  have n: "no_write tr ?tr1" by (simp add: no_write_call)
  note p1 = path_no_write [OF n i]
  have k1: "row_kept m m' ?tr1" using k by (simp add: row_kept_def)
  show ?thesis
  proof (cases "rp_err (f_world f tr C_ctxErr) \<noteq> None \<or> mv_Phase m' \<noteq> PhCleaning \<and> move_ended (mv_Phase m')")
    case True
    then show ?thesis using r p1 by (auto simp: run_failed_def do_call_eq Rollback_def split: option.splits)
  next
    case go: False
    show ?thesis
    proof (cases "mv_Phase m' = PhCleaning")
      case True
      then obtain ue where "moves_Update f (m'\<lparr>mv_Error := f_text f x\<rparr>) ?tr1 = (ue, tr'')"
        using r go by (auto simp: run_failed_def do_call_eq Let_def split: prod.splits)
      from Update_open [OF path_end [of "one_open A B", OF p1 i] _ _ _ this] show ?thesis
        using k1 path_trans [OF _ p1] by (auto simp: row_kept_def)
    next
      case False
      obtain rerr tr2 where b: "rollback_env f m' ?tr1 = (rerr, tr2)" by (metis prod.exhaust)
      then have "rollback_row f m' (Some x) rerr tr2 = ((m'', e), tr'')" using r go False by (simp add: run_failed_def do_call_eq Rollback_def)
      moreover have n2: "no_write tr tr2" using rollback_env_no_write [of ?tr1 f m'] b no_write_trans [OF n] by simp
      moreover have "row_kept m m' tr2" using k stored_no_write [OF n2] by (simp add: row_kept_def)
      ultimately show ?thesis
        using rollback_row_open path_end [of "one_open A B", OF path_no_write [OF n2 i] i] path_trans [OF _ path_no_write [OF n2 i]] by blast
    qed
  qed
qed

lemma run_loop_open:
  assumes "one_open A B tr" "stored tr (mv_ID m) = Some m" "run_loop f m tr = ((m', e), tr')"
  shows "path (one_open A B) tr tr'"
  using assms
proof (induction f m tr rule: run_loop.induct)
  case (1 f m tr)
  show ?case
  proof (cases "unfinished m")
    case False
    then show ?thesis using "1.prems" by (simp add: run_loop.simps [of f m tr] path_refl)
  next
    case True
    obtain m1 e1 tr1 where st: "move_step f m tr = ((m1, e1), tr1)" by (metis prod.exhaust)
    have "row_kept m m tr" using True "1.prems"(2) by (simp add: row_kept_def)
    note S = move_step_open [OF "1.prems"(1) this st]
    then have i1: "one_open A B tr1" using path_end [of "one_open A B"] "1.prems"(1) by blast
    show ?thesis
    proof (cases e1)
      case None
      then have "run_loop f m1 tr1 = ((m', e), tr')" using "1.prems"(3) st True by (simp add: run_loop.simps [of f m tr])
      with "1.IH" [OF True st [symmetric] refl None i1] S None show ?thesis using path_trans by blast
    next
      case (Some x)
      then have "run_failed f m1 x tr1 = ((m', e), tr')" using "1.prems"(3) st True by (simp add: run_loop.simps [of f m tr])
      from run_failed_open [OF i1 _ this] show ?thesis using S Some path_trans by blast
    qed
  qed
qed

lemma Run_open: "one_open A B tr \<Longrightarrow> path (one_open A B) tr (snd (Run f i tr))"
proof -
  assume o: "one_open A B tr"
  let ?tr1 = "(C_Get i, f_world f tr (C_Get i)) # tr"
  have p1: "path (one_open A B) tr ?tr1" using path_no_write [OF no_write_call o] by simp
  show ?thesis
  proof (cases "fst (moves_Get f i tr)")
    case (Inl e)
    then show ?thesis using p1 by (auto simp: Run_def moves_Get_def do_call_eq split: option.splits)
  next
    case (Inr m)
    then have g: "moves_Get f i tr = (Inr m, ?tr1)" "stored ?tr1 i = Some m" by (auto simp: moves_Get_def do_call_eq split: option.splits)
    obtain m' e tr' where r: "run_loop f m ?tr1 = ((m', e), tr')" by (metis prod.exhaust)
    have "mv_ID m = i" using stored_in_rows [OF g(2)] by simp
    then have "path (one_open A B) ?tr1 tr'" using run_loop_open [OF path_end [of "one_open A B", OF p1 o] _ r] g(2) by simp
    then show ?thesis using path_trans [OF _ p1] g(1) r by (simp add: Run_def)
  qed
qed

section \<open>The two halves of Begin\<close>

text \<open>
  \<^verbatim>\<open>Begin\<close> reads the env's moves and then inserts the new one: two statements on the store, with nothing that
  holds other callers off in between.  Its halves, and that it is one after the other.
\<close>

definition Begin_check :: "flow \<Rightarrow> request \<Rightarrow> trace \<Rightarrow> error \<times> trace" where
  "Begin_check f r tr =
     (if rq_From r = rq_To r then (Some (Invalidf ''node'' ''the env is already on that node'' []), tr)
      else case moves_ListByEnv f (rq_EnvID r) tr of
        (Inl e, tr1) \<Rightarrow> (Some e, tr1)
      | (Inr have, tr1) \<Rightarrow>
        if \<exists>m \<in> set have. \<not> move_ended (mv_Phase m)
        then (Some (Conflictf ''a move of this env is already running'' []), tr1) else (None, tr1))"

definition Begin_create :: "flow \<Rightarrow> request \<Rightarrow> trace \<Rightarrow> (env_move \<times> error) \<times> trace" where
  "Begin_create f r tr1 =
     (let (u, tr2) = ask f C_uuid tr1; (n, tr3) = ask f C_now tr2;
          m = move_none\<lparr>mv_ID := rp_text u, mv_EnvID := rq_EnvID r, mv_FromNode := rq_From r, mv_ToNode := rq_To r,
                mv_Live := rq_Live r, mv_Phase := PhQueued, mv_StartedAt := rp_num n\<rparr>;
          (e, tr4) = moves_Create f m tr3
      in ((m, e), tr4))"

lemma Begin_halves:
  "Begin f r tr = (case Begin_check f r tr of (Some e, tr1) \<Rightarrow> ((move_none, Some e), tr1) | (None, tr1) \<Rightarrow> Begin_create f r tr1)"
  by (simp add: Begin_def Begin_check_def Begin_create_def split: prod.splits sum.splits)

lemma Begin_check_open:
  assumes "Begin_check f r tr = (e, tr')"
  shows "no_write tr tr' \<and> (e = None \<longrightarrow> (\<forall>m \<in> set (move_rows tr'). mv_EnvID m = rq_EnvID r \<longrightarrow> \<not> unfinished m))"
  using assms by (auto simp: Begin_check_def moves_ListByEnv_def do_call_eq no_write_call no_write_grows split: if_splits option.splits)

text \<open>An insert after the check, while its env was held free.\<close>

lemma Begin_create_open:
  assumes o: "one_open A B tr" and e: "rq_EnvID r \<in> A \<Longrightarrow> rq_EnvID r \<in> B" and b: "B' \<subseteq> B" "rq_EnvID r \<notin> B'"
  shows "path (one_open A B') tr (snd (Begin_create f r tr))"
proof -
  let ?tr2 = "(C_uuid, f_world f tr C_uuid) # tr"
  let ?tr3 = "(C_now, f_world f ?tr2 C_now) # ?tr2"
  have n: "no_write tr ?tr3" by (rule no_write_trans [OF no_write_call no_write_call]) simp_all
  note p = path_no_write [OF n one_open_less [OF o b(1)]]
  have o3: "one_open A B ?tr3" using path_end [of "one_open A B", OF path_no_write [OF n o] o] .
  have "path (one_open A B') tr ((C_Create m, x) # ?tr3)" if "stored ?tr3 (mv_ID m) = None" "mv_EnvID m = rq_EnvID r" for m x
    using that e b by (intro path_call [OF p] one_open_Create [OF o3]) simp_all
  then show ?thesis using p by (auto simp: Begin_create_def moves_Create_def do_call_eq ask_def Let_def)
qed

section \<open>Histories\<close>

text \<open>
  The histories of the flow, with the begins that have checked and not inserted yet: a check, an insert, a run, each
  of these cut off after any of its calls, in any order, so that any number of begins are under way at once.
  The begins of an env of \<open>apart\<close> do not overlap: none checks while another is between its halves.
\<close>

inductive history :: "flow \<Rightarrow> string set \<Rightarrow> trace \<Rightarrow> request list \<Rightarrow> bool" for f apart where
  fresh: "history f apart [] []"
| checked: "history f apart tr P \<Longrightarrow> Begin_check f r tr = (e, tr') \<Longrightarrow> rq_EnvID r \<in> apart \<Longrightarrow> rq_EnvID r \<notin> rq_EnvID ` set P
    \<Longrightarrow> history f apart tr' (if e = None then r # P else P)"
| checked_freely: "history f apart tr P \<Longrightarrow> Begin_check f r tr = (e, tr') \<Longrightarrow> rq_EnvID r \<notin> apart
    \<Longrightarrow> history f apart tr' (if e = None then r # P else P)"
| created: "history f apart tr (P @ r # Q) \<Longrightarrow> suffix tr' (snd (Begin_create f r tr)) \<Longrightarrow> suffix tr tr' \<Longrightarrow> history f apart tr' (P @ Q)"
| driven: "history f apart tr P \<Longrightarrow> suffix tr' (snd (Run f i tr)) \<Longrightarrow> suffix tr tr' \<Longrightarrow> history f apart tr' P"

text \<open>What holds of the table between any two steps.\<close>

definition begins_open :: "string set \<Rightarrow> trace \<Rightarrow> request list \<Rightarrow> bool" where
  "begins_open A tr P \<longleftrightarrow> one_open A (A \<inter> rq_EnvID ` set P) tr \<and> distinct (map rq_EnvID (filter (\<lambda>r. rq_EnvID r \<in> A) P))"

lemma begins_open_checked:
  assumes "begins_open A tr P" "Begin_check f r tr = (e, tr')" "rq_EnvID r \<in> A \<Longrightarrow> rq_EnvID r \<notin> rq_EnvID ` set P"
  shows "begins_open A tr' (if e = None then r # P else P)"
proof -
  note c = Begin_check_open [OF assms(2)]
  have o: "one_open A (A \<inter> rq_EnvID ` set P) tr'"
    using path_end path_no_write [OF conjunct1 [OF c]] assms(1) unfolding begins_open_def by metis
  show ?thesis using o c assms(1,3) by (auto simp: begins_open_def one_open_def)
qed

lemma begins_open_created:
  assumes "begins_open A tr (P @ r # Q)" "suffix tr' (snd (Begin_create f r tr))" "suffix tr tr'"
  shows "begins_open A tr' (P @ Q)"
proof -
  let ?B = "A \<inter> rq_EnvID ` set (P @ r # Q)" and ?B' = "A \<inter> rq_EnvID ` set (P @ Q)"
  have o: "one_open A ?B tr" and d: "distinct (map rq_EnvID (filter (\<lambda>r. rq_EnvID r \<in> A) (P @ r # Q)))"
    using assms(1) unfolding begins_open_def by blast+
  have b: "?B' \<subseteq> ?B" "rq_EnvID r \<notin> ?B'" "rq_EnvID r \<in> A \<Longrightarrow> rq_EnvID r \<in> ?B" using d by (auto simp: image_iff)
  have "path (one_open A ?B') tr (snd (Begin_create f r tr))" by (rule Begin_create_open [OF o b(3,1,2)])
  from path_between [OF this assms(2,3) one_open_less [OF o b(1)]] show ?thesis using d by (auto simp: begins_open_def split: if_splits)
qed

lemma history_open: "history f A tr P \<Longrightarrow> begins_open A tr P"
proof (induction rule: history.induct)
  case fresh
  then show ?case by (simp add: begins_open_def one_open_def)
next
  case (driven tr P tr' i)
  then show ?case unfolding begins_open_def using path_between [OF Run_open] by metis
qed (blast intro: begins_open_checked begins_open_created)+

text \<open>A begin that is not overlapped is a step of a history.\<close>

lemma history_Begin:
  assumes "history f A tr P" "rq_EnvID r \<notin> rq_EnvID ` set P"
  shows "history f A (snd (Begin f r tr)) P"
proof -
  obtain e tr1 where c: "Begin_check f r tr = (e, tr1)" by (metis prod.exhaust)
  have h: "history f A tr1 (if e = None then r # P else P)"
    using checked [OF assms(1) c] checked_freely [OF assms(1) c] assms(2) by blast
  show ?thesis
  proof (cases e)
    case None
    have "suffix tr1 (snd (Begin_create f r tr1))"
      by (auto simp: Begin_create_def moves_Create_def do_call_eq ask_def Let_def intro!: suffix_ConsI)
    then show ?thesis using created [of f A tr1 "[]" r P] h None c by (simp add: Begin_halves)
  qed (use h c in \<open>simp add: Begin_halves\<close>)
qed

lemma distinct_one_of: "distinct (map g (filter (\<lambda>x. Q x \<and> g x \<in> A) xs)) \<Longrightarrow> e \<in> A \<Longrightarrow> length (filter (\<lambda>x. g x = e \<and> Q x) xs) \<le> 1"
proof (induction xs)
  case (Cons x xs)
  show ?case
  proof (cases "g x = e \<and> Q x")
    case True
    then have "e \<notin> g ` {x \<in> set xs. Q x \<and> g x \<in> A}" using Cons.prems by auto
    then have "filter (\<lambda>x. g x = e \<and> Q x) xs = []" using Cons.prems(2) by (fastforce simp: filter_empty_conv)
    then show ?thesis using True by simp
  next
    case False
    have "distinct (map g (filter (\<lambda>x. Q x \<and> g x \<in> A) xs))" using Cons.prems(1) by (auto split: if_splits)
    then show ?thesis using False Cons.IH [OF _ Cons.prems(2)] by auto
  qed
qed simp

section \<open>Properties\<close>

text \<open>
  C34: An env whose begins do not overlap never has two unfinished moves, whatever moves of it and of other envs
  are begun and run, fail, are cut off and resumed, and however the begins of other envs overlap; and the
  ids of the table are unique. A begin is its check of the env's moves and, later, its insert, with anything
  in between but another begin of the same env: that is a hypothesis, since the code does not see to it. A
  run is one step, or cut off after any of its calls and resumed later.
\<close>

theorem one_unfinished_move_per_env:
  assumes "history f apart tr P" "e \<in> apart"
  shows "length (filter (\<lambda>m. mv_EnvID m = e \<and> \<not> move_ended (mv_Phase m)) (move_rows tr)) \<le> 1 \<and> distinct (map mv_ID (move_rows tr))"
proof -
  have "one_open apart (apart \<inter> rq_EnvID ` set P) tr" using history_open [OF assms(1)] unfolding begins_open_def by blast
  then show ?thesis using distinct_one_of [of mv_EnvID unfinished apart, OF _ assms(2)] unfolding one_open_def by blast
qed

text \<open>The witness: a second move of the same env is refused while the first is unfinished.\<close>

definition ex_request :: request where
  "ex_request = \<lparr>rq_EnvID = ''e1'', rq_From = ''a'', rq_To = ''b'', rq_Live = False\<rparr>"

definition ex_begun :: trace where
  "ex_begun = snd (Begin ex_flow ex_request (snd (Begin ex_flow ex_request [])))"

theorem one_unfinished_move_per_env_witness:
  "map mv_EnvID (move_rows ex_begun) = [''e1''] \<and> length (filter (\<lambda>m. mv_EnvID m = ''e1'' \<and> \<not> move_ended (mv_Phase m)) (move_rows ex_begun)) \<le> 1"
proof -
  have "history ex_flow {''e1''} ex_begun []"
    unfolding ex_begun_def by (intro history_Begin fresh) simp_all
  then have "length (filter (\<lambda>m. mv_EnvID m = ''e1'' \<and> \<not> move_ended (mv_Phase m)) (move_rows ex_begun)) \<le> 1"
    using one_unfinished_move_per_env [of ex_flow "{''e1''}" ex_begun "[]" "''e1''"] by simp
  moreover have "map mv_EnvID (move_rows ex_begun) = [''e1'']" by code_simp
  ultimately show ?thesis by simp
qed

text \<open>
  Without the hypothesis it fails: two begins of one env, each of which checks before the other inserts, leave
  two unfinished moves of it.
\<close>

definition ex_two_ids :: flow where
  "ex_two_ids = ex_flow\<lparr>f_world := \<lambda>tr c. ex_reply\<lparr>rp_text := if length tr < 4 then ''m1'' else ''m2''\<rparr>\<rparr>"

definition ex_overlap :: trace where
  "ex_overlap = snd (Begin_create ex_two_ids ex_request (snd (Begin_create ex_two_ids ex_request
     (snd (Begin_check ex_two_ids ex_request (snd (Begin_check ex_two_ids ex_request [])))))))"

theorem overlapping_begins_open_two:
  "history ex_two_ids {} ex_overlap [] \<and> map mv_ID (filter (\<lambda>m. mv_EnvID m = ''e1'' \<and> \<not> move_ended (mv_Phase m)) (move_rows ex_overlap)) = [''m1'', ''m2'']"
proof -
  let ?t1 = "snd (Begin_check ex_two_ids ex_request [])"
  let ?t2 = "snd (Begin_check ex_two_ids ex_request ?t1)"
  let ?t3 = "snd (Begin_create ex_two_ids ex_request ?t2)"
  have c: "fst (Begin_check ex_two_ids ex_request []) = None" "fst (Begin_check ex_two_ids ex_request ?t1) = None" by code_simp+
  have c1: "Begin_check ex_two_ids ex_request [] = (None, ?t1)" using c(1) by (metis prod.collapse)
  have c2: "Begin_check ex_two_ids ex_request ?t1 = (None, ?t2)" using c(2) by (metis prod.collapse)
  have h1: "history ex_two_ids {} ?t1 [ex_request]" using checked_freely [OF fresh c1] by simp
  have h2: "history ex_two_ids {} ?t2 [ex_request, ex_request]"
    using checked_freely [OF h1 c2] by simp
  have s: "suffix ?t2 ?t3" "suffix ?t3 ex_overlap" unfolding suffix_to_prefix by code_simp+
  have "history ex_two_ids {} ?t3 [ex_request]"
    using created [of ex_two_ids "{}" ?t2 "[]" ex_request "[ex_request]" ?t3] h2 s(1) by simp
  then have "history ex_two_ids {} ex_overlap []"
    using created [of ex_two_ids "{}" ?t3 "[]" ex_request "[]" ex_overlap] s(2) by (simp add: ex_overlap_def)
  moreover have "map mv_ID (filter (\<lambda>m. mv_EnvID m = ''e1'' \<and> \<not> move_ended (mv_Phase m)) (move_rows ex_overlap)) = [''m1'', ''m2'']" by code_simp
  ultimately show ?thesis by blast
qed

end
