(* ===== verification/Data_Refinement.thy ===== *)
theory Data_Refinement
  imports Main
begin

text \<open>
  Data refinement for the tables of the service: the rows of a table implement an abstract value, and each
  operation, when it succeeds, an operation on that value.
\<close>

text \<open>
  The interface: operations that say whether they succeeded, on a state with an invariant and an abstraction.
  A success means \<open>spec\<close> on the abstraction, a failure means nothing.  Whoever runs a list of operations may
  reason about the successful ones on the abstract side.
\<close>

fun run_all :: "('o \<Rightarrow> 's \<Rightarrow> 's \<times> bool) \<Rightarrow> 'o list \<Rightarrow> 's \<Rightarrow> 's \<times> 'o list" where
  "run_all run [] s = (s, [])"
| "run_all run (x # xs) s = (let (s1, good) = run x s; (s2, xs') = run_all run xs s1 in (s2, if good then x # xs' else xs'))"

locale refinement =
  fixes inv :: "'s \<Rightarrow> bool" and abs :: "'s \<Rightarrow> 'a" and ok :: "'o \<Rightarrow> bool"
    and run :: "'o \<Rightarrow> 's \<Rightarrow> 's \<times> bool" and spec :: "'o \<Rightarrow> 'a \<Rightarrow> 'a"
  assumes run_inv: "inv s \<Longrightarrow> ok x \<Longrightarrow> inv (fst (run x s))"
    and run_abs: "inv s \<Longrightarrow> ok x \<Longrightarrow> abs (fst (run x s)) = (if snd (run x s) then spec x (abs s) else abs s)"
begin

lemma run_all_refines:
  assumes "inv s" "list_all ok xs" "run_all run xs s = (s', xs')"
  shows "inv s' \<and> abs s' = fold spec xs' (abs s)"
  using assms
proof (induction xs arbitrary: s s' xs')
  case (Cons x xs)
  obtain s1 good where r: "run x s = (s1, good)" by fastforce
  obtain s2 ys where a: "run_all run xs s1 = (s2, ys)" by fastforce
  have x: "ok x" "list_all ok xs" using Cons.prems(2) by simp_all
  have s1: "inv s1" "abs s1 = (if good then spec x (abs s) else abs s)"
    using run_inv [OF Cons.prems(1) x(1)] run_abs [OF Cons.prems(1) x(1)] r by simp_all
  show ?case using Cons.IH [OF s1(1) x(2) a] s1(2) Cons.prems(3) r a by auto
qed simp

end

end
