(* ===== verification/Hostgrant.thy ===== *)
theory Hostgrant
  imports Errs Data_Refinement
begin

text \<open>
  \<^verbatim>\<open>internal/service/internal/leaf/hostgrant/hostgrant.go\<close> with its table \<^verbatim>\<open>store/host_grants.go\<close>: the elevated access that
  a server admin approved for a stack.  A stack asks for lines \<^verbatim>\<open>tile perm\<close>; the approved ones are stored as
  one text per stack, a line each.  The table is a list of rows; the environment says whether the read
  or the write of an operation fails, and gives the id and the time.

  Shown: the table implements a map from stacks to sets of lines, so that \<^verbatim>\<open>Check\<close> passes exactly what was
  approved and not revoked, and approving what a refusal asks for makes the next check pass.
\<close>

section \<open>Model: sets of lines\<close>

definition HostP :: string where "HostP = ''host:''"
definition Device :: string where "Device = ''device:''"
definition Privileged :: string where "Privileged = ''privileged''"
definition LANP :: string where "LANP = ''lan:''"
definition PortP :: string where "PortP = ''port:''"
definition NetworkHost :: string where "NetworkHost = ''network:host''"
definition SourceP :: string where "SourceP = ''src:''"
definition Prefix :: string where "Prefix = ''elevated access: ''"

record grant_set =
  gs_Lines :: "string list"

definition Line :: "string \<Rightarrow> string \<Rightarrow> string" where
  "Line slug perm = slug @ '' '' @ perm"

definition Split :: "string \<Rightarrow> string \<times> string" where
  "Split line = (case cut_at (CHR '' '') line of Some p \<Rightarrow> p | None \<Rightarrow> (line, []))"

definition Norm :: "grant_set \<Rightarrow> grant_set" where
  "Norm s = s\<lparr>gs_Lines := compact (sort (gs_Lines s))\<rparr>"

definition Has :: "grant_set \<Rightarrow> string \<Rightarrow> bool" where
  "Has s line \<longleftrightarrow> line \<in> set (gs_Lines s)"

definition ForTile :: "grant_set \<Rightarrow> string \<Rightarrow> grant_set" where
  "ForTile s slug = \<lparr>gs_Lines = filter (\<lambda>l. fst (Split l) = slug) (gs_Lines s)\<rparr>"

definition Empty :: "grant_set \<Rightarrow> bool" where
  "Empty s \<longleftrightarrow> gs_Lines s = []"

definition Missing :: "grant_set \<Rightarrow> grant_set \<Rightarrow> string list" where
  "Missing s got = filter (\<lambda>l. \<not> Has got l) (gs_Lines s)"

definition grant_Union :: "grant_set \<Rightarrow> grant_set \<Rightarrow> grant_set" where
  "grant_Union s x = Norm \<lparr>gs_Lines = gs_Lines s @ gs_Lines x\<rparr>"

text \<open>\<^verbatim>\<open>strings.Split\<close> for a separator of two different bytes.\<close>

fun split_two :: "char \<Rightarrow> char \<Rightarrow> string \<Rightarrow> string list" where
  "split_two a b (x # y # s) =
     (if x = a \<and> y = b then [] # split_two a b s
      else case split_two a b (y # s) of [] \<Rightarrow> [[x]] | w # ws \<Rightarrow> (x # w) # ws)"
| "split_two a b s = [s]"

definition Text :: "string list \<Rightarrow> string" where
  "Text missing = Prefix @ join_with '', '' missing"

definition Parse :: "string \<Rightarrow> grant_set option" where
  "Parse what =
     (if \<not> has_prefix Prefix what then None
      else Some (Norm \<lparr>gs_Lines = filter (\<lambda>it. it \<noteq> []) (split_two (CHR '','') (CHR '' '') (trim_prefix Prefix what))\<rparr>))"

abbreviation newline :: char where
  "newline \<equiv> CHR 0x0A"

definition lines :: "string \<Rightarrow> string list" where
  "lines s = filter (\<lambda>l. l \<noteq> []) (map trim_space (split_on newline s))"

section \<open>Model: the table\<close>

record host_grant =
  hg_ID :: string
  hg_StackID :: string
  hg_Lines :: string
  hg_ApprovedBy :: string
  hg_CreatedAt :: int

record grant_env =
  ge_read :: error
  ge_write :: error
  ge_uuid :: string
  ge_now :: int

definition GetByStack :: "grant_env \<Rightarrow> host_grant list \<Rightarrow> string \<Rightarrow> err + host_grant" where
  "GetByStack e rows st = (case ge_read e of Some x \<Rightarrow> Inl x
     | None \<Rightarrow> (case find (\<lambda>g. hg_StackID g = st) rows of None \<Rightarrow> Inl ErrNotFound | Some g \<Rightarrow> Inr g))"

definition grants_Create :: "grant_env \<Rightarrow> host_grant list \<Rightarrow> host_grant \<Rightarrow> host_grant list \<times> error" where
  "grants_Create e rows g = (case ge_write e of Some x \<Rightarrow> (rows, Some x)
     | None \<Rightarrow> if \<exists>r \<in> set rows. hg_ID r = hg_ID g \<or> hg_StackID r = hg_StackID g
               then (rows, Some (Wrap (''%w: %v'', []) (Conflictf ''already exists'' []))) else (rows @ [g], None))"

definition grants_Update :: "grant_env \<Rightarrow> host_grant list \<Rightarrow> host_grant \<Rightarrow> host_grant list \<times> error" where
  "grants_Update e rows g = (case ge_write e of Some x \<Rightarrow> (rows, Some x)
     | None \<Rightarrow> if \<exists>r \<in> set rows. hg_ID r = hg_ID g then (map (\<lambda>r. if hg_ID r = hg_ID g then g else r) rows, None)
               else (rows, Some ErrNotFound))"

definition grants_Delete :: "grant_env \<Rightarrow> host_grant list \<Rightarrow> string \<Rightarrow> host_grant list \<times> error" where
  "grants_Delete e rows i = (case ge_write e of Some x \<Rightarrow> (rows, Some x)
     | None \<Rightarrow> if \<exists>r \<in> set rows. hg_ID r = i then (filter (\<lambda>r. hg_ID r \<noteq> i) rows, None) else (rows, Some ErrNotFound))"

section \<open>Model: the leaf\<close>

definition Of :: "grant_env \<Rightarrow> host_grant list \<Rightarrow> string \<Rightarrow> err + grant_set" where
  "Of e rows st = (case GetByStack e rows st of
     Inl x \<Rightarrow> if is_not_found x then Inr \<lparr>gs_Lines = []\<rparr> else Inl x
   | Inr g \<Rightarrow> Inr (Norm \<lparr>gs_Lines = lines (hg_Lines g)\<rparr>))"

definition Check :: "grant_env \<Rightarrow> host_grant list \<Rightarrow> string \<Rightarrow> grant_set \<Rightarrow> error" where
  "Check e rows st want = (case Of e rows st of
     Inl x \<Rightarrow> Some x
   | Inr got \<Rightarrow> let m = Missing want got in if m \<noteq> [] then Some (NeedsApproval st (Text m)) else None)"

definition Approve :: "grant_env \<Rightarrow> host_grant list \<Rightarrow> string \<Rightarrow> string \<Rightarrow> grant_set \<Rightarrow> host_grant list \<times> host_grant \<times> error" where
  "Approve e rows st userID ask =
     (let blank = \<lparr>hg_ID = ge_uuid e, hg_StackID = st, hg_Lines = [], hg_ApprovedBy = [], hg_CreatedAt = ge_now e\<rparr>;
          none = \<lparr>hg_ID = [], hg_StackID = [], hg_Lines = [], hg_ApprovedBy = [], hg_CreatedAt = 0\<rparr>;
          granted = (\<lambda>g. g\<lparr>hg_Lines := join_with [newline] (gs_Lines (grant_Union \<lparr>gs_Lines = lines (hg_Lines g)\<rparr> ask)), hg_ApprovedBy := userID\<rparr>)
      in case GetByStack e rows st of
        Inl x \<Rightarrow> if is_not_found x then let (rows', er) = grants_Create e rows (granted blank) in (rows', granted blank, er) else (rows, none, Some x)
      | Inr g \<Rightarrow> let (rows', er) = grants_Update e rows (granted g) in (rows', granted g, er))"

definition Revoke :: "grant_env \<Rightarrow> host_grant list \<Rightarrow> string \<Rightarrow> string \<Rightarrow> host_grant list \<times> error" where
  "Revoke e rows st tileSlug = (case GetByStack e rows st of
     Inl x \<Rightarrow> (rows, Some x)
   | Inr g \<Rightarrow>
     let keep = (if tileSlug \<noteq> [] then filter (\<lambda>l. fst (Split l) \<noteq> tileSlug) (lines (hg_Lines g)) else [])
     in if keep = [] then grants_Delete e rows (hg_ID g) else grants_Update e rows (g\<lparr>hg_Lines := join_with [newline] keep\<rparr>))"

definition Retain :: "grant_env \<Rightarrow> host_grant list \<Rightarrow> string \<Rightarrow> string \<Rightarrow> string list \<Rightarrow> host_grant list \<times> bool \<times> error" where
  "Retain e rows st tileSlug keep = (case GetByStack e rows st of
     Inl x \<Rightarrow> (rows, False, if is_not_found x then None else Some x)
   | Inr g \<Rightarrow>
     let left = filter (\<lambda>l. fst (Split l) \<noteq> tileSlug \<or> l \<in> set keep) (lines (hg_Lines g))
     in if length left = length (lines (hg_Lines g)) then (rows, False, None)
        else if left = [] then let (rows', er) = grants_Delete e rows (hg_ID g) in (rows', True, er)
        else let (rows', er) = grants_Update e rows (g\<lparr>hg_Lines := join_with [newline] left\<rparr>) in (rows', True, er))"

section \<open>Lemmas: lines and their text\<close>

text \<open>A line that survives being written and read: not empty, no newline, no space around it, no separator of the text in it.\<close>

definition wf_line :: "string \<Rightarrow> bool" where
  "wf_line l \<longleftrightarrow> l \<noteq> [] \<and> newline \<notin> set l \<and> trim_space l = l"

definition wf_item :: "string \<Rightarrow> bool" where
  "wf_item l \<longleftrightarrow> wf_line l \<and> \<not> contains_str '', '' l"

lemma trim_space_Nil [simp]: "trim_space [] = []"
  by (simp add: trim_space_def trim_left_space_def)

lemma lines_join: "list_all wf_line ls \<Longrightarrow> lines (join_with [newline] ls) = ls"
proof (cases "ls = []")
  case False
  assume w: "list_all wf_line ls"
  then have "split_on newline (join_with [newline] ls) = ls"
    by (intro split_join_with False) (auto simp: list_all_iff wf_line_def)
  moreover have "map trim_space ls = ls" "filter (\<lambda>l. l \<noteq> []) ls = ls"
    using w by (auto simp: list_all_iff wf_line_def intro!: map_idI)
  ultimately show ?thesis by (simp add: lines_def)
qed (simp add: lines_def)

lemma set_Norm [simp]: "set (gs_Lines (Norm s)) = set (gs_Lines s)"
  by (simp add: Norm_def)

lemma Missing_Nil: "Missing want got = [] \<longleftrightarrow> set (gs_Lines want) \<subseteq> set (gs_Lines got)"
  by (auto simp: Missing_def Has_def filter_empty_conv)

lemma split_two_nonempty [simp]: "split_two a b s \<noteq> []"
  by (induction a b s rule: split_two.induct) (auto split: list.splits)

lemma split_two_item:
  assumes "a \<noteq> b" "\<not> contains_str [a, b] l"
  shows "split_two a b (l @ a # b # s) = l # split_two a b s"
  using assms(2)
proof (induction l)
  case (Cons x l)
  then have IH: "split_two a b (l @ a # b # s) = l # split_two a b s" by simp
  show ?case
  proof (cases l)
    case Nil
    then show ?thesis using assms(1) by simp
  next
    case (Cons y l')
    then have "\<not> (x = a \<and> y = b)" using Cons.prems by (simp add: has_prefix_def)
    then show ?thesis using IH Cons by simp
  qed
qed simp

lemma split_two_last: "a \<noteq> b \<Longrightarrow> \<not> contains_str [a, b] l \<Longrightarrow> split_two a b l = [l]"
  by (induction a b l rule: split_two.induct) (auto simp: has_prefix_def split: list.splits)

lemma split_two_join:
  assumes "a \<noteq> b" "ws \<noteq> []" "\<forall>w \<in> set ws. \<not> contains_str [a, b] w"
  shows "split_two a b (join_with [a, b] ws) = ws"
  using assms(2,3)
proof (induction ws)
  case (Cons w ws)
  then show ?case using assms(1)
    by (cases "ws = []") (simp_all add: split_two_last split_two_item join_with_Cons)
qed simp

text \<open>The text of a refusal, read back.\<close>

lemma Parse_Text:
  assumes "list_all wf_item ls"
  shows "Parse (Text ls) = Some (Norm \<lparr>gs_Lines = ls\<rparr>)"
proof (cases "ls = []")
  case False
  have "split_two (CHR '','') (CHR '' '') (join_with '', '' ls) = ls"
    using assms by (intro split_two_join False) (auto simp: list_all_iff wf_item_def)
  moreover have "filter (\<lambda>it. it \<noteq> []) ls = ls" using assms by (auto simp: list_all_iff wf_item_def wf_line_def)
  ultimately show ?thesis by (simp add: Parse_def Text_def)
qed (simp add: Parse_def Text_def has_prefix_def trim_prefix_def)

section \<open>Refinement: the table is a map from stacks to sets of lines\<close>

datatype grant_op =
    OpApprove grant_env string string grant_set
  | OpRevoke grant_env string string
  | OpRetain grant_env string string "string list"

fun grant_run :: "grant_op \<Rightarrow> host_grant list \<Rightarrow> host_grant list \<times> bool" where
  "grant_run (OpApprove e st u ask) rows = (let (rows', g, er) = Approve e rows st u ask in (rows', er = None))"
| "grant_run (OpRevoke e st slug) rows = (let (rows', er) = Revoke e rows st slug in (rows', er = None))"
| "grant_run (OpRetain e st slug keep) rows = (let (rows', b, er) = Retain e rows st slug keep in (rows', er = None))"

fun grant_spec :: "grant_op \<Rightarrow> (string \<Rightarrow> string set) \<Rightarrow> string \<Rightarrow> string set" where
  "grant_spec (OpApprove e st u ask) G = G(st := G st \<union> set (gs_Lines ask))"
| "grant_spec (OpRevoke e st slug) G = G(st := if slug = [] then {} else {l \<in> G st. fst (Split l) \<noteq> slug})"
| "grant_spec (OpRetain e st slug keep) G = G(st := {l \<in> G st. fst (Split l) \<noteq> slug \<or> l \<in> set keep})"

text \<open>The store says \<^verbatim>\<open>ErrNotFound\<close> only of a missing row; the lines an admin approves survive being stored.\<close>

definition read_error :: "grant_env \<Rightarrow> bool" where
  "read_error e \<longleftrightarrow> (case ge_read e of Some x \<Rightarrow> \<not> is_not_found x | None \<Rightarrow> True)"

fun grant_ok :: "grant_op \<Rightarrow> bool" where
  "grant_ok (OpApprove e st u ask) \<longleftrightarrow> read_error e \<and> list_all wf_line (gs_Lines ask)"
| "grant_ok (OpRevoke e st slug) \<longleftrightarrow> True"
| "grant_ok (OpRetain e st slug keep) \<longleftrightarrow> read_error e"

definition granted :: "host_grant list \<Rightarrow> string \<Rightarrow> string set" where
  "granted rows st = (case find (\<lambda>g. hg_StackID g = st) rows of None \<Rightarrow> {} | Some g \<Rightarrow> set (lines (hg_Lines g)))"

definition wf_grant :: "host_grant \<Rightarrow> bool" where
  "wf_grant g \<longleftrightarrow> list_all wf_line (lines (hg_Lines g))"

definition grants_inv :: "host_grant list \<Rightarrow> bool" where
  "grants_inv rows \<longleftrightarrow> distinct (map hg_ID rows) \<and> distinct (map hg_StackID rows) \<and> list_all wf_grant rows"

subsection \<open>Writes of one row\<close>

lemma find_stack: "grants_inv rows \<Longrightarrow> find (\<lambda>g. hg_StackID g = st) rows = Some g \<longleftrightarrow> g \<in> set rows \<and> hg_StackID g = st"
  unfolding grants_inv_def by (induction rows) (auto split: if_splits)

lemma granted_row: "grants_inv rows \<Longrightarrow> g \<in> set rows \<Longrightarrow> granted rows (hg_StackID g) = set (lines (hg_Lines g))"
  using find_stack [of rows "hg_StackID g" g] by (simp add: granted_def)

lemma granted_none: "(\<And>g. g \<in> set rows \<Longrightarrow> hg_StackID g \<noteq> st) \<Longrightarrow> granted rows st = {}"
  by (auto simp: granted_def find_Some_iff split: option.splits dest: nth_mem)

lemma granted_cong:
  assumes "grants_inv rows" "grants_inv rows'" "\<And>g. hg_StackID g = st \<Longrightarrow> g \<in> set rows \<longleftrightarrow> g \<in> set rows'"
  shows "granted rows st = granted rows' st"
proof (cases "\<exists>g \<in> set rows. hg_StackID g = st")
  case True
  then obtain g where "g \<in> set rows" "hg_StackID g = st" by blast
  then show ?thesis using granted_row assms by metis
next
  case False
  then show ?thesis using granted_none [of rows st] granted_none [of rows' st] assms(3) by blast
qed

lemma Update_row:
  assumes i: "grants_inv rows" and g: "g \<in> set rows" and g': "hg_ID g' = hg_ID g" "hg_StackID g' = hg_StackID g" "wf_grant g'"
    and u: "grants_Update e rows g' = (rows', er)"
  shows "grants_inv rows' \<and> granted rows' = (if er = None then (granted rows)(hg_StackID g := set (lines (hg_Lines g'))) else granted rows)"
proof (cases "ge_write e")
  case None
  let ?up = "\<lambda>r. if hg_ID r = hg_ID g' then g' else r"
  have t: "rows' = map ?up rows" "er = None" using u None g g'(1) by (auto simp: grants_Update_def split: if_splits)
  have same: "hg_StackID (?up r) = hg_StackID r" if "r \<in> set rows" for r
    using that i g g' unfolding grants_inv_def distinct_map inj_on_def by auto
  then have "map hg_StackID (map ?up rows) = map hg_StackID rows" "map hg_ID (map ?up rows) = map hg_ID rows" by simp_all
  moreover have "list_all wf_grant (map ?up rows)" using i g'(3) by (auto simp: grants_inv_def list_all_iff)
  ultimately have i': "grants_inv rows'" unfolding t using i by (simp only: grants_inv_def)
  have "granted rows' st = ((granted rows)(hg_StackID g := set (lines (hg_Lines g')))) st" for st
  proof (cases "st = hg_StackID g")
    case True
    have "g' \<in> set rows'" unfolding t using g g'(1) by force
    then show ?thesis using granted_row [OF i'] g'(2) True by fastforce
  next
    case False
    have "hg_ID r \<noteq> hg_ID g" if "hg_StackID r = st" "r \<in> set rows" for r using that False same [of r] g' by auto
    then have "r \<in> set rows \<longleftrightarrow> r \<in> set rows'" if "hg_StackID r = st" for r
      unfolding t using that False g' by (auto simp: image_iff)
    then show ?thesis using granted_cong [OF i i'] False by auto
  qed
  then show ?thesis using i' t(2) by auto
qed (use u i in \<open>auto simp: grants_Update_def\<close>)

lemma Delete_row:
  assumes i: "grants_inv rows" and g: "g \<in> set rows" and u: "grants_Delete e rows (hg_ID g) = (rows', er)"
  shows "grants_inv rows' \<and> granted rows' = (if er = None then (granted rows)(hg_StackID g := {}) else granted rows)"
proof (cases "ge_write e")
  case None
  have t: "rows' = filter (\<lambda>r. hg_ID r \<noteq> hg_ID g) rows" "er = None" using u None g by (auto simp: grants_Delete_def split: if_splits)
  have i': "grants_inv rows'" unfolding t using i by (auto simp: grants_inv_def list_all_iff distinct_map_filter)
  have one: "r = g" if "r \<in> set rows" "hg_StackID r = hg_StackID g" for r
    using that i g unfolding grants_inv_def distinct_map inj_on_def by auto
  have one': "r = g" if "r \<in> set rows" "hg_ID r = hg_ID g" for r
    using that i g unfolding grants_inv_def distinct_map inj_on_def by auto
  have "granted rows' st = ((granted rows)(hg_StackID g := {})) st" for st
  proof (cases "st = hg_StackID g")
    case True
    then show ?thesis using one granted_none [of rows' st] unfolding t by auto
  next
    case False
    have "r \<in> set rows \<longleftrightarrow> r \<in> set rows'" if "hg_StackID r = st" for r unfolding t using that False one' by auto
    then show ?thesis using granted_cong [OF i i'] False by auto
  qed
  then show ?thesis using i' t(2) by auto
qed (use u i in \<open>auto simp: grants_Delete_def\<close>)

lemma Create_row:
  assumes i: "grants_inv rows" and g: "wf_grant g" "find (\<lambda>r. hg_StackID r = hg_StackID g) rows = None"
    and u: "grants_Create e rows g = (rows', er)"
  shows "grants_inv rows' \<and> granted rows' = (if er = None then (granted rows)(hg_StackID g := set (lines (hg_Lines g))) else granted rows)"
proof (cases "ge_write e = None \<and> (\<forall>r \<in> set rows. hg_ID r \<noteq> hg_ID g)")
  case True
  have n: "\<forall>r \<in> set rows. hg_StackID r \<noteq> hg_StackID g" using g(2) by (simp add: find_None_iff)
  then have t: "rows' = rows @ [g]" "er = None" using u True by (auto simp: grants_Create_def split: if_splits)
  have i': "grants_inv rows'" unfolding t using i g(1) n True by (auto simp: grants_inv_def)
  have "granted rows' st = ((granted rows)(hg_StackID g := set (lines (hg_Lines g)))) st" for st
  proof (cases "st = hg_StackID g")
    case True
    then show ?thesis using granted_row [OF i', of g] by (simp add: t)
  next
    case False
    then show ?thesis using granted_cong [OF i i', of st] by (auto simp: t)
  qed
  then show ?thesis using i' t(2) by auto
qed (use u i in \<open>auto simp: grants_Create_def split: option.splits if_splits\<close>)

subsection \<open>The operations\<close>

lemma wf_written: "list_all wf_line ls \<Longrightarrow> wf_grant (g\<lparr>hg_Lines := join_with [newline] ls, hg_ApprovedBy := u\<rparr>)
    \<and> wf_grant (g\<lparr>hg_Lines := join_with [newline] ls\<rparr>)"
  by (simp add: wf_grant_def lines_join)

lemma read_row:
  assumes "grants_inv rows" "GetByStack e rows st = Inr g"
  shows "g \<in> set rows" "hg_StackID g = st" "list_all wf_line (lines (hg_Lines g))" "granted rows st = set (lines (hg_Lines g))"
proof -
  show g: "g \<in> set rows" "hg_StackID g = st" using assms find_stack by (auto simp: GetByStack_def split: option.splits)
  then show "list_all wf_line (lines (hg_Lines g))" using assms(1) by (auto simp: grants_inv_def list_all_iff wf_grant_def)
  show "granted rows st = set (lines (hg_Lines g))" using granted_row [OF assms(1)] g by blast
qed

lemma Approve_refines:
  assumes i: "grants_inv rows" and w: "list_all wf_line (gs_Lines ask)" and a: "Approve e rows st u ask = (rows', g', er)"
    and nf: "ge_read e = None"
  shows "grants_inv rows' \<and> granted rows' = (if er = None then (granted rows)(st := granted rows st \<union> set (gs_Lines ask)) else granted rows)"
proof (cases "GetByStack e rows st")
  case (Inr g)
  note r = read_row [OF i Inr]
  let ?ls = "gs_Lines (grant_Union \<lparr>gs_Lines = lines (hg_Lines g)\<rparr> ask)"
  let ?g = "g\<lparr>hg_Lines := join_with [newline] ?ls, hg_ApprovedBy := u\<rparr>"
  have ls: "list_all wf_line ?ls" "set ?ls = granted rows st \<union> set (gs_Lines ask)" using r(3,4) w by (auto simp: list_all_iff grant_Union_def)
  have "grants_Update e rows ?g = (rows', er)" using a Inr by (auto simp: Approve_def Let_def split: prod.splits)
  from Update_row [OF i r(1) _ _ _ this] show ?thesis using wf_written [OF ls(1)] ls(2) r(2) by (simp add: lines_join [OF ls(1)])
next
  case (Inl x)
  then have n: "find (\<lambda>g. hg_StackID g = st) rows = None" and x: "x = ErrNotFound" using nf by (auto simp: GetByStack_def split: option.splits)
  have l0: "lines [] = []" by (simp add: lines_def)
  let ?ls = "gs_Lines (grant_Union \<lparr>gs_Lines = []\<rparr> ask)"
  let ?g = "\<lparr>hg_ID = ge_uuid e, hg_StackID = st, hg_Lines = join_with [newline] ?ls, hg_ApprovedBy = u, hg_CreatedAt = ge_now e\<rparr>"
  have ls: "list_all wf_line ?ls" "set ?ls = set (gs_Lines ask)" using w by (auto simp: list_all_iff grant_Union_def)
  have "grants_Create e rows ?g = (rows', er)" using a Inl x l0 by (auto simp: Approve_def Let_def is_not_found_def split: prod.splits)
  from Create_row [OF i _ _ this] show ?thesis
    using ls n by (simp add: wf_grant_def lines_join [OF ls(1)] granted_def)
qed

lemma Approve_read_error:
  assumes "ge_read e = Some x" "\<not> is_not_found x"
  shows "fst (Approve e rows st u ask) = rows \<and> snd (snd (Approve e rows st u ask)) \<noteq> None"
  using assms by (simp add: Approve_def GetByStack_def Let_def)

lemma Revoke_refines:
  assumes i: "grants_inv rows" and a: "Revoke e rows st slug = (rows', er)"
  shows "grants_inv rows' \<and> granted rows' = (if er = None then (granted rows)(st := if slug = [] then {} else {l \<in> granted rows st. fst (Split l) \<noteq> slug}) else granted rows)"
proof (cases "GetByStack e rows st")
  case (Inr g)
  note r = read_row [OF i Inr]
  define keep where "keep = (if slug \<noteq> [] then filter (\<lambda>l. fst (Split l) \<noteq> slug) (lines (hg_Lines g)) else [])"
  have ls: "list_all wf_line keep" "set keep = (if slug = [] then {} else {l \<in> granted rows st. fst (Split l) \<noteq> slug})"
    using r(3,4) by (auto simp: keep_def list_all_iff)
  show ?thesis
  proof (cases "keep = []")
    case True
    then have "grants_Delete e rows (hg_ID g) = (rows', er)" using a Inr by (simp add: Revoke_def keep_def [symmetric])
    from Delete_row [OF i r(1) this] show ?thesis using ls(2) r(2) True by simp
  next
    case False
    then have "grants_Update e rows (g\<lparr>hg_Lines := join_with [newline] keep\<rparr>) = (rows', er)" using a Inr by (simp add: Revoke_def keep_def [symmetric])
    from Update_row [OF i r(1) _ _ _ this] show ?thesis using wf_written [OF ls(1)] ls(2) r(2) by (simp add: lines_join [OF ls(1)])
  qed
qed (use a i in \<open>auto simp: Revoke_def\<close>)

lemma Retain_refines:
  assumes i: "grants_inv rows" and a: "Retain e rows st slug keep = (rows', b, er)"
  shows "grants_inv rows' \<and> (er = None \<longrightarrow> ge_read e = None \<longrightarrow> granted rows' = (granted rows)(st := {l \<in> granted rows st. fst (Split l) \<noteq> slug \<or> l \<in> set keep}))
     \<and> (er \<noteq> None \<longrightarrow> granted rows' = granted rows)"
proof (cases "GetByStack e rows st")
  case (Inr g)
  note r = read_row [OF i Inr]
  define ls where "ls = filter (\<lambda>l. fst (Split l) \<noteq> slug \<or> l \<in> set keep) (lines (hg_Lines g))"
  have w: "list_all wf_line ls" "set ls = {l \<in> granted rows st. fst (Split l) \<noteq> slug \<or> l \<in> set keep}"
    using r(3,4) by (auto simp: ls_def list_all_iff)
  consider "length ls = length (lines (hg_Lines g))" | "length ls \<noteq> length (lines (hg_Lines g))" "ls = []"
    | "length ls \<noteq> length (lines (hg_Lines g))" "ls \<noteq> []" by blast
  then show ?thesis
  proof cases
    case 1
    then have "ls = lines (hg_Lines g)" unfolding ls_def by (metis length_filter_less less_irrefl filter_id_conv)
    moreover have "rows' = rows" "er = None" using a Inr 1 unfolding Retain_def ls_def Let_def by simp_all
    ultimately show ?thesis using i w(2) r(4) by (auto simp: fun_eq_iff)
  next
    case 2
    then have "grants_Delete e rows (hg_ID g) = (rows', er)" using a Inr unfolding Retain_def ls_def Let_def by (simp split: prod.splits)
    moreover have "{l \<in> granted rows st. fst (Split l) \<noteq> slug \<or> l \<in> set keep} = {}" using w(2) 2 by simp
    ultimately show ?thesis unfolding \<open>{l \<in> granted rows st. fst (Split l) \<noteq> slug \<or> l \<in> set keep} = {}\<close>
      using Delete_row [OF i r(1)] r(2) by auto
  next
    case 3
    then have "grants_Update e rows (g\<lparr>hg_Lines := join_with [newline] ls\<rparr>) = (rows', er)" using a Inr unfolding Retain_def ls_def Let_def by (simp split: prod.splits)
    from Update_row [OF i r(1) _ _ _ this] show ?thesis using wf_written [OF w(1)] w(2) r(2) by (simp add: lines_join [OF w(1)])
  qed
next
  case (Inl x)
  then have "ge_read e = None \<Longrightarrow> granted rows st = {}" by (auto simp: GetByStack_def granted_def split: option.splits)
  then show ?thesis using a i Inl by (auto simp: Retain_def fun_eq_iff)
qed

interpretation grants: refinement grants_inv granted grant_ok grant_run grant_spec
proof
  fix rows x assume i: "grants_inv rows" and k: "grant_ok x"
  have "grants_inv (fst (grant_run x rows)) \<and> granted (fst (grant_run x rows)) = (if snd (grant_run x rows) then grant_spec x (granted rows) else granted rows)"
  proof (cases x)
    case (OpApprove e st u ask)
    obtain rows' g er where a: "Approve e rows st u ask = (rows', g, er)" by (metis prod.exhaust)
    show ?thesis
    proof (cases "ge_read e")
      case None
      then show ?thesis using Approve_refines [OF i _ a None] k OpApprove a by auto
    next
      case (Some y)
      then show ?thesis using Approve_read_error [of e y rows st u ask] k OpApprove a i by (auto simp: read_error_def)
    qed
  next
    case (OpRevoke e st slug)
    obtain rows' er where "Revoke e rows st slug = (rows', er)" by fastforce
    then show ?thesis using Revoke_refines [OF i] OpRevoke by auto
  next
    case (OpRetain e st slug keep)
    obtain rows' b er where a: "Retain e rows st slug keep = (rows', b, er)" by (metis prod.exhaust)
    moreover have "er = None \<Longrightarrow> ge_read e = None" using a k OpRetain
      by (auto simp: Retain_def GetByStack_def read_error_def split: option.splits)
    ultimately show ?thesis using Retain_refines [OF i a] OpRetain by auto
  qed
  then show "grants_inv (fst (grant_run x rows))"
    "granted (fst (grant_run x rows)) = (if snd (grant_run x rows) then grant_spec x (granted rows) else granted rows)" by simp_all
qed

lemma Check_granted: "grants_inv rows \<Longrightarrow> ge_read e = None \<Longrightarrow> Check e rows st want = None \<longleftrightarrow> set (gs_Lines want) \<subseteq> granted rows st"
  by (auto simp: Check_def Of_def GetByStack_def granted_def is_not_found_def Missing_Nil Let_def split: option.splits)

section \<open>Properties\<close>

text \<open>
  C6: The table of grants implements a map from stacks to sets of lines: after any sequence of approvals,
  revocations and cut-downs, some of which fail, a check passes exactly when every line the stack wants is in what the successful
  ones left: approving adds the asked lines of that stack, revoking takes a tile's lines (or all) away, retaining
  keeps of a tile's lines the given ones. No other stack is touched.
\<close>

theorem grants_refine_line_sets:
  assumes "list_all grant_ok ops" "run_all grant_run ops [] = (rows, successful)" "ge_read e = None"
  shows "Check e rows st want = None \<longleftrightarrow> set (gs_Lines want) \<subseteq> fold grant_spec successful (\<lambda>_. {}) st"
proof -
  have "grants_inv []" "granted [] = (\<lambda>_. {})" by (simp_all add: grants_inv_def granted_def fun_eq_iff)
  with grants.run_all_refines [OF _ assms(1,2)] have "grants_inv rows" "granted rows = fold grant_spec successful (\<lambda>_. {})" by auto
  then show ?thesis using Check_granted [OF _ assms(3)] by simp
qed

definition ex_genv :: grant_env where
  "ex_genv = \<lparr>ge_read = None, ge_write = None, ge_uuid = ''g1'', ge_now = 0\<rparr>"

definition ex_ask :: grant_set where
  "ex_ask = \<lparr>gs_Lines = [''web privileged'', ''db host:/a:/b'']\<rparr>"

definition ex_gops :: "grant_op list" where
  "ex_gops = [OpApprove ex_genv ''s1'' ''u1'' ex_ask, OpRevoke ex_genv ''s1'' ''web'', OpRevoke ex_genv ''s2'' []]"

theorem grants_refine_line_sets_witness:
  "Check ex_genv (fst (run_all grant_run ex_gops [])) ''s1'' \<lparr>gs_Lines = [''db host:/a:/b'']\<rparr> = None
   \<and> Check ex_genv (fst (run_all grant_run ex_gops [])) ''s1'' \<lparr>gs_Lines = [''web privileged'']\<rparr> \<noteq> None"
proof -
  have k: "list_all grant_ok ex_gops" by code_simp
  have s: "snd (run_all grant_run ex_gops []) = take 2 ex_gops" by code_simp
  have r: "run_all grant_run ex_gops [] = (fst (run_all grant_run ex_gops []), take 2 ex_gops)" using s by (metis prod.collapse)
  have e: "ge_read ex_genv = None" by (simp add: ex_genv_def)
  have "fst (Split ''db host:/a:/b'') = ''db''" "fst (Split ''web privileged'') = ''web''" by code_simp+
  then have "fold grant_spec (take 2 ex_gops) (\<lambda>_. {}) ''s1'' = {''db host:/a:/b''}"
    by (auto simp: ex_gops_def ex_ask_def numeral_2_eq_2)
  then show ?thesis using grants_refine_line_sets [OF k r e] by simp
qed

text \<open>
  Approving what a refusal asks for lets the stack through: when a check refuses a stack's wanted lines, the
  text of the refusal is read back as exactly the lines that are missing, and once an admin approves those, the
  same check passes. This holds for wanted lines without a newline, outer space or the separator of the text.
\<close>

theorem approving_the_refusal_passes:
  assumes "list_all grant_ok ops" "run_all grant_run ops [] = (rows, successful)" "ge_read e = None"
    and w: "list_all wf_item (gs_Lines want)" and c: "Check e rows st want = Some (NeedsApproval st' what)"
  shows "\<exists>ask. Parse what = Some ask \<and> (\<forall>l. Has ask l \<longleftrightarrow> l \<in> set (gs_Lines want) \<and> l \<notin> granted rows st)
     \<and> (\<forall>u rows' g. Approve e rows st u ask = (rows', g, None) \<longrightarrow> Check e rows' st want = None)"
proof -
  have i: "grants_inv rows" using grants.run_all_refines [OF _ assms(1,2)] by (simp add: grants_inv_def)
  obtain got where o: "Of e rows st = Inr got" using c assms(3) by (auto simp: Check_def Of_def GetByStack_def is_not_found_def split: option.splits)
  let ?m = "Missing want got" and ?ask = "Norm \<lparr>gs_Lines = Missing want got\<rparr>"
  have got: "set (gs_Lines got) = granted rows st" using o assms(3)
    by (auto simp: Of_def GetByStack_def granted_def is_not_found_def split: option.splits)
  have what: "what = Text ?m" using c o by (auto simp: Check_def Let_def split: if_splits)
  have m: "list_all wf_item ?m" using w by (auto simp: Missing_def list_all_iff)
  have p: "Parse what = Some ?ask" unfolding what by (rule Parse_Text [OF m])
  have h: "Has ?ask l \<longleftrightarrow> l \<in> set (gs_Lines want) \<and> l \<notin> granted rows st" for l using got by (auto simp: Has_def Missing_def)
  have "Check e rows' st want = None" if a: "Approve e rows st u ?ask = (rows', g, None)" for u rows' g
  proof -
    have "list_all wf_line (gs_Lines ?ask)" using m by (auto simp: list_all_iff wf_item_def)
    from Approve_refines [OF i this a assms(3)] have "grants_inv rows'" "granted rows' st = granted rows st \<union> set (gs_Lines ?ask)" by simp_all
    then show ?thesis using Check_granted [OF _ assms(3)] got by (auto simp: Missing_def Has_def)
  qed
  then show ?thesis using p h by blast
qed

theorem approving_the_refusal_passes_witness:
  "Check ex_genv (fst (Approve ex_genv [] ''s1'' ''u1'' (the (Parse ''elevated access: web privileged, db host:/a:/b'')))) ''s1'' ex_ask = None"
proof -
  let ?what = "''elevated access: web privileged, db host:/a:/b''"
  have k: "list_all grant_ok []" and r: "run_all grant_run [] [] = ([], [])" and e: "ge_read ex_genv = None" by (simp_all add: ex_genv_def)
  have w: "list_all wf_item (gs_Lines ex_ask)" by code_simp
  have c: "Check ex_genv [] ''s1'' ex_ask = Some (NeedsApproval ''s1'' ?what)" by code_simp
  obtain ask where a: "Parse ?what = Some ask" "\<forall>u rows' g. Approve ex_genv [] ''s1'' u ask = (rows', g, None) \<longrightarrow> Check ex_genv rows' ''s1'' ex_ask = None"
    using approving_the_refusal_passes [OF k r e w c] by blast
  have "snd (snd (Approve ex_genv [] ''s1'' ''u1'' (the (Parse ?what)))) = None" by code_simp
  then show ?thesis using a by (metis option.sel prod.collapse)
qed

end
