(* ===== verification/Route.thy ===== *)
theory Route
  imports Errs Netip
begin

text \<open>
  \<^verbatim>\<open>internal/service/internal/leaf/route/route.go\<close> and the host grammar it uses, \<^verbatim>\<open>CheckRoot\<close> of \<^verbatim>\<open>internal/installspec\<close>: hosts that go to an
  address outside stackr.  The table is a list of rows; the environment says which store calls fail and
  gives ids, times, the text of an error and the parts of \<^verbatim>\<open>strings.ToLower\<close> and \<^verbatim>\<open>ToUpper\<close> that need Unicode's tables.

  Shown: the overlap test decides whether two hosts share a name, so no name is answered by two routes; and
  what a stored target can hold.
\<close>

section \<open>Model: host names\<close>

definition before :: "char \<Rightarrow> string \<Rightarrow> string" where
  "before c s = takeWhile (\<lambda>x. x \<noteq> c) s"

definition CleanHost :: "(string \<Rightarrow> string) \<Rightarrow> string \<Rightarrow> string" where
  "CleanHost ulow s =
     (let h = trim_prefix ''https://'' (trim_prefix ''http://'' (to_lower ulow (trim_space s)))
      in trim_suffix ''.'' (before (CHR '':'') (before (CHR ''/'') h)))"

definition hostChars :: string where
  "hostChars = ''abcdefghijklmnopqrstuvwxyz0123456789-''"

definition check_label :: "string \<Rightarrow> string \<Rightarrow> error" where
  "check_label h l =
     (if l = [] then Some (Errorf ''%s has an empty label'' [h])
      else if length l > 63 then Some (Errorf ''%s is longer than 63 characters'' [l])
      else if trim_set hostChars l \<noteq> [] then Some (Errorf ''%s has characters a domain cannot contain'' [h])
      else if hd l = CHR ''-'' \<or> last l = CHR ''-'' then Some (Errorf ''%s starts or ends with a dash'' [l])
      else None)"

text \<open>The first label that is refused gives the error.\<close>

fun check_labels :: "string \<Rightarrow> string list \<Rightarrow> error" where
  "check_labels h [] = None"
| "check_labels h (l # ls) = (case check_label h l of Some e \<Rightarrow> Some e | None \<Rightarrow> check_labels h ls)"

definition CheckRoot :: "(string \<Rightarrow> string) \<Rightarrow> string \<Rightarrow> err + string" where
  "CheckRoot ulow s =
     (let h = CleanHost ulow s; wildcard = has_prefix ''*.'' h; bare = trim_prefix ''*.'' h; labels = split_on (CHR ''.'') bare
      in if bare = [] then Inl (Errorf ''a domain is required'' [])
         else if ParseAddr bare \<noteq> None \<or> bare = ''localhost''
         then Inl (Errorf ''%s is an address, not a domain; stackr reaches tiles and the panel by name'' [bare])
         else if length h > 253 then Inl (Errorf ''%s is longer than 253 characters'' [h])
         else case check_labels h labels of
           Some e \<Rightarrow> Inl e
         | None \<Rightarrow>
           if length labels < 2 then Inl (Errorf ''%s is a single label; use a full name like example.com'' [h])
           else if trim_set ''0123456789'' (last labels) = [] then Inl (Errorf ''%s is not a valid domain'' [h])
           else Inr (if wildcard then ''*.'' @ bare else bare))"

section \<open>Model: overlap\<close>

definition covers :: "string \<Rightarrow> string \<Rightarrow> bool" where
  "covers wild host \<longleftrightarrow> has_prefix ''*.'' wild
     \<and> (let rest = ''.'' @ trim_prefix ''*.'' wild; label = trim_suffix rest host
        in has_suffix rest host \<and> label \<noteq> [] \<and> CHR ''.'' \<notin> set label)"

definition overlap :: "string \<Rightarrow> string \<Rightarrow> bool" where
  "overlap a b \<longleftrightarrow> a = b \<or> covers a b \<or> covers b a"

definition apexOf :: "string \<Rightarrow> string \<Rightarrow> bool" where
  "apexOf wild host \<longleftrightarrow> has_prefix ''*.'' wild \<and> trim_prefix ''*.'' wild = host"

definition overlapApex :: "string \<Rightarrow> string \<Rightarrow> bool" where
  "overlapApex a b \<longleftrightarrow> overlap a b \<or> apexOf a b \<or> apexOf b a"

definition slicesOverlap :: "(string \<Rightarrow> string) \<Rightarrow> string \<Rightarrow> string list \<Rightarrow> bool" where
  "slicesOverlap ulow host hosts \<longleftrightarrow> (\<exists>h \<in> set hosts. overlapApex host (to_lower ulow h))"

section \<open>Model: targets\<close>

text \<open>\<^verbatim>\<open>net.SplitHostPort\<close>; the error is not read.\<close>

definition SplitHostPort :: "string \<Rightarrow> (string \<times> string) option" where
  "SplitHostPort s = (case cut_last (CHR '':'') s of
     None \<Rightarrow> None
   | Some (pre, port) \<Rightarrow>
     if has_prefix ''['' s
     then (case cut_at (CHR '']'') s of
         None \<Rightarrow> None
       | Some (inside, post) \<Rightarrow>
         if length inside + 1 = length pre \<and> CHR ''['' \<notin> set (tl s) \<and> CHR '']'' \<notin> set post then Some (tl inside, port) else None)
     else if CHR '':'' \<in> set pre \<or> CHR ''['' \<in> set s \<or> CHR '']'' \<in> set s then None
     else Some (pre, port))"

definition JoinHostPort :: "string \<Rightarrow> string \<Rightarrow> string" where
  "JoinHostPort h port = (if CHR '':'' \<in> set h then ''['' @ h @ '']:'' @ port else h @ '':'' @ port)"

definition Passthrough :: string where "Passthrough = ''passthrough''"
definition HTTP :: string where "HTTP = ''http''"
definition HTTPS :: string where "HTTPS = ''https''"

definition checkTarget :: "string \<Rightarrow> string \<Rightarrow> err + string" where
  "checkTarget t0 mode =
     (let t = trim_space t0; dflt = (if mode = HTTP then ''80'' else ''443'');
          (h, port) = (case SplitHostPort t of None \<Rightarrow> (trim_set ''[]'' t, dflt) | Some (h, p) \<Rightarrow> (h, if p \<noteq> [] then p else dflt))
      in if (case atoi port of None \<Rightarrow> True | Some n \<Rightarrow> n < 1 \<or> n > 65535)
         then Inl (Invalidf ''target'' ''%s is not a port.'' [port])
         else if h = [] \<or> (\<exists>c \<in> set h. c \<in> set ''/ @?#{}'') \<or> contains_str ''://'' h
         then Inl (Invalidf ''target'' ''Give the target as host or host:port.'' [])
         else Inr (JoinHostPort h port))"

section \<open>Model: the leaf\<close>

record route_spec =
  rs_Host :: string
  rs_Mode :: string
  rs_Target :: string
  rs_Insecure :: bool

record route =
  ro_ID :: string
  ro_Host :: string
  ro_Mode :: string
  ro_Target :: string
  ro_Insecure :: bool
  ro_CreatedAt :: int

record route_env =
  rn_uuid :: string
  rn_now :: int
  rn_text :: "err \<Rightarrow> string"
  rn_lower :: "string \<Rightarrow> string"
  rn_upper :: "string \<Rightarrow> string"
  rn_list :: error
  rn_write :: error

definition mode_errors :: "route_spec \<Rightarrow> bool \<Rightarrow> err list" where
  "mode_errors s tlsOn =
     (if rs_Mode s = Passthrough \<or> rs_Mode s = HTTP \<or> rs_Mode s = HTTPS
      then if rs_Mode s = Passthrough \<and> \<not> tlsOn then [Invalidf ''mode'' ''Pass-through needs HTTPS on.'' []] else []
      else [Invalidf ''mode'' ''A route is passthrough, http or https.'' []])"

definition host_check :: "route_env \<Rightarrow> route_spec \<Rightarrow> bool \<Rightarrow> err + string" where
  "host_check e s dns01 =
     (if trim_space (rs_Host s) = [] then Inl (Invalidf ''host'' ''Give the host name the route answers on.'' [])
      else if \<exists>c \<in> set (rs_Host s). c \<in> set ''/: '' then Inl (Invalidf ''host'' ''Give a bare hostname: no scheme, slash or port.'' [])
      else case CheckRoot (rn_lower e) (rs_Host s) of
        Inl er \<Rightarrow> (let msg = trim_suffix ''.'' (rn_text e er) in Inl (Invalidf ''host'' ''%s%s.'' [rn_upper e (take 1 msg), drop 1 msg]))
      | Inr host \<Rightarrow>
        if has_prefix ''*.'' host \<and> rs_Mode s \<noteq> Passthrough \<and> \<not> dns01
        then Inl (Invalidf ''host'' ''A wildcard host needs a managed DNS domain, or the passthrough mode.'' [])
        else Inr host)"

definition route_Check :: "route_env \<Rightarrow> route_spec \<Rightarrow> bool \<Rightarrow> bool \<Rightarrow> route \<times> error" where
  "route_Check e s tlsOn dns01 =
     (let hc = host_check e s dns01; tc = checkTarget (rs_Target s) (rs_Mode s);
          r = \<lparr>ro_ID = rn_uuid e, ro_Host = (case hc of Inl _ \<Rightarrow> [] | Inr h \<Rightarrow> h), ro_Mode = rs_Mode s,
               ro_Target = (case tc of Inl _ \<Rightarrow> [] | Inr t \<Rightarrow> t), ro_Insecure = rs_Insecure s, ro_CreatedAt = rn_now e\<rparr>;
          bad = mode_errors s tlsOn @ (case hc of Inl er \<Rightarrow> [er] | Inr _ \<Rightarrow> [])
            @ (if rs_Insecure s \<and> rs_Mode s \<noteq> HTTPS then [Invalidf ''insecure'' ''Skipping the certificate check only applies to an https route.'' []] else [])
            @ (case tc of Inl er \<Rightarrow> [er] | Inr _ \<Rightarrow> [])
      in (r, errors_Join (map Some bad)))"

definition routes_Create :: "route_env \<Rightarrow> route list \<Rightarrow> route \<Rightarrow> route list \<times> error" where
  "routes_Create e rows r = (case rn_write e of Some x \<Rightarrow> (rows, Some x)
     | None \<Rightarrow> if \<exists>x \<in> set rows. ro_ID x = ro_ID r \<or> ro_Host x = ro_Host r
               then (rows, Some (Wrap (''%w: %v'', []) (Conflictf ''already exists'' []))) else (rows @ [r], None))"

definition route_Create :: "route_env \<Rightarrow> route list \<Rightarrow> route_spec \<Rightarrow> string list \<Rightarrow> bool \<Rightarrow> bool \<Rightarrow> route list \<times> route \<times> error" where
  "route_Create e rows s taken tlsOn dns01 = (case route_Check e s tlsOn dns01 of
     (r, Some er) \<Rightarrow> (rows, r, Some er)
   | (r, None) \<Rightarrow>
     if slicesOverlap (rn_lower e) (ro_Host r) taken
     then (rows, r, Some (Conflictf ''%s is already a tile domain or domain resource.'' [ro_Host r]))
     else case rn_list e of Some er \<Rightarrow> (rows, r, Some er)
       | None \<Rightarrow> (case find (\<lambda>m. overlap (ro_Host r) (ro_Host m)) rows of
           Some m \<Rightarrow> (rows, r, Some (Conflictf ''%s overlaps the route for %s.'' [ro_Host r, ro_Host m]))
         | None \<Rightarrow> let (rows', er) = routes_Create e rows r in (rows', r, er)))"

definition Holds :: "(string \<Rightarrow> string) \<Rightarrow> route list \<Rightarrow> string \<Rightarrow> bool" where
  "Holds ulow rows host \<longleftrightarrow> (\<exists>m \<in> set rows. overlapApex (to_lower ulow (trim_space host)) (ro_Host m))"

definition Covers :: "route_env \<Rightarrow> route list \<Rightarrow> string \<Rightarrow> err + bool" where
  "Covers e rows host = (case rn_list e of Some er \<Rightarrow> Inl er | None \<Rightarrow> Inr (Holds (rn_lower e) rows host))"

definition route_Delete :: "route_env \<Rightarrow> route list \<Rightarrow> string \<Rightarrow> route list \<times> error" where
  "route_Delete e rows i = (case rn_write e of Some x \<Rightarrow> (rows, Some x)
     | None \<Rightarrow> if \<exists>r \<in> set rows. ro_ID r = i then (filter (\<lambda>r. ro_ID r \<noteq> i) rows, None) else (rows, Some ErrNotFound))"

section \<open>Which names a host answers\<close>

text \<open>The matchers of the proxy: a host answers its own name; \<open>*.rest\<close> answers one label before \<open>rest\<close>.\<close>

definition answers :: "string \<Rightarrow> string \<Rightarrow> bool" where
  "answers host name \<longleftrightarrow> (if has_prefix ''*.'' host then \<exists>label. label \<noteq> [] \<and> CHR ''.'' \<notin> set label \<and> name = label @ tl host else name = host)"

lemma answers_wild: "answers (''*.'' @ rest) n \<longleftrightarrow> (\<exists>l. l \<noteq> [] \<and> CHR ''.'' \<notin> set l \<and> n = l @ CHR ''.'' # rest)"
  by (simp add: answers_def has_prefix_def)

lemma covers_iff: "covers wild name \<longleftrightarrow> has_prefix ''*.'' wild \<and> answers wild name"
proof (cases "has_prefix ''*.'' wild")
  case True
  then obtain rest where w: "wild = ''*.'' @ rest" by (auto simp: has_prefix_iff)
  have "covers wild name \<longleftrightarrow> (\<exists>label. name = label @ ''.'' @ rest \<and> label \<noteq> [] \<and> CHR ''.'' \<notin> set label)"
    unfolding covers_def w by (auto simp: Let_def trim_suffix_def has_suffix_iff has_prefix_def trim_prefix_def)
  then show ?thesis using w by (auto simp: answers_def has_prefix_def)
qed (simp add: covers_def)

text \<open>A name with one label before the rest has one such reading.\<close>

lemma label_unique:
  assumes "la @ CHR ''.'' # ra = lb @ CHR ''.'' # rb" "CHR ''.'' \<notin> set la" "CHR ''.'' \<notin> set lb"
  shows "la = lb \<and> ra = rb"
proof -
  have "takeWhile (\<lambda>c. c \<noteq> CHR ''.'') (l @ CHR ''.'' # r) = l" if "CHR ''.'' \<notin> set l" for l r :: string
    using that by (simp add: takeWhile_append)
  then show ?thesis using assms by (metis append_same_eq same_append_eq list.inject)
qed

lemma overlap_shares: "overlap a b \<longleftrightarrow> (\<exists>n. answers a n \<and> answers b n)"
proof
  assume "overlap a b"
  then consider "a = b" | "covers a b" | "covers b a" by (auto simp: overlap_def)
  moreover have wild: "\<exists>n. answers h n" for h
    by (cases "has_prefix ''*.'' h") (auto simp: answers_def intro: exI [of _ "''x''"])
  moreover have cov: "\<exists>n. answers w n \<and> answers h n" if "covers w h" for w h
  proof (cases "has_prefix ''*.'' h")
    case True
    have "has_prefix ''*.'' w" using that by (simp add: covers_iff)
    then obtain rw rh where r: "w = ''*.'' @ rw" "h = ''*.'' @ rh" using True unfolding has_prefix_iff by blast
    have "answers w h" using that by (simp add: covers_iff)
    then obtain l where l: "h = l @ CHR ''.'' # rw" "CHR ''.'' \<notin> set l" unfolding r(1) answers_wild by blast
    have "''*'' = l \<and> rh = rw" using l r(2) by (intro label_unique) auto
    then show ?thesis using r wild by auto
  next
    case False
    then show ?thesis using that by (auto simp: covers_iff answers_def)
  qed
  ultimately show "\<exists>n. answers a n \<and> answers b n" by cases blast+
next
  assume "\<exists>n. answers a n \<and> answers b n"
  then obtain n where n: "answers a n" "answers b n" by blast
  show "overlap a b"
  proof (cases "has_prefix ''*.'' a \<and> has_prefix ''*.'' b")
    case True
    then obtain ra rb where r: "a = ''*.'' @ ra" "b = ''*.'' @ rb" by (auto simp: has_prefix_iff)
    obtain la where "n = la @ CHR ''.'' # ra" "CHR ''.'' \<notin> set la" using n(1) unfolding r(1) answers_wild by blast
    moreover obtain lb where "n = lb @ CHR ''.'' # rb" "CHR ''.'' \<notin> set lb" using n(2) unfolding r(2) answers_wild by blast
    ultimately have "ra = rb" using label_unique by metis
    then show ?thesis using r by (simp add: overlap_def)
  next
    case False
    then show ?thesis using n by (auto simp: overlap_def covers_iff answers_def)
  qed
qed

section \<open>Properties\<close>

text \<open>The operations on the table, in any order and with any arguments.\<close>

inductive routed :: "route list \<Rightarrow> bool" where
  no_routes: "routed []"
| route_created: "routed rows \<Longrightarrow> route_Create e rows s taken tlsOn dns01 = (rows', r, er) \<Longrightarrow> routed rows'"
| route_deleted: "routed rows \<Longrightarrow> route_Delete e rows i = (rows', er) \<Longrightarrow> routed rows'"

definition apart :: "route list \<Rightarrow> bool" where
  "apart rows \<longleftrightarrow> distinct rows \<and> (\<forall>r \<in> set rows. \<forall>r' \<in> set rows. overlap (ro_Host r) (ro_Host r') \<longrightarrow> r = r')"

lemma overlap_sym: "overlap a b \<longleftrightarrow> overlap b a"
  by (auto simp: overlap_def)

lemma route_Create_cases:
  assumes "route_Create e rows s taken tlsOn dns01 = (rows', r, er)"
  shows "rows' = rows \<and> er \<noteq> None \<or> rows' = rows @ [r] \<and> er = None \<and> route_Check e s tlsOn dns01 = (r, None)
     \<and> (\<forall>m \<in> set rows. \<not> overlap (ro_Host r) (ro_Host m)) \<and> \<not> slicesOverlap (rn_lower e) (ro_Host r) taken"
proof (cases "route_Check e s tlsOn dns01")
  case (Pair r0 er0)
  show ?thesis
  proof (cases "er0 = None \<and> \<not> slicesOverlap (rn_lower e) (ro_Host r0) taken \<and> rn_list e = None
      \<and> find (\<lambda>m. overlap (ro_Host r0) (ro_Host m)) rows = None \<and> rn_write e = None")
    case True
    then have "\<forall>m \<in> set rows. \<not> overlap (ro_Host r0) (ro_Host m)" by (simp add: find_None_iff)
    then show ?thesis using assms Pair True by (auto simp: route_Create_def routes_Create_def split: if_splits)
  next
    case False
    then show ?thesis using assms Pair by (cases er0; cases "rn_list e"; cases "rn_write e") (auto simp: route_Create_def routes_Create_def split: if_splits option.splits dest: sym)
  qed
qed

lemma routed_apart: "routed rows \<Longrightarrow> apart rows"
proof (induction rule: routed.induct)
  case no_routes
  then show ?case by (simp add: apart_def)
next
  case (route_created rows e s taken tlsOn dns01 rows' r er)
  have "overlap (ro_Host r) (ro_Host r)" by (simp add: overlap_def)
  then show ?case using route_created.IH route_Create_cases [OF route_created.hyps(2)] overlap_sym unfolding apart_def by auto
next
  case (route_deleted rows e i rows' er)
  then show ?case by (auto simp: apart_def route_Delete_def split: option.splits if_splits)
qed

text \<open>
  C8: Every name has one route at most. Whatever routes are created and deleted, no two rows of the table answer the
  same host name, a wildcard answering one label in front of its domain as the proxy's matchers do; and a
  route is only created when no name it answers belongs to a taken tile domain or domain resource.
\<close>

theorem a_name_has_one_route:
  assumes "routed rows"
  shows "(\<forall>r \<in> set rows. \<forall>r' \<in> set rows. \<forall>n. answers (ro_Host r) n \<and> answers (ro_Host r') n \<longrightarrow> r = r')
    \<and> (\<forall>e s taken tlsOn dns01 rows' r h n. route_Create e rows s taken tlsOn dns01 = (rows', r, None) \<and> h \<in> set taken
          \<and> answers (ro_Host r) n \<longrightarrow> \<not> answers (to_lower (rn_lower e) h) n)"
proof (intro conjI ballI allI impI)
  show "r = r'" if "r \<in> set rows" "r' \<in> set rows" "answers (ro_Host r) n \<and> answers (ro_Host r') n" for r r' n
    using that routed_apart [OF assms] overlap_shares unfolding apart_def by blast
  show "\<not> answers (to_lower (rn_lower e) h) n"
    if "route_Create e rows s taken tlsOn dns01 = (rows', r, None) \<and> h \<in> set taken \<and> answers (ro_Host r) n" for e s taken tlsOn dns01 rows' r h n
    using that route_Create_cases [of e rows s taken tlsOn dns01 rows' r None] overlap_shares unfolding slicesOverlap_def overlapApex_def by blast
qed

definition ex_rnv :: "string \<Rightarrow> route_env" where
  "ex_rnv i = \<lparr>rn_uuid = i, rn_now = 0, rn_text = \<lambda>e. [], rn_lower = \<lambda>s. s, rn_upper = \<lambda>s. s, rn_list = None, rn_write = None\<rparr>"

definition ex_spec :: "string \<Rightarrow> route_spec" where
  "ex_spec h = \<lparr>rs_Host = h, rs_Mode = ''passthrough'', rs_Target = ''10.0.0.9'', rs_Insecure = False\<rparr>"

definition ex_routes :: "route list" where
  "ex_routes = fst (route_Create (ex_rnv ''r2'') (fst (route_Create (ex_rnv ''r1'') [] (ex_spec ''*.fyrm.io'') [] True False)) (ex_spec ''fyrm.io'') [] True False)"

theorem a_name_has_one_route_witness:
  "map ro_Host ex_routes = [''*.fyrm.io'', ''fyrm.io''] \<and> answers (ro_Host (ex_routes ! 0)) ''a.fyrm.io'' \<and> \<not> answers (ro_Host (ex_routes ! 1)) ''a.fyrm.io''"
proof -
  have h: "map ro_Host ex_routes = [''*.fyrm.io'', ''fyrm.io'']" by code_simp
  have create: "routed (fst (route_Create e rows s taken tlsOn dns01))" if "routed rows" for e rows s taken tlsOn dns01
  proof -
    obtain rows' r er where c: "route_Create e rows s taken tlsOn dns01 = (rows', r, er)" by (metis prod.exhaust)
    show ?thesis using route_created [OF that c] c by simp
  qed
  have "routed ex_routes" unfolding ex_routes_def by (intro create no_routes)
  note one = a_name_has_one_route [OF this]
  obtain r r' where rs: "ex_routes = [r, r']" "ro_Host r = ''*.fyrm.io''" "ro_Host r' = ''fyrm.io''" using h by (auto simp: map_eq_Cons_conv)
  have "answers ''*.fyrm.io'' ''a.fyrm.io''" by (simp add: answers_def has_prefix_def)
  then have a: "answers (ro_Host r) ''a.fyrm.io''" by (simp only: rs(2))
  have "r \<noteq> r'" using rs(2,3) by auto
  moreover have "r \<in> set ex_routes" "r' \<in> set ex_routes" unfolding rs(1) by simp_all
  ultimately have "\<not> answers (ro_Host r') ''a.fyrm.io''" using one a by blast
  moreover have "ex_routes ! 0 = r" "ex_routes ! 1 = r'" unfolding rs(1) by simp_all
  ultimately show ?thesis using h a by simp
qed

text \<open>What a stored target can hold.\<close>

lemma atoi_chars: "atoi s = Some n \<Longrightarrow> c \<in> set s \<Longrightarrow> is_digit c \<or> c = CHR ''+'' \<or> c = CHR ''-''"
  by (cases s) (auto simp: atoi_def Let_def has_prefix_def list_all_iff split: if_splits)

text \<open>
  The target a route stores is a plain host and port: it holds none of the characters that the proxy would
  expand or read as a URL (braces, slash, space, at sign, question mark, hash), and its port is a number from 1
  to 65535. Every refused field is reported at once, and nothing is stored then.
\<close>

theorem route_target_is_plain:
  assumes "route_Check e s tlsOn dns01 = (r, None)"
  shows "(\<forall>c \<in> set ''/ @?#{}''. c \<notin> set (ro_Target r))
    \<and> (\<exists>h port n. ro_Target r = JoinHostPort h port \<and> h \<noteq> [] \<and> atoi port = Some n \<and> 1 \<le> n \<and> n \<le> 65535)"
proof -
  obtain t where t: "checkTarget (rs_Target s) (rs_Mode s) = Inr t" "ro_Target r = t"
    using assms by (auto simp: route_Check_def Let_def simp del: map_append split: sum.splits)
  define dflt where "dflt = (if rs_Mode s = HTTP then ''80'' else ''443'')"
  define q where "q = (case SplitHostPort (trim_space (rs_Target s)) of None \<Rightarrow> (trim_set ''[]'' (trim_space (rs_Target s)), dflt)
      | Some (h, p) \<Rightarrow> (h, if p \<noteq> [] then p else dflt))"
  obtain h port where hp: "q = (h, port)" by (cases q)
  have if_Inr: "(if A then Inl x else if B then Inl y else Inr z) = Inr t \<Longrightarrow> \<not> A \<and> \<not> B \<and> t = z" for A B x y z
    by (auto split: if_splits)
  have "\<not> (case atoi port of None \<Rightarrow> True | Some n \<Rightarrow> n < 1 \<or> n > 65535)"
    "\<not> (h = [] \<or> (\<exists>c \<in> set h. c \<in> set ''/ @?#{}'') \<or> contains_str ''://'' h)" "t = JoinHostPort h port"
    using if_Inr [OF t(1) [unfolded checkTarget_def Let_def dflt_def [symmetric] q_def [symmetric] hp prod.case]] by blast+
  then obtain n where j: "t = JoinHostPort h port" "h \<noteq> []" "\<forall>c \<in> set h. c \<notin> set ''/ @?#{}''" "atoi port = Some n" "1 \<le> n" "n \<le> 65535"
    by (cases "atoi port") auto
  have "c \<notin> set port" if "c \<in> set ''/ @?#{}''" for c
    using atoi_chars [OF j(4), of c] that by (auto simp: is_digit_def less_eq_char_def)
  then have "\<forall>c \<in> set ''/ @?#{}''. c \<notin> set t" using j(3) unfolding j(1) JoinHostPort_def by (auto split: if_splits)
  then show ?thesis using t(2) j by blast
qed

theorem route_target_is_plain_witness:
  "ro_Target (fst (route_Check (ex_rnv ''r1'') (ex_spec ''fyrm.io'') True False)) = ''10.0.0.9:443''
   \<and> CHR 0x7B \<notin> set (ro_Target (fst (route_Check (ex_rnv ''r1'') (ex_spec ''fyrm.io'') True False)))"
proof
  show "ro_Target (fst (route_Check (ex_rnv ''r1'') (ex_spec ''fyrm.io'') True False)) = ''10.0.0.9:443''" by code_simp
  have "snd (route_Check (ex_rnv ''r1'') (ex_spec ''fyrm.io'') True False) = None" by code_simp
  then have "route_Check (ex_rnv ''r1'') (ex_spec ''fyrm.io'') True False = (fst (route_Check (ex_rnv ''r1'') (ex_spec ''fyrm.io'') True False), None)"
    by (metis prod.collapse)
  from route_target_is_plain [OF this] show "CHR 0x7B \<notin> set (ro_Target (fst (route_Check (ex_rnv ''r1'') (ex_spec ''fyrm.io'') True False)))" by simp
qed

end
