(* ===== verification/Tier.thy ===== *)
theory Tier
  imports Errs Slug Data_Refinement "HOL-Library.Product_Lexorder" "HOL-Library.Multiset"
begin

text \<open>
  \<^verbatim>\<open>internal/service/internal/leaf/tier/tier.go\<close> with its table \<^verbatim>\<open>store/tiers.go\<close>: an org's ladder of env names.  A row has a position, and the
  ladder is the rows by position.  The environment says which reads and writes fail and gives ids
  and times; a reorder runs in a transaction (\<^verbatim>\<open>service/tiers.go\<close>), so it happens or not.

  Shown: the rows of an org implement a list of distinct names, on which creating appends, renaming and
  deleting act in place and reordering replaces the whole order.
\<close>

section \<open>Model\<close>

record tier =
  ti_ID :: string
  ti_OrgID :: string
  ti_Slug :: string
  ti_Position :: int
  ti_Locked :: bool
  ti_CreatedAt :: int

record tier_env =
  te_read :: error
  te_write :: error
  te_uuid :: string
  te_now :: int

definition PRslug :: string where
  "PRslug = ''pr''"

definition tiers_Get :: "tier_env \<Rightarrow> tier list \<Rightarrow> string \<Rightarrow> err + tier" where
  "tiers_Get e rows i = (case te_read e of Some x \<Rightarrow> Inl x
     | None \<Rightarrow> (case find (\<lambda>t. ti_ID t = i) rows of None \<Rightarrow> Inl ErrNotFound | Some t \<Rightarrow> Inr t))"

definition tiers_GetBySlug :: "tier_env \<Rightarrow> tier list \<Rightarrow> string \<Rightarrow> string \<Rightarrow> err + tier" where
  "tiers_GetBySlug e rows org sl = (case te_read e of Some x \<Rightarrow> Inl x
     | None \<Rightarrow> (case find (\<lambda>t. ti_OrgID t = org \<and> ti_Slug t = sl) rows of None \<Rightarrow> Inl ErrNotFound | Some t \<Rightarrow> Inr t))"

definition by_position :: "tier list \<Rightarrow> string \<Rightarrow> tier list" where
  "by_position rows org = sort_key (\<lambda>t. (ti_Position t, ti_Slug t)) (filter (\<lambda>t. ti_OrgID t = org) rows)"

definition tiers_ListByOrg :: "tier_env \<Rightarrow> tier list \<Rightarrow> string \<Rightarrow> err + tier list" where
  "tiers_ListByOrg e rows org = (case te_read e of Some x \<Rightarrow> Inl x | None \<Rightarrow> Inr (by_position rows org))"

definition already_exists :: err where
  "already_exists = Wrap (''%w: %v'', []) (Conflictf ''already exists'' [])"

definition tiers_Create :: "tier_env \<Rightarrow> tier list \<Rightarrow> tier \<Rightarrow> tier list \<times> error" where
  "tiers_Create e rows t = (case te_write e of Some x \<Rightarrow> (rows, Some x)
     | None \<Rightarrow> if \<exists>r \<in> set rows. ti_ID r = ti_ID t \<or> ti_OrgID r = ti_OrgID t \<and> ti_Slug r = ti_Slug t
               then (rows, Some already_exists) else (rows @ [t], None))"

definition tiers_Update :: "tier_env \<Rightarrow> tier list \<Rightarrow> tier \<Rightarrow> tier list \<times> error" where
  "tiers_Update e rows t = (case te_write e of Some x \<Rightarrow> (rows, Some x)
     | None \<Rightarrow> if \<forall>r \<in> set rows. ti_ID r \<noteq> ti_ID t then (rows, Some ErrNotFound)
               else if \<exists>r \<in> set rows. ti_ID r \<noteq> ti_ID t \<and> ti_OrgID r = ti_OrgID t \<and> ti_Slug r = ti_Slug t then (rows, Some already_exists)
               else (map (\<lambda>r. if ti_ID r = ti_ID t then t else r) rows, None))"

definition tiers_Delete :: "tier_env \<Rightarrow> tier list \<Rightarrow> string \<Rightarrow> tier list \<times> error" where
  "tiers_Delete e rows i = (case te_write e of Some x \<Rightarrow> (rows, Some x)
     | None \<Rightarrow> if \<exists>r \<in> set rows. ti_ID r = i then (filter (\<lambda>r. ti_ID r \<noteq> i) rows, None) else (rows, Some ErrNotFound))"

text \<open>Each id gets its index as position; an id with no row fails the whole transaction.\<close>

definition tiers_Reorder :: "tier_env \<Rightarrow> tier list \<Rightarrow> string list \<Rightarrow> tier list \<times> error" where
  "tiers_Reorder e rows ids = (case te_write e of Some x \<Rightarrow> (rows, Some x)
     | None \<Rightarrow> if \<exists>i \<in> set ids. \<forall>r \<in> set rows. ti_ID r \<noteq> i then (rows, Some ErrNotFound)
               else (fold (\<lambda>(i, n) rs. map (\<lambda>r. if ti_ID r = i then r\<lparr>ti_Position := int n\<rparr> else r) rs) (zip ids [0..<length ids]) rows, None))"

definition tier_Reserved :: "string \<Rightarrow> bool" where
  "tier_Reserved sl \<longleftrightarrow> sl = PRslug \<or> sl = ''order'' \<or> Reserved sl"

definition tier_check :: "tier_env \<Rightarrow> tier list \<Rightarrow> tier \<Rightarrow> string \<Rightarrow> err + tier" where
  "tier_check e rows t sl =
     (if \<not> Valid sl then Inl (Invalidf ''slug'' ''%q is not a valid tier name.'' [sl])
      else if tier_Reserved sl then Inl (Invalidf ''slug'' ''%q is reserved.'' [sl])
      else case tiers_GetBySlug e rows (ti_OrgID t) sl of
        Inr other \<Rightarrow> if ti_ID other \<noteq> ti_ID t then Inl (Invalidf ''slug'' ''Another tier already uses that name.'' []) else Inr (t\<lparr>ti_Slug := sl\<rparr>)
      | Inl er \<Rightarrow> if \<not> is_not_found er then Inl er else Inr (t\<lparr>ti_Slug := sl\<rparr>))"

definition tier_Create :: "tier_env \<Rightarrow> tier list \<Rightarrow> string \<Rightarrow> string \<Rightarrow> tier list \<times> tier \<times> error" where
  "tier_Create e rows org sl =
     (let t = \<lparr>ti_ID = te_uuid e, ti_OrgID = org, ti_Slug = [], ti_Position = 0, ti_Locked = True, ti_CreatedAt = te_now e\<rparr>
      in case tier_check e rows t sl of
        Inl er \<Rightarrow> (rows, t, Some er)
      | Inr t1 \<Rightarrow> (case tiers_ListByOrg e rows org of
          Inl er \<Rightarrow> (rows, t1, Some er)
        | Inr ts \<Rightarrow> let t2 = (if ts \<noteq> [] then t1\<lparr>ti_Position := ti_Position (last ts) + 1\<rparr> else t1);
                        (rows', er) = tiers_Create e rows t2 in (rows', t2, er)))"

definition tier_Rename :: "tier_env \<Rightarrow> tier list \<Rightarrow> tier \<Rightarrow> string \<Rightarrow> tier list \<times> tier \<times> error" where
  "tier_Rename e rows t sl = (case tier_check e rows t sl of
     Inl er \<Rightarrow> (rows, t, Some er)
   | Inr t1 \<Rightarrow> let (rows', er) = tiers_Update e rows t1 in (rows', t1, er))"

definition tier_SetLocked :: "tier_env \<Rightarrow> tier list \<Rightarrow> tier \<Rightarrow> bool \<Rightarrow> tier list \<times> tier \<times> error" where
  "tier_SetLocked e rows t locked = (let t1 = t\<lparr>ti_Locked := locked\<rparr>; (rows', er) = tiers_Update e rows t1 in (rows', t1, er))"

text \<open>The loop of \<^verbatim>\<open>Reorder\<close>: \<open>byslug\<close> is the map the code builds (a later tier wins), \<open>None\<close> the refusal.\<close>

fun reorder_ids :: "(string \<rightharpoonup> string) \<Rightarrow> string list \<Rightarrow> string list \<Rightarrow> string list option" where
  "reorder_ids byslug ids [] = Some ids"
| "reorder_ids byslug ids (s # ss) = (case byslug s of
     None \<Rightarrow> None
   | Some i \<Rightarrow> if i \<in> set ids then None else reorder_ids byslug (ids @ [i]) ss)"

definition tier_Reorder :: "tier_env \<Rightarrow> tier list \<Rightarrow> string \<Rightarrow> string list \<Rightarrow> tier list \<times> error" where
  "tier_Reorder e rows org slugs = (case tiers_ListByOrg e rows org of
     Inl er \<Rightarrow> (rows, Some er)
   | Inr ts \<Rightarrow>
     let bad = (rows, Some (Invalidf ''order'' ''Name each tier once, and only the org's tiers.'' []));
         byslug = fold (\<lambda>t m. m(ti_Slug t \<mapsto> ti_ID t)) ts Map.empty
     in case reorder_ids byslug [] slugs of
       None \<Rightarrow> bad
     | Some ids \<Rightarrow> if length ids \<noteq> length ts then bad else tiers_Reorder e rows ids)"

section \<open>Lemmas: rows by position\<close>

definition tiers_inv :: "tier list \<Rightarrow> bool" where
  "tiers_inv rows \<longleftrightarrow> distinct (map ti_ID rows) \<and> distinct (map (\<lambda>t. (ti_OrgID t, ti_Slug t)) rows)
     \<and> distinct (map (\<lambda>t. (ti_OrgID t, ti_Position t)) rows) \<and> (\<forall>t \<in> set rows. Valid (ti_Slug t) \<and> \<not> tier_Reserved (ti_Slug t))"

definition ladder :: "tier list \<Rightarrow> string \<Rightarrow> string list" where
  "ladder rows org = map ti_Slug (by_position rows org)"

text \<open>A list of tiers with growing positions is its own order.\<close>

lemma by_position_eq:
  assumes "mset ys = mset (filter (\<lambda>t. ti_OrgID t = org) rows)" "sorted_wrt (<) (map ti_Position ys)"
  shows "by_position rows org = ys"
  unfolding by_position_def
proof (rule sort_key_inj_key_eq)
  show "mset (filter (\<lambda>t. ti_OrgID t = org) rows) = mset ys" using assms(1) by simp
  have "set (filter (\<lambda>t. ti_OrgID t = org) rows) = set ys" using assms(1) by (metis mset_eq_setD)
  moreover have "distinct (map ti_Position ys)" using assms(2) strict_sorted_iff by blast
  ultimately show "inj_on (\<lambda>t. (ti_Position t, ti_Slug t)) (set (filter (\<lambda>t. ti_OrgID t = org) rows))"
    by (auto simp: distinct_map inj_on_def)
  show "sorted (map (\<lambda>t. (ti_Position t, ti_Slug t)) ys)"
    using assms(2) by (auto simp: sorted_wrt_map less_eq_prod_def elim!: sorted_wrt_mono_rel [rotated])
qed

lemma by_position_sorted:
  assumes "tiers_inv rows"
  shows "mset (by_position rows org) = mset (filter (\<lambda>t. ti_OrgID t = org) rows)" "sorted_wrt (<) (map ti_Position (by_position rows org))"
proof -
  let ?o = "filter (\<lambda>t. ti_OrgID t = org) rows"
  show m: "mset (by_position rows org) = mset ?o" by (simp add: by_position_def)
  have "distinct (map ti_Position ?o)" using assms by (auto simp: tiers_inv_def distinct_map inj_on_def)
  moreover have "mset (map ti_Position (by_position rows org)) = mset (map ti_Position ?o)" unfolding mset_map m ..
  ultimately have "distinct (map ti_Position (by_position rows org))" by (metis mset_eq_imp_distinct_iff)
  moreover have "sorted (map fst (map (\<lambda>t. (ti_Position t, ti_Slug t)) (by_position rows org)))"
    unfolding by_position_def by (rule sorted_map_mono [OF sorted_sort_key]) (auto simp: mono_on_def less_eq_prod_def)
  ultimately show "sorted_wrt (<) (map ti_Position (by_position rows org))" by (simp add: strict_sorted_iff comp_def)
qed

lemma set_by_position [simp]: "set (by_position rows org) = {t \<in> set rows. ti_OrgID t = org}"
  by (auto simp: by_position_def)

lemma by_position_map:
  assumes "tiers_inv rows" "\<And>t. t \<in> set rows \<Longrightarrow> ti_OrgID (g t) = ti_OrgID t \<and> ti_Position (g t) = ti_Position t"
  shows "by_position (map g rows) org = map g (by_position rows org)"
proof (rule by_position_eq)
  note s = by_position_sorted [OF assms(1), of org]
  have "filter (\<lambda>t. ti_OrgID t = org) (map g rows) = map g (filter (\<lambda>t. ti_OrgID t = org) rows)"
    unfolding filter_map by (rule arg_cong [of _ _ "map g"], rule filter_cong) (use assms(2) in simp_all)
  then show "mset (map g (by_position rows org)) = mset (filter (\<lambda>t. ti_OrgID t = org) (map g rows))" unfolding mset_map s(1) by (metis mset_map)
  have "map ti_Position (map g (by_position rows org)) = map ti_Position (by_position rows org)" using assms(2) by simp
  then show "sorted_wrt (<) (map ti_Position (map g (by_position rows org)))" using s(2) by metis
qed

lemma by_position_filter: "by_position (filter P rows) org = filter P (by_position rows org)"
  unfolding by_position_def by (simp add: filter_sort conj_commute)

lemma by_position_append:
  assumes "tiers_inv rows" "ti_OrgID t = org" "\<And>r. r \<in> set rows \<Longrightarrow> ti_OrgID r = org \<Longrightarrow> ti_Position r < ti_Position t"
  shows "by_position (rows @ [t]) org = by_position rows org @ [t]"
  by (rule by_position_eq) (use by_position_sorted [OF assms(1), of org] assms(2,3) in \<open>auto simp: sorted_wrt_append\<close>)

lemma by_position_other: "ti_OrgID t \<noteq> org \<Longrightarrow> by_position (rows @ [t]) org = by_position rows org"
  by (simp add: by_position_def)

lemma sorted_last: "sorted_wrt (<) (map f xs) \<Longrightarrow> x \<in> set xs \<Longrightarrow> f x \<le> (f (last xs) :: int)"
  by (cases xs rule: rev_cases) (auto simp: sorted_wrt_append)

lemma by_position_last:
  assumes "tiers_inv rows" "r \<in> set rows" "ti_OrgID r = org"
  shows "ti_Position r \<le> ti_Position (last (by_position rows org))"
  by (rule sorted_last [OF by_position_sorted(2) [OF assms(1)]]) (use assms(2,3) in simp)

lemma ladder_distinct:
  assumes "tiers_inv rows"
  shows "distinct (ladder rows org)" "set (ladder rows org) = ti_Slug ` {t \<in> set rows. ti_OrgID t = org}"
    "sl \<in> set (ladder rows org) \<Longrightarrow> Valid sl \<and> \<not> tier_Reserved sl"
proof -
  have "distinct (filter (\<lambda>t. ti_OrgID t = org) rows)" using assms by (simp add: tiers_inv_def distinct_map)
  then have "distinct (by_position rows org)" by (simp add: by_position_def)
  then show "distinct (ladder rows org)" using assms by (auto simp: ladder_def distinct_map tiers_inv_def inj_on_def)
  show "set (ladder rows org) = ti_Slug ` {t \<in> set rows. ti_OrgID t = org}" by (simp add: ladder_def)
  then show "sl \<in> set (ladder rows org) \<Longrightarrow> Valid sl \<and> \<not> tier_Reserved sl" using assms by (auto simp: tiers_inv_def)
qed

section \<open>Refinement: an org's tiers are a list of names\<close>

datatype tier_op =
    OpCreate tier_env string string
  | OpRename tier_env string string string
  | OpLock tier_env string string bool
  | OpDelete tier_env string string
  | OpReorder tier_env string "string list"

text \<open>A tier to rename, lock or delete is named by its org and slug, as the service does.\<close>

fun tier_run :: "tier_op \<Rightarrow> tier list \<Rightarrow> tier list \<times> bool" where
  "tier_run (OpCreate e org sl) rows = (let (rows', t, er) = tier_Create e rows org sl in (rows', er = None))"
| "tier_run (OpRename e org old sl) rows = (case tiers_GetBySlug e rows org old of Inl _ \<Rightarrow> (rows, False)
     | Inr t \<Rightarrow> let (rows', t', er) = tier_Rename e rows t sl in (rows', er = None))"
| "tier_run (OpLock e org sl b) rows = (case tiers_GetBySlug e rows org sl of Inl _ \<Rightarrow> (rows, False)
     | Inr t \<Rightarrow> let (rows', t', er) = tier_SetLocked e rows t b in (rows', er = None))"
| "tier_run (OpDelete e org sl) rows = (case tiers_GetBySlug e rows org sl of Inl _ \<Rightarrow> (rows, False)
     | Inr t \<Rightarrow> let (rows', er) = tiers_Delete e rows (ti_ID t) in (rows', er = None))"
| "tier_run (OpReorder e org slugs) rows = (let (rows', er) = tier_Reorder e rows org slugs in (rows', er = None))"

fun tier_spec :: "tier_op \<Rightarrow> (string \<Rightarrow> string list) \<Rightarrow> string \<Rightarrow> string list" where
  "tier_spec (OpCreate e org sl) L = L(org := L org @ [sl])"
| "tier_spec (OpRename e org old sl) L = L(org := map (\<lambda>s. if s = old then sl else s) (L org))"
| "tier_spec (OpLock e org sl b) L = L"
| "tier_spec (OpDelete e org sl) L = L(org := removeAll sl (L org))"
| "tier_spec (OpReorder e org slugs) L = L(org := slugs)"

definition refines :: "tier list \<Rightarrow> tier list \<times> bool \<Rightarrow> ((string \<Rightarrow> string list) \<Rightarrow> string \<Rightarrow> string list) \<Rightarrow> bool" where
  "refines rows res f \<longleftrightarrow> tiers_inv (fst res) \<and> ladder (fst res) = (if snd res then f (ladder rows) else ladder rows)"

lemma refines_fail: "tiers_inv rows \<Longrightarrow> refines rows (rows, False) f"
  by (simp add: refines_def)

lemma found_tier: "tiers_GetBySlug e rows org sl = Inr t \<Longrightarrow> t \<in> set rows \<and> ti_OrgID t = org \<and> ti_Slug t = sl"
  by (auto simp: tiers_GetBySlug_def find_Some_iff split: option.splits dest: nth_mem)

lemma check_ok:
  assumes "tier_check e rows t sl = Inr t1"
  shows "t1 = t\<lparr>ti_Slug := sl\<rparr> \<and> Valid sl \<and> \<not> tier_Reserved sl"
  using assms by (auto simp: tier_check_def split: sum.splits if_splits)

lemma create_refines:
  assumes i: "tiers_inv rows"
  shows "refines rows (tier_run (OpCreate e org sl) rows) (tier_spec (OpCreate e org sl))"
proof (cases "tier_check e rows \<lparr>ti_ID = te_uuid e, ti_OrgID = org, ti_Slug = [], ti_Position = 0, ti_Locked = True, ti_CreatedAt = te_now e\<rparr> sl")
  case (Inl er)
  then show ?thesis using refines_fail [OF i] by (simp add: tier_Create_def)
next
  case (Inr t1)
  define t2 where "t2 = (if by_position rows org \<noteq> [] then t1\<lparr>ti_Position := ti_Position (last (by_position rows org)) + 1\<rparr> else t1)"
  have t1: "ti_OrgID t1 = org" "ti_Slug t1 = sl" "Valid sl" "\<not> tier_Reserved sl" using check_ok [OF Inr] by simp_all
  then have t2: "ti_OrgID t2 = org" "ti_Slug t2 = sl" by (simp_all add: t2_def)
  have pos: "ti_Position r < ti_Position t2" if "r \<in> set rows" "ti_OrgID r = org" for r
  proof -
    have "r \<in> set (by_position rows org)" using that by simp
    then have "by_position rows org \<noteq> []" by (metis empty_iff empty_set)
    then show ?thesis using by_position_last [OF i that] by (simp add: t2_def)
  qed
  show ?thesis
  proof (cases "te_read e = None \<and> te_write e = None \<and> \<not> (\<exists>r \<in> set rows. ti_ID r = ti_ID t2 \<or> ti_OrgID r = ti_OrgID t2 \<and> ti_Slug r = ti_Slug t2)")
    case True
    then have r: "tier_run (OpCreate e org sl) rows = (rows @ [t2], True)"
      using Inr by (simp add: tier_Create_def tiers_ListByOrg_def tiers_Create_def t2_def Let_def)
    have "tiers_inv (rows @ [t2])" using i True t1 t2 pos by (fastforce simp: tiers_inv_def)
    moreover have "ladder (rows @ [t2]) = (ladder rows)(org := ladder rows org @ [sl])"
      using by_position_append [OF i t2(1) pos] by_position_other [of t2 _ rows] t2 by (auto simp: ladder_def fun_eq_iff)
    ultimately show ?thesis unfolding r by (simp add: refines_def)
  next
    case False
    then have "tier_run (OpCreate e org sl) rows = (rows, False)"
      using Inr by (auto simp: tier_Create_def tiers_ListByOrg_def tiers_Create_def t2_def [symmetric] Let_def split: option.splits)
    then show ?thesis using refines_fail [OF i] by simp
  qed
qed

text \<open>A row rewritten in place: its org and position stay.\<close>

lemma update_refines:
  assumes i: "tiers_inv rows" and t: "t \<in> set rows" "ti_ID t' = ti_ID t" "ti_OrgID t' = ti_OrgID t" "ti_Position t' = ti_Position t"
    and v: "Valid (ti_Slug t') \<and> \<not> tier_Reserved (ti_Slug t')"
    and f: "f (ladder rows) = (ladder rows)(ti_OrgID t := map (\<lambda>s. if s = ti_Slug t then ti_Slug t' else s) (ladder rows (ti_OrgID t)))"
  shows "refines rows (let (rows', er) = tiers_Update e rows t' in (rows', er = None)) f"
proof (cases "te_write e = None \<and> \<not> (\<exists>r \<in> set rows. ti_ID r \<noteq> ti_ID t' \<and> ti_OrgID r = ti_OrgID t' \<and> ti_Slug r = ti_Slug t')")
  case True
  let ?up = "\<lambda>r. if ti_ID r = ti_ID t' then t' else r"
  have u: "tiers_Update e rows t' = (map ?up rows, None)" using True t(1,2) by (auto simp: tiers_Update_def)
  have one: "r = t" if "r \<in> set rows" "ti_ID r = ti_ID t'" for r
    using that i t(1,2) by (auto simp: tiers_inv_def distinct_map inj_on_def)
  have keep: "ti_OrgID (?up r) = ti_OrgID r \<and> ti_Position (?up r) = ti_Position r" if "r \<in> set rows" for r using that one t by auto
  have m: "map ti_ID (map ?up rows) = map ti_ID rows" "map (\<lambda>r. (ti_OrgID r, ti_Position r)) (map ?up rows) = map (\<lambda>r. (ti_OrgID r, ti_Position r)) rows"
    using keep by simp_all
  have "distinct rows" using i by (simp add: tiers_inv_def distinct_map)
  have "inj_on (\<lambda>r. (ti_OrgID (?up r), ti_Slug (?up r))) (set rows)"
  proof (rule inj_onI)
    fix r r' assume r: "r \<in> set rows" "r' \<in> set rows" "(ti_OrgID (?up r), ti_Slug (?up r)) = (ti_OrgID (?up r'), ti_Slug (?up r'))"
    show "r = r'"
    proof (cases "ti_ID r = ti_ID t' \<or> ti_ID r' = ti_ID t'")
      case id: True
      then show ?thesis using r one True by (auto split: if_splits)
    next
      case False
      then show ?thesis using r i by (auto simp: tiers_inv_def distinct_map inj_on_def)
    qed
  qed
  then have "distinct (map (\<lambda>r. (ti_OrgID r, ti_Slug r)) (map ?up rows))" using \<open>distinct rows\<close> by (simp add: distinct_map comp_def)
  moreover have "\<forall>r \<in> set (map ?up rows). Valid (ti_Slug r) \<and> \<not> tier_Reserved (ti_Slug r)" using i v by (auto simp: tiers_inv_def)
  ultimately have inv: "tiers_inv (map ?up rows)" using i unfolding tiers_inv_def m by blast
  have "ladder (map ?up rows) org = ((ladder rows)(ti_OrgID t := map (\<lambda>s. if s = ti_Slug t then ti_Slug t' else s) (ladder rows (ti_OrgID t)))) org" for org
  proof -
    have p: "by_position (map ?up rows) org = map ?up (by_position rows org)" by (rule by_position_map [OF i keep])
    have "ti_Slug (?up r) = (if ti_OrgID t = org \<and> ti_Slug r = ti_Slug t then ti_Slug t' else ti_Slug r)" if r: "r \<in> set (by_position rows org)" for r
    proof -
      have "r = t" if "ti_OrgID t = org" "ti_Slug r = ti_Slug t"
        using that r t(1) i unfolding tiers_inv_def distinct_map inj_on_def by auto
      then show ?thesis using r one t(2) by auto
    qed
    then show ?thesis unfolding ladder_def p by (auto simp: comp_def intro!: map_cong)
  qed
  then show ?thesis using u inv f by (auto simp: refines_def)
next
  case False
  then have "tiers_Update e rows t' = (rows, snd (tiers_Update e rows t'))" "snd (tiers_Update e rows t') \<noteq> None"
    by (auto simp: tiers_Update_def split: option.splits)
  then show ?thesis using refines_fail [OF i] by (metis (mono_tags, lifting) case_prod_conv)
qed

lemma rename_refines:
  assumes i: "tiers_inv rows"
  shows "refines rows (tier_run (OpRename e org old sl) rows) (tier_spec (OpRename e org old sl))"
proof (cases "tiers_GetBySlug e rows org old")
  case (Inl x)
  then show ?thesis using refines_fail [OF i] by simp
next
  case (Inr t)
  note t = found_tier [OF Inr]
  show ?thesis
  proof (cases "tier_check e rows t sl")
    case (Inl x)
    then show ?thesis using refines_fail [OF i] Inr by (simp add: tier_Rename_def)
  next
    case c: (Inr t1)
    have "tier_run (OpRename e org old sl) rows = (let (rows', er) = tiers_Update e rows t1 in (rows', er = None))"
      using Inr c by (auto simp: tier_Rename_def Let_def split: prod.splits)
    then show ?thesis using check_ok [OF c] t by (simp only:) (rule update_refines [OF i], auto)
  qed
qed

lemma lock_refines:
  assumes i: "tiers_inv rows"
  shows "refines rows (tier_run (OpLock e org sl b) rows) (tier_spec (OpLock e org sl b))"
proof (cases "tiers_GetBySlug e rows org sl")
  case (Inl x)
  then show ?thesis using refines_fail [OF i] by simp
next
  case (Inr t)
  note t = found_tier [OF Inr]
  have r: "tier_run (OpLock e org sl b) rows = (let (rows', er) = tiers_Update e rows (t\<lparr>ti_Locked := b\<rparr>) in (rows', er = None))"
    using Inr by (auto simp: tier_SetLocked_def Let_def split: prod.splits)
  have "map (\<lambda>s. if s = x then x else s) xs = xs" for x :: string and xs by (rule map_idI) simp
  moreover have "ti_Slug (t\<lparr>ti_Locked := b\<rparr>) = ti_Slug t" by simp
  ultimately have "(ladder rows)(ti_OrgID t := map (\<lambda>s. if s = ti_Slug t then ti_Slug (t\<lparr>ti_Locked := b\<rparr>) else s) (ladder rows (ti_OrgID t))) = ladder rows"
    by (simp only: fun_upd_triv)
  then have f: "tier_spec (OpLock e org sl b) (ladder rows)
      = (ladder rows)(ti_OrgID t := map (\<lambda>s. if s = ti_Slug t then ti_Slug (t\<lparr>ti_Locked := b\<rparr>) else s) (ladder rows (ti_OrgID t)))"
    by (simp only: tier_spec.simps)
  have "Valid (ti_Slug (t\<lparr>ti_Locked := b\<rparr>)) \<and> \<not> tier_Reserved (ti_Slug (t\<lparr>ti_Locked := b\<rparr>))" using i t by (auto simp: tiers_inv_def)
  then show ?thesis unfolding r using t by (intro update_refines [where t = t, OF i]) (simp_all only: f, simp_all)
qed

lemma delete_refines:
  assumes i: "tiers_inv rows"
  shows "refines rows (tier_run (OpDelete e org sl) rows) (tier_spec (OpDelete e org sl))"
proof (cases "tiers_GetBySlug e rows org sl")
  case (Inl x)
  then show ?thesis using refines_fail [OF i] by simp
next
  case (Inr t)
  note t = found_tier [OF Inr]
  show ?thesis
  proof (cases "te_write e")
    case None
    let ?rows = "filter (\<lambda>r. ti_ID r \<noteq> ti_ID t) rows"
    have r: "tier_run (OpDelete e org sl) rows = (?rows, True)" using Inr None t by (auto simp: tiers_Delete_def)
    have inv: "tiers_inv ?rows" using i by (auto simp: tiers_inv_def distinct_map_filter)
    have "ladder ?rows o' = ((ladder rows)(org := removeAll sl (ladder rows org))) o'" for o'
    proof -
      have "filter (\<lambda>r. ti_ID r \<noteq> ti_ID t) (by_position rows o') = filter (\<lambda>r. \<not> (o' = org \<and> ti_Slug r = sl)) (by_position rows o')"
        using i t by (intro filter_cong) (auto simp: tiers_inv_def distinct_map inj_on_def)
      then show ?thesis unfolding ladder_def by_position_filter
        by (auto simp: removeAll_filter_not_eq filter_map comp_def intro!: arg_cong [of _ _ "map ti_Slug"] filter_cong)
    qed
    then show ?thesis using r inv by (auto simp: refines_def)
  next
    case (Some x)
    then show ?thesis using refines_fail [OF i] Inr by (simp add: tiers_Delete_def)
  qed
qed

subsection \<open>Reorder\<close>

lemma reorder_ids_Some:
  "reorder_ids m acc ss = Some ids \<longleftrightarrow> (\<forall>s \<in> set ss. m s \<noteq> None) \<and> distinct (map (the \<circ> m) ss) \<and> set acc \<inter> (the \<circ> m) ` set ss = {}
     \<and> ids = acc @ map (the \<circ> m) ss"
  by (induction ss arbitrary: acc) (auto split: option.splits)

lemma byslug_map_of: "fold (\<lambda>t m. m(ti_Slug t \<mapsto> ti_ID t)) ts m = m ++ map_of (rev (map (\<lambda>t. (ti_Slug t, ti_ID t)) ts))"
  by (induction ts arbitrary: m) (auto simp: fun_eq_iff map_add_def split: option.splits)

lemma byslug_Some:
  assumes "distinct (map ti_Slug ts)"
  shows "fold (\<lambda>t m. m(ti_Slug t \<mapsto> ti_ID t)) ts Map.empty s = Some i \<longleftrightarrow> (\<exists>t \<in> set ts. ti_Slug t = s \<and> ti_ID t = i)"
proof -
  have "distinct (map fst (rev (map (\<lambda>t. (ti_Slug t, ti_ID t)) ts)))" using assms by (simp add: comp_def rev_map [symmetric])
  then show ?thesis unfolding byslug_map_of by (auto simp: map_of_eq_Some_iff)
qed

text \<open>What the writes of a reorder leave: the tier with the n-th id has position n.\<close>

lemma reposition:
  assumes "distinct ids"
  shows "fold (\<lambda>(i, n) rs. map (\<lambda>r. if ti_ID r = i then r\<lparr>ti_Position := int n\<rparr> else r) rs) (zip ids [k..<k + length ids]) rows
    = map (\<lambda>r. case find_index (\<lambda>i. i = ti_ID r) ids of Some n \<Rightarrow> r\<lparr>ti_Position := int (k + n)\<rparr> | None \<Rightarrow> r) rows"
  using assms
proof (induction ids arbitrary: k rows)
  case (Cons i ids)
  have u: "[k..<k + length (i # ids)] = k # [Suc k..<Suc k + length ids]" by (simp add: upt_rec)
  have "find_index (\<lambda>j. j = i) ids = None" using Cons.prems by (auto simp: find_index_None)
  moreover have "distinct ids" using Cons.prems by simp
  ultimately show ?case unfolding u zip_Cons_Cons fold_simps prod.case Cons.IH [OF \<open>distinct ids\<close>] map_map
    by (intro map_cong) (auto split: option.splits)
qed simp

definition repos :: "string list \<Rightarrow> tier \<Rightarrow> tier" where
  "repos ids r = (case find_index (\<lambda>i. i = ti_ID r) ids of Some n \<Rightarrow> r\<lparr>ti_Position := int n\<rparr> | None \<Rightarrow> r)"

lemma repos_keeps [simp]: "ti_ID (repos ids r) = ti_ID r" "ti_OrgID (repos ids r) = ti_OrgID r" "ti_Slug (repos ids r) = ti_Slug r"
  by (simp_all add: repos_def split: option.splits)

lemma repos_nth: "distinct ids \<Longrightarrow> n < length ids \<Longrightarrow> ti_ID r = ids ! n \<Longrightarrow> ti_Position (repos ids r) = int n"
proof -
  assume d: "distinct ids" and n: "n < length ids" "ti_ID r = ids ! n"
  then have "find_index (\<lambda>i. i = ti_ID r) ids = Some n" by (auto simp: find_index_Some nth_eq_iff_index_eq)
  then show ?thesis by (simp add: repos_def)
qed

lemma repos_other: "ti_ID r \<notin> set ids \<Longrightarrow> repos ids r = r"
proof -
  assume "ti_ID r \<notin> set ids"
  then have "find_index (\<lambda>i. i = ti_ID r) ids = None" by (auto simp: find_index_None)
  then show ?thesis by (simp add: repos_def)
qed

text \<open>The org's tiers in a new order: what repositioning them by their ids gives.\<close>

lemma reposition_order:
  assumes i: "tiers_inv rows" and ts: "distinct ts" "set ts = {t \<in> set rows. ti_OrgID t = org}"
  defines "g \<equiv> repos (map ti_ID ts)"
  shows "tiers_inv (map g rows)" "by_position (map g rows) org = map g ts" "o' \<noteq> org \<Longrightarrow> by_position (map g rows) o' = by_position rows o'"
proof -
  have ids_inj: "r = r'" if "ti_ID r = ti_ID r'" "r \<in> set rows" "r' \<in> set rows" for r r'
    using that i by (auto simp: tiers_inv_def distinct_map inj_on_def)
  then have dids: "distinct (map ti_ID ts)" using ts by (auto simp: distinct_map inj_on_def)
  have pos: "ti_Position (g (ts ! n)) = int n" if "n < length ts" for n using repos_nth [OF dids, of n "ts ! n"] that by (simp add: g_def)
  have other: "g r = r" if "r \<in> set rows" "ti_OrgID r \<noteq> org" for r
    unfolding g_def by (rule repos_other) (use that ts(2) ids_inj in auto)
  have drows: "distinct rows" using i by (simp add: tiers_inv_def distinct_map)
  have "inj_on (\<lambda>r. (ti_OrgID (g r), ti_Position (g r))) (set rows)"
  proof (rule inj_onI)
    fix r r' assume r: "r \<in> set rows" "r' \<in> set rows" "(ti_OrgID (g r), ti_Position (g r)) = (ti_OrgID (g r'), ti_Position (g r'))"
    show "r = r'"
    proof (cases "ti_OrgID r = org")
      case True
      then have "r \<in> set ts" "r' \<in> set ts" using r ts(2) by (simp_all add: g_def)
      then obtain n n' where "n < length ts" "r = ts ! n" "n' < length ts" "r' = ts ! n'" by (metis in_set_conv_nth)
      then show ?thesis using r(3) pos by auto
    next
      case False
      then have "g r = r" "g r' = r'" using r other by (simp_all add: g_def)
      then show ?thesis using r i by (auto simp: tiers_inv_def distinct_map inj_on_def)
    qed
  qed
  then show "tiers_inv (map g rows)" using i drows by (auto simp: tiers_inv_def distinct_map comp_def g_def)
  have gi: "inj_on g (set rows)" using ids_inj by (metis g_def inj_onI repos_keeps(1))
  show "by_position (map g rows) org = map g ts"
  proof (rule by_position_eq)
    have "filter (\<lambda>t. ti_OrgID t = org) (map g rows) = map g (filter (\<lambda>t. ti_OrgID t = org) rows)" by (simp add: filter_map comp_def g_def)
    moreover have "mset ts = mset (filter (\<lambda>t. ti_OrgID t = org) rows)"
      using ts drows by (subst set_eq_iff_mset_eq_distinct [symmetric]) auto
    ultimately show "mset (map g ts) = mset (filter (\<lambda>t. ti_OrgID t = org) (map g rows))" by (metis mset_map)
    have "map ti_Position (map g ts) = map int [0..<length ts]" by (rule nth_equalityI) (simp_all add: pos)
    then show "sorted_wrt (<) (map ti_Position (map g ts))" by (simp add: sorted_wrt_map)
  qed
  show "by_position (map g rows) o' = by_position rows o'" if "o' \<noteq> org"
  proof -
    have "filter (\<lambda>t. ti_OrgID t = o') (map g rows) = map g (filter (\<lambda>t. ti_OrgID t = o') rows)" by (simp add: filter_map comp_def g_def)
    also have "\<dots> = filter (\<lambda>t. ti_OrgID t = o') rows" by (rule map_idI) (use that other in auto)
    finally show ?thesis by (simp only: by_position_def)
  qed
qed

lemma map_permuted: "mset ys = mset (map f xs) \<Longrightarrow> \<exists>xs'. mset xs' = mset xs \<and> map f xs' = ys"
proof (induction ys arbitrary: xs)
  case (Cons y ys)
  have "y \<in> set (map f xs)" using mset_eq_setD [OF Cons.prems] by (metis list.set_intros(1))
  then obtain x where x: "x \<in> set xs" "f x = y" by auto
  have "mset xs = add_mset x (mset (remove1 x xs))" using x(1) by simp
  then have "mset ys = mset (map f (remove1 x xs))" using Cons.prems x(2) by (metis add_mset_add_single add_right_imp_eq image_mset_add_mset mset.simps(2) mset_map)
  from Cons.IH [OF this] obtain xs' where "mset xs' = mset (remove1 x xs)" "map f xs' = ys" by blast
  then show ?case using x by (intro exI [of _ "x # xs'"]) simp
qed simp

lemma tier_Reorder_ok:
  assumes i: "tiers_inv rows" and e: "te_read e = None" "te_write e = None" and p: "mset slugs = mset (ladder rows org)"
  shows "\<exists>rows'. tier_Reorder e rows org slugs = (rows', None) \<and> tiers_inv rows' \<and> ladder rows' = (ladder rows)(org := slugs)"
proof -
  let ?byslug = "fold (\<lambda>t m. m(ti_Slug t \<mapsto> ti_ID t)) (by_position rows org) Map.empty"
  have d: "distinct (map ti_Slug (by_position rows org))" using ladder_distinct(1) [OF i] by (simp add: ladder_def)
  obtain ts where ts: "mset ts = mset (by_position rows org)" "map ti_Slug ts = slugs"
    using p map_permuted unfolding ladder_def by blast
  have sts: "set ts = {t \<in> set rows. ti_OrgID t = org}" using mset_eq_setD [OF ts(1)] by simp
  have dts: "distinct ts" using ts(1) d by (metis distinct_map mset_eq_imp_distinct_iff)
  have id: "?byslug (ti_Slug t) = Some (ti_ID t)" if "t \<in> set ts" for t
    using byslug_Some [OF d] that mset_eq_setD [OF ts(1)] by blast
  have "map (the \<circ> ?byslug) slugs = map ti_ID ts" unfolding ts(2) [symmetric] by (simp add: id)
  moreover have dids: "distinct (map ti_ID ts)" using dts sts i by (auto simp: tiers_inv_def distinct_map inj_on_def)
  ultimately have "reorder_ids ?byslug [] slugs = Some (map ti_ID ts)" using id ts(2) by (auto simp: reorder_ids_Some)
  moreover have "length ts = length (by_position rows org)" using ts(1) by (metis mset_eq_length)
  moreover have "\<forall>i \<in> set (map ti_ID ts). \<exists>r \<in> set rows. ti_ID r = i" using sts by auto
  ultimately have run: "tier_Reorder e rows org slugs = (map (repos (map ti_ID ts)) rows, None)"
    using reposition [OF dids, of 0 rows, unfolded add_0] e
    by (auto simp: tier_Reorder_def tiers_ListByOrg_def tiers_Reorder_def repos_def [abs_def] Let_def)
  note R = reposition_order [OF i dts sts]
  have "ladder (map (repos (map ti_ID ts)) rows) = (ladder rows)(org := slugs)"
    using R(2,3) ts(2) by (auto simp: ladder_def fun_eq_iff comp_def)
  then show ?thesis using run R(1) by blast
qed

lemma tier_Reorder_only:
  assumes i: "tiers_inv rows" and r: "tier_Reorder e rows org slugs = (rows', er)"
  shows "er = None \<and> te_read e = None \<and> te_write e = None \<and> mset slugs = mset (ladder rows org) \<or> er \<noteq> None \<and> rows' = rows"
proof (cases er)
  case None
  let ?byslug = "fold (\<lambda>t m. m(ti_Slug t \<mapsto> ti_ID t)) (by_position rows org) Map.empty"
  have d: "distinct (ladder rows org)" by (rule ladder_distinct(1) [OF i])
  obtain ids where ids: "reorder_ids ?byslug [] slugs = Some ids" "length ids = length (by_position rows org)" "te_read e = None" "te_write e = None"
    using r None by (auto simp: tier_Reorder_def tiers_ListByOrg_def tiers_Reorder_def Let_def split: option.splits if_splits)
  then have s: "\<forall>s \<in> set slugs. ?byslug s \<noteq> None" "distinct (map (the \<circ> ?byslug) slugs)" "length slugs = length (by_position rows org)"
    by (auto simp: reorder_ids_Some)
  have "set slugs \<subseteq> set (ladder rows org)" using s(1) byslug_Some d by (fastforce simp: ladder_def)
  moreover have "distinct slugs" using s(2) by (simp add: distinct_map)
  moreover have "length slugs = length (ladder rows org)" using s(3) by (simp add: ladder_def)
  ultimately have "set slugs = set (ladder rows org)" using d by (metis List.finite_set card_subset_eq distinct_card)
  then show ?thesis using ids None d \<open>distinct slugs\<close> by (simp add: set_eq_iff_mset_eq_distinct)
next
  case (Some x)
  then show ?thesis using r by (auto simp: tier_Reorder_def tiers_ListByOrg_def tiers_Reorder_def Let_def split: option.splits if_splits)
qed

lemma reorder_refines:
  assumes i: "tiers_inv rows"
  shows "refines rows (tier_run (OpReorder e org slugs) rows) (tier_spec (OpReorder e org slugs))"
proof -
  obtain rows' er where r: "tier_Reorder e rows org slugs = (rows', er)" by fastforce
  show ?thesis
  proof (cases er)
    case None
    then show ?thesis using tier_Reorder_only [OF i r] tier_Reorder_ok [OF i, of e slugs org] r by (auto simp: refines_def)
  next
    case (Some x)
    then show ?thesis using tier_Reorder_only [OF i r] r i by (auto simp: refines_def)
  qed
qed

interpretation tiers: refinement tiers_inv ladder "\<lambda>_. True" tier_run tier_spec
proof
  fix rows x assume i: "tiers_inv rows"
  have "refines rows (tier_run x rows) (tier_spec x)"
    by (cases x) (simp_all only: create_refines [OF i] rename_refines [OF i] lock_refines [OF i] delete_refines [OF i] reorder_refines [OF i])
  then show "tiers_inv (fst (tier_run x rows))" "ladder (fst (tier_run x rows)) = (if snd (tier_run x rows) then tier_spec x (ladder rows) else ladder rows)"
    by (simp_all add: refines_def)
qed

section \<open>Properties\<close>

text \<open>
  The tiers of an org implement a ladder of names: after any sequence of creations, renames, locks, deletions and
  reorders, some of which fail, the list of an org's tiers by position is what the successful ones do to a
  list (append, replace in place, nothing, remove, replace the whole). Its names are distinct, valid slugs and never
  reserved; and a reorder is accepted exactly when it names each tier of the org once.
\<close>

theorem tiers_refine_ladder:
  assumes "run_all tier_run ops [] = (rows, successful)"
  shows "ladder rows org = fold tier_spec successful (\<lambda>_. []) org \<and> distinct (ladder rows org)
    \<and> (\<forall>sl \<in> set (ladder rows org). Valid sl \<and> \<not> tier_Reserved sl)
    \<and> (\<forall>e slugs. te_read e = None \<and> te_write e = None \<longrightarrow>
         (snd (tier_Reorder e rows org slugs) = None \<longleftrightarrow> mset slugs = mset (ladder rows org)))"
proof -
  have "tiers_inv []" "ladder [] = (\<lambda>_. [])" by (simp_all add: tiers_inv_def ladder_def by_position_def fun_eq_iff)
  with tiers.run_all_refines [OF _ _ assms] have i: "tiers_inv rows" and l: "ladder rows = fold tier_spec successful (\<lambda>_. [])"
    by (auto simp: list_all_iff)
  have "snd (tier_Reorder e rows org slugs) = None \<longleftrightarrow> mset slugs = mset (ladder rows org)" if "te_read e = None" "te_write e = None" for e slugs
    using tier_Reorder_ok [OF i that, of slugs org] tier_Reorder_only [OF i, of e org slugs] by (metis prod.collapse snd_conv)
  then show ?thesis using l ladder_distinct(1) [OF i, of org] ladder_distinct(3) [OF i, of _ org] by simp
qed

definition ex_tenv :: "string \<Rightarrow> tier_env" where
  "ex_tenv i = \<lparr>te_read = None, te_write = None, te_uuid = i, te_now = 0\<rparr>"

definition ex_tops :: "tier_op list" where
  "ex_tops = [OpCreate (ex_tenv ''1'') ''o'' ''dev'', OpCreate (ex_tenv ''2'') ''o'' ''prod'', OpCreate (ex_tenv ''3'') ''o'' ''pr'',
     OpReorder (ex_tenv ''4'') ''o'' [''prod'', ''dev''], OpReorder (ex_tenv ''5'') ''o'' [''dev'']]"

theorem tiers_refine_ladder_witness:
  "ladder (fst (run_all tier_run ex_tops [])) ''o'' = [''prod'', ''dev'']"
proof -
  have s: "snd (run_all tier_run ex_tops []) = [ex_tops ! 0, ex_tops ! 1, ex_tops ! 3]" by code_simp
  then have "run_all tier_run ex_tops [] = (fst (run_all tier_run ex_tops []), [ex_tops ! 0, ex_tops ! 1, ex_tops ! 3])" by (metis prod.collapse)
  from tiers_refine_ladder [OF this, of "''o''"] show ?thesis by (simp add: ex_tops_def)
qed

end
