(* ===== verification/Release.thy ===== *)
theory Release
  imports Slug Errs "HOL-Library.AList"
begin

text \<open>
  \<^verbatim>\<open>internal/service/internal/leaf/release/release.go\<close> with its two tables, \<^verbatim>\<open>store/releases.go\<close>: the numbered snapshots of what
  every tile of a stack runs.  A Go map from slugs to pins is the list of its entries in some order.  The
  environment says which store call fails and gives ids and the time.

  Shown: \<open>Diff\<close> lists exactly what two snapshots run differently, whatever order the maps are visited in; a
  derived release runs its base with the swapped pins, and differs from it only there; what a release runs
  never changes once it is written; the numbers of a stack are 1 to n.
\<close>

section \<open>Model: pins and snapshots\<close>

definition ConfigSlug :: string where
  "ConfigSlug = ''_config''"

record pin =
  pn_Slug :: string
  pn_Repo :: string
  pn_Branch :: string
  pn_CommitSHA :: string
  pn_ImageID :: "string option"
  pn_Digest :: string

type_synonym snapshot = "(string \<times> pin) list"

record rel_change =
  rc_Slug :: string
  rc_Kind :: string

definition ptr :: "string option \<Rightarrow> string" where
  "ptr s = (case s of None \<Rightarrow> [] | Some v \<Rightarrow> v)"

definition pins_differ :: "pin \<Rightarrow> pin \<Rightarrow> bool" where
  "pins_differ old new \<longleftrightarrow>
     pn_CommitSHA old \<noteq> pn_CommitSHA new \<or> pn_Digest old \<noteq> pn_Digest new \<or> ptr (pn_ImageID old) \<noteq> ptr (pn_ImageID new)"

definition Diff :: "snapshot \<Rightarrow> snapshot \<Rightarrow> rel_change list" where
  "Diff from_pins to_pins =
     sort_key rc_Slug
      (List.map_filter (\<lambda>(s, p). case map_of from_pins s of
           None \<Rightarrow> Some \<lparr>rc_Slug = s, rc_Kind = ''added''\<rparr>
         | Some old \<Rightarrow> if pins_differ old p then Some \<lparr>rc_Slug = s, rc_Kind = ''changed''\<rparr> else None) to_pins
       @ List.map_filter (\<lambda>(s, p). if map_of to_pins s = None then Some \<lparr>rc_Slug = s, rc_Kind = ''removed''\<rparr> else None) from_pins)"

section \<open>Model: the tables\<close>

record release =
  rl_ID :: string
  rl_StackID :: string
  rl_Number :: int
  rl_CreatedAt :: int
  rl_CreatedBy :: string
  rl_Commit :: string
  rl_Message :: string

record release_tile =
  rt_ID :: string
  rt_ReleaseID :: string
  rt_Slug :: string
  rt_Repo :: string
  rt_Branch :: string
  rt_CommitSHA :: string
  rt_ImageID :: "string option"
  rt_Digest :: string

record rel_db =
  rd_releases :: "release list"
  rd_tiles :: "release_tile list"

record rel_env =
  le_get :: error
  le_list :: error
  le_create :: error
  le_update :: error
  le_tile :: "nat \<Rightarrow> error"
  le_tiles :: error
  le_commits :: error
  le_uuid :: string
  le_tile_uuid :: "nat \<Rightarrow> string"
  le_now :: int

definition exists_already :: err where
  "exists_already = Wrap (''%w: %v'', []) (Conflictf ''already exists'' [])"

text \<open>A row is written without its commit, which is not a column.\<close>

definition releases_Create :: "rel_env \<Rightarrow> rel_db \<Rightarrow> release \<Rightarrow> rel_db \<times> error" where
  "releases_Create e db r = (case le_create e of Some x \<Rightarrow> (db, Some x)
     | None \<Rightarrow> if \<exists>o' \<in> set (rd_releases db). rl_ID o' = rl_ID r \<or> rl_StackID o' = rl_StackID r \<and> rl_Number o' = rl_Number r
               then (db, Some exists_already) else (db\<lparr>rd_releases := rd_releases db @ [r\<lparr>rl_Commit := []\<rparr>]\<rparr>, None))"

definition releases_Update :: "rel_env \<Rightarrow> rel_db \<Rightarrow> release \<Rightarrow> rel_db \<times> error" where
  "releases_Update e db r = (case le_update e of Some x \<Rightarrow> (db, Some x)
     | None \<Rightarrow> if \<exists>o' \<in> set (rd_releases db). rl_ID o' = rl_ID r
               then (db\<lparr>rd_releases := map (\<lambda>o'. if rl_ID o' = rl_ID r then r\<lparr>rl_Commit := []\<rparr> else o') (rd_releases db)\<rparr>, None)
               else (db, Some ErrNotFound))"

definition releases_Get :: "rel_env \<Rightarrow> rel_db \<Rightarrow> (release \<Rightarrow> bool) \<Rightarrow> err + release" where
  "releases_Get e db p = (case le_get e of Some x \<Rightarrow> Inl x
     | None \<Rightarrow> (case find p (rd_releases db) of None \<Rightarrow> Inl ErrNotFound | Some r \<Rightarrow> Inr r))"

definition ListByStack :: "rel_env \<Rightarrow> rel_db \<Rightarrow> string \<Rightarrow> err + release list" where
  "ListByStack e db st = (case le_list e of Some x \<Rightarrow> Inl x
     | None \<Rightarrow> Inr (filter (\<lambda>r. rl_StackID r = st) (rd_releases db)))"

definition release_tiles_Create :: "rel_env \<Rightarrow> nat \<Rightarrow> rel_db \<Rightarrow> release_tile \<Rightarrow> rel_db \<times> error" where
  "release_tiles_Create e k db t = (case le_tile e k of Some x \<Rightarrow> (db, Some x)
     | None \<Rightarrow> if \<exists>o' \<in> set (rd_tiles db). rt_ID o' = rt_ID t \<or> rt_ReleaseID o' = rt_ReleaseID t \<and> rt_Slug o' = rt_Slug t
               then (db, Some exists_already) else (db\<lparr>rd_tiles := rd_tiles db @ [t]\<rparr>, None))"

definition ListByRelease :: "rel_env \<Rightarrow> rel_db \<Rightarrow> string \<Rightarrow> err + release_tile list" where
  "ListByRelease e db i = (case le_tiles e of Some x \<Rightarrow> Inl x
     | None \<Rightarrow> Inr (filter (\<lambda>t. rt_ReleaseID t = i) (rd_tiles db)))"

text \<open>The map and the error of \<^verbatim>\<open>ConfigCommits\<close>; without ids nothing is asked.\<close>

definition ConfigCommits :: "rel_env \<Rightarrow> rel_db \<Rightarrow> string list \<Rightarrow> (string \<rightharpoonup> string) \<times> error" where
  "ConfigCommits e db ids =
     (if ids = [] then (Map.empty, None)
      else case le_commits e of Some x \<Rightarrow> (Map.empty, Some x)
      | None \<Rightarrow> (foldl (\<lambda>m t. m(rt_ReleaseID t \<mapsto> rt_CommitSHA t)) Map.empty
           (filter (\<lambda>t. rt_Slug t = ConfigSlug \<and> rt_CommitSHA t \<noteq> [] \<and> rt_ReleaseID t \<in> set ids) (rd_tiles db)), None))"

definition release_ImageIDs :: "rel_env \<Rightarrow> rel_db \<Rightarrow> err + string list" where
  "release_ImageIDs e db = (case le_tiles e of Some x \<Rightarrow> Inl x
     | None \<Rightarrow> Inr (dedupe_first (List.map_filter rt_ImageID (rd_tiles db))))"

section \<open>Model: the leaf\<close>

definition with_commit :: "(string \<rightharpoonup> string) \<Rightarrow> release \<Rightarrow> release" where
  "with_commit cs r = r\<lparr>rl_Commit := (case cs (rl_ID r) of None \<Rightarrow> [] | Some c \<Rightarrow> c)\<rparr>"

definition withCommit :: "rel_env \<Rightarrow> rel_db \<Rightarrow> release \<Rightarrow> release \<times> error" where
  "withCommit e db r = (let (cs, er) = ConfigCommits e db [rl_ID r] in (with_commit cs r, er))"

definition no_release :: release where
  "no_release = \<lparr>rl_ID = [], rl_StackID = [], rl_Number = 0, rl_CreatedAt = 0, rl_CreatedBy = [], rl_Commit = [], rl_Message = []\<rparr>"

definition release_Get :: "rel_env \<Rightarrow> rel_db \<Rightarrow> string \<Rightarrow> release \<times> error" where
  "release_Get e db i = (case releases_Get e db (\<lambda>r. rl_ID r = i) of Inl x \<Rightarrow> (no_release, Some x) | Inr r \<Rightarrow> withCommit e db r)"

definition GetByNumber :: "rel_env \<Rightarrow> rel_db \<Rightarrow> string \<Rightarrow> int \<Rightarrow> release \<times> error" where
  "GetByNumber e db st n = (case releases_Get e db (\<lambda>r. rl_StackID r = st \<and> rl_Number r = n) of
     Inl x \<Rightarrow> (no_release, Some x) | Inr r \<Rightarrow> withCommit e db r)"

definition release_List :: "rel_env \<Rightarrow> rel_db \<Rightarrow> string \<Rightarrow> release list \<times> error" where
  "release_List e db st = (case ListByStack e db st of Inl x \<Rightarrow> ([], Some x)
     | Inr rs \<Rightarrow> let rs' = sort_key (\<lambda>r. - rl_Number r) rs; (cs, er) = ConfigCommits e db (map rl_ID rs')
                in (map (with_commit cs) rs', er))"

definition pin_of :: "release_tile \<Rightarrow> pin" where
  "pin_of t = \<lparr>pn_Slug = rt_Slug t, pn_Repo = rt_Repo t, pn_Branch = rt_Branch t, pn_CommitSHA = rt_CommitSHA t,
     pn_ImageID = rt_ImageID t, pn_Digest = rt_Digest t\<rparr>"

definition Pins :: "rel_env \<Rightarrow> rel_db \<Rightarrow> string \<Rightarrow> err + snapshot" where
  "Pins e db i = (case ListByRelease e db i of Inl x \<Rightarrow> Inl x
     | Inr ts \<Rightarrow> Inr (foldl (\<lambda>m t. AList.update (rt_Slug t) (pin_of t) m) [] ts))"

definition release_Digest :: "rel_env \<Rightarrow> rel_db \<Rightarrow> string option \<Rightarrow> string \<Rightarrow> string \<times> error" where
  "release_Digest e db i slug = (case i of None \<Rightarrow> ([], None)
     | Some i \<Rightarrow> (case Pins e db i of Inl x \<Rightarrow> ([], Some x)
         | Inr m \<Rightarrow> (case map_of m slug of None \<Rightarrow> [] | Some p \<Rightarrow> pn_Digest p, None)))"

text \<open>The checks on the pins, in their order; \<open>seen\<close> is the slugs before.\<close>

fun check_pins :: "string list \<Rightarrow> pin list \<Rightarrow> error" where
  "check_pins seen [] = None"
| "check_pins seen (p # ps) =
     (if pn_Slug p = [] \<or> pn_Slug p \<in> set seen
      then Some (Invalidf ''tiles'' ''every tile appears once, by slug (%q)'' [pn_Slug p])
      else if pn_Digest p \<noteq> [] \<and> \<not> has_prefix ''sha256:'' (pn_Digest p)
      then Some (Invalidf ''digest'' ''%s: a release pins a sha256 digest, not %q'' [pn_Slug p, pn_Digest p])
      else check_pins (pn_Slug p # seen) ps)"

definition tile_of :: "string \<Rightarrow> string \<Rightarrow> pin \<Rightarrow> release_tile" where
  "tile_of i r p = \<lparr>rt_ID = i, rt_ReleaseID = r, rt_Slug = pn_Slug p, rt_Repo = pn_Repo p, rt_Branch = pn_Branch p,
     rt_CommitSHA = pn_CommitSHA p, rt_ImageID = pn_ImageID p, rt_Digest = pn_Digest p\<rparr>"

fun create_tiles :: "rel_env \<Rightarrow> string \<Rightarrow> nat \<Rightarrow> pin list \<Rightarrow> rel_db \<Rightarrow> rel_db \<times> error" where
  "create_tiles e r k [] db = (db, None)"
| "create_tiles e r k (p # ps) db =
     (case release_tiles_Create e k db (tile_of (le_tile_uuid e k) r p) of
       (db', Some x) \<Rightarrow> (db', Some x) | (db', None) \<Rightarrow> create_tiles e r (Suc k) ps db')"

definition release_Create :: "rel_env \<Rightarrow> rel_db \<Rightarrow> string \<Rightarrow> string \<Rightarrow> pin list \<Rightarrow> rel_db \<times> release \<times> error" where
  "release_Create e db st maker pins =
     (case check_pins [] pins of Some x \<Rightarrow> (db, no_release, Some x)
      | None \<Rightarrow> (case ListByStack e db st of Inl x \<Rightarrow> (db, no_release, Some x)
        | Inr rs \<Rightarrow>
          let n = foldl (\<lambda>n r. max n (rl_Number r)) 0 rs;
              r = \<lparr>rl_ID = le_uuid e, rl_StackID = st, rl_Number = int64 (n + 1), rl_CreatedAt = le_now e,
                   rl_CreatedBy = maker, rl_Commit = [], rl_Message = []\<rparr>
          in case releases_Create e db r of
            (db1, Some x) \<Rightarrow> (db1, r, Some x)
          | (db1, None) \<Rightarrow> let (db2, er) = create_tiles e (rl_ID r) 0 pins db1 in (db2, r, er)))"

definition Derive :: "rel_env \<Rightarrow> rel_db \<Rightarrow> string \<Rightarrow> string \<Rightarrow> string \<Rightarrow> pin list \<Rightarrow> rel_db \<times> release \<times> error" where
  "Derive e db st baseID maker swap =
     (case (if baseID \<noteq> [] then Pins e db baseID else Inr []) of
        Inl x \<Rightarrow> (db, no_release, Some x)
      | Inr pins \<Rightarrow>
        let m = foldl (\<lambda>m p. AList.update (pn_Slug p) p m) pins swap
        in release_Create e db st maker (sort_key pn_Slug (map snd m)))"

section \<open>Model: the message\<close>

definition is_control :: "nat \<Rightarrow> bool" where
  "is_control r \<longleftrightarrow> r < 0x20 \<or> 0x7F \<le> r \<and> r < 0xA0"

text \<open>\<^verbatim>\<open>string\<close> of a rune and of a slice of runes.\<close>

definition encode_rune :: "nat \<Rightarrow> nat list" where
  "encode_rune r =
     (if r < 0x80 then [r]
      else if r < 0x800 then [0xC0 + r div 64, 0x80 + r mod 64]
      else if r > 0x10FFFF \<or> 0xD800 \<le> r \<and> r \<le> 0xDFFF then [0xEF, 0xBF, 0xBD]
      else if r < 0x10000 then [0xE0 + r div 4096, 0x80 + r div 64 mod 64, 0x80 + r mod 64]
      else [0xF0 + r div 262144, 0x80 + r div 4096 mod 64, 0x80 + r div 64 mod 64, 0x80 + r mod 64])"

definition string_of :: "nat list \<Rightarrow> string" where
  "string_of rs = map char_of (concat (map encode_rune rs))"

definition message_line :: "string \<Rightarrow> string" where
  "message_line msg =
     (let t = trim_space msg; line = (case cut_at (CHR 0x0A) t of None \<Rightarrow> t | Some (a, _) \<Rightarrow> a);
          m = string_of (filter (\<lambda>r. \<not> is_control r) (runes line)); rs = runes (trim_space m)
      in if length rs > 200 then string_of (take 200 rs) else m)"

definition SetMessage :: "rel_env \<Rightarrow> rel_db \<Rightarrow> release \<Rightarrow> string \<Rightarrow> rel_db \<times> release \<times> error" where
  "SetMessage e db r msg =
     (let m = message_line msg in
      if m = [] then (db, r, None)
      else let r' = r\<lparr>rl_Message := trim_space m\<rparr>; (db', er) = releases_Update e db r' in (db', r', er))"

section \<open>Lemmas: comparing snapshots\<close>

abbreviation snapshot_ok :: "snapshot \<Rightarrow> bool" where
  "snapshot_ok m \<equiv> distinct (map fst m)"

text \<open>What is to be said of a slug that one snapshot or both pin.\<close>

text \<open>
  When two pins run the same: one commit, one digest and one image, where no image and the empty one are the same.  The kind
  of change of a slug, stated on what the two snapshots pin at it.
\<close>

definition same_image :: "string option \<Rightarrow> string option \<Rightarrow> bool" where
  "same_image a b \<longleftrightarrow> a = b \<or> {a, b} \<subseteq> {None, Some []}"

definition runs_same :: "pin \<Rightarrow> pin \<Rightarrow> bool" where
  "runs_same p q \<longleftrightarrow> pn_CommitSHA p = pn_CommitSHA q \<and> pn_Digest p = pn_Digest q \<and> same_image (pn_ImageID p) (pn_ImageID q)"

definition change_kind :: "pin option \<Rightarrow> pin option \<Rightarrow> string option" where
  "change_kind old new = (case (old, new) of
     (None, None) \<Rightarrow> None | (None, Some _) \<Rightarrow> Some ''added'' | (Some _, None) \<Rightarrow> Some ''removed''
   | (Some o', Some n) \<Rightarrow> if runs_same o' n then None else Some ''changed'')"

lemma pins_differ_iff: "pins_differ p q \<longleftrightarrow> \<not> runs_same p q"
  by (auto simp: pins_differ_def runs_same_def same_image_def ptr_def split: option.splits)

lemma in_map_filter: "y \<in> set (List.map_filter f xs) \<longleftrightarrow> (\<exists>x \<in> set xs. f x = Some y)"
  by (induction xs) (auto simp: map_filter_simps split: option.splits)

lemma in_map_filter_map:
  "distinct (map fst m) \<Longrightarrow> (\<And>s p c. f (s, p) = Some c \<Longrightarrow> k c = s)
     \<Longrightarrow> y \<in> set (List.map_filter f m) \<longleftrightarrow> (\<exists>p. map_of m (k y) = Some p \<and> f (k y, p) = Some y)"
proof -
  assume d: "distinct (map fst m)" and k: "\<And>s p c. f (s, p) = Some c \<Longrightarrow> k c = s"
  have "y \<in> set (List.map_filter f m) \<longleftrightarrow> (\<exists>s p. map_of m s = Some p \<and> f (s, p) = Some y)"
    unfolding in_map_filter Bex_def split_paired_Ex using d by simp
  also have "\<dots> \<longleftrightarrow> (\<exists>p. map_of m (k y) = Some p \<and> f (k y, p) = Some y)"
  proof
    assume "\<exists>s p. map_of m s = Some p \<and> f (s, p) = Some y"
    then obtain s p where sp: "map_of m s = Some p" "f (s, p) = Some y" by blast
    have "k y = s" by (rule k [OF sp(2)])
    then show "\<exists>p. map_of m (k y) = Some p \<and> f (k y, p) = Some y" using sp by simp
  qed blast
  finally show ?thesis .
qed

lemma map_filter_keys:
  "(\<And>x y. f x = Some y \<Longrightarrow> k y = fst x) \<Longrightarrow> distinct (map fst xs) \<Longrightarrow> distinct (map k (List.map_filter f xs))
     \<and> set (map k (List.map_filter f xs)) \<subseteq> fst ` set xs"
  by (induction xs) (auto simp: map_filter_simps image_iff split: option.splits)

lemma in_Diff:
  assumes "snapshot_ok a" "snapshot_ok b"
  shows "c \<in> set (Diff a b) \<longleftrightarrow> change_kind (map_of a (rc_Slug c)) (map_of b (rc_Slug c)) = Some (rc_Kind c)"
proof -
  obtain s k where c: "c = \<lparr>rc_Slug = s, rc_Kind = k\<rparr>" by (cases c) auto
  have "c \<in> set (Diff a b) \<longleftrightarrow>
      (\<exists>p. map_of b s = Some p \<and> (map_of a s = None \<and> k = ''added'' \<or> (\<exists>old. map_of a s = Some old \<and> pins_differ old p \<and> k = ''changed'')))
      \<or> map_of b s = None \<and> k = ''removed'' \<and> (\<exists>p. map_of a s = Some p)"
    unfolding Diff_def c set_sort set_append Un_iff
    by (subst (1 2) in_map_filter_map [where k = rc_Slug])
      (use assms in \<open>auto simp del: map_of_eq_Some_iff not_None_eq split: option.splits if_splits\<close>)
  then show ?thesis by (auto simp: c change_kind_def pins_differ_iff split: option.splits)
qed

lemma distinct_Diff: "snapshot_ok a \<Longrightarrow> snapshot_ok b \<Longrightarrow> distinct (map rc_Slug (Diff a b))"
proof -
  assume ok: "snapshot_ok a" "snapshot_ok b"
  let ?f = "\<lambda>(s, p). case map_of a s of None \<Rightarrow> Some \<lparr>rc_Slug = s, rc_Kind = ''added''\<rparr>
         | Some old \<Rightarrow> if pins_differ old p then Some \<lparr>rc_Slug = s, rc_Kind = ''changed''\<rparr> else None"
  let ?g = "\<lambda>(s, p :: pin). if map_of b s = None then Some \<lparr>rc_Slug = s, rc_Kind = ''removed''\<rparr> else None"
  have f: "distinct (map rc_Slug (List.map_filter ?f b)) \<and> set (map rc_Slug (List.map_filter ?f b)) \<subseteq> fst ` set b"
    by (rule map_filter_keys [OF _ ok(2)]) (auto split: option.splits if_splits)
  have g: "distinct (map rc_Slug (List.map_filter ?g a)) \<and> set (map rc_Slug (List.map_filter ?g a)) \<subseteq> fst ` set a"
    by (rule map_filter_keys [OF _ ok(1)]) (auto split: if_splits)
  have "rc_Slug y \<notin> fst ` set b" if "y \<in> set (List.map_filter ?g a)" for y
  proof -
    obtain x where "x \<in> set a" "?g x = Some y" using \<open>y \<in> set (List.map_filter ?g a)\<close> by (auto simp only: in_map_filter)
    moreover obtain s p where "x = (s, p)" by fastforce
    ultimately have "map_of b s = None \<and> rc_Slug y = s" by (auto simp del: map_of_eq_None_iff split: if_splits)
    then show ?thesis by (simp add: map_of_eq_None_iff)
  qed
  then have "set (map rc_Slug (List.map_filter ?f b)) \<inter> set (map rc_Slug (List.map_filter ?g a)) = {}"
    using f by (simp add: disjoint_iff image_iff) blast
  then have "distinct (map rc_Slug (List.map_filter ?f b @ List.map_filter ?g a))" using f g unfolding map_append distinct_append by blast
  then show ?thesis unfolding Diff_def distinct_map by (simp only: distinct_sort set_sort)
qed

lemma sorted_Diff: "snapshot_ok a \<Longrightarrow> snapshot_ok b \<Longrightarrow> sorted_wrt (<) (map rc_Slug (Diff a b))"
  using distinct_Diff by (simp add: Diff_def strict_sorted_iff)

lemma change_eq: "rc_Slug c = s \<Longrightarrow> rc_Kind c = k \<Longrightarrow> c = \<lparr>rc_Slug = s, rc_Kind = k\<rparr>"
  by (cases c) simp

text \<open>The lists of changes with strictly rising slugs are as good as the partial map from slugs to kinds.\<close>

lemma Diff_cong:
  assumes "snapshot_ok a" "snapshot_ok b" "snapshot_ok a'" "snapshot_ok b'" "map_of a = map_of a'" "map_of b = map_of b'"
  shows "Diff a b = Diff a' b'"
proof -
  have s: "set (Diff a b) = set (Diff a' b')" using in_Diff assms by (metis subsetI subset_antisym)
  have "map rc_Slug (Diff a b) = map rc_Slug (Diff a' b')"
    using s sorted_Diff assms(1-4) by (intro strict_sorted_equal) simp_all
  moreover have "inj_on rc_Slug (set (Diff a b))" using distinct_Diff [OF assms(1,2)] by (simp add: distinct_map)
  ultimately show ?thesis using s by (intro map_inj_on [of rc_Slug]) (simp_all add: Un_absorb1)
qed

section \<open>Properties: comparing snapshots\<close>

text \<open>
  C10: \<^verbatim>\<open>Diff\<close> of two snapshots lists every slug whose commit, digest or image differs, or that only one of them pins,
  once, sorted, with the right kind, and no other; no image and the empty image id count as one. So the list does not depend on the order in which the two Go maps are visited,
  and it is empty when and only when both run the same: promoting to what already runs restarts nothing.
\<close>

theorem Diff_lists_what_differs:
  assumes "snapshot_ok a" "snapshot_ok b"
  shows "set (Diff a b) = {c. change_kind (map_of a (rc_Slug c)) (map_of b (rc_Slug c)) = Some (rc_Kind c)}
     \<and> sorted_wrt (<) (map rc_Slug (Diff a b))
     \<and> (Diff a b = [] \<longleftrightarrow> (\<forall>s. change_kind (map_of a s) (map_of b s) = None))
     \<and> (snapshot_ok a' \<and> snapshot_ok b' \<and> set a' = set a \<and> set b' = set b \<longrightarrow> Diff a' b' = Diff a b)"
proof (intro conjI impI)
  show s: "set (Diff a b) = {c. change_kind (map_of a (rc_Slug c)) (map_of b (rc_Slug c)) = Some (rc_Kind c)}"
    using in_Diff [OF assms] by blast
  show "sorted_wrt (<) (map rc_Slug (Diff a b))" using assms by (rule sorted_Diff)
  have "\<exists>c. c \<in> set (Diff a b)" if "change_kind (map_of a x) (map_of b x) = Some k" for x k
    using that in_Diff [OF assms, of "\<lparr>rc_Slug = x, rc_Kind = k\<rparr>"] by auto
  moreover have "change_kind (map_of a (rc_Slug c)) (map_of b (rc_Slug c)) \<noteq> None" if "c \<in> set (Diff a b)" for c
    using that s by simp
  ultimately show "Diff a b = [] \<longleftrightarrow> (\<forall>x. change_kind (map_of a x) (map_of b x) = None)"
    by (cases "Diff a b") fastforce+
  assume "snapshot_ok a' \<and> snapshot_ok b' \<and> set a' = set a \<and> set b' = set b"
  then have ok: "snapshot_ok a'" "snapshot_ok b'" and m: "map_of a' = map_of a" "map_of b' = map_of b"
    using assms by (simp_all add: map_of_inject_set)
  then show "Diff a' b' = Diff a b" by (intro Diff_cong ok assms m)
qed

definition ex_pin :: "string \<Rightarrow> string \<Rightarrow> pin" where
  "ex_pin s d = \<lparr>pn_Slug = s, pn_Repo = ''nginx:1'', pn_Branch = [], pn_CommitSHA = [], pn_ImageID = None, pn_Digest = d\<rparr>"

theorem Diff_lists_what_differs_witness:
  "Diff [(''web'', ex_pin ''web'' ''sha256:a''), (''db'', ex_pin ''db'' ''sha256:b'')] [(''api'', ex_pin ''api'' ''sha256:c''), (''db'', ex_pin ''db'' ''sha256:b'')]
     = [\<lparr>rc_Slug = ''api'', rc_Kind = ''added''\<rparr>, \<lparr>rc_Slug = ''web'', rc_Kind = ''removed''\<rparr>]
   \<and> sorted_wrt (<) (map rc_Slug (Diff [(''web'', ex_pin ''web'' ''sha256:a''), (''db'', ex_pin ''db'' ''sha256:b'')] [(''api'', ex_pin ''api'' ''sha256:c''), (''db'', ex_pin ''db'' ''sha256:b'')]))"
proof
  let ?a = "[(''web'', ex_pin ''web'' ''sha256:a''), (''db'', ex_pin ''db'' ''sha256:b'')]"
  let ?b = "[(''api'', ex_pin ''api'' ''sha256:c''), (''db'', ex_pin ''db'' ''sha256:b'')]"
  show "Diff ?a ?b = [\<lparr>rc_Slug = ''api'', rc_Kind = ''added''\<rparr>, \<lparr>rc_Slug = ''web'', rc_Kind = ''removed''\<rparr>]" by code_simp
  have "snapshot_ok ?a" "snapshot_ok ?b" by simp_all
  then show "sorted_wrt (<) (map rc_Slug (Diff ?a ?b))" using Diff_lists_what_differs by blast
qed

section \<open>Lemmas: writing a release\<close>

definition digest_ok :: "string \<Rightarrow> bool" where
  "digest_ok d \<longleftrightarrow> d = [] \<or> has_prefix ''sha256:'' d"

lemma check_pins_None:
  "check_pins seen ps = None \<longleftrightarrow> distinct (map pn_Slug ps) \<and> set (map pn_Slug ps) \<inter> set seen = {}
     \<and> [] \<notin> set (map pn_Slug ps) \<and> (\<forall>p \<in> set ps. digest_ok (pn_Digest p))"
  by (induction ps arbitrary: seen) (auto simp: digest_ok_def)

lemma pin_of_tile_of [simp]: "pin_of (tile_of i r p) = p" "rt_ReleaseID (tile_of i r p) = r" "rt_Slug (tile_of i r p) = pn_Slug p"
    "rt_Digest (tile_of i r p) = pn_Digest p"
  by (simp_all add: pin_of_def tile_of_def)

lemma create_tiles_writes:
  "create_tiles e r k ps db = (db', er) \<Longrightarrow> rd_releases db' = rd_releases db
     \<and> (\<exists>ts. rd_tiles db' = rd_tiles db @ ts \<and> (\<forall>t \<in> set ts. rt_ReleaseID t = r \<and> pin_of t \<in> set ps \<and> rt_Slug t = pn_Slug (pin_of t) \<and> rt_Digest t = pn_Digest (pin_of t))
          \<and> (er = None \<longrightarrow> map pin_of ts = ps))"
proof (induction ps arbitrary: k db)
  case (Cons p ps)
  obtain db1 x where c: "release_tiles_Create e k db (tile_of (le_tile_uuid e k) r p) = (db1, x)" by fastforce
  show ?case
  proof (cases x)
    case (Some y)
    then have "db' = db" "er \<noteq> None" using Cons.prems c by (auto simp: release_tiles_Create_def split: option.splits if_splits)
    then show ?thesis by (intro conjI exI [of _ "[]"]) simp_all
  next
    case None
    then have 1: "rd_releases db1 = rd_releases db" "rd_tiles db1 = rd_tiles db @ [tile_of (le_tile_uuid e k) r p]"
      using c by (auto simp: release_tiles_Create_def split: option.splits if_splits)
    obtain ts where "rd_releases db' = rd_releases db1" "rd_tiles db' = rd_tiles db1 @ ts" "er = None \<longrightarrow> map pin_of ts = ps"
      "\<forall>t \<in> set ts. rt_ReleaseID t = r \<and> pin_of t \<in> set ps \<and> rt_Slug t = pn_Slug (pin_of t) \<and> rt_Digest t = pn_Digest (pin_of t)"
      using Cons.IH [of "Suc k" db1] Cons.prems c None by auto
    then show ?thesis using 1 by (intro conjI exI [of _ "tile_of (le_tile_uuid e k) r p # ts"]) auto
  qed
qed auto

lemma create_tiles_keys:
  "create_tiles e r k ps db = (db', er) \<Longrightarrow> distinct (map rt_ID (rd_tiles db)) \<Longrightarrow> distinct (map (\<lambda>t. (rt_ReleaseID t, rt_Slug t)) (rd_tiles db))
     \<Longrightarrow> distinct (map rt_ID (rd_tiles db')) \<and> distinct (map (\<lambda>t. (rt_ReleaseID t, rt_Slug t)) (rd_tiles db'))"
proof (induction ps arbitrary: k db)
  case (Cons p ps)
  obtain db1 x where c: "release_tiles_Create e k db (tile_of (le_tile_uuid e k) r p) = (db1, x)" by fastforce
  then have "distinct (map rt_ID (rd_tiles db1)) \<and> distinct (map (\<lambda>t. (rt_ReleaseID t, rt_Slug t)) (rd_tiles db1))"
    using Cons.prems(2,3) by (fastforce simp: release_tiles_Create_def split: option.splits if_splits)
  then show ?case using Cons.IH [of "Suc k" db1] Cons.prems(1) c by (cases x) auto
qed auto

abbreviation stack_numbers :: "rel_db \<Rightarrow> string \<Rightarrow> int list" where
  "stack_numbers db st \<equiv> map rl_Number (filter (\<lambda>r. rl_StackID r = st) (rd_releases db))"

text \<open>Numbers without gaps, one pin per slug and release, and only digests; a stack with \<open>2 ^ 63\<close> releases is out of reach.\<close>

definition rel_inv :: "rel_db \<Rightarrow> bool" where
  "rel_inv db \<longleftrightarrow> distinct (map rl_ID (rd_releases db))
     \<and> (\<forall>st. int (length (stack_numbers db st)) < 2 ^ 63 \<longrightarrow> set (stack_numbers db st) = {1..int (length (stack_numbers db st))})
     \<and> distinct (map rt_ID (rd_tiles db)) \<and> distinct (map (\<lambda>t. (rt_ReleaseID t, rt_Slug t)) (rd_tiles db))
     \<and> (\<forall>t \<in> set (rd_tiles db). rt_ReleaseID t \<in> set (map rl_ID (rd_releases db)) \<and> rt_Slug t \<noteq> [] \<and> digest_ok (rt_Digest t))"

lemma rel_inv_cong:
  "rel_inv db \<Longrightarrow> map rl_ID (rd_releases db') = map rl_ID (rd_releases db) \<Longrightarrow> (\<And>st. stack_numbers db' st = stack_numbers db st)
     \<Longrightarrow> rd_tiles db' = rd_tiles db \<Longrightarrow> rel_inv db'"
  unfolding rel_inv_def by (simp del: set_map length_map map_map)

lemma rel_inv_tile: "rel_inv db \<Longrightarrow> t \<in> set (rd_tiles db) \<Longrightarrow> rt_ReleaseID t \<in> rl_ID ` set (rd_releases db)"
  by (simp add: rel_inv_def)

lemma rel_inv_numbers:
  "rel_inv db \<Longrightarrow> int (length (stack_numbers db st)) < 2 ^ 63 \<Longrightarrow> set (stack_numbers db st) = {1..int (length (stack_numbers db st))}"
  unfolding rel_inv_def by blast

lemma rel_inv_distinct: "rel_inv db \<Longrightarrow> int (length (stack_numbers db st)) < 2 ^ 63 \<Longrightarrow> distinct (stack_numbers db st)"
proof (rule card_distinct)
  assume "rel_inv db" "int (length (stack_numbers db st)) < 2 ^ 63"
  from rel_inv_numbers [OF this] show "card (set (stack_numbers db st)) = length (stack_numbers db st)" by simp
qed

lemma foldl_max:
  fixes a :: int
  shows "a \<le> foldl (\<lambda>n r. max n (f r)) a rs \<and> (\<forall>r \<in> set rs. f r \<le> foldl (\<lambda>n r. max n (f r)) a rs)
     \<and> (foldl (\<lambda>n r. max n (f r)) a rs = a \<or> foldl (\<lambda>n r. max n (f r)) a rs \<in> f ` set rs)"
proof (induction rs arbitrary: a)
  case (Cons r rs)
  show ?case using Cons.IH [of "max a (f r)"] by (auto simp: max_def split: if_splits)
qed simp

lemma release_Create_cases:
  assumes "release_Create e db st maker pins = (db', r, er)"
  obtains (refused) "db' = db" "er \<noteq> None"
  | (made) db1 where "check_pins [] pins = None" "rl_ID r \<notin> rl_ID ` set (rd_releases db)" "rl_StackID r = st" "rl_Commit r = []"
      "rl_Number r = int64 (foldl (\<lambda>n r. max n (rl_Number r)) 0 (filter (\<lambda>r. rl_StackID r = st) (rd_releases db)) + 1)"
      "db1 = db\<lparr>rd_releases := rd_releases db @ [r]\<rparr>" "create_tiles e (rl_ID r) 0 pins db1 = (db', er)"
proof (cases "check_pins [] pins = None \<and> le_list e = None")
  case True
  define n where "n = foldl (\<lambda>n r. max n (rl_Number r)) 0 (filter (\<lambda>r. rl_StackID r = st) (rd_releases db))"
  define r0 where "r0 = \<lparr>rl_ID = le_uuid e, rl_StackID = st, rl_Number = int64 (n + 1), rl_CreatedAt = le_now e,
    rl_CreatedBy = maker, rl_Commit = [], rl_Message = []\<rparr>"
  obtain db1 x where c: "releases_Create e db r0 = (db1, x)" by fastforce
  note a = c [unfolded r0_def n_def]
  show thesis
  proof (cases x)
    case None
    have "rl_ID r0 \<notin> rl_ID ` set (rd_releases db)" "db1 = db\<lparr>rd_releases := rd_releases db @ [r0\<lparr>rl_Commit := []\<rparr>]\<rparr>"
      using c None by (auto simp: releases_Create_def split: option.splits if_splits)
    moreover have "r0\<lparr>rl_Commit := []\<rparr> = r0" by (simp add: r0_def)
    moreover have "r = r0" "create_tiles e (rl_ID r0) 0 pins db1 = (db', er)"
      using assms True a None by (auto simp: release_Create_def ListByStack_def Let_def r0_def n_def split: prod.splits)
    ultimately show thesis using True by (intro made [of db1]) (simp_all add: r0_def n_def)
  next
    case (Some y)
    then have "er = Some y" "db' = db1"
      using assms True a by (auto simp: release_Create_def ListByStack_def Let_def)
    moreover have "db1 = db" using c Some by (auto simp: releases_Create_def split: option.splits if_splits)
    ultimately show thesis by (intro refused) simp_all
  qed
next
  case False
  then consider y where "check_pins [] pins = Some y" | y where "check_pins [] pins = None" "le_list e = Some y" by auto
  then show thesis
  proof cases
    case (1 y)
    then have "db' = db" "er = Some y" using assms by (simp_all add: release_Create_def)
    then show thesis by (intro refused) simp_all
  next
    case (2 y)
    then have "db' = db" "er = Some y" using assms by (simp_all add: release_Create_def ListByStack_def)
    then show thesis by (intro refused) simp_all
  qed
qed

lemma next_number:
  assumes "rel_inv db" "int (length (stack_numbers db st)) < 2 ^ 63"
  shows "foldl (\<lambda>n r. max n (rl_Number r)) 0 (filter (\<lambda>r. rl_StackID r = st) (rd_releases db)) = int (length (stack_numbers db st))"
proof -
  let ?rs = "filter (\<lambda>r. rl_StackID r = st) (rd_releases db)"
  let ?n = "foldl (\<lambda>n r. max n (rl_Number r)) 0 ?rs"
  have s: "set (stack_numbers db st) = {1..int (length ?rs)}" using assms by (simp add: rel_inv_def)
  note m = foldl_max [of 0 rl_Number ?rs]
  show ?thesis
  proof (cases "?rs = []")
    case False
    then have "int (length ?rs) \<in> set (stack_numbers db st)" unfolding s by (simp add: Suc_le_eq)
    then have "int (length ?rs) \<le> ?n" using m by auto
    moreover have "?n = 0 \<or> ?n \<in> {1..int (length ?rs)}" using m s by auto
    ultimately show ?thesis by auto
  qed simp
qed

lemma release_Create_inv:
  assumes inv: "rel_inv db" and c: "release_Create e db st maker pins = (db', r, er)"
  shows "rel_inv db'"
  using c
proof (cases rule: release_Create_cases)
  case (made db1)
  obtain ts where w: "rd_releases db' = rd_releases db1" "rd_tiles db' = rd_tiles db1 @ ts"
    "\<forall>t \<in> set ts. rt_ReleaseID t = rl_ID r \<and> pin_of t \<in> set pins \<and> rt_Slug t = pn_Slug (pin_of t) \<and> rt_Digest t = pn_Digest (pin_of t)"
    using create_tiles_writes [OF made(7)] by blast
  have tiles: "rd_tiles db1 = rd_tiles db" and rels: "rd_releases db1 = rd_releases db @ [r]" using made(6) by simp_all
  have keys: "distinct (map rt_ID (rd_tiles db'))" "distinct (map (\<lambda>t. (rt_ReleaseID t, rt_Slug t)) (rd_tiles db'))"
    using create_tiles_keys [OF made(7)] inv tiles by (simp_all add: rel_inv_def)
  have nums: "set (stack_numbers db' x) = {1..int (length (stack_numbers db' x))}" if b: "int (length (stack_numbers db' x)) < 2 ^ 63" for x
  proof (cases "x = st")
    case True
    have l: "int (length (stack_numbers db st)) + 1 < 2 ^ 63" using b True made(3) w(1) rels by simp
    then have n: "rl_Number r = int (length (stack_numbers db st)) + 1"
      using made(5) next_number [OF inv, of st] int64_id [of "int (length (stack_numbers db st)) + 1"] by simp
    have "set (stack_numbers db st) = {1..int (length (stack_numbers db st))}" using inv l by (simp add: rel_inv_def)
    then show ?thesis using n made(3) w(1) rels True by auto
  next
    case False
    then show ?thesis using inv b made(3) w(1) rels by (simp add: rel_inv_def)
  qed
  have "\<forall>p \<in> set pins. pn_Slug p \<noteq> [] \<and> digest_ok (pn_Digest p)"
    using made(1) unfolding check_pins_None by (metis in_set_conv_nth length_map nth_map)
  then have "\<forall>t \<in> set ts. rt_Slug t \<noteq> [] \<and> digest_ok (rt_Digest t)" using w(3) by simp
  then show ?thesis using inv keys nums w rels tiles made(2) unfolding rel_inv_def by auto
qed (use inv in simp)

lemma Derive_is_Create:
  "Derive e db st baseID maker swap = (db', r, er) \<Longrightarrow> db' = db \<and> er \<noteq> None \<or> (\<exists>pins. release_Create e db st maker pins = (db', r, er))"
  by (auto simp: Derive_def Let_def split: sum.splits if_splits)

lemma SetMessage_shape:
  "SetMessage e db r msg = (db', r', er) \<Longrightarrow> rl_ID r' = rl_ID r \<and> rl_StackID r' = rl_StackID r \<and> rl_Number r' = rl_Number r
     \<and> (db' = db \<or> db' = db\<lparr>rd_releases := map (\<lambda>o'. if rl_ID o' = rl_ID r then r'\<lparr>rl_Commit := []\<rparr> else o') (rd_releases db)\<rparr>)"
  by (auto simp: SetMessage_def releases_Update_def Let_def split: option.splits if_splits prod.splits)

section \<open>Model: any use of the leaf\<close>

text \<open>
  Creates, derivations and messages in any order, each with an environment of its own, and a stack that is deleted, whose rows
  the tables delete with it (\<^verbatim>\<open>ON DELETE CASCADE\<close>). A transaction that is rolled back is no step.
\<close>

definition delete_stack :: "rel_db \<Rightarrow> string \<Rightarrow> rel_db" where
  "delete_stack db st = (let gone = rl_ID ` {r \<in> set (rd_releases db). rl_StackID r = st} in
     \<lparr>rd_releases = filter (\<lambda>r. rl_StackID r \<noteq> st) (rd_releases db), rd_tiles = filter (\<lambda>t. rt_ReleaseID t \<notin> gone) (rd_tiles db)\<rparr>)"

inductive rel_step :: "rel_db \<Rightarrow> rel_db \<Rightarrow> bool" where
  create: "rel_step db (fst (release_Create e db st maker pins))"
| derive: "rel_step db (fst (Derive e db st baseID maker swap))"
| message: "r \<in> set (rd_releases db) \<Longrightarrow> rel_step db (fst (SetMessage e db (with_commit cs r) msg))"
| delete: "rel_step db (delete_stack db st)"

inductive rel_reachable :: "rel_db \<Rightarrow> bool" where
  start: "rel_reachable \<lparr>rd_releases = [], rd_tiles = []\<rparr>"
| step: "rel_reachable db \<Longrightarrow> rel_step db db' \<Longrightarrow> rel_reachable db'"

lemma map_keeps_columns:
  "(\<And>x. x \<in> set rs \<Longrightarrow> rl_ID (u x) = rl_ID x \<and> rl_StackID (u x) = rl_StackID x \<and> rl_Number (u x) = rl_Number x)
     \<Longrightarrow> map rl_ID (map u rs) = map rl_ID rs \<and> map rl_Number (filter (\<lambda>r. rl_StackID r = st) (map u rs)) = map rl_Number (filter (\<lambda>r. rl_StackID r = st) rs)"
  by (induction rs) auto

lemma release_keys: "rd_releases (db\<lparr>rd_releases := rs\<rparr>) = rs"
  by simp

lemma SetMessage_inv:
  assumes inv: "rel_inv db" and r: "r \<in> set (rd_releases db)" and s: "SetMessage e db (with_commit cs r) msg = (db', r', er)"
  shows "rel_inv db'"
proof -
  let ?u = "\<lambda>o'. if rl_ID o' = rl_ID r then r'\<lparr>rl_Commit := []\<rparr> else o'"
  have same: "rl_ID (?u o') = rl_ID o' \<and> rl_StackID (?u o') = rl_StackID o' \<and> rl_Number (?u o') = rl_Number o'" if "o' \<in> set (rd_releases db)" for o'
  proof (cases "rl_ID o' = rl_ID r")
    case True
    then have "o' = r" using inv r that by (auto simp: rel_inv_def distinct_map inj_on_def)
    then show ?thesis using SetMessage_shape [OF s] by (simp add: with_commit_def)
  qed simp
  have m: "rel_inv (db\<lparr>rd_releases := map ?u (rd_releases db)\<rparr>)"
  proof (rule rel_inv_cong [OF inv])
    show "map rl_ID (rd_releases (db\<lparr>rd_releases := map ?u (rd_releases db)\<rparr>)) = map rl_ID (rd_releases db)"
      unfolding release_keys using map_keeps_columns [of "rd_releases db" ?u] same by blast
    show "stack_numbers (db\<lparr>rd_releases := map ?u (rd_releases db)\<rparr>) st = stack_numbers db st" for st
      unfolding release_keys using map_keeps_columns [of "rd_releases db" ?u] same by blast
    show "rd_tiles (db\<lparr>rd_releases := map ?u (rd_releases db)\<rparr>) = rd_tiles db" by simp
  qed
  show ?thesis
  proof (cases "db' = db")
    case False
    then have "db' = db\<lparr>rd_releases := map ?u (rd_releases db)\<rparr>" using SetMessage_shape [OF s] by (simp add: with_commit_def)
    then show ?thesis using m by simp
  qed (simp add: inv)
qed

lemma delete_stack_inv: "rel_inv db \<Longrightarrow> rel_inv (delete_stack db st)"
proof -
  assume inv: "rel_inv db"
  have "stack_numbers (delete_stack db st) x = (if x = st then [] else stack_numbers db x)" for x
    by (auto simp: delete_stack_def Let_def intro!: arg_cong [of _ _ "map rl_Number"] filter_cong)
  moreover have "rt_ReleaseID t \<in> rl_ID ` {r \<in> set (rd_releases db). rl_StackID r \<noteq> st}"
    if "t \<in> set (rd_tiles db)" "rt_ReleaseID t \<notin> rl_ID ` {r \<in> set (rd_releases db). rl_StackID r = st}" for t
    using inv that unfolding rel_inv_def by fastforce
  ultimately show ?thesis using inv unfolding rel_inv_def
    by (auto simp: delete_stack_def Let_def distinct_map intro: inj_on_subset)
qed

lemma rel_step_inv: "rel_step db db' \<Longrightarrow> rel_inv db \<Longrightarrow> rel_inv db'"
proof (induction rule: rel_step.induct)
  case (create db e st maker pins)
  then show ?case by (metis release_Create_inv prod.collapse)
next
  case (derive db e st baseID maker swap)
  then show ?case using Derive_is_Create release_Create_inv by (metis prod.collapse)
next
  case (message r db e cs msg)
  then show ?case by (metis SetMessage_inv prod.collapse)
qed (rule delete_stack_inv)

lemma rel_reachable_inv: "rel_reachable db \<Longrightarrow> rel_inv db"
  by (induction rule: rel_reachable.induct) (simp add: rel_inv_def, rule rel_step_inv)

section \<open>Lemmas: what a release runs\<close>

lemma map_of_update_all:
  "map_of (foldl (\<lambda>m t. AList.update (k t) (v t) m) m ts) = map_of m ++ map_of (rev (map (\<lambda>t. (k t, v t)) ts))"
proof (induction ts arbitrary: m)
  case (Cons t ts)
  show ?case unfolding foldl_Cons Cons.IH
    by (rule ext) (simp add: update_conv' map_add_def split: option.split)
qed simp

lemma distinct_update_all: "snapshot_ok m \<Longrightarrow> snapshot_ok (foldl (\<lambda>m t. AList.update (k t) (v t) m) m ts)"
  by (induction ts arbitrary: m) (simp_all add: distinct_update)

lemma map_of_rev_eq: "distinct (map fst xs) \<Longrightarrow> map_of (rev xs) = map_of xs"
  by (rule map_of_inject_set [THEN iffD2]) (simp_all add: rev_map [symmetric])

lemma Pins_Inr: "Pins e db i = Inr m \<Longrightarrow> m = foldl (\<lambda>m t. AList.update (rt_Slug t) (pin_of t) m) [] (filter (\<lambda>t. rt_ReleaseID t = i) (rd_tiles db))"
  by (simp add: Pins_def ListByRelease_def split: option.splits)

lemma Pins_ok: "Pins e db i = Inr m \<Longrightarrow> snapshot_ok m"
  by (drule Pins_Inr) (simp add: distinct_update_all)

text \<open>Every pin is under its own slug.\<close>

definition own_slugs :: "snapshot \<Rightarrow> bool" where
  "own_slugs m \<longleftrightarrow> (\<forall>(s, p) \<in> set m. pn_Slug p = s)"

lemma own_slugs_update_all: "own_slugs m \<Longrightarrow> (\<And>t. pn_Slug (v t) = k t) \<Longrightarrow> own_slugs (foldl (\<lambda>m t. AList.update (k t) (v t) m) m ts)"
proof (induction ts arbitrary: m)
  case (Cons t ts)
  have "own_slugs (AList.update (k t) (v t) m)"
    using Cons.prems by (induction m) (auto simp: own_slugs_def split: if_splits)
  then show ?case using Cons by simp
qed simp

lemma Pins_own_slugs: "Pins e db i = Inr m \<Longrightarrow> own_slugs m"
proof -
  assume "Pins e db i = Inr m"
  then have "m = foldl (\<lambda>m t. AList.update (rt_Slug t) (pin_of t) m) [] (filter (\<lambda>t. rt_ReleaseID t = i) (rd_tiles db))" by (rule Pins_Inr)
  also have "own_slugs \<dots>" by (rule own_slugs_update_all) (simp_all add: own_slugs_def pin_of_def)
  finally show ?thesis .
qed

lemma own_slugs_snd: "own_slugs m \<Longrightarrow> map (\<lambda>p. (pn_Slug p, p)) (map snd m) = m"
  by (induction m) (auto simp: own_slugs_def)

lemma own_slugs_set: "own_slugs m \<Longrightarrow> set (map (\<lambda>p. (pn_Slug p, p)) (sort_key f (map snd m))) = set m"
  using own_slugs_snd [of m] by (metis set_map set_sort)

text \<open>What a successful \<^verbatim>\<open>Create\<close> wrote is read back as the pins it was given.\<close>

lemma Create_Pins:
  assumes inv: "rel_inv db" and c: "release_Create e db st maker pins = (db', r, None)" and e': "le_tiles e' = None"
  shows "\<exists>m. Pins e' db' (rl_ID r) = Inr m \<and> map_of m = map_of (map (\<lambda>p. (pn_Slug p, p)) pins)"
  using c
proof (cases rule: release_Create_cases)
  case (made db1)
  obtain ts where w: "rd_tiles db' = rd_tiles db @ ts" "map pin_of ts = pins" "\<forall>t \<in> set ts. rt_ReleaseID t = rl_ID r \<and> rt_Slug t = pn_Slug (pin_of t)"
    using create_tiles_writes [OF made(7)] made(6) by auto
  have "\<forall>t \<in> set (rd_tiles db). rt_ReleaseID t \<noteq> rl_ID r" using rel_inv_tile [OF inv] made(2) by metis
  then have "filter (\<lambda>t. rt_ReleaseID t = rl_ID r) (rd_tiles db') = ts" using w by (simp add: filter_empty_conv)
  then have p: "Pins e' db' (rl_ID r) = Inr (foldl (\<lambda>m t. AList.update (rt_Slug t) (pin_of t) m) [] ts)"
    by (simp add: Pins_def ListByRelease_def e')
  have "map (\<lambda>t. (rt_Slug t, pin_of t)) ts = map (\<lambda>p. (pn_Slug p, p)) pins" using w(2,3) by auto
  moreover have "distinct (map fst (map (\<lambda>p. (pn_Slug p, p)) pins))" using made(1) by (simp add: check_pins_None comp_def)
  ultimately have "map_of (foldl (\<lambda>m t. AList.update (rt_Slug t) (pin_of t) m) [] ts) = map_of (map (\<lambda>p. (pn_Slug p, p)) pins)"
    unfolding map_of_update_all using map_of_rev_eq [of "map (\<lambda>p. (pn_Slug p, p)) pins"] by simp
  then show ?thesis using p by blast
qed simp

lemma Create_number:
  assumes inv: "rel_inv db" and c: "release_Create e db st maker pins = (db', r, None)" and small: "int (length (stack_numbers db st)) < 2 ^ 63 - 1"
  shows "rl_Number r = int (length (stack_numbers db st)) + 1 \<and> rl_StackID r = st \<and> r \<in> set (rd_releases db')"
  using c
proof (cases rule: release_Create_cases)
  case (made db1)
  have "rl_Number r = int (length (stack_numbers db st)) + 1"
    using made(5) next_number [OF inv, of st] small int64_id [of "int (length (stack_numbers db st)) + 1"] by simp
  then show ?thesis using made(3,6) create_tiles_writes [OF made(7)] by simp
qed simp

lemma Derive_Inr:
  assumes "Derive e db st baseID maker swap = (db', r, None)"
  obtains b where "(if baseID \<noteq> [] then Pins e db baseID else Inr []) = Inr b"
    "release_Create e db st maker (sort_key pn_Slug (map snd (foldl (\<lambda>m p. AList.update (pn_Slug p) p m) b swap))) = (db', r, None)"
  using assms by (auto simp: Derive_def Let_def split: sum.splits)

section \<open>Properties: releases\<close>

text \<open>
  C9: A derived release runs what its base runs, with the swapped pins in place: a later swap of a slug wins over an earlier one, and a pin
  that is not swapped is the base's. Compared with its base it removes nothing and changes or adds only swapped slugs, so
  landing it restarts nothing else. Its number is above every number of its stack.
\<close>

theorem Derive_runs_base_with_swaps:
  assumes "rel_reachable db" "Derive e db st baseID maker swap = (db', r, None)"
    and "int (length (stack_numbers db st)) < 2 ^ 63 - 1" "le_tiles e' = None"
  shows "\<exists>b m. (if baseID \<noteq> [] then Pins e db baseID else Inr []) = Inr b \<and> Pins e' db' (rl_ID r) = Inr m
     \<and> map_of m = map_of b ++ map_of (rev (map (\<lambda>p. (pn_Slug p, p)) swap))
     \<and> rc_Slug ` set (Diff b m) \<subseteq> pn_Slug ` set swap \<and> ''removed'' \<notin> rc_Kind ` set (Diff b m)
     \<and> rl_StackID r = st \<and> Max (insert 0 (set (stack_numbers db st))) < rl_Number r"
proof -
  note inv = rel_reachable_inv [OF assms(1)]
  obtain b where b: "(if baseID \<noteq> [] then Pins e db baseID else Inr []) = Inr b"
    and c: "release_Create e db st maker (sort_key pn_Slug (map snd (foldl (\<lambda>m p. AList.update (pn_Slug p) p m) b swap))) = (db', r, None)"
    using Derive_Inr [OF assms(2)] by blast
  let ?m = "foldl (\<lambda>m p. AList.update (pn_Slug p) p m) b swap"
  have ok: "snapshot_ok b" "own_slugs b" using b Pins_ok Pins_own_slugs by (auto simp: own_slugs_def split: if_splits)
  have m_ok: "snapshot_ok ?m" "own_slugs ?m" using ok distinct_update_all own_slugs_update_all [of b "\<lambda>p. p" pn_Slug] by simp_all
  have set_m: "set (map (\<lambda>p. (pn_Slug p, p)) (sort_key pn_Slug (map snd ?m))) = set ?m" by (rule own_slugs_set [OF m_ok(2)])
  obtain m where m: "Pins e' db' (rl_ID r) = Inr m" "map_of m = map_of (map (\<lambda>p. (pn_Slug p, p)) (sort_key pn_Slug (map snd ?m)))"
    using Create_Pins [OF inv c assms(4)] by blast
  have keys: "distinct (map fst (map (\<lambda>p. (pn_Slug p, p)) (sort_key pn_Slug (map snd ?m))))"
    using c by (cases rule: release_Create_cases) (simp_all add: check_pins_None comp_def)
  have eq: "map_of m = map_of ?m" unfolding m(2) by (rule map_of_inject_set [THEN iffD2]) (use keys m_ok set_m in blast)+
  then have over: "map_of m = map_of b ++ map_of (rev (map (\<lambda>p. (pn_Slug p, p)) swap))"
    using map_of_update_all [of pn_Slug "\<lambda>p. p" b swap] by simp
  have "rc_Slug x \<in> pn_Slug ` set swap \<and> rc_Kind x \<noteq> ''removed''" if "x \<in> set (Diff b m)" for x
  proof (cases "map_of (rev (map (\<lambda>p. (pn_Slug p, p)) swap)) (rc_Slug x)")
    case None
    then have "map_of m (rc_Slug x) = map_of b (rc_Slug x)" by (simp add: over map_add_def)
    then show ?thesis using that in_Diff [OF ok(1) Pins_ok [OF m(1)]] by (simp add: change_kind_def runs_same_def same_image_def split: option.splits)
  next
    case (Some p)
    then have "rc_Slug x \<in> pn_Slug ` set swap" by (force dest: map_of_SomeD)
    moreover have "map_of m (rc_Slug x) = Some p" using Some by (simp add: over)
    ultimately show ?thesis using that in_Diff [OF ok(1) Pins_ok [OF m(1)]] by (auto simp: change_kind_def split: option.splits if_splits)
  qed
  note each = this
  have diff: "rc_Slug ` set (Diff b m) \<subseteq> pn_Slug ` set swap" "''removed'' \<notin> rc_Kind ` set (Diff b m)"
  proof -
    show "rc_Slug ` set (Diff b m) \<subseteq> pn_Slug ` set swap" by (rule image_subsetI) (rule each [THEN conjunct1])
    show "''removed'' \<notin> rc_Kind ` set (Diff b m)"
      by (rule notI, erule imageE, drule each) (erule conjE, erule notE, erule sym)
  qed
  note n = Create_number [OF inv c assms(3)]
  have "set (stack_numbers db st) = {1..int (length (stack_numbers db st))}" using rel_inv_numbers [OF inv] assms(3) by simp
  then have "k < rl_Number r" if "k \<in> set (stack_numbers db st)" for k using that n by (simp del: set_map length_map)
  moreover have "0 < rl_Number r" using n by simp
  ultimately have "Max (insert 0 (set (stack_numbers db st))) < rl_Number r"
    by (subst Max_less_iff) (simp_all only: finite_insert finite_set, blast+)
  with n show ?thesis by (intro exI [of _ b] exI [of _ m] conjI b m(1) over diff) simp_all
qed

definition ex_rel_env :: "string \<Rightarrow> rel_env" where
  "ex_rel_env i = \<lparr>le_get = None, le_list = None, le_create = None, le_update = None, le_tile = (\<lambda>_. None), le_tiles = None, le_commits = None,
     le_uuid = i, le_tile_uuid = (\<lambda>k. i @ ''-'' @ nat_str k), le_now = 0\<rparr>"

definition ex_rel_db :: rel_db where
  "ex_rel_db = fst (Derive (ex_rel_env ''r1'') \<lparr>rd_releases = [], rd_tiles = []\<rparr> ''s'' [] ''user:u'' [ex_pin ''web'' ''sha256:a'', ex_pin ''db'' ''sha256:b''])"

lemma ex_rel_reachable: "rel_reachable ex_rel_db"
  unfolding ex_rel_db_def by (rule rel_reachable.step [OF rel_reachable.start rel_step.derive])

definition ex_derived :: "rel_db \<times> release \<times> error" where
  "ex_derived = Derive (ex_rel_env ''r2'') ex_rel_db ''s'' ''r1'' ''image-watch'' [ex_pin ''web'' ''sha256:c'']"

theorem Derive_runs_base_with_swaps_witness:
  "rl_Number (fst (snd ex_derived)) = 2 \<and>
   (\<exists>b m. Pins (ex_rel_env ''r2'') ex_rel_db ''r1'' = Inr b \<and> Pins (ex_rel_env []) (fst ex_derived) (rl_ID (fst (snd ex_derived))) = Inr m
     \<and> map_of m = map_of b ++ map_of (rev [(''web'', ex_pin ''web'' ''sha256:c'')])
     \<and> rc_Slug ` set (Diff b m) \<subseteq> {''web''})"
proof
  show "rl_Number (fst (snd ex_derived)) = 2" by code_simp
  have d: "Derive (ex_rel_env ''r2'') ex_rel_db ''s'' ''r1'' ''image-watch'' [ex_pin ''web'' ''sha256:c''] = (fst ex_derived, fst (snd ex_derived), None)"
  proof -
    have "snd (snd ex_derived) = None" by code_simp
    then show ?thesis unfolding ex_derived_def by (simp add: prod_eq_iff)
  qed
  have l: "int (length (stack_numbers ex_rel_db ''s'')) < 2 ^ 63 - 1" by code_simp
  have e: "le_tiles (ex_rel_env []) = None" by (simp add: ex_rel_env_def)
  show "\<exists>b m. Pins (ex_rel_env ''r2'') ex_rel_db ''r1'' = Inr b \<and> Pins (ex_rel_env []) (fst ex_derived) (rl_ID (fst (snd ex_derived))) = Inr m
     \<and> map_of m = map_of b ++ map_of (rev [(''web'', ex_pin ''web'' ''sha256:c'')]) \<and> rc_Slug ` set (Diff b m) \<subseteq> {''web''}"
  proof -
    have w: "pn_Slug (ex_pin ''web'' ''sha256:c'') = ''web''" by (simp add: ex_pin_def)
    then have m: "map (\<lambda>p. (pn_Slug p, p)) [ex_pin ''web'' ''sha256:c''] = [(''web'', ex_pin ''web'' ''sha256:c'')]" by simp
    have k: "pn_Slug ` set [ex_pin ''web'' ''sha256:c''] = {''web''}" using w by simp
    have b: "(if ''r1'' \<noteq> [] then Pins (ex_rel_env ''r2'') ex_rel_db ''r1'' else Inr []) = Pins (ex_rel_env ''r2'') ex_rel_db ''r1''" by simp
    show ?thesis using Derive_runs_base_with_swaps [OF ex_rel_reachable d l e] unfolding m k b by (elim exE conjE) (intro exI conjI)
  qed
qed

text \<open>
  C37: The numbers of a stack's releases are 1 to n, each once, whatever was created, failed, named or deleted before; every release pins a slug
  once, and a digest it pins is a sha256 one. So two releases never share a number, and a release number names one snapshot.
\<close>

theorem release_numbers_have_no_gap:
  assumes "rel_reachable db" "int (length (stack_numbers db st)) < 2 ^ 63"
  shows "distinct (stack_numbers db st) \<and> set (stack_numbers db st) = {1..int (length (stack_numbers db st))}
     \<and> (\<forall>t \<in> set (rd_tiles db). rt_Slug t \<noteq> [] \<and> digest_ok (rt_Digest t))
     \<and> distinct (map (\<lambda>t. (rt_ReleaseID t, rt_Slug t)) (rd_tiles db))"
proof -
  note inv = rel_reachable_inv [OF assms(1)]
  show ?thesis using rel_inv_distinct [OF inv assms(2)] rel_inv_numbers [OF inv assms(2)] inv unfolding rel_inv_def by blast
qed

theorem release_numbers_have_no_gap_witness:
  "stack_numbers (fst ex_derived) ''s'' = [1, 2] \<and> distinct (stack_numbers (fst ex_derived) ''s'')"
proof
  have r: "rel_reachable (fst ex_derived)" unfolding ex_derived_def by (rule rel_reachable.step [OF ex_rel_reachable rel_step.derive])
  have l: "int (length (stack_numbers (fst ex_derived) ''s'')) < 2 ^ 63" by code_simp
  show "stack_numbers (fst ex_derived) ''s'' = [1, 2]" by code_simp
  show "distinct (stack_numbers (fst ex_derived) ''s'')" using release_numbers_have_no_gap [OF r l] by blast
qed

lemma Pins_cong:
  "filter (\<lambda>t. rt_ReleaseID t = i) (rd_tiles db') = filter (\<lambda>t. rt_ReleaseID t = i) (rd_tiles db) \<Longrightarrow> Pins e db' i = Pins e db i"
  unfolding Pins_def ListByRelease_def by (rule arg_cong) simp

lemma Pins_append:
  assumes "\<forall>t \<in> set ts. rt_ReleaseID t \<noteq> i" "rd_tiles db' = rd_tiles db @ ts"
  shows "Pins e db' i = Pins e db i"
proof -
  have "filter (\<lambda>t. rt_ReleaseID t = i) ts = []" using assms(1) by (simp add: filter_empty_conv)
  then show ?thesis using assms(2) by (intro Pins_cong) simp
qed

lemma Create_keeps_Pins:
  assumes c: "release_Create e db st maker pins = (db', r', er)" and i: "i \<in> rl_ID ` set (rd_releases db)"
  shows "Pins x db' i = Pins x db i"
  using c
proof (cases rule: release_Create_cases)
  case (made db1)
  obtain ts where "rd_tiles db' = rd_tiles db @ ts" "\<forall>t \<in> set ts. rt_ReleaseID t = rl_ID r'"
    using create_tiles_writes [OF made(7)] made(6) by auto
  then show ?thesis using made(2) i by (intro Pins_append) auto
qed simp

text \<open>
  C36: What a release runs never changes: a step of the leaf (a create that fails half way too) leaves the pins
  of every release that was there and still is. A rollback to a release is a return to what it ran.
\<close>

theorem pins_are_frozen:
  assumes "rel_step db db'" "r \<in> set (rd_releases db)" "rl_ID r \<in> rl_ID ` set (rd_releases db')" "rel_reachable db"
  shows "Pins e db' (rl_ID r) = Pins e db (rl_ID r)"
  using assms
proof (cases rule: rel_step.cases)
  case (create e' st maker pins)
  then show ?thesis using Create_keeps_Pins assms(2) by (metis image_eqI prod.collapse)
next
  case (derive e' st baseID maker swap)
  then show ?thesis using Create_keeps_Pins Derive_is_Create assms(2) by (metis image_eqI prod.collapse)
next
  case (message r' e' cs msg)
  obtain a b c where s: "SetMessage e' db (with_commit cs r') msg = (a, b, c)" using prod_cases3 by blast
  then have "rd_tiles db' = rd_tiles db" using SetMessage_shape [OF s] message(1) by (elim conjE disjE) simp_all
  then show ?thesis by (intro Pins_cong) simp
next
  case (delete st)
  have "rl_StackID r \<noteq> st"
  proof
    assume s: "rl_StackID r = st"
    obtain q where q: "q \<in> set (rd_releases db)" "rl_StackID q \<noteq> st" "rl_ID q = rl_ID r"
      using assms(3) delete by (auto simp: delete_stack_def Let_def)
    then have "q = r" using rel_reachable_inv [OF assms(4)] assms(2) by (auto simp: rel_inv_def distinct_map inj_on_def)
    then show False using q(2) s by simp
  qed
  then have "rl_ID r \<notin> rl_ID ` {r \<in> set (rd_releases db). rl_StackID r = st}"
    using rel_reachable_inv [OF assms(4)] assms(2) by (auto simp: rel_inv_def distinct_map inj_on_def)
  then have "filter (\<lambda>t. rt_ReleaseID t = rl_ID r) (rd_tiles db') = filter (\<lambda>t. rt_ReleaseID t = rl_ID r) (rd_tiles db)"
    unfolding delete delete_stack_def Let_def rel_db.select_convs filter_filter by (intro filter_cong refl) metis
  then show ?thesis by (rule Pins_cong)
qed

theorem pins_are_frozen_witness:
  "rd_releases ex_rel_db \<noteq> [] \<and> Pins (ex_rel_env []) (fst ex_derived) ''r1'' = Pins (ex_rel_env []) ex_rel_db ''r1''"
proof
  let ?r = "hd (rd_releases ex_rel_db)"
  have s: "rel_step ex_rel_db (fst ex_derived)" unfolding ex_derived_def by (rule rel_step.derive)
  have "?r \<in> set (rd_releases ex_rel_db)" "rl_ID ?r \<in> rl_ID ` set (rd_releases (fst ex_derived))" "rl_ID ?r = ''r1''" by code_simp+
  then show "Pins (ex_rel_env []) (fst ex_derived) ''r1'' = Pins (ex_rel_env []) ex_rel_db ''r1''"
    using pins_are_frozen [OF s _ _ ex_rel_reachable, of ?r] by simp
  show "rd_releases ex_rel_db \<noteq> []" by code_simp
qed

section \<open>Messages and lists\<close>

lemma decode_rune_width: "snd (decode_rune b bs) \<le> 3"
  by (simp add: decode_rune_def split: list.splits)

lemma length_runes_of: "length bs \<le> 4 * length (runes_of bs)"
proof (induction bs rule: runes_of.induct)
  case (2 b bs)
  then show ?case using decode_rune_width [of b bs] by simp
qed simp

lemma decode_rune_ascii: "fst (decode_rune b bs) < 128 \<Longrightarrow> fst (decode_rune b bs) = b"
proof -
  have 2: "128 \<le> fst (decode_rune b bs)" if "128 \<le> b"
  proof -
    consider "b < 0xC2" | "0xC2 \<le> b" "b \<le> 0xDF" | "b = 0xE0" | "0xE1 \<le> b" "b \<le> 0xEF" | "b = 0xF0" | "0xF1 \<le> b" "b \<le> 0xF4" | "0xF4 < b"
      by linarith
    then show ?thesis
    proof cases
      case 1
      then show ?thesis using that by (simp add: decode_rune_def rune_error_def)
    next
      case 2
      then have "2 * 64 \<le> (b - 192) * 64" by (intro mult_le_mono1) simp
      then show ?thesis using 2 by (simp add: decode_rune_def rune_error_def split: list.split)
    next
      case 3
      have "2048 \<le> (x - 128) * 64" if "160 \<le> x" for x :: nat using that by arith
      then show ?thesis using 3 by (simp add: decode_rune_def rune_error_def is_cont_def split: list.split) fastforce
    next
      case 4
      then have "1 * 4096 \<le> (b - 224) * 4096" by (intro mult_le_mono1) simp
      then show ?thesis using 4 by (simp add: decode_rune_def rune_error_def split: list.split)
    next
      case 5
      have "128 \<le> (x - 128) * 4096 + (y - 128) * 64 + z - 128" if "144 \<le> x" for x y z :: nat using that by arith
      then show ?thesis using 5 by (simp add: decode_rune_def rune_error_def is_cont_def split: list.split)
    next
      case 6
      then have "1 * 262144 \<le> (b - 240) * 262144" by (intro mult_le_mono1) simp
      then show ?thesis using 6 by (simp add: decode_rune_def rune_error_def split: list.split)
    next
      case 7
      then show ?thesis by (simp add: decode_rune_def rune_error_def)
    qed
  qed
  assume "fst (decode_rune b bs) < 128"
  then have "b < 128" using 2 by linarith
  then show "fst (decode_rune b bs) = b" by (simp add: decode_rune_def)
qed

lemma runes_of_ascii: "r \<in> set (runes_of bs) \<Longrightarrow> r < 128 \<Longrightarrow> r \<in> set bs"
proof (induction bs rule: runes_of.induct)
  case (2 b bs)
  show ?case
  proof (cases "r = fst (decode_rune b bs)")
    case True
    then show ?thesis using decode_rune_ascii 2(3) by simp
  next
    case False
    then show ?thesis using 2 by (auto dest: in_set_dropD)
  qed
qed simp

definition plain_byte :: "nat \<Rightarrow> bool" where
  "plain_byte b \<longleftrightarrow> 0x20 \<le> b \<and> b \<noteq> 0x7F"

lemma encode_rune_bytes:
  "length (encode_rune r) \<le> 4" "b \<in> set (encode_rune r) \<Longrightarrow> b < 256" "b \<in> set (encode_rune r) \<Longrightarrow> plain_byte r \<Longrightarrow> plain_byte b"
proof -
  show "length (encode_rune r) \<le> 4" by (simp add: encode_rune_def)
  have small: "r div 64 < 32" if "r < 0x800" using that by (simp add: div_less_iff_less_mult)
  have mid: "r div 4096 < 16" if "r < 0x10000" using that by (simp add: div_less_iff_less_mult)
  have big: "r div 262144 < 5" if "r \<le> 0x10FFFF" using that by (simp add: div_less_iff_less_mult)
  have m: "x mod 64 < 64" for x :: nat by simp
  show "b \<in> set (encode_rune r) \<Longrightarrow> b < 256"
    using small mid big m [of r] m [of "r div 64"] m [of "r div 4096"]
    by (simp add: encode_rune_def split: if_splits) (elim disjE; linarith)+
  show "b \<in> set (encode_rune r) \<Longrightarrow> plain_byte r \<Longrightarrow> plain_byte b"
    by (simp add: encode_rune_def plain_byte_def split: if_splits) (elim disjE; simp)+
qed

lemma length_string_of: "length (string_of rs) \<le> 4 * length rs"
proof (induction rs)
  case (Cons r rs)
  then show ?case using encode_rune_bytes(1) [of r] by (simp add: string_of_def)
qed (simp add: string_of_def)

lemma string_of_plain: "\<forall>r \<in> set rs. plain_byte r \<Longrightarrow> c \<in> set (string_of rs) \<Longrightarrow> plain_byte (of_char c)"
  using encode_rune_bytes(2,3) by (fastforce simp: string_of_def)

lemma strip_one_suffix: "strip_one seqs s = Some s' \<Longrightarrow> set s' \<subseteq> set s"
  by (auto simp: strip_one_def dest: in_set_dropD split: list.splits if_splits option.splits)

lemma strip_rounds_set: "set (strip_rounds n seqs s) \<subseteq> set s"
proof (induction n seqs s rule: strip_rounds.induct)
  case (2 n seqs s)
  then show ?case using strip_one_suffix [of seqs s] by (fastforce split: option.splits)
qed simp

lemma strip_one_length: "strip_one seqs s = Some s' \<Longrightarrow> length s' \<le> length s"
  by (auto simp: strip_one_def split: list.splits if_splits option.splits)

lemma strip_rounds_length: "length (strip_rounds n seqs s) \<le> length s"
proof (induction n seqs s rule: strip_rounds.induct)
  case (2 n seqs s)
  then show ?case using strip_one_length [of seqs s] by (fastforce split: option.splits)
qed simp

lemma trim_space_within: "set (trim_space s) \<subseteq> set s \<and> length (trim_space s) \<le> length s"
proof -
  define u where "u = strip_rounds (length s) unicode_spaces s"
  have "trim_space s = rev (strip_rounds (length u) (map rev unicode_spaces) (rev u))"
    by (simp add: trim_space_def trim_left_space_def u_def)
  moreover have "set u \<subseteq> set s" "length u \<le> length s" unfolding u_def by (rule strip_rounds_set strip_rounds_length)+
  ultimately show ?thesis
    using strip_rounds_set [of "length u" "map rev unicode_spaces" "rev u"] strip_rounds_length [of "length u" "map rev unicode_spaces" "rev u"] by simp
qed

text \<open>A stored message is one line of at most 800 bytes (200 runes) without ASCII control characters.\<close>

theorem stored_message_fits:
  assumes "SetMessage e db r msg = (db', r', None)" "message_line msg \<noteq> []"
  shows "length (rl_Message r') \<le> 800 \<and> (\<forall>c \<in> set (rl_Message r'). plain_byte (of_char c))"
proof -
  define line where "line = (case cut_at (CHR 0x0A) (trim_space msg) of None \<Rightarrow> trim_space msg | Some (a, _) \<Rightarrow> a)"
  define m where "m = string_of (filter (\<lambda>r. \<not> is_control r) (runes line))"
  define rs where "rs = runes (trim_space m)"
  have l: "message_line msg = (if length rs > 200 then string_of (take 200 rs) else m)"
    by (simp add: message_line_def Let_def line_def m_def rs_def)
  have r': "rl_Message r' = trim_space (message_line msg)"
    using assms by (auto simp: SetMessage_def Let_def split: prod.splits)
  have "plain_byte r" if "\<not> is_control r" for r using that by (auto simp: is_control_def plain_byte_def)
  then have "\<forall>r \<in> set (filter (\<lambda>r. \<not> is_control r) (runes line)). plain_byte r" by simp
  then have m_plain: "\<forall>c \<in> set m. plain_byte (of_char c)" unfolding m_def using string_of_plain by blast
  have "plain_byte r" if "r \<in> set rs" for r
  proof (cases "r < 128")
    case True
    then have "r \<in> of_char ` set (trim_space m)" using that runes_of_ascii unfolding rs_def runes_def by fastforce
    then show ?thesis using m_plain trim_space_within [of m] by auto
  qed (simp add: plain_byte_def)
  then have "\<forall>r \<in> set (take 200 rs). plain_byte r" by (meson in_set_takeD)
  then have "\<forall>c \<in> set (message_line msg). plain_byte (of_char c)" using l m_plain string_of_plain by metis
  moreover have "length (trim_space (message_line msg)) \<le> 800"
  proof (cases "length rs > 200")
    case True
    then have "length (message_line msg) \<le> 800" using l length_string_of [of "take 200 rs"] by simp
    then show ?thesis using trim_space_within order_trans by blast
  next
    case False
    then show ?thesis using l length_runes_of [of "map of_char (trim_space m)"] by (simp add: rs_def runes_def)
  qed
  ultimately show ?thesis unfolding r' using trim_space_within by blast
qed

text \<open>A message with nothing to show is not the no-op the comment promises: it erases the one that is stored.\<close>

theorem blank_message_erases:
  "let named = fst (SetMessage (ex_rel_env []) ex_rel_db (hd (rd_releases ex_rel_db)) ''first'');
       blanked = fst (SetMessage (ex_rel_env []) named (hd (rd_releases named)) [CHR 0x01, CHR '' '', CHR 0x01])
   in rl_Message (hd (rd_releases named)) = ''first'' \<and> rl_Message (hd (rd_releases blanked)) = []"
  by code_simp

text \<open>The list shows the newest release first.\<close>

theorem List_newest_first:
  assumes "rel_reachable db" "int (length (stack_numbers db st)) < 2 ^ 63" "release_List e db st = (rs, None)"
  shows "sorted_wrt (\<lambda>a b. rl_Number b < rl_Number a) rs \<and> set (map rl_Number rs) = {1..int (length rs)}"
proof -
  let ?rs = "filter (\<lambda>r. rl_StackID r = st) (rd_releases db)"
  obtain cs where rs: "rs = map (with_commit cs) (sort_key (\<lambda>r. - rl_Number r) ?rs)"
    using assms(3) by (auto simp: release_List_def ListByStack_def Let_def split: option.splits prod.splits)
  have n: "map rl_Number rs = map rl_Number (sort_key (\<lambda>r. - rl_Number r) ?rs)" by (simp add: rs with_commit_def)
  note inv = rel_reachable_inv [OF assms(1)]
  have num: "distinct (stack_numbers db st)" "set (stack_numbers db st) = {1..int (length ?rs)}"
    using rel_inv_distinct [OF inv assms(2)] rel_inv_numbers [OF inv assms(2)] by simp_all
  have "distinct (map (\<lambda>r. - rl_Number r) (sort_key (\<lambda>r. - rl_Number r) ?rs))"
    using num(1) unfolding distinct_map by (auto simp: inj_on_def)
  then have "sorted_wrt (<) (map (\<lambda>r. - rl_Number r) (sort_key (\<lambda>r. - rl_Number r) ?rs))" unfolding strict_sorted_iff by simp
  then have "sorted_wrt (\<lambda>a b. b < a) (map rl_Number rs)" unfolding n by (simp add: sorted_wrt_map)
  then show ?thesis using num(2) n by (simp add: sorted_wrt_map rs with_commit_def image_image)
qed

end
