(* ===== verification/Dns_Zone.thy ===== *)
theory Dns_Zone
  imports Errs Netip "HOL-Library.AList"
begin

text \<open>
  The names and values of \<^verbatim>\<open>internal/service/internal/leaf/dnscap\<close> (\<^verbatim>\<open>dnscap.go\<close>, \<^verbatim>\<open>records.go\<close>, \<^verbatim>\<open>custom.go\<close>): what a managed domain
  covers, when two records are one, what a custom record may be, what clashes, and the check under every
  write.  Unicode's case tables are parameters (\<open>uni\<close>); texts of ASCII characters are written out.

  Shown: \<open>Name\<close> and the full name are inverse, a host is in the domain with the longest name that covers it, and
  two values are one record's exactly when they have one key.  What \<open>checkWrite\<close> refuses is in \<open>Dns_Safety\<close>.
\<close>

section \<open>Model: text\<close>

record uni =
  u_lower :: "string \<Rightarrow> string"
  u_upper :: "string \<Rightarrow> string"
  u_fold :: "string \<Rightarrow> string \<Rightarrow> bool"

definition ascii :: "string \<Rightarrow> bool" where
  "ascii s \<longleftrightarrow> list_all (\<lambda>c. of_char c < (128::nat)) s"

abbreviation lower :: "uni \<Rightarrow> string \<Rightarrow> string" where
  "lower U \<equiv> to_lower (u_lower U)"

definition upper_char :: "char \<Rightarrow> char" where
  "upper_char c = (if CHR ''a'' \<le> c \<and> c \<le> CHR ''z'' then char_of (of_char c - 32 :: nat) else c)"

definition upper :: "uni \<Rightarrow> string \<Rightarrow> string" where
  "upper U s = (if ascii s then map upper_char s else u_upper U s)"

text \<open>\<^verbatim>\<open>strings.EqualFold\<close>.\<close>

definition eq_fold :: "uni \<Rightarrow> string \<Rightarrow> string \<Rightarrow> bool" where
  "eq_fold U a b = (if ascii a \<and> ascii b then map lower_char a = map lower_char b else u_fold U a b)"

text \<open>\<^verbatim>\<open>strings.Fields\<close>: a word ends before the next space.\<close>

fun take_word :: "string \<Rightarrow> string \<times> string" where
  "take_word [] = ([], [])"
| "take_word (c # cs) = (if strip_one unicode_spaces (c # cs) \<noteq> None then ([], c # cs)
     else let (w, r) = take_word cs in (c # w, r))"

fun word_rounds :: "nat \<Rightarrow> string \<Rightarrow> string list" where
  "word_rounds 0 s = []"
| "word_rounds (Suc n) s = (let t = trim_left_space unicode_spaces s in
     if t = [] then [] else let (w, r) = take_word t in w # word_rounds n r)"

definition str_fields :: "string \<Rightarrow> string list" where
  "str_fields s = word_rounds (length s) s"

section \<open>Model: domains and names\<close>

record custom_record =
  cr_ID :: string
  cr_Name :: string
  cr_Type :: string
  cr_Value :: string

record dns_domain =
  dd_ID :: string
  dd_ConnectorID :: string
  dd_OrgID :: "string option"
  dd_Name :: string
  dd_ShareAll :: bool
  dd_OrgIDs :: "string list"
  dd_ResourceID :: "string option"
  dd_Scope :: string
  dd_CreatedAt :: int
  dd_Records :: "custom_record list"

record dns_record =
  dr_ID :: string
  dr_DNSDomainID :: "string option"
  dr_Zone :: string
  dr_Name :: string
  dr_Type :: string
  dr_Value :: string
  dr_TTL :: int
  dr_DomainID :: "string option"
  dr_Adopted :: bool
  dr_CreatedAt :: int
  dr_Kind :: string
  dr_PutBackAt :: "int option"
  dr_HandedBackAt :: "int option"

definition RecordApp :: string where "RecordApp = ''app''"
definition RecordName :: string where "RecordName = ''name''"
definition RecordCustom :: string where "RecordCustom = ''custom''"

definition Normal :: "uni \<Rightarrow> string \<Rightarrow> string" where
  "Normal U d = lower U (trim_suffix ''.'' (trim_space d))"

definition Under :: "dns_domain \<Rightarrow> string" where
  "Under d = (if dd_Scope d \<noteq> [] then dd_Scope d else dd_Name d)"

definition alnum :: "char \<Rightarrow> bool" where
  "alnum c \<longleftrightarrow> CHR ''a'' \<le> c \<and> c \<le> CHR ''z'' \<or> is_digit c"

text \<open>The labels of the three regular expressions: \<open>mid\<close> are the characters that may stand inside, beside letters and digits.\<close>

definition label_re :: "char list \<Rightarrow> string \<Rightarrow> bool" where
  "label_re mid l \<longleftrightarrow> l \<noteq> [] \<and> alnum (hd l) \<and> alnum (last l) \<and> length l \<le> 63 \<and> list_all (\<lambda>c. alnum c \<or> c \<in> set mid) l"

definition labelRE :: "string \<Rightarrow> bool" where
  "labelRE = label_re ''-''"

definition hostLabelRE :: "string \<Rightarrow> bool" where
  "hostLabelRE = label_re ''-''"

definition nameLabelRE :: "string \<Rightarrow> bool" where
  "nameLabelRE l \<longleftrightarrow> l = ''*'' \<or> label_re ''_-'' (if l \<noteq> [] \<and> hd l = CHR ''_'' then tl l else l)"

definition Scope :: "uni \<Rightarrow> string \<Rightarrow> string \<Rightarrow> err + string" where
  "Scope U zone0 scope0 =
     (let zone = Normal U zone0; scope = Normal U scope0; sub = trim_suffix (''.'' @ zone) scope in
      if scope = [] \<or> scope = zone then Inr []
      else if \<not> has_suffix (''.'' @ zone) scope then Inl (Invalidf ''under'' ''%s is not under %s.'' [scope, zone])
      else if \<exists>l \<in> set (split_on (CHR ''.'') sub). \<not> labelRE l
      then Inl (Invalidf ''under'' ''Use letters, digits and dashes, dot between names.'' [])
      else Inr scope)"

definition Name :: "uni \<Rightarrow> string \<Rightarrow> string \<Rightarrow> string" where
  "Name U host0 zone0 =
     (let host = Normal U host0; zone = Normal U zone0 in
      if host = zone then ''@''
      else if has_suffix (''.'' @ zone) host then trim_suffix (''.'' @ zone) host
      else [])"

definition ZoneOf :: "uni \<Rightarrow> string \<Rightarrow> dns_domain list \<Rightarrow> dns_domain option" where
  "ZoneOf U host zones =
     foldl (\<lambda>best z. if Name U host (Under z) \<noteq> [] \<and> length (dd_Name z) > (case best of None \<Rightarrow> 0 | Some b \<Rightarrow> length (dd_Name b))
        then Some z else best) None zones"

definition fqdn :: "string \<Rightarrow> string \<Rightarrow> string" where
  "fqdn zone name = (if name = ''@'' then zone else name @ ''.'' @ zone)"

definition InScope :: "uni \<Rightarrow> dns_domain \<Rightarrow> string \<Rightarrow> bool" where
  "InScope U d name \<longleftrightarrow> Name U (fqdn (dd_Name d) name) (Under d) \<noteq> []"

definition MayUse :: "dns_domain \<Rightarrow> string \<Rightarrow> bool" where
  "MayUse d orgID = (case dd_OrgID d of Some o' \<Rightarrow> o' = orgID | None \<Rightarrow> dd_ShareAll d \<or> orgID \<in> set (dd_OrgIDs d))"

section \<open>Model: records\<close>

record rr =
  x_Name :: string
  x_Type :: string
  x_Data :: string
  x_TTL :: int

definition TTL :: int where "TTL = 300"

definition mk_rr :: "string \<Rightarrow> string \<Rightarrow> string \<Rightarrow> rr" where
  "mk_rr name typ data = \<lparr>x_Name = name, x_Type = typ, x_Data = data, x_TTL = TTL\<rparr>"

definition sameData :: "uni \<Rightarrow> string \<Rightarrow> string \<Rightarrow> string \<Rightarrow> bool" where
  "sameData U typ a b =
     (let t = upper U typ in
      if t = ''CNAME'' \<or> t = ''MX'' then eq_fold U (trim_suffix ''.'' a) (trim_suffix ''.'' b)
      else if t = ''A'' \<or> t = ''AAAA''
      then (case (ParseAddr a, ParseAddr b) of (Some x, Some y) \<Rightarrow> x = y | _ \<Rightarrow> a = b)
      else a = b)"

definition valueKey :: "uni \<Rightarrow> string \<Rightarrow> string \<Rightarrow> string" where
  "valueKey U typ v =
     (let t = upper U typ in
      if t = ''CNAME'' \<or> t = ''MX'' then trim_suffix ''.'' (lower U v)
      else if t = ''A'' \<or> t = ''AAAA'' then (case ParseAddr v of Some a \<Rightarrow> addr_String a | None \<Rightarrow> v)
      else v)"

definition blocks :: "uni \<Rightarrow> rr \<Rightarrow> string \<Rightarrow> bool" where
  "blocks U r name \<longleftrightarrow> eq_fold U (x_Name r) name \<and> (x_Type r = ''A'' \<or> x_Type r = ''AAAA'' \<or> x_Type r = ''CNAME'')"

definition ours :: "uni \<Rightarrow> rr \<Rightarrow> dns_record list \<Rightarrow> string \<Rightarrow> bool" where
  "ours U r rows zone \<longleftrightarrow> (\<exists>x \<in> set rows. dr_Zone x = zone \<and> eq_fold U (dr_Name x) (x_Name r) \<and> dr_Type x = x_Type r
     \<and> sameData U (dr_Type x) (dr_Value x) (x_Data r))"

definition foreign :: "uni \<Rightarrow> rr list \<Rightarrow> dns_record list \<Rightarrow> string \<Rightarrow> string \<Rightarrow> rr list" where
  "foreign U live rows zone name = filter (\<lambda>r. blocks U r name \<and> \<not> ours U r rows zone) live"

definition Addresses :: "rr list \<Rightarrow> rr list" where
  "Addresses = filter (\<lambda>x. x_Type x = ''A'' \<or> x_Type x = ''AAAA'' \<or> x_Type x = ''CNAME'')"

record dns_ref =
  rf_Name :: string
  rf_Type :: string
  rf_Value :: string

definition Adoptable :: "uni \<Rightarrow> rr list \<Rightarrow> dns_record list \<Rightarrow> string \<Rightarrow> string list \<Rightarrow> dns_ref list" where
  "Adoptable U live rows zone ips =
     map (\<lambda>r. \<lparr>rf_Name = x_Name r, rf_Type = x_Type r, rf_Value = x_Data r\<rparr>)
      (filter (\<lambda>r. (x_Type r = ''A'' \<or> x_Type r = ''AAAA'') \<and> x_Data r \<in> set ips \<and> CHR ''*'' \<notin> set (x_Name r) \<and> \<not> ours U r rows zone) live)"

definition HandBack :: "uni \<Rightarrow> dns_domain \<Rightarrow> dns_record list \<Rightarrow> dns_record list" where
  "HandBack U d rows = filter (\<lambda>r. dr_Zone r = dd_Name d \<and> \<not> InScope U d (dr_Name r)) rows"

section \<open>Model: errors of the package\<close>

datatype dns_err =
    DErr err
  | RecordTaken "string list"
  | ZoneError string dns_err
  | OutsideScope string "string list"
  | RecordClash string string "string list"
  | DJoined "dns_err list"

type_synonym dns_error = "dns_err option"

definition dns_Join :: "dns_err list \<Rightarrow> dns_error" where
  "dns_Join es = (if es = [] then None else Some (DJoined es))"

text \<open>\<^verbatim>\<open>errors.Is(err, errs.ErrRefused)\<close>.\<close>

fun dns_refused :: "dns_err \<Rightarrow> bool" where
  "dns_refused (DErr e) = Is_ErrRefused e"
| "dns_refused (ZoneError z e) = dns_refused e"
| "dns_refused (OutsideScope z rs) = True"
| "dns_refused (DJoined es) = (\<exists>e \<in> set es. dns_refused e)"
| "dns_refused e = False"

section \<open>Model: the check under every write\<close>

definition same_rr :: "uni \<Rightarrow> rr \<Rightarrow> rr \<Rightarrow> bool" where
  "same_rr U a b \<longleftrightarrow> eq_fold U (x_Name a) (x_Name b) \<and> eq_fold U (x_Type a) (x_Type b) \<and> sameData U (x_Type a) (x_Data a) (x_Data b)"

definition in_rrs :: "uni \<Rightarrow> rr list \<Rightarrow> rr \<Rightarrow> bool" where
  "in_rrs U rs x \<longleftrightarrow> (\<exists>r \<in> set rs. same_rr U r x)"

definition checkWrite :: "uni \<Rightarrow> dns_domain \<Rightarrow> rr list \<Rightarrow> rr list \<Rightarrow> rr list \<Rightarrow> (rr \<Rightarrow> bool) \<Rightarrow> dns_error" where
  "checkWrite U d live del put mine =
     (let told = (\<lambda>x. x_Type x @ '' '' @ fqdn (dd_Name d) (x_Name x) @ '' '' @ x_Data x);
          bad = map told (filter (\<lambda>x. in_rrs U del x \<and> (\<not> InScope U d (x_Name x) \<or> \<not> mine x)) live)
              @ map told (filter (\<lambda>x. \<not> in_rrs U live x \<and> \<not> InScope U d (x_Name x)) put)
      in if bad \<noteq> [] then Some (OutsideScope (dd_Name d) bad) else None)"

section \<open>Model: custom records\<close>

definition CustomTypes :: "string list" where
  "CustomTypes = [''TXT'', ''MX'', ''CNAME'', ''A'', ''AAAA'']"

definition CustomName :: "uni \<Rightarrow> string \<Rightarrow> err + string" where
  "CustomName U name0 =
     (let name = trim_set ''.'' (lower U (trim_space name0)) in
      if name = [] \<or> name = ''@'' then Inr []
      else if \<exists>l \<in> set (split_on (CHR ''.'') name). \<not> nameLabelRE l
      then Inl (Invalidf ''name'' ''Use letters, digits, dashes and underscores, dot between names.'' [])
      else Inr name)"

definition targetHost :: "uni \<Rightarrow> string \<Rightarrow> string option" where
  "targetHost U v0 =
     (let v = trim_suffix ''.'' (lower U v0) in
      if v = [] \<or> CHR ''.'' \<notin> set v then None
      else if \<exists>l \<in> set (split_on (CHR ''.'') v). \<not> hostLabelRE l \<and> \<not> nameLabelRE l then None else Some v)"

definition CustomValue :: "uni \<Rightarrow> string \<Rightarrow> string \<Rightarrow> err + (string \<times> string)" where
  "CustomValue U typ0 value0 =
     (let typ = upper U (trim_space typ0); value = trim_space value0 in
      if typ \<notin> set CustomTypes then Inl (Invalidf ''type'' ''Pick TXT, MX, CNAME, A or AAAA.'' [])
      else if typ = ''A'' then (case ParseAddr value of
          Some a \<Rightarrow> if Is4 a then Inr (typ, addr_String a) else Inl (Invalidf ''value'' ''An A record points at an IPv4 address.'' [])
        | None \<Rightarrow> Inl (Invalidf ''value'' ''An A record points at an IPv4 address.'' []))
      else if typ = ''AAAA'' then (case ParseAddr value of
          Some a \<Rightarrow> if Is6 a \<and> \<not> Is4In6 a then Inr (typ, addr_String a) else Inl (Invalidf ''value'' ''An AAAA record points at an IPv6 address.'' [])
        | None \<Rightarrow> Inl (Invalidf ''value'' ''An AAAA record points at an IPv6 address.'' []))
      else if typ = ''CNAME'' then (case targetHost U value of
          Some h \<Rightarrow> Inr (typ, h) | None \<Rightarrow> Inl (Invalidf ''value'' ''A CNAME points at a host name, like shops.example.net.'' []))
      else if typ = ''MX'' then
        (let (pref, target) = (case cut_at (CHR '' '') (join_with '' '' (str_fields value)) of Some p \<Rightarrow> p | None \<Rightarrow> (join_with '' '' (str_fields value), []))
         in case (atoi pref, targetHost U target) of
            (Some n, Some h) \<Rightarrow> if 0 \<le> n \<and> n \<le> 65535 then Inr (typ, itoa n @ '' '' @ h)
              else Inl (Invalidf ''value'' ''An MX is a priority and a mail host, like 10 mx.example.net.'' [])
          | _ \<Rightarrow> Inl (Invalidf ''value'' ''An MX is a priority and a mail host, like 10 mx.example.net.'' []))
      else if value = [] \<or> length value > 2048 \<or> CHR 0x0D \<in> set value \<or> CHR 0x0A \<in> set value
      then Inl (Invalidf ''value'' ''A TXT record is one line of text, up to 2048 characters.'' [])
      else Inr (typ, trim_set [CHR 0x22] value))"

definition CustomFQDN :: "uni \<Rightarrow> string \<Rightarrow> string \<Rightarrow> string" where
  "CustomFQDN U name owner = (if name = [] then Normal U owner else name @ ''.'' @ Normal U owner)"

definition clash :: "uni \<Rightarrow> rr list \<Rightarrow> string \<Rightarrow> string \<Rightarrow> string \<Rightarrow> string \<Rightarrow> dns_error" where
  "clash U live zone name typ value =
     (let near = filter (\<lambda>x. eq_fold U (x_Name x) name \<and> \<not> (eq_fold U (x_Type x) typ \<and> sameData U typ (x_Data x) value)) live;
          bad = filter (\<lambda>x. typ = ''CNAME'' \<or> eq_fold U (x_Type x) ''CNAME'') near
      in if bad = [] then None
         else Some (RecordClash (fqdn zone name) typ (map (\<lambda>x. x_Type x @ '' '' @ x_Data x) bad)))"

section \<open>Lemmas: names\<close>

lemma trim_suffix_append [simp]: "trim_suffix p (t @ p) = t"
  by (simp add: trim_suffix_def has_suffix_iff)

lemma fqdn_Name:
  assumes "Name U host zone \<noteq> []" "Normal U host \<noteq> ''@.'' @ Normal U zone"
  shows "fqdn (Normal U zone) (Name U host zone) = Normal U host"
  using assms by (auto simp: Name_def fqdn_def Let_def has_suffix_iff split: if_splits)

lemma Name_fqdn:
  assumes "Normal U zone = zone" "Normal U (fqdn zone name) = fqdn zone name" "name \<noteq> []"
  shows "Name U (fqdn zone name) zone = name"
proof (cases "name = ''@''")
  case True
  then show ?thesis using assms by (simp add: Name_def fqdn_def)
next
  case False
  then have "fqdn zone name = name @ ''.'' @ zone" by (simp add: fqdn_def)
  then show ?thesis using assms trim_suffix_append [of "''.'' @ zone" name] by (simp add: Name_def Let_def has_suffix_iff)
qed

text \<open>The longest domain that covers a host, or none.\<close>

lemma ZoneOf_fold:
  "foldl (\<lambda>best z. if Name U host (Under z) \<noteq> [] \<and> length (dd_Name z) > (case best of None \<Rightarrow> 0 | Some b \<Rightarrow> length (dd_Name b)) then Some z else best) b zs = r \<Longrightarrow>
     (r = b \<or> (\<exists>z \<in> set zs. r = Some z \<and> Name U host (Under z) \<noteq> []))
     \<and> (case b of None \<Rightarrow> True | Some b' \<Rightarrow> \<exists>r'. r = Some r' \<and> length (dd_Name b') \<le> length (dd_Name r'))
     \<and> (\<forall>z \<in> set zs. Name U host (Under z) \<noteq> [] \<longrightarrow> length (dd_Name z) \<le> (case r of None \<Rightarrow> 0 | Some r' \<Rightarrow> length (dd_Name r')))"
proof (induction zs arbitrary: b)
  case (Cons z zs)
  note ih = Cons.IH [OF Cons.prems [unfolded foldl_Cons]]
  show ?case
  proof (cases "Name U host (Under z) \<noteq> [] \<and> length (dd_Name z) > (case b of None \<Rightarrow> 0 | Some b \<Rightarrow> length (dd_Name b))")
    case True
    then show ?thesis using ih by (auto split: option.splits)
  next
    case False
    then show ?thesis using ih by (auto split: option.splits)
  qed
qed (auto split: option.splits)

lemma ZoneOf_Some:
  "ZoneOf U host zones = Some z \<Longrightarrow> z \<in> set zones \<and> Name U host (Under z) \<noteq> []
     \<and> (\<forall>y \<in> set zones. Name U host (Under y) \<noteq> [] \<longrightarrow> length (dd_Name y) \<le> length (dd_Name z))"
  unfolding ZoneOf_def by (drule ZoneOf_fold) auto

lemma ZoneOf_None: "ZoneOf U host zones = None \<Longrightarrow> z \<in> set zones \<Longrightarrow> dd_Name z \<noteq> [] \<Longrightarrow> Name U host (Under z) = []"
  unfolding ZoneOf_def by (drule ZoneOf_fold) auto

section \<open>Lemmas: one value, one key\<close>

lemma lower_char_dot [simp]: "lower_char c = CHR ''.'' \<longleftrightarrow> c = CHR ''.''"
proof (cases "CHR ''A'' \<le> c \<and> c \<le> CHR ''Z''")
  case True
  then have "65 \<le> (of_char c :: nat)" "(of_char c :: nat) \<le> 90" by (simp_all add: less_eq_char_def)
  note n = this
  have "char_of (of_char c + 32 :: nat) \<noteq> CHR ''.''"
  proof
    assume "char_of (of_char c + 32 :: nat) = CHR ''.''"
    then have "(of_char (char_of (of_char c + 32 :: nat) :: char) :: nat) = of_char (CHR ''.'')" by (rule arg_cong)
    then show False using n by simp
  qed
  moreover have "c \<noteq> CHR ''.''" using n by auto
  ultimately show ?thesis using True by (simp add: lower_char_def)
next
  case False
  then show ?thesis by (simp add: lower_char_def del: de_Morgan_conj)
qed

lemma trim_dot_map_lower: "trim_suffix ''.'' (map lower_char s) = map lower_char (trim_suffix ''.'' s)"
  by (cases s rule: rev_cases) (auto simp: trim_suffix_def has_suffix_def has_prefix_def)

lemma ascii_trim: "ascii s \<Longrightarrow> ascii (trim_suffix p s)"
  by (auto simp: ascii_def trim_suffix_def list_all_iff dest: in_set_takeD)

text \<open>
  Two values are one record's exactly when they have one key, so looking rows up by key is comparing them; for texts of ASCII
  characters, and addresses that are IPv4.
\<close>

theorem sameData_is_valueKey:
  assumes "ascii a" "ascii b" "\<forall>x. ParseAddr a = Some x \<or> ParseAddr b = Some x \<longrightarrow> Is4 x"
  shows "sameData U typ a b \<longleftrightarrow> valueKey U typ a = valueKey U typ b"
proof -
  consider "upper U typ = ''CNAME'' \<or> upper U typ = ''MX''" | "upper U typ = ''A'' \<or> upper U typ = ''AAAA''"
    | "upper U typ \<notin> {''CNAME'', ''MX'', ''A'', ''AAAA''}" by blast
  then show ?thesis
  proof cases
    case 1
    have "lower U v = map lower_char v" if "ascii v" for v using that by (simp add: to_lower_def ascii_def)
    then have "valueKey U typ a = map lower_char (trim_suffix ''.'' a)" "valueKey U typ b = map lower_char (trim_suffix ''.'' b)"
      using 1 assms(1,2) by (simp_all only: valueKey_def Let_def if_True trim_dot_map_lower)
    moreover have "sameData U typ a b = eq_fold U (trim_suffix ''.'' a) (trim_suffix ''.'' b)"
      using 1 by (simp only: sameData_def Let_def if_True)
    ultimately show ?thesis using assms(1,2) by (simp add: eq_fold_def ascii_trim)
  next
    case 2
    then have n: "\<not> (upper U typ = ''CNAME'' \<or> upper U typ = ''MX'')" by auto
    have k: "valueKey U typ v = (case ParseAddr v of Some x \<Rightarrow> addr_String x | None \<Rightarrow> v)" for v
      by (simp only: valueKey_def Let_def n 2 if_True if_False)
    have s: "sameData U typ a b = (case (ParseAddr a, ParseAddr b) of (Some x, Some y) \<Rightarrow> x = y | _ \<Rightarrow> a = b)"
      by (simp only: sameData_def Let_def n 2 if_True if_False)
    have rt: "ParseAddr (addr_String x) = Some x" if "ParseAddr a = Some x \<or> ParseAddr b = Some x" for x
      using assms(3) that ParseAddr_String4 by blast
    show ?thesis
    proof (cases "ParseAddr a")
      case None
      then have "a \<noteq> addr_String y" if "ParseAddr b = Some y" for y using rt [of y] that by auto
      then show ?thesis using None unfolding k s by (cases "ParseAddr b") auto
    next
      case (Some x)
      show ?thesis
      proof (cases "ParseAddr b")
        case None
        then have "addr_String x \<noteq> b" "a \<noteq> b" using rt [of x] Some by auto
        then show ?thesis using Some None unfolding k s by simp
      next
        case b: (Some y)
        have "Some x = Some y" if "addr_String x = addr_String y" using rt [OF disjI1 [OF Some]] rt [OF disjI2 [OF b]] unfolding that by (rule trans [OF sym])
        then have "(x = y) = (addr_String x = addr_String y)" by blast
        then show ?thesis unfolding k s Some b by (simp only: option.case prod.case)
      qed
    qed
  next
    case 3
    then show ?thesis by (auto simp: sameData_def valueKey_def Let_def)
  qed
qed

end
