(* ===== verification/Dns_Records.thy ===== *)
theory Dns_Records
  imports Dns_Zone "HOL-Library.List_Lexorder"
begin

text \<open>
  The records of \<^verbatim>\<open>internal/service/internal/leaf/dnscap/records.go\<close> with the tables \<^verbatim>\<open>store/dns_records.go\<close> and \<^verbatim>\<open>store/dns_domains.go\<close>:
  reconciling the records stackr made with the ones it wants, adopting, handing back and forgetting them.
  The state is the two tables, the calls that write to a provider, in order, and what zones said of MX
  records.  The environment answers store calls and the provider: any of them may fail, and a zone may hold
  anything.  The locks of the package make each operation one step.
\<close>

section \<open>Model: state and stores\<close>

datatype pcall = PDelete string "rr list" | PAppend string "rr list"

record dns_state =
  ds_domains :: "dns_domain list"
  ds_recs :: "dns_record list"
  ds_calls :: "pcall list"
  ds_noMX :: "(string \<times> string) list"

datatype dop = RecList | RecBack | RecCreate dns_record | RecUpdate dns_record | RecDelete string
  | DomGet string | DomList | DomBy string | DomCreate dns_domain | DomUpdate dns_domain | DomDelete string

record dns_env =
  de_uni :: uni
  de_fault :: "dop \<Rightarrow> error"
  de_open :: "string \<Rightarrow> string option \<Rightarrow> error"
  de_get :: "string \<Rightarrow> err + rr list"
  de_mail :: "(string \<Rightarrow> err + (rr list \<times> string)) option"
  de_delete :: "string \<Rightarrow> rr list \<Rightarrow> error"
  de_append :: "string \<Rightarrow> rr list \<Rightarrow> error"
  de_uuid :: "dns_record list \<Rightarrow> string"
  de_now :: int

definition exists_already :: err where
  "exists_already = Wrap (''%w: %v'', []) (Conflictf ''already exists'' [])"

text \<open>The partial unique indexes: of the rows that are not handed back, one per zone, name and type, and for custom ones one per value too.\<close>

definition same_slot :: "dns_record \<Rightarrow> dns_record \<Rightarrow> bool" where
  "same_slot a b \<longleftrightarrow> dr_HandedBackAt a = None \<and> dr_HandedBackAt b = None \<and> dr_Zone a = dr_Zone b \<and> dr_Name a = dr_Name b \<and> dr_Type a = dr_Type b
     \<and> (dr_Kind a = RecordCustom \<longleftrightarrow> dr_Kind b = RecordCustom) \<and> (dr_Kind a = RecordCustom \<longrightarrow> dr_Value a = dr_Value b)"

definition recs_List :: "dns_env \<Rightarrow> dns_state \<Rightarrow> err + dns_record list" where
  "recs_List e s = (case de_fault e RecList of Some x \<Rightarrow> Inl x | None \<Rightarrow> Inr (filter (\<lambda>r. dr_HandedBackAt r = None) (ds_recs s)))"

definition recs_ListHandedBack :: "dns_env \<Rightarrow> dns_state \<Rightarrow> err + dns_record list" where
  "recs_ListHandedBack e s = (case de_fault e RecBack of Some x \<Rightarrow> Inl x | None \<Rightarrow> Inr (filter (\<lambda>r. dr_HandedBackAt r \<noteq> None) (ds_recs s)))"

definition recs_Create :: "dns_env \<Rightarrow> dns_record \<Rightarrow> dns_state \<Rightarrow> dns_state \<times> error" where
  "recs_Create e r s = (case de_fault e (RecCreate r) of Some x \<Rightarrow> (s, Some x)
     | None \<Rightarrow> if \<exists>o' \<in> set (ds_recs s). dr_ID o' = dr_ID r \<or> same_slot o' r then (s, Some exists_already)
               else (s\<lparr>ds_recs := ds_recs s @ [r]\<rparr>, None))"

definition recs_Update :: "dns_env \<Rightarrow> dns_record \<Rightarrow> dns_state \<Rightarrow> dns_state \<times> error" where
  "recs_Update e r s = (case de_fault e (RecUpdate r) of Some x \<Rightarrow> (s, Some x)
     | None \<Rightarrow> if \<forall>o' \<in> set (ds_recs s). dr_ID o' \<noteq> dr_ID r then (s, Some ErrNotFound)
               else if \<exists>o' \<in> set (ds_recs s). dr_ID o' \<noteq> dr_ID r \<and> same_slot o' r then (s, Some exists_already)
               else (s\<lparr>ds_recs := map (\<lambda>o'. if dr_ID o' = dr_ID r then r else o') (ds_recs s)\<rparr>, None))"

definition recs_Delete :: "dns_env \<Rightarrow> string \<Rightarrow> dns_state \<Rightarrow> dns_state \<times> error" where
  "recs_Delete e i s = (case de_fault e (RecDelete i) of Some x \<Rightarrow> (s, Some x)
     | None \<Rightarrow> if \<forall>o' \<in> set (ds_recs s). dr_ID o' \<noteq> i then (s, Some ErrNotFound)
               else (s\<lparr>ds_recs := filter (\<lambda>o'. dr_ID o' \<noteq> i) (ds_recs s)\<rparr>, None))"

definition domains_Get :: "dns_env \<Rightarrow> dns_state \<Rightarrow> string \<Rightarrow> err + dns_domain" where
  "domains_Get e s i = (case de_fault e (DomGet i) of Some x \<Rightarrow> Inl x
     | None \<Rightarrow> (case find (\<lambda>d. dd_ID d = i) (ds_domains s) of None \<Rightarrow> Inl ErrNotFound | Some d \<Rightarrow> Inr d))"

definition domains_GetByName :: "dns_env \<Rightarrow> dns_state \<Rightarrow> string \<Rightarrow> err + dns_domain" where
  "domains_GetByName e s n = (case de_fault e (DomGet n) of Some x \<Rightarrow> Inl x
     | None \<Rightarrow> (case find (\<lambda>d. dd_Name d = n) (ds_domains s) of None \<Rightarrow> Inl ErrNotFound | Some d \<Rightarrow> Inr d))"

definition domains_List :: "dns_env \<Rightarrow> dns_state \<Rightarrow> err + dns_domain list" where
  "domains_List e s = (case de_fault e DomList of Some x \<Rightarrow> Inl x | None \<Rightarrow> Inr (sort_key dd_Name (ds_domains s)))"

definition domains_ListByConnector :: "dns_env \<Rightarrow> dns_state \<Rightarrow> string \<Rightarrow> err + dns_domain list" where
  "domains_ListByConnector e s c = (case de_fault e (DomBy c) of Some x \<Rightarrow> Inl x
     | None \<Rightarrow> Inr (sort_key dd_Name (filter (\<lambda>d. dd_ConnectorID d = c) (ds_domains s))))"

definition domains_Create :: "dns_env \<Rightarrow> dns_domain \<Rightarrow> dns_state \<Rightarrow> dns_state \<times> error" where
  "domains_Create e d s = (case de_fault e (DomCreate d) of Some x \<Rightarrow> (s, Some x)
     | None \<Rightarrow> if \<exists>o' \<in> set (ds_domains s). dd_ID o' = dd_ID d \<or> dd_Name o' = dd_Name d then (s, Some exists_already)
               else (s\<lparr>ds_domains := ds_domains s @ [d]\<rparr>, None))"

definition domains_Update :: "dns_env \<Rightarrow> dns_domain \<Rightarrow> dns_state \<Rightarrow> dns_state \<times> error" where
  "domains_Update e d s = (case de_fault e (DomUpdate d) of Some x \<Rightarrow> (s, Some x)
     | None \<Rightarrow> if \<forall>o' \<in> set (ds_domains s). dd_ID o' \<noteq> dd_ID d then (s, Some ErrNotFound)
               else if \<exists>o' \<in> set (ds_domains s). dd_ID o' \<noteq> dd_ID d \<and> dd_Name o' = dd_Name d then (s, Some exists_already)
               else (s\<lparr>ds_domains := map (\<lambda>o'. if dd_ID o' = dd_ID d then d else o') (ds_domains s)\<rparr>, None))"

text \<open>A row of the domains goes, and the records that name it lose the link (\<^verbatim>\<open>ON DELETE SET NULL\<close>).\<close>

definition domains_Delete :: "dns_env \<Rightarrow> string \<Rightarrow> dns_state \<Rightarrow> dns_state \<times> error" where
  "domains_Delete e i s = (case de_fault e (DomDelete i) of Some x \<Rightarrow> (s, Some x)
     | None \<Rightarrow> if \<forall>o' \<in> set (ds_domains s). dd_ID o' \<noteq> i then (s, Some ErrNotFound)
               else (s\<lparr>ds_domains := filter (\<lambda>o'. dd_ID o' \<noteq> i) (ds_domains s),
                 ds_recs := map (\<lambda>r. if dr_DNSDomainID r = Some i then r\<lparr>dr_DNSDomainID := None\<rparr> else r) (ds_recs s)\<rparr>, None))"

text \<open>Store calls one after the other; the first error ends them.\<close>

fun seq_ops :: "('s \<Rightarrow> 's \<times> error) list \<Rightarrow> 's \<Rightarrow> 's \<times> error" where
  "seq_ops [] s = (s, None)"
| "seq_ops (f # fs) s = (case f s of (s', Some x) \<Rightarrow> (s', Some x) | (s', None) \<Rightarrow> seq_ops fs s')"

section \<open>Model: wants\<close>

record want =
  wa_DNSDomainID :: string
  wa_Zone :: string
  wa_Name :: string
  wa_Type :: string
  wa_Value :: string
  wa_DomainID :: string
  wa_Kind :: string
  wa_Hold :: bool

definition want_kind :: "want \<Rightarrow> string" where
  "want_kind w = (if wa_Kind w \<noteq> [] then wa_Kind w else RecordApp)"

definition want_key :: "uni \<Rightarrow> want \<Rightarrow> string" where
  "want_key U w = wa_Zone w @ ''|'' @ lower U (wa_Name w) @ ''|'' @ wa_Type w"

definition ckey :: "uni \<Rightarrow> want \<Rightarrow> string" where
  "ckey U w = want_key U w @ ''|'' @ valueKey U (wa_Type w) (wa_Value w)"

definition rowKey :: "uni \<Rightarrow> dns_record \<Rightarrow> string" where
  "rowKey U r = dr_Zone r @ ''|'' @ lower U (dr_Name r) @ ''|'' @ dr_Type r"

definition rowCKey :: "uni \<Rightarrow> dns_record \<Rightarrow> string" where
  "rowCKey U r = rowKey U r @ ''|'' @ valueKey U (dr_Type r) (dr_Value r)"

definition hold_key :: "uni \<Rightarrow> string \<Rightarrow> string \<Rightarrow> string" where
  "hold_key U zone name = zone @ ''|'' @ lower U name"

definition deref :: "string option \<Rightarrow> string" where
  "deref s = (case s of None \<Rightarrow> [] | Some v \<Rightarrow> v)"

definition optID :: "string \<Rightarrow> string option" where
  "optID s = (if s = [] then None else Some s)"

section \<open>Model: custom records of a zone\<close>

record custom_work =
  cw_del :: "rr list"
  cw_put :: "rr list"
  cw_made :: "want list"
  cw_back :: "dns_record list"
  cw_moved :: "dns_record list"
  cw_clash :: "dns_err list"

definition no_work :: custom_work where
  "no_work = \<lparr>cw_del = [], cw_put = [], cw_made = [], cw_back = [], cw_moved = [], cw_clash = []\<rparr>"

text \<open>One want; the flag says whether an MX was refused before.\<close>

definition custom_step :: "uni \<Rightarrow> string \<Rightarrow> rr list \<Rightarrow> dns_record list \<Rightarrow> string \<Rightarrow> custom_work \<times> bool \<Rightarrow> want \<Rightarrow> custom_work \<times> bool" where
  "custom_step U zone left rows noMX acc w =
     (let (cw, mxRefused) = acc;
          row = find (\<lambda>r. dr_Kind r = RecordCustom \<and> rowCKey U r = ckey U w) rows;
          there = (\<exists>x \<in> set left. eq_fold U (x_Name x) (wa_Name w) \<and> x_Type x = wa_Type w \<and> sameData U (wa_Type w) (x_Data x) (wa_Value w))
      in if there then (case row of
             Some r \<Rightarrow> if deref (dr_DomainID r) \<noteq> wa_DomainID w
                then (cw\<lparr>cw_moved := cw_moved cw @ [r\<lparr>dr_DomainID := optID (wa_DomainID w)\<rparr>]\<rparr>, mxRefused) else (cw, mxRefused)
           | None \<Rightarrow> (cw\<lparr>cw_made := cw_made cw @ [w]\<rparr>, mxRefused))
         else if wa_Type w = ''MX'' \<and> noMX \<noteq> [] then
           (if mxRefused then (cw, True)
            else (cw\<lparr>cw_clash := cw_clash cw @ [DErr (Conflictf ''MX on %s not written. %s'' [fqdn zone (wa_Name w), noMX])]\<rparr>, True))
         else
           let edited = (\<lambda>x. row \<noteq> None \<and> wa_Type w = ''CNAME'' \<and> eq_fold U (x_Name x) (wa_Name w) \<and> x_Type x = ''CNAME'');
               look = filter (\<lambda>x. \<not> edited x) left;
               cw1 = cw\<lparr>cw_del := cw_del cw @ filter edited left\<rparr>
           in case clash U (look @ cw_put cw1) zone (wa_Name w) (wa_Type w) (wa_Value w) of
                Some x \<Rightarrow> (cw1\<lparr>cw_clash := cw_clash cw1 @ [x]\<rparr>, mxRefused)
              | None \<Rightarrow>
                let cw2 = cw1\<lparr>cw_put := cw_put cw1 @ [mk_rr (wa_Name w) (wa_Type w) (wa_Value w)]\<rparr>
                in (case row of Some r \<Rightarrow> cw2\<lparr>cw_back := cw_back cw2 @ [r]\<rparr> | None \<Rightarrow> cw2\<lparr>cw_made := cw_made cw2 @ [w]\<rparr>, mxRefused))"

definition customs :: "uni \<Rightarrow> string \<Rightarrow> rr list \<Rightarrow> rr list \<Rightarrow> want list \<Rightarrow> dns_record list \<Rightarrow> string \<Rightarrow> custom_work" where
  "customs U zone live del wants rows noMX =
     (let gone = (\<lambda>x. \<exists>y \<in> set del. eq_fold U (x_Name y) (x_Name x) \<and> x_Type y = x_Type x \<and> sameData U (x_Type x) (x_Data y) (x_Data x));
          left = filter (\<lambda>x. \<not> gone x) live
      in fst (foldl (custom_step U zone left rows noMX) (no_work, False) wants))"

definition customRows :: "dns_env \<Rightarrow> dns_domain \<Rightarrow> custom_work \<Rightarrow> dns_state \<Rightarrow> dns_state \<times> error" where
  "customRows e d cw = seq_ops
     (map (\<lambda>r. recs_Update e (r\<lparr>dr_PutBackAt := Some (de_now e)\<rparr>)) (cw_back cw)
      @ map (recs_Update e) (cw_moved cw)
      @ map (\<lambda>w s. recs_Create e \<lparr>dr_ID = de_uuid e (ds_recs s), dr_DNSDomainID = Some (dd_ID d), dr_Zone = dd_Name d, dr_Name = wa_Name w,
            dr_Type = wa_Type w, dr_Value = wa_Value w, dr_TTL = TTL, dr_DomainID = optID (wa_DomainID w), dr_Adopted = False,
            dr_CreatedAt = de_now e, dr_Kind = RecordCustom, dr_PutBackAt = None, dr_HandedBackAt = None\<rparr> s) (cw_made cw))"

section \<open>Model: one zone\<close>

record zone_work =
  zw_add :: "want list"
  zw_move :: "dns_record list"
  zw_drop :: "dns_record list"
  zw_custom :: "want list"

definition readZone :: "dns_env \<Rightarrow> string \<Rightarrow> err + (rr list \<times> string)" where
  "readZone e zone = (case de_mail e of Some get \<Rightarrow> get zone
     | None \<Rightarrow> (case de_get e zone of Inl x \<Rightarrow> Inl x | Inr live \<Rightarrow> Inr (live, [])))"

definition isLive :: "uni \<Rightarrow> rr list \<Rightarrow> dns_record \<Rightarrow> bool" where
  "isLive U live r \<longleftrightarrow> (\<exists>x \<in> set live. eq_fold U (x_Name x) (dr_Name r) \<and> x_Type x = dr_Type r \<and> sameData U (dr_Type r) (x_Data x) (dr_Value r))"

definition row_rr :: "dns_record \<Rightarrow> rr" where
  "row_rr r = mk_rr (dr_Name r) (dr_Type r) (dr_Value r)"

record add_result =
  ar_del :: "rr list"
  ar_put :: "rr list"
  ar_made :: "want list"
  ar_taken :: "string list"

definition add_step :: "uni \<Rightarrow> string \<Rightarrow> rr list \<Rightarrow> dns_record list \<Rightarrow> (string \<Rightarrow> bool) \<Rightarrow> add_result \<Rightarrow> want \<Rightarrow> add_result" where
  "add_step U zone live others replace a w =
     (let f = foreign U live others zone (wa_Name w) in
      if f \<noteq> [] \<and> \<not> replace (fqdn zone (wa_Name w)) then a\<lparr>ar_taken := ar_taken a @ [fqdn zone (wa_Name w)]\<rparr>
      else a\<lparr>ar_del := ar_del a @ f, ar_put := ar_put a @ [mk_rr (wa_Name w) (wa_Type w) (wa_Value w)], ar_made := ar_made a @ [w]\<rparr>)"

text \<open>What \<^verbatim>\<open>apply\<close> decides from the live records, before it writes.\<close>

definition zone_adds :: "uni \<Rightarrow> string \<Rightarrow> zone_work \<Rightarrow> dns_record list \<Rightarrow> (string \<Rightarrow> bool) \<Rightarrow> rr list \<Rightarrow> add_result" where
  "zone_adds U zone zw rows replace live =
     (let del = map row_rr (filter (isLive U live) (zw_drop zw)) @ map row_rr (filter (isLive U live) (zw_move zw));
          others = filter (\<lambda>r. \<not> (\<exists>m \<in> set (zw_move zw). dr_ID m = dr_ID r \<and> \<not> isLive U live m)) rows
      in foldl (add_step U zone live others replace) \<lparr>ar_del = del, ar_put = [], ar_made = [], ar_taken = []\<rparr> (zw_add zw))"

definition mine :: "uni \<Rightarrow> string \<Rightarrow> dns_record list \<Rightarrow> (string \<Rightarrow> bool) \<Rightarrow> rr list \<Rightarrow> rr \<Rightarrow> bool" where
  "mine U zone rows replace put_back x \<longleftrightarrow> ours U x rows zone \<or> replace (fqdn zone (x_Name x))
     \<or> (\<exists>y \<in> set put_back. eq_fold U (x_Name y) (x_Name x) \<and> x_Type y = x_Type x \<and> x_Data y = x_Data x)"

text \<open>The provider's writes: the deletions, then the additions; nothing is called for none.\<close>

definition provider_write :: "dns_env \<Rightarrow> string \<Rightarrow> rr list \<Rightarrow> rr list \<Rightarrow> dns_state \<Rightarrow> dns_state \<times> error" where
  "provider_write e zone del put s =
     (let (s1, er) = (if del \<noteq> [] then (s\<lparr>ds_calls := ds_calls s @ [PDelete zone del]\<rparr>, de_delete e zone del) else (s, None)) in
      if er \<noteq> None then (s1, er)
      else if put \<noteq> [] then (s1\<lparr>ds_calls := ds_calls s1 @ [PAppend zone put]\<rparr>, de_append e zone put) else (s1, None))"

text \<open>The rows after the zone was written.\<close>

definition made_row :: "dns_env \<Rightarrow> dns_domain \<Rightarrow> string \<Rightarrow> dns_record list \<Rightarrow> want \<Rightarrow> dns_state \<Rightarrow> dns_state \<times> error" where
  "made_row e d zone move w s =
     (case find (\<lambda>r. rowKey (de_uni e) r = want_key (de_uni e) w) move of
        Some r \<Rightarrow> recs_Update e (r\<lparr>dr_Value := wa_Value w, dr_DomainID := optID (wa_DomainID w)\<rparr>) s
      | None \<Rightarrow> recs_Create e \<lparr>dr_ID = de_uuid e (ds_recs s), dr_DNSDomainID = Some (dd_ID d), dr_Zone = zone, dr_Name = wa_Name w,
            dr_Type = wa_Type w, dr_Value = wa_Value w, dr_TTL = TTL, dr_DomainID = optID (wa_DomainID w), dr_Adopted = False,
            dr_CreatedAt = de_now e, dr_Kind = want_kind w, dr_PutBackAt = None, dr_HandedBackAt = None\<rparr> s)"

definition zone_rows :: "dns_env \<Rightarrow> dns_domain \<Rightarrow> string \<Rightarrow> zone_work \<Rightarrow> want list \<Rightarrow> custom_work \<Rightarrow> dns_state \<Rightarrow> dns_state \<times> error" where
  "zone_rows e d zone zw made cw = seq_ops
     (map (\<lambda>r. recs_Delete e (dr_ID r)) (zw_drop zw)
      @ [customRows e d cw]
      @ map (made_row e d zone (zw_move zw)) made
      @ map (\<lambda>r. recs_Delete e (dr_ID r))
          (filter (\<lambda>r. \<not> (\<exists>w \<in> set made. want_key (de_uni e) w = rowKey (de_uni e) r)) (zw_move zw)))"

text \<open>With the zone read: what \<^verbatim>\<open>apply\<close> writes to the provider and then to the table.\<close>

definition write_zone :: "dns_env \<Rightarrow> dns_domain \<Rightarrow> string \<Rightarrow> zone_work \<Rightarrow> dns_record list \<Rightarrow> (string \<Rightarrow> bool) \<Rightarrow> rr list \<Rightarrow> string \<Rightarrow> dns_state
    \<Rightarrow> dns_state \<times> string list \<times> dns_error" where
  "write_zone e d zone zw rows replace live noMX s =
     (let U = de_uni e;
          a = zone_adds U zone zw rows replace live;
          cw = customs U zone live (ar_del a) (zw_custom zw) rows noMX;
          del = ar_del a @ cw_del cw; put = ar_put a @ cw_put cw
      in case checkWrite U d live del put (mine U zone rows replace (cw_del cw)) of Some x \<Rightarrow> (s, [], Some x)
         | None \<Rightarrow>
           let (s1, er) = provider_write e zone del put s in
           (case er of Some x \<Rightarrow> (s1, ar_taken a, Some (DErr x))
            | None \<Rightarrow> let (s2, er2) = zone_rows e d zone zw (ar_made a) cw s1 in
               (s2, ar_taken a, case er2 of Some x \<Rightarrow> Some (DErr x) | None \<Rightarrow> dns_Join (cw_clash cw))))"

text \<open>One zone's changes: the state, the taken hosts and the error.\<close>

definition apply_zone :: "dns_env \<Rightarrow> string \<Rightarrow> string \<Rightarrow> zone_work \<Rightarrow> dns_record list \<Rightarrow> (string \<Rightarrow> bool) \<Rightarrow> dns_state \<Rightarrow> dns_state \<times> string list \<times> dns_error" where
  "apply_zone e zone dnsDomainID zw rows replace s =
     (case domains_Get e s dnsDomainID of
        Inl x \<Rightarrow> if dnsDomainID = [] \<or> is_not_found x
          then let (s1, er) = seq_ops (map (\<lambda>r. recs_Delete e (dr_ID r)) (zw_drop zw)) s in (s1, [], map_option DErr er)
          else (s, [], Some (DErr x))
      | Inr d \<Rightarrow>
        if dnsDomainID = []
        then let (s1, er) = seq_ops (map (\<lambda>r. recs_Delete e (dr_ID r)) (zw_drop zw)) s in (s1, [], map_option DErr er)
        else case de_open e (dd_ConnectorID d) (dd_OrgID d) of Some x \<Rightarrow> (s, [], Some (DErr x))
        | None \<Rightarrow> (case readZone e zone of Inl x \<Rightarrow> (s, [], Some (DErr x))
          | Inr (live, noMX) \<Rightarrow>
            write_zone e d zone zw rows replace live noMX (s\<lparr>ds_noMX := AList.update (Normal (de_uni e) zone) noMX (ds_noMX s)\<rparr>)))"

section \<open>Model: reconciling\<close>

record plan =
  pl_id :: string
  pl_add :: "want list"
  pl_move :: "dns_record list"
  pl_drop :: "dns_record list"
  pl_custom :: "want list"

definition no_plan :: plan where
  "no_plan = \<lparr>pl_id = [], pl_add = [], pl_move = [], pl_drop = [], pl_custom = []\<rparr>"

type_synonym plans = "(string \<times> plan) list"

definition at_zone :: "string \<Rightarrow> string \<Rightarrow> (plan \<Rightarrow> plan) \<Rightarrow> plans \<Rightarrow> plans" where
  "at_zone zone i f zs =
     (let p = (case map_of zs zone of None \<Rightarrow> no_plan | Some p \<Rightarrow> p) in AList.update zone (f (if i \<noteq> [] then p\<lparr>pl_id := i\<rparr> else p)) zs)"

record wanted =
  wd_zones :: plans
  wd_want :: "(string \<times> want) list"
  wd_held :: "string list"
  wd_custom :: "string list"

definition want_step :: "uni \<Rightarrow> wanted \<Rightarrow> want \<Rightarrow> wanted" where
  "want_step U a w =
     (if want_kind w = RecordCustom then
        (if ckey U w \<in> set (wd_custom a) then a
         else a\<lparr>wd_custom := ckey U w # wd_custom a, wd_zones := at_zone (wa_Zone w) (wa_DNSDomainID w) (\<lambda>p. p\<lparr>pl_custom := pl_custom p @ [w]\<rparr>) (wd_zones a)\<rparr>)
      else if wa_Hold w then a\<lparr>wd_held := hold_key U (wa_Zone w) (wa_Name w) # wd_held a\<rparr>
      else if map_of (wd_want a) (want_key U w) = None then a\<lparr>wd_want := (want_key U w, w) # wd_want a\<rparr> else a)"

text \<open>The rows against the wants; a row whose link alone changed is written at once.\<close>

fun row_loop :: "dns_env \<Rightarrow> wanted \<Rightarrow> dns_record list \<Rightarrow> plans \<Rightarrow> dns_state \<Rightarrow> dns_state \<times> (err + plans)" where
  "row_loop e a [] zs s = (s, Inr zs)"
| "row_loop e a (r # rs) zs s =
     (let U = de_uni e in
      if dr_Kind r = RecordCustom then
        (if rowCKey U r \<in> set (wd_custom a) then row_loop e a rs zs s
         else row_loop e a rs (at_zone (dr_Zone r) (deref (dr_DNSDomainID r)) (\<lambda>p. p\<lparr>pl_drop := pl_drop p @ [r]\<rparr>) zs) s)
      else case map_of (wd_want a) (rowKey U r) of
        None \<Rightarrow>
          if dr_Adopted r then row_loop e a rs zs s
          else if hold_key U (dr_Zone r) (dr_Name r) \<in> set (wd_held a) then row_loop e a rs zs s
          else row_loop e a rs (at_zone (dr_Zone r) (deref (dr_DNSDomainID r)) (\<lambda>p. p\<lparr>pl_drop := pl_drop p @ [r]\<rparr>) zs) s
      | Some w \<Rightarrow>
          if wa_Value w \<noteq> dr_Value r
          then row_loop e a rs (at_zone (dr_Zone r) (wa_DNSDomainID w) (\<lambda>p. p\<lparr>pl_move := pl_move p @ [r], pl_add := pl_add p @ [w]\<rparr>) zs) s
          else if deref (dr_DomainID r) \<noteq> wa_DomainID w \<or> dr_Kind r \<noteq> want_kind w
          then (case recs_Update e (r\<lparr>dr_DomainID := optID (wa_DomainID w), dr_Kind := want_kind w\<rparr>) s of
              (s', Some x) \<Rightarrow> (s', Inl x) | (s', None) \<Rightarrow> row_loop e a rs zs s')
          else row_loop e a rs zs s)"

definition new_step :: "uni \<Rightarrow> wanted \<Rightarrow> string list \<Rightarrow> plans \<Rightarrow> want \<Rightarrow> plans" where
  "new_step U a have_keys zs w =
     (if want_key U w \<notin> set have_keys \<and> \<not> wa_Hold w \<and> want_kind w \<noteq> RecordCustom \<and> map_of (wd_want a) (want_key U w) = Some w
      then at_zone (wa_Zone w) (wa_DNSDomainID w) (\<lambda>p. p\<lparr>pl_add := pl_add p @ [w]\<rparr>) zs else zs)"

definition plan_work :: "plan \<Rightarrow> zone_work" where
  "plan_work p = \<lparr>zw_add = pl_add p, zw_move = pl_move p, zw_drop = pl_drop p, zw_custom = pl_custom p\<rparr>"

fun zone_loop :: "dns_env \<Rightarrow> (string \<times> plan) list \<Rightarrow> dns_record list \<Rightarrow> (string \<Rightarrow> bool) \<Rightarrow> dns_state \<Rightarrow> dns_state \<times> string list \<times> dns_err list" where
  "zone_loop e [] rows replace s = (s, [], [])"
| "zone_loop e ((zone, p) # ps) rows replace s =
     (let (s1, taken, er) = apply_zone e zone (pl_id p) (plan_work p) rows replace s;
          (s2, takens, ers) = zone_loop e ps rows replace s1
      in (s2, taken @ takens, (case er of None \<Rightarrow> [] | Some x \<Rightarrow> [ZoneError zone x]) @ ers))"

definition Reconcile :: "dns_env \<Rightarrow> want list \<Rightarrow> (string \<Rightarrow> bool) \<Rightarrow> dns_state \<Rightarrow> dns_state \<times> dns_error" where
  "Reconcile e wants replace s =
     (case recs_List e s of Inl x \<Rightarrow> (s, Some (DErr x))
      | Inr rows \<Rightarrow>
        let U = de_uni e;
            a = foldl (want_step U) \<lparr>wd_zones = [], wd_want = [], wd_held = [], wd_custom = []\<rparr> wants;
            have_keys = map (rowKey U) (filter (\<lambda>r. dr_Kind r \<noteq> RecordCustom) rows)
        in case row_loop e a rows (wd_zones a) s of
             (s1, Inl x) \<Rightarrow> (s1, Some (DErr x))
           | (s1, Inr zs) \<Rightarrow>
             let zs' = foldl (new_step U a have_keys) zs wants;
                 (s2, taken, ers) = zone_loop e (sort_key fst zs') rows replace s1
             in (s2, dns_Join (ers @ (if taken \<noteq> [] then [RecordTaken (sort taken)] else []))))"

section \<open>Model: adopting, handing back, forgetting\<close>

definition byName :: "dns_env \<Rightarrow> dns_state \<Rightarrow> string \<Rightarrow> string \<Rightarrow> err + dns_domain" where
  "byName e s i zone = (case domains_ListByConnector e s i of Inl x \<Rightarrow> Inl x
     | Inr ds \<Rightarrow> (case find (\<lambda>d. dd_Name d = Normal (de_uni e) zone) ds of None \<Rightarrow> Inl ErrNotFound | Some d \<Rightarrow> Inr d))"

definition adopt_row :: "dns_env \<Rightarrow> dns_domain \<Rightarrow> dns_ref \<Rightarrow> dns_record list \<Rightarrow> dns_record" where
  "adopt_row e d f rs = \<lparr>dr_ID = de_uuid e rs, dr_DNSDomainID = Some (dd_ID d), dr_Zone = dd_Name d, dr_Name = rf_Name f, dr_Type = rf_Type f,
     dr_Value = rf_Value f, dr_TTL = TTL, dr_DomainID = None, dr_Adopted = True, dr_CreatedAt = de_now e, dr_Kind = RecordApp,
     dr_PutBackAt = None, dr_HandedBackAt = None\<rparr>"

definition adopt :: "dns_env \<Rightarrow> dns_domain \<Rightarrow> dns_ref list \<Rightarrow> dns_state \<Rightarrow> dns_state \<times> error" where
  "adopt e d refs s = (case recs_List e s of Inl x \<Rightarrow> (s, Some x)
     | Inr rows \<Rightarrow> seq_ops (map (\<lambda>f s. let r = adopt_row e d f (ds_recs s) in
          if rowKey (de_uni e) r \<in> rowKey (de_uni e) ` set rows then (s, None) else recs_Create e r s) refs) s)"

definition Adopt :: "dns_env \<Rightarrow> string \<Rightarrow> string \<Rightarrow> dns_ref list \<Rightarrow> dns_state \<Rightarrow> dns_state \<times> error" where
  "Adopt e i zone refs s = (if refs = [] then (s, None)
     else case byName e s i zone of Inl x \<Rightarrow> (s, Some x) | Inr d \<Rightarrow> adopt e d refs s)"

text \<open>The rows that are handed back are marked, the marks inside the new scope go, then the references inside it are adopted.\<close>

definition drop_marks :: "dns_env \<Rightarrow> dns_domain \<Rightarrow> dns_ref list \<Rightarrow> dns_state \<Rightarrow> dns_state \<times> error" where
  "drop_marks e d refs s =
     (case recs_ListHandedBack e s of Inl x \<Rightarrow> (s, Some x)
      | Inr back \<Rightarrow> (case seq_ops (map (\<lambda>r. recs_Delete e (dr_ID r)) (filter (\<lambda>r. dr_Zone r = dd_Name d \<and> InScope (de_uni e) d (dr_Name r)) back)) s of
          (s', Some x) \<Rightarrow> (s', Some x)
        | (s', None) \<Rightarrow> adopt e d (filter (\<lambda>f. InScope (de_uni e) d (rf_Name f)) refs) s'))"

definition mark_rows :: "dns_env \<Rightarrow> dns_domain \<Rightarrow> dns_ref list \<Rightarrow> dns_state \<Rightarrow> dns_state \<times> error" where
  "mark_rows e d refs s =
     (case recs_List e s of Inl x \<Rightarrow> (s, Some x)
      | Inr rows \<Rightarrow> (case seq_ops (map (\<lambda>r. recs_Update e (r\<lparr>dr_HandedBackAt := Some (de_now e)\<rparr>)) (HandBack (de_uni e) d rows)) s of
          (s', Some x) \<Rightarrow> (s', Some x) | (s', None) \<Rightarrow> drop_marks e d refs s'))"

definition Rescope :: "dns_env \<Rightarrow> string \<Rightarrow> string \<Rightarrow> string \<Rightarrow> dns_ref list \<Rightarrow> dns_state \<Rightarrow> dns_state \<times> error" where
  "Rescope e i zone scope0 refs s =
     (let U = de_uni e in
      case Scope U zone scope0 of Inl x \<Rightarrow> (s, Some x)
      | Inr scope \<Rightarrow> (case byName e s i zone of Inl x \<Rightarrow> (s, Some x)
      | Inr d0 \<Rightarrow> let d = d0\<lparr>dd_Scope := scope\<rparr> in
        case domains_Update e d s of (s1, Some x) \<Rightarrow> (s1, Some x) | (s1, None) \<Rightarrow> mark_rows e d refs s1))"

text \<open>What \<^verbatim>\<open>Forget\<close> asks of the provider: records that are adopted or kept stay in the zone.\<close>

definition forget_zone :: "dns_env \<Rightarrow> string \<Rightarrow> dns_record list \<Rightarrow> (string \<Rightarrow> bool) \<Rightarrow> dns_state \<Rightarrow> dns_state \<times> dns_error" where
  "forget_zone e zone rows keep s =
     (let U = de_uni e; del = map row_rr (filter (\<lambda>r. \<not> dr_Adopted r \<and> \<not> keep (lower U (dr_Name r))) rows) in
      if del = [] then (s, None)
      else case domains_GetByName e s zone of Inl x \<Rightarrow> (s, Some (DErr x))
      | Inr d \<Rightarrow> (case de_get e zone of Inl x \<Rightarrow> (s, Some (DErr x))
        | Inr live \<Rightarrow> (case checkWrite U d live del [] (\<lambda>x. ours U x rows zone) of Some x \<Rightarrow> (s, Some x)
          | None \<Rightarrow> (s\<lparr>ds_calls := ds_calls s @ [PDelete zone del]\<rparr>, map_option DErr (de_delete e zone del)))))"

definition Forget :: "dns_env \<Rightarrow> string \<Rightarrow> (string \<Rightarrow> bool) \<Rightarrow> dns_state \<Rightarrow> dns_state \<times> dns_error" where
  "Forget e zone keep s =
     (case recs_List e s of Inl x \<Rightarrow> (s, Some (DErr x))
      | Inr all \<Rightarrow> let rows = filter (\<lambda>r. dr_Zone r = zone) all in
        (case recs_ListHandedBack e s of Inl x \<Rightarrow> (s, Some (DErr x))
        | Inr back \<Rightarrow> (case seq_ops (map (\<lambda>r. recs_Delete e (dr_ID r)) (filter (\<lambda>r. dr_Zone r = zone) back)) s of
            (s1, Some x) \<Rightarrow> (s1, Some (DErr x))
          | (s1, None) \<Rightarrow>
            if rows = [] then (s1, None)
            else
              let (s2, er) = forget_zone e zone rows keep s1
              in case er of Some x \<Rightarrow> (s2, Some x)
                 | None \<Rightarrow> let (s3, er3) = seq_ops (map (\<lambda>r. recs_Delete e (dr_ID r)) rows) s2 in (s3, map_option DErr er3))))"

definition Taken :: "dns_env \<Rightarrow> string \<Rightarrow> string \<Rightarrow> dns_state \<Rightarrow> err + bool" where
  "Taken e zone host s = (case recs_List e s of Inl x \<Rightarrow> Inl x
     | Inr rows \<Rightarrow> (case de_get e zone of Inl x \<Rightarrow> Inl x
        | Inr live \<Rightarrow> Inr (foreign (de_uni e) live rows zone (Name (de_uni e) host zone) \<noteq> [])))"

text \<open>How a custom record lands at a name: the words, or why not.\<close>

definition Fit :: "dns_env \<Rightarrow> string \<Rightarrow> string \<Rightarrow> string \<Rightarrow> string \<Rightarrow> dns_err + string" where
  "Fit e zone name0 typ value =
     (case readZone e zone of Inl x \<Rightarrow> Inl (DErr x)
      | Inr (live, noMX) \<Rightarrow>
        if typ = ''MX'' \<and> noMX \<noteq> [] then Inl (DErr (Conflictf ''%s'' [noMX]))
        else let U = de_uni e; name = (if name0 = [] then ''@'' else name0);
                 at = filter (\<lambda>x. eq_fold U (x_Name x) name) live
          in if \<exists>x \<in> set at. eq_fold U (x_Type x) typ \<and> sameData U typ (x_Data x) value then Inr ''taken over''
             else case clash U live zone name typ value of Some x \<Rightarrow> Inl x
             | None \<Rightarrow> if at = [] then Inr [] else if length at = 1 then Inr ''added (1 other there stays)''
                 else Inr (''added ('' @ nat_str (length at) @ '' others there stay)''))"

definition MXRefused :: "dns_env \<Rightarrow> string \<Rightarrow> error" where
  "MXRefused e zone = (case readZone e zone of Inl x \<Rightarrow> Some x
     | Inr (live, noMX) \<Rightarrow> if noMX \<noteq> [] then Some (Conflictf ''%s'' [noMX]) else None)"

text \<open>What a zone holds, as people see it.\<close>

definition Live :: "dns_env \<Rightarrow> string \<Rightarrow> err + rr list" where
  "Live e zone = de_get e zone"

definition Existing :: "dns_env \<Rightarrow> string \<Rightarrow> err + rr list" where
  "Existing e zone = (case Live e zone of Inl x \<Rightarrow> Inl x | Inr rs \<Rightarrow> Inr (Addresses rs))"

end
