(* ===== verification/Dns_Safety.thy ===== *)
theory Dns_Safety
  imports Dns_Records
begin

text \<open>
  What a reconcile, a change of scope and a forget may do to a zone and to the tables.

  Shown: whatever the zone holds and whatever fails, no write of a reconcile removes a record that is outside the
  managed scope or that stackr did not make (unless its host was given up for replacement), and none adds a record outside the
  scope; a refused write writes nothing; a narrowed scope leaves no row to act on outside it and touches no
  provider; forgetting a domain deletes only what stackr made.
\<close>

section \<open>Lemmas: store calls keep the zone\<close>

named_theorems dns_ops \<open>what a store call of the package leaves as it is\<close>

lemma recs_keep [dns_ops]:
  "recs_Create e r s = (s', er) \<Longrightarrow> ds_calls s' = ds_calls s \<and> ds_domains s' = ds_domains s \<and> ds_noMX s' = ds_noMX s"
  "recs_Update e r s = (s', er) \<Longrightarrow> ds_calls s' = ds_calls s \<and> ds_domains s' = ds_domains s \<and> ds_noMX s' = ds_noMX s"
  "recs_Delete e i s = (s', er) \<Longrightarrow> ds_calls s' = ds_calls s \<and> ds_domains s' = ds_domains s \<and> ds_noMX s' = ds_noMX s"
  by (auto simp: recs_Create_def recs_Update_def recs_Delete_def split: option.splits if_splits)

text \<open>A relation that every step of a sequence keeps is kept by the sequence.\<close>

lemma seq_ops_keeps:
  "seq_ops fs s = (s', er) \<Longrightarrow> (\<And>s. P s s) \<Longrightarrow> (\<And>f s s' er. f \<in> set fs \<Longrightarrow> f s = (s', er) \<Longrightarrow> P s s')
     \<Longrightarrow> (\<And>a b c. P a b \<Longrightarrow> P b c \<Longrightarrow> P a c) \<Longrightarrow> P s s'"
proof (induction fs arbitrary: s)
  case (Cons f fs)
  obtain s1 x where f: "f s = (s1, x)" by fastforce
  have 1: "P s s1" using f by (rule Cons.prems(3) [rotated]) simp
  show ?case
  proof (cases x)
    case None
    have "P s1 s'"
    proof (rule Cons.IH)
      show "seq_ops fs s1 = (s', er)" using Cons.prems(1) f None by simp
      show "P a b" if "g \<in> set fs" "g a = (b, x)" for g a b x using that(2) by (rule Cons.prems(3) [rotated]) (simp add: that(1))
    qed (rule Cons.prems(2), rule Cons.prems(4), assumption+)
    then show ?thesis using 1 Cons.prems(4) by blast
  next
    case (Some y)
    then show ?thesis using 1 Cons.prems(1) f by simp
  qed
qed simp

definition same_zone_state :: "dns_state \<Rightarrow> dns_state \<Rightarrow> bool" where
  "same_zone_state s s' \<longleftrightarrow> ds_calls s' = ds_calls s \<and> ds_domains s' = ds_domains s \<and> ds_noMX s' = ds_noMX s"

lemma same_zone_refl [simp]: "same_zone_state s s"
  by (simp add: same_zone_state_def)

lemma same_zone_trans: "same_zone_state a b \<Longrightarrow> same_zone_state b c \<Longrightarrow> same_zone_state a c"
  by (simp add: same_zone_state_def)

lemma seq_ops_same_zone:
  "seq_ops fs s = (s', er) \<Longrightarrow> (\<And>f s s' er. f \<in> set fs \<Longrightarrow> f s = (s', er) \<Longrightarrow> same_zone_state s s') \<Longrightarrow> same_zone_state s s'"
  by (rule seq_ops_keeps [where P = same_zone_state]) (assumption, simp, assumption, rule same_zone_trans)

lemma recs_same_zone:
  "recs_Create e r s = (s', er) \<Longrightarrow> same_zone_state s s'" "recs_Update e r s = (s', er) \<Longrightarrow> same_zone_state s s'"
  "recs_Delete e i s = (s', er) \<Longrightarrow> same_zone_state s s'"
  using recs_keep by (simp_all add: same_zone_state_def)

lemma customRows_same_zone: "customRows e d cw s = (s', er) \<Longrightarrow> same_zone_state s s'"
  unfolding customRows_def by (rule seq_ops_same_zone) (auto intro: recs_same_zone)

lemma made_row_same_zone: "made_row e d zone mv w s = (s', er) \<Longrightarrow> same_zone_state s s'"
  by (auto simp: made_row_def intro: recs_same_zone split: option.splits)

lemma delete_rows_same_zone: "seq_ops (map (\<lambda>r. recs_Delete e (dr_ID r)) rs) s = (s', er) \<Longrightarrow> same_zone_state s s'"
  by (rule seq_ops_same_zone) (auto intro: recs_same_zone)

lemma zone_rows_same_zone: "zone_rows e d zone zw made cw s = (s', er) \<Longrightarrow> same_zone_state s s'"
  unfolding zone_rows_def
  by (rule seq_ops_same_zone) (auto intro: recs_same_zone customRows_same_zone made_row_same_zone)

section \<open>Lemmas: the writes of one zone\<close>

lemma checkWrite_None:
  "checkWrite U d live del put m = None \<longleftrightarrow>
     (\<forall>x \<in> set live. in_rrs U del x \<longrightarrow> InScope U d (x_Name x) \<and> m x) \<and> (\<forall>x \<in> set put. in_rrs U live x \<or> InScope U d (x_Name x))"
  by (auto simp: checkWrite_def Let_def filter_empty_conv)

lemma in_rrs_mono: "in_rrs U del x \<Longrightarrow> set del \<subseteq> set del' \<Longrightarrow> in_rrs U del' x"
  by (auto simp: in_rrs_def)

text \<open>A record a custom CNAME of the table is put back over.\<close>

definition put_back_over :: "uni \<Rightarrow> dns_record list \<Rightarrow> want list \<Rightarrow> rr list \<Rightarrow> rr \<Rightarrow> bool" where
  "put_back_over U rows wants live x \<longleftrightarrow> x_Type x = ''CNAME'' \<and>
     (\<exists>w \<in> set wants. \<exists>r \<in> set rows. \<exists>y \<in> set live. wa_Type w = ''CNAME'' \<and> dr_Kind r = RecordCustom \<and> rowCKey U r = ckey U w
        \<and> eq_fold U (x_Name y) (wa_Name w) \<and> eq_fold U (x_Name y) (x_Name x) \<and> x_Data y = x_Data x)"

definition edited_cname :: "uni \<Rightarrow> rr list \<Rightarrow> dns_record list \<Rightarrow> want list \<Rightarrow> rr \<Rightarrow> bool" where
  "edited_cname U live rows ws y \<longleftrightarrow> y \<in> set live \<and> x_Type y = ''CNAME'' \<and> (\<exists>w \<in> set ws. \<exists>r \<in> set rows. wa_Type w = ''CNAME'' \<and> dr_Kind r = RecordCustom
     \<and> rowCKey U r = ckey U w \<and> eq_fold U (x_Name y) (wa_Name w))"

lemma custom_step_del:
  assumes "set left \<subseteq> set live" "w \<in> set ws" "y \<in> set (cw_del (fst (custom_step U zone left rows noMX acc w)))"
  shows "y \<in> set (cw_del (fst acc)) \<or> edited_cname U live rows ws y"
proof -
  obtain cw m where acc: "acc = (cw, m)" by fastforce
  let ?row = "find (\<lambda>r. dr_Kind r = RecordCustom \<and> rowCKey U r = ckey U w) rows"
  let ?edited = "\<lambda>x. ?row \<noteq> None \<and> wa_Type w = ''CNAME'' \<and> eq_fold U (x_Name x) (wa_Name w) \<and> x_Type x = ''CNAME''"
  have "cw_del (fst (custom_step U zone left rows noMX acc w)) = cw_del cw
      \<or> cw_del (fst (custom_step U zone left rows noMX acc w)) = cw_del cw @ filter ?edited left"
    by (auto simp: custom_step_def acc Let_def split: option.splits)
  then consider "y \<in> set (cw_del cw)" | "y \<in> set (filter ?edited left)"
    using assms(3) by (elim disjE) (simp_all only: set_append Un_iff, blast+)
  then show ?thesis
  proof cases
    case 2
    have y: "y \<in> set live" "?row \<noteq> None" "wa_Type w = ''CNAME''" "eq_fold U (x_Name y) (wa_Name w)" "x_Type y = ''CNAME''" using 2 assms(1) by auto
    then obtain r where "r \<in> set rows" "dr_Kind r = RecordCustom \<and> rowCKey U r = ckey U w" by (auto simp: find_None_iff)
    then show ?thesis using y assms(2) unfolding edited_cname_def by blast
  qed (simp add: acc)
qed

lemma custom_steps_del:
  "set left \<subseteq> set live \<Longrightarrow> set xs \<subseteq> set ws \<Longrightarrow> y \<in> set (cw_del (fst (foldl (custom_step U zone left rows noMX) acc xs)))
     \<Longrightarrow> y \<in> set (cw_del (fst acc)) \<or> edited_cname U live rows ws y"
proof (induction xs arbitrary: acc)
  case (Cons x xs)
  have "y \<in> set (cw_del (fst (custom_step U zone left rows noMX acc x))) \<or> edited_cname U live rows ws y"
    using Cons.IH Cons.prems by simp
  then show ?case using custom_step_del [OF Cons.prems(1), where w = x and ws = ws and y = y and acc = acc] Cons.prems(2) by (elim disjE) simp_all
qed simp

lemma customs_del: "y \<in> set (cw_del (customs U zone live del ws rows noMX)) \<Longrightarrow> edited_cname U live rows ws y"
  unfolding customs_def Let_def by (drule custom_steps_del [rotated 2]) (auto simp: no_work_def)

lemma mine_cases:
  assumes "mine U zone rows replace (cw_del (customs U zone live del ws rows noMX)) x"
  shows "ours U x rows zone \<or> replace (fqdn zone (x_Name x)) \<or> put_back_over U rows ws live x"
proof (cases "ours U x rows zone \<or> replace (fqdn zone (x_Name x))")
  case False
  then obtain y where y: "y \<in> set (cw_del (customs U zone live del ws rows noMX))"
    "eq_fold U (x_Name y) (x_Name x)" "x_Type y = x_Type x" "x_Data y = x_Data x" using assms by (auto simp: mine_def)
  then show ?thesis using customs_del [OF y(1)] unfolding put_back_over_def edited_cname_def by metis
qed blast

text \<open>What a call to the provider may be, given what the zone held when it was read.\<close>

fun call_ok :: "uni \<Rightarrow> dns_domain \<Rightarrow> rr list \<Rightarrow> dns_record list \<Rightarrow> want list \<Rightarrow> (string \<Rightarrow> bool) \<Rightarrow> pcall \<Rightarrow> bool" where
  "call_ok U d live rows ws replace (PDelete zone del) \<longleftrightarrow>
     (\<forall>x \<in> set live. in_rrs U del x \<longrightarrow> InScope U d (x_Name x)
        \<and> (ours U x rows zone \<or> replace (fqdn zone (x_Name x)) \<or> put_back_over U rows ws live x))"
| "call_ok U d live rows ws replace (PAppend zone put) \<longleftrightarrow> (\<forall>x \<in> set put. InScope U d (x_Name x) \<or> in_rrs U live x)"

fun pcall_zone :: "pcall \<Rightarrow> string" where
  "pcall_zone (PDelete z rs) = z"
| "pcall_zone (PAppend z rs) = z"

lemma provider_write_calls:
  "provider_write e zone del put s = (s', er) \<Longrightarrow> ds_domains s' = ds_domains s \<and> ds_recs s' = ds_recs s
     \<and> (\<exists>cs. ds_calls s' = ds_calls s @ cs \<and> set cs \<subseteq> {PDelete zone del, PAppend zone put})"
  by (auto simp: provider_write_def Let_def split: if_splits)

lemma write_zone_cases:
  assumes "write_zone e d zone zw rows replace live noMX s = (s', taken, er)"
  obtains (refused) x del put m where "s' = s" "taken = []" "er = Some x"
      "checkWrite (de_uni e) d live del put m = Some x"
  | (failed) a cw s1 x where "a = zone_adds (de_uni e) zone zw rows replace live" "cw = customs (de_uni e) zone live (ar_del a) (zw_custom zw) rows noMX"
      "checkWrite (de_uni e) d live (ar_del a @ cw_del cw) (ar_put a @ cw_put cw) (mine (de_uni e) zone rows replace (cw_del cw)) = None"
      "provider_write e zone (ar_del a @ cw_del cw) (ar_put a @ cw_put cw) s = (s1, Some x)" "s' = s1" "taken = ar_taken a" "er = Some (DErr x)"
  | (written) a cw s1 er2 where "a = zone_adds (de_uni e) zone zw rows replace live" "cw = customs (de_uni e) zone live (ar_del a) (zw_custom zw) rows noMX"
      "checkWrite (de_uni e) d live (ar_del a @ cw_del cw) (ar_put a @ cw_put cw) (mine (de_uni e) zone rows replace (cw_del cw)) = None"
      "provider_write e zone (ar_del a @ cw_del cw) (ar_put a @ cw_put cw) s = (s1, None)"
      "zone_rows e d zone zw (ar_made a) cw s1 = (s', er2)" "taken = ar_taken a"
      "er = (case er2 of Some x \<Rightarrow> Some (DErr x) | None \<Rightarrow> dns_Join (cw_clash cw))"
proof -
  define a where "a = zone_adds (de_uni e) zone zw rows replace live"
  define cw where "cw = customs (de_uni e) zone live (ar_del a) (zw_custom zw) rows noMX"
  define del where "del = ar_del a @ cw_del cw"
  define put where "put = ar_put a @ cw_put cw"
  note w = assms [unfolded write_zone_def Let_def, folded a_def, folded cw_def, folded del_def put_def]
  show thesis
  proof (cases "checkWrite (de_uni e) d live del put (mine (de_uni e) zone rows replace (cw_del cw))")
    case (Some x)
    show thesis by (rule refused [OF _ _ _ Some]) (use w Some in simp_all)
  next
    case None
    obtain s1 x where p: "provider_write e zone del put s = (s1, x)" by fastforce
    show thesis
    proof (cases x)
      case (Some y)
      have "s' = s1" "taken = ar_taken a" "er = Some (DErr y)" using w None p Some by simp_all
      then show thesis by (rule failed [OF a_def cw_def, rotated 2]) (use None p Some in \<open>simp_all add: del_def put_def\<close>)
    next
      case none: None
      obtain s2 er2 where z: "zone_rows e d zone zw (ar_made a) cw s1 = (s2, er2)" by fastforce
      have e: "s' = s2" "taken = ar_taken a" "er = (case er2 of Some x \<Rightarrow> Some (DErr x) | None \<Rightarrow> dns_Join (cw_clash cw))"
        using w None p none z by simp_all
      show thesis by (rule written [OF a_def cw_def _ _ _ e(2,3)]) (use None p none z e(1) in \<open>simp_all add: del_def put_def\<close>)
    qed
  qed
qed

lemma apply_zone_cases:
  assumes "apply_zone e zone i zw rows replace s = (s', taken, er)"
  obtains (quiet) "same_zone_state s s'" "taken = []" "\<And>z rs. er \<noteq> Some (OutsideScope z rs)"
  | (called) d live noMX where "domains_Get e s i = Inr d" "i \<noteq> []" "readZone e zone = Inr (live, noMX)"
      "write_zone e d zone zw rows replace live noMX (s\<lparr>ds_noMX := AList.update (Normal (de_uni e) zone) noMX (ds_noMX s)\<rparr>) = (s', taken, er)"
proof (cases "domains_Get e s i")
  case (Inl x)
  then show thesis
    using assms by (intro quiet) (auto simp: apply_zone_def Let_def intro: delete_rows_same_zone split: if_splits prod.splits)
next
  case (Inr d)
  consider "i = []" | "i \<noteq> []" "de_open e (dd_ConnectorID d) (dd_OrgID d) \<noteq> None \<or> (\<exists>x. readZone e zone = Inl x)"
    | live noMX where "i \<noteq> []" "de_open e (dd_ConnectorID d) (dd_OrgID d) = None" "readZone e zone = Inr (live, noMX)"
    by (cases "readZone e zone") auto
  then show thesis
  proof cases
    case 1
    then show thesis using assms Inr by (intro quiet) (auto simp: apply_zone_def Let_def intro: delete_rows_same_zone split: prod.splits)
  next
    case 2
    then show thesis using assms Inr by (intro quiet) (auto simp: apply_zone_def split: option.splits)
  next
    case (3 live noMX)
    then show thesis using assms Inr by (intro called [of d live noMX]) (simp_all add: apply_zone_def)
  qed
qed

lemma apply_zone_calls:
  assumes "apply_zone e zone i zw rows replace s = (s', taken, er)"
  shows "ds_domains s' = ds_domains s \<and> (\<exists>cs. ds_calls s' = ds_calls s @ cs
     \<and> (\<forall>c \<in> set cs. \<exists>d \<in> set (ds_domains s). \<exists>live noMX. dd_ID d = i \<and> i \<noteq> [] \<and> readZone e zone = Inr (live, noMX) \<and> pcall_zone c = zone
          \<and> call_ok (de_uni e) d live rows (zw_custom zw) replace c))"
  using assms
proof (cases rule: apply_zone_cases)
  case quiet
  then show ?thesis by (simp add: same_zone_state_def)
next
  case (called d live noMX)
  have d: "d \<in> set (ds_domains s)" "dd_ID d = i"
    using called(1) by (auto simp: domains_Get_def find_Some_iff split: option.splits)
  have ok: "\<exists>cs. ds_calls s1 = ds_calls s @ cs \<and> ds_domains s1 = ds_domains s
        \<and> (\<forall>c \<in> set cs. pcall_zone c = zone \<and> call_ok (de_uni e) d live rows (zw_custom zw) replace c)"
    if cw: "cw = customs (de_uni e) zone live (ar_del a) (zw_custom zw) rows noMX"
      and c: "checkWrite (de_uni e) d live (ar_del a @ cw_del cw) (ar_put a @ cw_put cw) (mine (de_uni e) zone rows replace (cw_del cw)) = None"
      and p: "provider_write e zone (ar_del a @ cw_del cw) (ar_put a @ cw_put cw) (s\<lparr>ds_noMX := n\<rparr>) = (s1, x)" for a cw s1 x n
  proof -
    have "call_ok (de_uni e) d live rows (zw_custom zw) replace (PDelete zone (ar_del a @ cw_del cw))"
      using c mine_cases unfolding checkWrite_None cw call_ok.simps by blast
    moreover have "call_ok (de_uni e) d live rows (zw_custom zw) replace (PAppend zone (ar_put a @ cw_put cw))"
      using c unfolding checkWrite_None by auto
    moreover obtain cs where "ds_calls s1 = ds_calls s @ cs" "ds_domains s1 = ds_domains s"
      "set cs \<subseteq> {PDelete zone (ar_del a @ cw_del cw), PAppend zone (ar_put a @ cw_put cw)}"
      using provider_write_calls [OF p] by auto
    ultimately show ?thesis by (intro exI [of _ cs]) auto
  qed
  from called(4) show ?thesis
  proof (cases rule: write_zone_cases)
    case (refused x del put m)
    then show ?thesis by simp
  next
    case (failed a cw s1 x)
    then show ?thesis using ok [OF failed(2-4)] d called(2,3) by blast
  next
    case (written a cw s1 er2)
    have "same_zone_state s1 s'" by (rule zone_rows_same_zone [OF written(5)])
    then show ?thesis using ok [OF written(2-4)] d called(2,3) unfolding same_zone_state_def by metis
  qed
qed

section \<open>Lemmas: plans\<close>

text \<open>A fact of every plan, kept when one plan is changed.\<close>

definition plans_all :: "(plan \<Rightarrow> bool) \<Rightarrow> plans \<Rightarrow> bool" where
  "plans_all Q zs \<longleftrightarrow> (\<forall>z p. (z, p) \<in> set zs \<longrightarrow> Q p)"

lemma set_update_subset: "set (AList.update k v al) \<subseteq> insert (k, v) (set al)"
  by (induction al) auto

lemma at_zone_all:
  assumes "plans_all Q zs" "Q no_plan" "\<And>p i. Q p \<Longrightarrow> Q (p\<lparr>pl_id := i\<rparr>)" "\<And>p. Q p \<Longrightarrow> Q (f p)"
  shows "plans_all Q (at_zone z i f zs)"
proof -
  define p where "p = (case map_of zs z of None \<Rightarrow> no_plan | Some p \<Rightarrow> p)"
  have "Q p" using assms(1,2) by (auto simp: p_def plans_all_def split: option.splits dest: map_of_SomeD)
  then have "Q (f (if i \<noteq> [] then p\<lparr>pl_id := i\<rparr> else p))" using assms(3,4) by simp
  then show ?thesis using assms(1) set_update_subset unfolding at_zone_def Let_def p_def [symmetric] plans_all_def by fastforce
qed

definition customs_within :: "want list \<Rightarrow> plan \<Rightarrow> bool" where
  "customs_within ws p \<longleftrightarrow> set (pl_custom p) \<subseteq> set ws"

lemma at_zone_within:
  assumes "plans_all (customs_within ws) zs" "\<And>p. set (pl_custom (f p)) \<subseteq> set (pl_custom p) \<union> set ws"
  shows "plans_all (customs_within ws) (at_zone z i f zs)"
  using assms(1)
proof (rule at_zone_all)
  show "customs_within ws (f p)" if "customs_within ws p" for p using that assms(2) [of p] by (auto simp: customs_within_def)
qed (simp_all add: customs_within_def no_plan_def)

lemma wants_within:
  "plans_all (customs_within ws) (wd_zones a) \<Longrightarrow> set xs \<subseteq> set ws \<Longrightarrow> plans_all (customs_within ws) (wd_zones (foldl (want_step U) a xs))"
proof (induction xs arbitrary: a)
  case (Cons x xs)
  have "plans_all (customs_within ws) (wd_zones (want_step U a x))"
    using Cons.prems by (auto simp: want_step_def intro!: at_zone_within)
  then show ?case using Cons by simp
qed simp

text \<open>One round of the loop over the rows: the row to write, or the plans after it.\<close>

definition row_link :: "uni \<Rightarrow> wanted \<Rightarrow> dns_record \<Rightarrow> dns_record option" where
  "row_link U a r = (if dr_Kind r = RecordCustom then None
     else case map_of (wd_want a) (rowKey U r) of None \<Rightarrow> None
     | Some w \<Rightarrow> if wa_Value w = dr_Value r \<and> (deref (dr_DomainID r) \<noteq> wa_DomainID w \<or> dr_Kind r \<noteq> want_kind w)
         then Some (r\<lparr>dr_DomainID := optID (wa_DomainID w), dr_Kind := want_kind w\<rparr>) else None)"

definition row_dropped :: "uni \<Rightarrow> wanted \<Rightarrow> dns_record \<Rightarrow> bool" where
  "row_dropped U a r \<longleftrightarrow> (if dr_Kind r = RecordCustom then rowCKey U r \<notin> set (wd_custom a)
     else map_of (wd_want a) (rowKey U r) = None \<and> \<not> dr_Adopted r \<and> hold_key U (dr_Zone r) (dr_Name r) \<notin> set (wd_held a))"

definition row_moved :: "uni \<Rightarrow> wanted \<Rightarrow> dns_record \<Rightarrow> want option" where
  "row_moved U a r = (if dr_Kind r = RecordCustom then None
     else case map_of (wd_want a) (rowKey U r) of None \<Rightarrow> None | Some w \<Rightarrow> if wa_Value w \<noteq> dr_Value r then Some w else None)"

definition row_plan :: "uni \<Rightarrow> wanted \<Rightarrow> dns_record \<Rightarrow> plans \<Rightarrow> plans" where
  "row_plan U a r zs =
     (if row_dropped U a r then at_zone (dr_Zone r) (deref (dr_DNSDomainID r)) (\<lambda>p. p\<lparr>pl_drop := pl_drop p @ [r]\<rparr>) zs
      else case row_moved U a r of
        Some w \<Rightarrow> at_zone (dr_Zone r) (wa_DNSDomainID w) (\<lambda>p. p\<lparr>pl_move := pl_move p @ [r], pl_add := pl_add p @ [w]\<rparr>) zs
      | None \<Rightarrow> zs)"

lemma row_loop_Cons:
  "row_loop e a (r # rs) zs s = (case row_link (de_uni e) a r of
     Some r' \<Rightarrow> (case recs_Update e r' s of (s', Some x) \<Rightarrow> (s', Inl x) | (s', None) \<Rightarrow> row_loop e a rs zs s')
   | None \<Rightarrow> row_loop e a rs (row_plan (de_uni e) a r zs) s)"
  by (simp add: row_link_def row_plan_def row_dropped_def row_moved_def Let_def split: option.split)

lemma row_plan_within: "plans_all (customs_within ws) zs \<Longrightarrow> plans_all (customs_within ws) (row_plan U a r zs)"
  by (auto simp: row_plan_def intro!: at_zone_within split: option.split)

lemma row_loop_within:
  "row_loop e a rs zs s = (s', Inr zs') \<Longrightarrow> plans_all (customs_within ws) zs \<Longrightarrow> plans_all (customs_within ws) zs'"
proof (induction rs arbitrary: zs s)
  case (Cons r rs)
  show ?case
  proof (cases "row_link (de_uni e) a r")
    case None
    then show ?thesis using Cons.IH [of "row_plan (de_uni e) a r zs" s] Cons.prems row_plan_within by (simp add: row_loop_Cons del: row_loop.simps)
  next
    case (Some r')
    then show ?thesis using Cons by (auto simp: row_loop_Cons simp del: row_loop.simps split: prod.splits option.splits)
  qed
qed simp

lemma row_loop_same_zone: "row_loop e a rs zs s = (s', x) \<Longrightarrow> same_zone_state s s'"
proof (induction rs arbitrary: zs s)
  case (Cons r rs)
  then show ?case
    by (auto simp: row_loop_Cons simp del: row_loop.simps split: option.splits prod.splits dest: recs_same_zone intro: same_zone_trans)
qed simp

lemma new_within: "plans_all (customs_within ws) zs \<Longrightarrow> plans_all (customs_within ws) (foldl (new_step U a ks) zs xs)"
proof (induction xs arbitrary: zs)
  case (Cons x xs)
  have "plans_all (customs_within ws) (new_step U a ks zs x)"
    using Cons.prems by (auto simp: new_step_def intro!: at_zone_within)
  then show ?case using Cons by simp
qed simp

lemma call_ok_mono: "call_ok U d live rows ws replace c \<Longrightarrow> set ws \<subseteq> set ws' \<Longrightarrow> call_ok U d live rows ws' replace c"
  by (cases c) (fastforce simp: put_back_over_def)+

text \<open>
  The links of wants and rows to managed domains, and that a reconcile picks for a zone a domain of that name when they
  are right.  The keys are compared as texts, so a name holds no bar.
\<close>

definition links_match :: "dns_domain list \<Rightarrow> want list \<Rightarrow> dns_record list \<Rightarrow> bool" where
  "links_match ds wants rows \<longleftrightarrow>
     (\<forall>d \<in> set ds. (\<forall>w \<in> set wants. wa_DNSDomainID w = dd_ID d \<longrightarrow> wa_Zone w = dd_Name d)
        \<and> (\<forall>r \<in> set rows. dr_DNSDomainID r = Some (dd_ID d) \<longrightarrow> dr_Zone r = dd_Name d))
     \<and> (\<forall>w \<in> set wants. CHR ''|'' \<notin> set (wa_Zone w)) \<and> (\<forall>r \<in> set rows. CHR ''|'' \<notin> set (dr_Zone r))"

definition zones_named :: "dns_domain list \<Rightarrow> plans \<Rightarrow> bool" where
  "zones_named ds zs \<longleftrightarrow> (\<forall>z p. (z, p) \<in> set zs \<longrightarrow> (\<forall>d \<in> set ds. pl_id p \<noteq> [] \<and> dd_ID d = pl_id p \<longrightarrow> dd_Name d = z))"

lemma at_zone_named:
  assumes "zones_named ds zs" "\<And>d. d \<in> set ds \<Longrightarrow> i \<noteq> [] \<Longrightarrow> dd_ID d = i \<Longrightarrow> dd_Name d = z" "\<And>p. pl_id (f p) = pl_id p"
  shows "zones_named ds (at_zone z i f zs)"
proof -
  define p where "p = (case map_of zs z of None \<Rightarrow> no_plan | Some p \<Rightarrow> p)"
  let ?v = "f (if i \<noteq> [] then p\<lparr>pl_id := i\<rparr> else p)"
  have p: "dd_Name d = z" if "d \<in> set ds" "pl_id p \<noteq> []" "dd_ID d = pl_id p" for d
    using that assms(1) by (auto simp: p_def zones_named_def no_plan_def split: option.splits dest: map_of_SomeD)
  have v: "dd_Name d = z" if "d \<in> set ds" "pl_id ?v \<noteq> []" "dd_ID d = pl_id ?v" for d
    using that assms(2,3) p by (simp split: if_splits)
  have "at_zone z i f zs = AList.update z ?v zs" by (simp add: at_zone_def Let_def p_def)
  then have s: "set (at_zone z i f zs) \<subseteq> insert (z, ?v) (set zs)" by (simp only: set_update_subset)
  show ?thesis unfolding zones_named_def
  proof (intro allI impI ballI)
    fix y q d
    assume q: "(y, q) \<in> set (at_zone z i f zs)" "d \<in> set ds" "pl_id q \<noteq> [] \<and> dd_ID d = pl_id q"
    then consider "y = z" "q = ?v" | "(y, q) \<in> set zs" using s by blast
    then show "dd_Name d = y"
    proof cases
      case 1
      then show ?thesis using v [OF q(2)] q(3) by simp
    next
      case 2
      then show ?thesis using assms(1) q(2,3) unfolding zones_named_def by blast
    qed
  qed
qed

lemma bar_zone: "z @ ''|'' @ a = z' @ ''|'' @ b \<Longrightarrow> CHR ''|'' \<notin> set z \<Longrightarrow> CHR ''|'' \<notin> set z' \<Longrightarrow> z = z'"
  by (induction z arbitrary: z') (case_tac z', auto)+

text \<open>What a pass over the wants remembers is one of them, under its key.\<close>

definition wants_known :: "uni \<Rightarrow> want list \<Rightarrow> wanted \<Rightarrow> bool" where
  "wants_known U ws a \<longleftrightarrow> (\<forall>k w. map_of (wd_want a) k = Some w \<longrightarrow> w \<in> set ws \<and> k = want_key U w)"

lemma wants_named:
  "zones_named ds (wd_zones a) \<and> wants_known U ws a \<Longrightarrow> links_match ds ws rows \<Longrightarrow> set xs \<subseteq> set ws
     \<Longrightarrow> zones_named ds (wd_zones (foldl (want_step U) a xs)) \<and> wants_known U ws (foldl (want_step U) a xs)"
proof (induction xs arbitrary: a)
  case (Cons x xs)
  have "zones_named ds (wd_zones (want_step U a x))"
    using Cons.prems by (auto simp: want_step_def links_match_def intro!: at_zone_named)
  moreover have "wants_known U ws (want_step U a x)" using Cons.prems(1,3) by (auto simp: want_step_def wants_known_def)
  ultimately show ?case using Cons by simp
qed simp

lemma row_plan_named:
  assumes "zones_named ds zs" "wants_known U ws a" "links_match ds ws rows" "r \<in> set rows"
  shows "zones_named ds (row_plan U a r zs)"
proof (cases "row_dropped U a r")
  case True
  have "dd_Name d = dr_Zone r" if "d \<in> set ds" "deref (dr_DNSDomainID r) \<noteq> []" "dd_ID d = deref (dr_DNSDomainID r)" for d
    using that assms(3,4) by (cases "dr_DNSDomainID r") (auto simp: deref_def links_match_def)
  then show ?thesis using True by (simp add: row_plan_def at_zone_named [OF assms(1)])
next
  case False
  show ?thesis
  proof (cases "row_moved U a r")
    case None
    then show ?thesis using False assms(1) by (simp add: row_plan_def)
  next
    case (Some w)
    then have "map_of (wd_want a) (rowKey U r) = Some w" by (auto simp: row_moved_def split: if_splits option.splits)
    then have w: "w \<in> set ws" "rowKey U r = want_key U w" using assms(2) by (auto simp: wants_known_def)
    have "CHR ''|'' \<notin> set (dr_Zone r)" "CHR ''|'' \<notin> set (wa_Zone w)" using assms(3,4) w(1) by (auto simp: links_match_def)
    then have z: "dr_Zone r = wa_Zone w" using w(2) bar_zone unfolding rowKey_def want_key_def by blast
    have "dd_Name d = wa_Zone w" if "d \<in> set ds" "wa_DNSDomainID w \<noteq> []" "dd_ID d = wa_DNSDomainID w" for d
      using that w(1) assms(3) by (auto simp: links_match_def)
    then show ?thesis using False Some by (simp add: row_plan_def z at_zone_named [OF assms(1)])
  qed
qed

lemma row_loop_named:
  "row_loop e a rs zs s = (s', Inr zs') \<Longrightarrow> zones_named ds zs \<Longrightarrow> wants_known (de_uni e) ws a \<Longrightarrow> links_match ds ws rows
     \<Longrightarrow> set rs \<subseteq> set rows \<Longrightarrow> zones_named ds zs'"
proof (induction rs arbitrary: zs s)
  case (Cons r rs)
  show ?case
  proof (cases "row_link (de_uni e) a r")
    case None
    have "zones_named ds (row_plan (de_uni e) a r zs)" using row_plan_named [OF Cons.prems(2-4)] Cons.prems(5) by simp
    then show ?thesis using Cons.IH Cons.prems None by (simp add: row_loop_Cons del: row_loop.simps)
  next
    case (Some r')
    then show ?thesis using Cons by (auto simp: row_loop_Cons simp del: row_loop.simps split: prod.splits option.splits)
  qed
qed simp

lemma new_named:
  "zones_named ds zs \<Longrightarrow> links_match ds ws rows \<Longrightarrow> set xs \<subseteq> set ws \<Longrightarrow> zones_named ds (foldl (new_step U a ks) zs xs)"
proof (induction xs arbitrary: zs)
  case (Cons x xs)
  have "zones_named ds (new_step U a ks zs x)"
    using Cons.prems by (auto simp: new_step_def links_match_def intro!: at_zone_named)
  then show ?case using Cons by simp
qed simp

lemma zone_loop_calls:
  "zone_loop e ps rows replace s = (s', taken, ers) \<Longrightarrow> plans_all (customs_within ws) ps
     \<Longrightarrow> ds_domains s' = ds_domains s \<and> (\<exists>cs. ds_calls s' = ds_calls s @ cs
       \<and> (\<forall>c \<in> set cs. \<exists>d \<in> set (ds_domains s). \<exists>live noMX. readZone e (pcall_zone c) = Inr (live, noMX) \<and> call_ok (de_uni e) d live rows ws replace c
            \<and> (zones_named (ds_domains s) ps \<longrightarrow> dd_Name d = pcall_zone c)))"
proof (induction ps arbitrary: s taken ers)
  case (Cons q ps)
  obtain zone p where q: "q = (zone, p)" by fastforce
  obtain s1 t er where a: "apply_zone e zone (pl_id p) (plan_work p) rows replace s = (s1, t, er)" using prod_cases3 by blast
  obtain t2 es where l: "zone_loop e ps rows replace s1 = (s', t2, es)"
    using Cons.prems(1) q a by (auto split: prod.splits)
  have w: "set (zw_custom (plan_work p)) \<subseteq> set ws" "plans_all (customs_within ws) ps"
    using Cons.prems(2) q by (auto simp: plans_all_def customs_within_def plan_work_def)
  let ?P = "\<lambda>c. \<exists>d \<in> set (ds_domains s). \<exists>live noMX. readZone e (pcall_zone c) = Inr (live, noMX) \<and> call_ok (de_uni e) d live rows ws replace c
      \<and> (zones_named (ds_domains s) (q # ps) \<longrightarrow> dd_Name d = pcall_zone c)"
  obtain cs1 where 1: "ds_domains s1 = ds_domains s" "ds_calls s1 = ds_calls s @ cs1"
    and c1: "\<And>c. c \<in> set cs1 \<Longrightarrow> \<exists>d \<in> set (ds_domains s). \<exists>live noMX. dd_ID d = pl_id p \<and> pl_id p \<noteq> [] \<and> readZone e zone = Inr (live, noMX)
      \<and> pcall_zone c = zone \<and> call_ok (de_uni e) d live rows (zw_custom (plan_work p)) replace c"
    using apply_zone_calls [OF a] by blast
  have 3: "?P c" if "c \<in> set cs1" for c
    using c1 [OF that] call_ok_mono [OF _ w(1)] unfolding q zones_named_def by (metis list.set_intros(1))
  have n: "zones_named (ds_domains s) (q # ps) \<Longrightarrow> zones_named (ds_domains s) ps" unfolding zones_named_def by simp
  obtain cs2 where 2: "ds_domains s' = ds_domains s1" "ds_calls s' = ds_calls s1 @ cs2" "\<And>c. c \<in> set cs2 \<Longrightarrow> ?P c"
    using Cons.IH [OF l w(2)] n unfolding 1(1) by blast
  have "\<forall>c \<in> set (cs1 @ cs2). ?P c" using 3 2(3) by auto
  moreover have "ds_domains s' = ds_domains s" "ds_calls s' = ds_calls s @ cs1 @ cs2" using 1 2(1,2) by simp_all
  ultimately show ?case by blast
qed simp

lemma Reconcile_calls:
  assumes "Reconcile e wants replace s = (s', er)"
  shows "ds_domains s' = ds_domains s \<and> (\<exists>cs. ds_calls s' = ds_calls s @ cs
     \<and> (\<forall>c \<in> set cs. \<exists>d \<in> set (ds_domains s). \<exists>live noMX. readZone e (pcall_zone c) = Inr (live, noMX)
          \<and> call_ok (de_uni e) d live (filter (\<lambda>r. dr_HandedBackAt r = None) (ds_recs s)) wants replace c
          \<and> (links_match (ds_domains s) wants (filter (\<lambda>r. dr_HandedBackAt r = None) (ds_recs s)) \<longrightarrow> dd_Name d = pcall_zone c)))"
proof (cases "recs_List e s")
  case (Inl x)
  then show ?thesis using assms by (simp add: Reconcile_def)
next
  case (Inr rows)
  let ?U = "de_uni e" and ?ks = "map (rowKey (de_uni e)) (filter (\<lambda>r. dr_Kind r \<noteq> RecordCustom) rows)"
  define a where "a = foldl (want_step ?U) \<lparr>wd_zones = [], wd_want = [], wd_held = [], wd_custom = []\<rparr> wants"
  have rows: "rows = filter (\<lambda>r. dr_HandedBackAt r = None) (ds_recs s)" using Inr by (simp add: recs_List_def split: option.splits)
  obtain s1 x where l: "row_loop e a rows (wd_zones a) s = (s1, x)" by fastforce
  note 1 = row_loop_same_zone [OF l]
  show ?thesis
  proof (cases x)
    case (Inl y)
    then have "s' = s1" using assms Inr l by (simp add: Reconcile_def Let_def a_def [symmetric])
    then show ?thesis using 1 by (simp add: same_zone_state_def)
  next
    case zs: (Inr zs)
    obtain s2 taken ers where z: "zone_loop e (sort_key fst (foldl (new_step ?U a ?ks) zs wants)) rows replace s1 = (s2, taken, ers)"
      using prod_cases3 by blast
    have "plans_all (customs_within wants) (wd_zones a)" unfolding a_def by (rule wants_within) (simp_all add: plans_all_def)
    then have "plans_all (customs_within wants) zs" using row_loop_within l zs by blast
    then have "plans_all (customs_within wants) (sort_key fst (foldl (new_step ?U a ?ks) zs wants))"
      using new_within unfolding plans_all_def by (metis set_sort)
    note c = zone_loop_calls [OF z this]
    have named: "zones_named (ds_domains s) (sort_key fst (foldl (new_step ?U a ?ks) zs wants))" if m: "links_match (ds_domains s) wants rows"
    proof -
      have a: "zones_named (ds_domains s) (wd_zones a) \<and> wants_known ?U wants a"
        unfolding a_def by (rule wants_named [OF _ m]) (simp_all add: zones_named_def wants_known_def)
      then have "zones_named (ds_domains s) zs" using row_loop_named [OF l [unfolded zs] _ _ m] by blast
      from new_named [OF this m order_refl, of ?U a ?ks] show ?thesis unfolding zones_named_def by simp
    qed
    have "s' = s2" using assms Inr l zs z by (simp add: Reconcile_def Let_def a_def [symmetric])
    moreover have "ds_domains s1 = ds_domains s" "ds_calls s1 = ds_calls s" using 1 by (simp_all add: same_zone_state_def)
    ultimately show ?thesis using c named unfolding rows by metis
  qed
qed

lemma Reconcile_domains: "Reconcile e wants replace s = (s', er) \<Longrightarrow> ds_domains s' = ds_domains s"
  using Reconcile_calls by blast

section \<open>Properties: reconciling writes only what is stackr's\<close>

text \<open>
  C11: A reconcile never takes a record that is not stackr's. Whatever the zones hold and wherever a store
  or provider call fails: every write it sends to a provider goes to the zone of a managed domain and is judged by that domain's scope and by what that zone
  held when it was read. A deletion hits, of the records that
  are there, only ones inside the scope that the table says stackr made with that value, or whose host the caller gave up for
  replacement, or a CNAME edited over a custom CNAME of the table. An addition is inside the scope, or is there already. It writes the records' table and no domain.
  What is relied on: a want or an active row that is linked to a managed domain carries that domain's name as its zone, and zone names hold no bar.
\<close>

theorem Reconcile_touches_only_its_own:
  assumes "Reconcile e wants replace s = (s', er)" "links_match (ds_domains s) wants (filter (\<lambda>r. dr_HandedBackAt r = None) (ds_recs s))"
  shows "ds_domains s' = ds_domains s \<and> (\<exists>cs. ds_calls s' = ds_calls s @ cs
     \<and> (\<forall>c \<in> set cs. \<exists>d \<in> set (ds_domains s). \<exists>live noMX. dd_Name d = pcall_zone c \<and> readZone e (pcall_zone c) = Inr (live, noMX)
          \<and> call_ok (de_uni e) d live (filter (\<lambda>r. dr_HandedBackAt r = None) (ds_recs s)) wants replace c))"
  using Reconcile_calls [OF assms(1)] assms(2) by blast

definition ex_uni :: uni where
  "ex_uni = \<lparr>u_lower = (\<lambda>s. s), u_upper = (\<lambda>s. s), u_fold = (=)\<rparr>"

definition ex_live :: "rr list" where
  "ex_live = [mk_rr ''www'' ''A'' ''203.0.113.9'', mk_rr ''app.s'' ''A'' ''198.51.100.1'']"

definition ex_dns_env :: dns_env where
  "ex_dns_env = \<lparr>de_uni = ex_uni, de_fault = (\<lambda>_. None), de_open = (\<lambda>_ _. None), de_get = (\<lambda>_. Inr ex_live), de_mail = None,
     de_delete = (\<lambda>_ _. None), de_append = (\<lambda>_ _. None), de_uuid = (\<lambda>rs. ''n'' @ nat_str (length rs)), de_now = 0\<rparr>"

definition ex_domain :: dns_domain where
  "ex_domain = \<lparr>dd_ID = ''d'', dd_ConnectorID = ''c'', dd_OrgID = None, dd_Name = ''e.com'', dd_ShareAll = True, dd_OrgIDs = [],
     dd_ResourceID = None, dd_Scope = ''s.e.com'', dd_CreatedAt = 0, dd_Records = []\<rparr>"

definition ex_row :: "string \<Rightarrow> string \<Rightarrow> string \<Rightarrow> dns_record" where
  "ex_row i name v = \<lparr>dr_ID = i, dr_DNSDomainID = Some ''d'', dr_Zone = ''e.com'', dr_Name = name, dr_Type = ''A'', dr_Value = v, dr_TTL = TTL,
     dr_DomainID = Some ''t'', dr_Adopted = False, dr_CreatedAt = 0, dr_Kind = RecordApp, dr_PutBackAt = None, dr_HandedBackAt = None\<rparr>"

definition ex_want :: "string \<Rightarrow> string \<Rightarrow> want" where
  "ex_want name v = \<lparr>wa_DNSDomainID = ''d'', wa_Zone = ''e.com'', wa_Name = name, wa_Type = ''A'', wa_Value = v, wa_DomainID = ''t'',
     wa_Kind = RecordApp, wa_Hold = False\<rparr>"

definition ex_dns :: dns_state where
  "ex_dns = \<lparr>ds_domains = [ex_domain], ds_recs = [ex_row ''r1'' ''app.s'' ''198.51.100.1''], ds_calls = [], ds_noMX = []\<rparr>"

text \<open>A tile that moved to another node: its record is deleted and added again, the hand-made one beside it is not touched.\<close>

lemma ex_reconcile:
  "Reconcile ex_dns_env [ex_want ''app.s'' ''198.51.100.2''] (\<lambda>_. False) ex_dns =
     (ex_dns\<lparr>ds_recs := [ex_row ''r1'' ''app.s'' ''198.51.100.2''], ds_noMX := [(''e.com'', [])],
        ds_calls := [PDelete ''e.com'' [mk_rr ''app.s'' ''A'' ''198.51.100.1''], PAppend ''e.com'' [mk_rr ''app.s'' ''A'' ''198.51.100.2'']]\<rparr>, None)"
  by code_simp

theorem Reconcile_touches_only_its_own_witness:
  "\<exists>d live noMX. d \<in> set (ds_domains ex_dns) \<and> dd_Name d = ''e.com'' \<and> readZone ex_dns_env ''e.com'' = Inr (live, noMX)
     \<and> call_ok ex_uni d live (ds_recs ex_dns) [ex_want ''app.s'' ''198.51.100.2''] (\<lambda>_. False) (PDelete ''e.com'' [mk_rr ''app.s'' ''A'' ''198.51.100.1''])"
proof -
  have l: "filter (\<lambda>r. dr_HandedBackAt r = None) (ds_recs ex_dns) = ds_recs ex_dns" by code_simp
  have u: "de_uni ex_dns_env = ex_uni" by (simp add: ex_dns_env_def)
  have z: "ds_calls ex_dns = []" by (simp add: ex_dns_def)
  have m: "links_match (ds_domains ex_dns) [ex_want ''app.s'' ''198.51.100.2''] (filter (\<lambda>r. dr_HandedBackAt r = None) (ds_recs ex_dns))" by code_simp
  show ?thesis
    using Reconcile_touches_only_its_own [OF ex_reconcile m] unfolding l u z by simp blast
qed

text \<open>A write that the check refuses is not made: no provider is called for the zone, no row changes, no host is reported taken.\<close>

theorem refused_write_writes_nothing:
  assumes "apply_zone e zone i zw rows replace s = (s', taken, Some (OutsideScope z rs))"
  shows "ds_calls s' = ds_calls s \<and> ds_recs s' = ds_recs s \<and> taken = []"
  using assms
proof (cases rule: apply_zone_cases)
  case (called d live noMX)
  from called(4) show ?thesis
  proof (cases rule: write_zone_cases)
    case (written a cw s1 er2)
    then show ?thesis by (auto simp: dns_Join_def split: option.splits if_splits)
  qed simp_all
qed blast

section \<open>Lemmas: rows and their scope\<close>

lemma find_found: "find P xs = Some x \<Longrightarrow> x \<in> set xs \<and> P x"
  by (metis find_Some_iff nth_mem)

lemma recs_Update_rows: "recs_Update e r s = (s', None) \<Longrightarrow> ds_recs s' = map (\<lambda>o'. if dr_ID o' = dr_ID r then r else o') (ds_recs s)"
  by (auto simp: recs_Update_def split: option.splits if_splits)

lemma recs_Delete_rows: "recs_Delete e i s = (s', None) \<Longrightarrow> ds_recs s' = filter (\<lambda>o'. dr_ID o' \<noteq> i) (ds_recs s)"
  by (auto simp: recs_Delete_def split: option.splits if_splits)

lemma recs_Create_rows: "recs_Create e r s = (s', None) \<Longrightarrow> ds_recs s' = ds_recs s @ [r] \<and> dr_ID r \<notin> dr_ID ` set (ds_recs s)
    \<and> (\<forall>o' \<in> set (ds_recs s). \<not> same_slot o' r)"
  by (auto simp: recs_Create_def split: option.splits if_splits)

lemma seq_ops_None_Cons: "seq_ops (f # fs) s = (s', None) \<longleftrightarrow> (\<exists>s1. f s = (s1, None) \<and> seq_ops fs s1 = (s', None))"
  by (auto split: prod.splits option.splits)

lemma seq_ops_None_append: "seq_ops (fs @ gs) s = (s', None) \<longleftrightarrow> (\<exists>s1. seq_ops fs s = (s1, None) \<and> seq_ops gs s1 = (s', None))"
  by (induction fs arbitrary: s) (auto split: prod.splits option.splits)

lemma delete_all_rows:
  "seq_ops (map (\<lambda>r. recs_Delete e (dr_ID r)) rs) s = (s', None) \<Longrightarrow> ds_recs s' = filter (\<lambda>o'. dr_ID o' \<notin> dr_ID ` set rs) (ds_recs s)"
proof (induction rs arbitrary: s)
  case (Cons r rs)
  obtain s1 where 1: "recs_Delete e (dr_ID r) s = (s1, None)" "seq_ops (map (\<lambda>r. recs_Delete e (dr_ID r)) rs) s1 = (s', None)"
    using Cons.prems unfolding list.map seq_ops_None_Cons by blast
  show ?case using Cons.IH [OF 1(2)] recs_Delete_rows [OF 1(1)] by (auto intro: filter_cong)
qed simp

lemma update_all_rows:
  "seq_ops (map (\<lambda>r. recs_Update e (g r)) rs) s = (s', None) \<Longrightarrow> (\<And>r. dr_ID (g r) = dr_ID r) \<Longrightarrow> distinct (map dr_ID rs)
     \<Longrightarrow> ds_recs s' = map (\<lambda>o'. case find (\<lambda>r. dr_ID r = dr_ID o') rs of Some r \<Rightarrow> g r | None \<Rightarrow> o') (ds_recs s)"
proof (induction rs arbitrary: s)
  case (Cons r rs)
  obtain s1 where 1: "recs_Update e (g r) s = (s1, None)" "seq_ops (map (\<lambda>r. recs_Update e (g r)) rs) s1 = (s', None)"
    using Cons.prems(1) unfolding list.map seq_ops_None_Cons by blast
  have "find (\<lambda>x. dr_ID x = dr_ID r) rs = None" using Cons.prems(3) unfolding find_None_iff by (metis distinct.simps(2) image_eqI list.set_map list.simps(9))
  then show ?case using Cons.IH [OF 1(2) Cons.prems(2)] Cons.prems(2,3) recs_Update_rows [OF 1(1)] by (auto simp: comp_def)
qed simp

text \<open>Rows of the zone are live inside the scope and handed back outside it.\<close>

definition zone_in_scope :: "uni \<Rightarrow> dns_domain \<Rightarrow> dns_record list \<Rightarrow> bool" where
  "zone_in_scope U d rs \<longleftrightarrow> (\<forall>r \<in> set rs. dr_Zone r = dd_Name d \<longrightarrow> (dr_HandedBackAt r = None \<longleftrightarrow> InScope U d (dr_Name r)))"

lemma adopt_in_scope:
  assumes "adopt e d refs s = (s', None)" "\<forall>f \<in> set refs. InScope U d (rf_Name f)" "zone_in_scope U d (ds_recs s)"
  shows "zone_in_scope U d (ds_recs s') \<and> same_zone_state s s' \<and> set (ds_recs s) \<subseteq> set (ds_recs s')"
proof -
  let ?P = "\<lambda>s s'. zone_in_scope U d (ds_recs s) \<longrightarrow> zone_in_scope U d (ds_recs s') \<and> same_zone_state s s' \<and> set (ds_recs s) \<subseteq> set (ds_recs s')"
  obtain rows where r: "seq_ops (map (\<lambda>f s. let r = adopt_row e d f (ds_recs s) in
          if rowKey (de_uni e) r \<in> rowKey (de_uni e) ` set rows then (s, None) else recs_Create e r s) refs) s = (s', None)"
    using assms(1) by (auto simp: adopt_def split: sum.splits)
  have "?P s s'"
    using r
  proof (rule seq_ops_keeps)
    fix g a b x
    assume "g \<in> set (map (\<lambda>f s. let r = adopt_row e d f (ds_recs s) in
          if rowKey (de_uni e) r \<in> rowKey (de_uni e) ` set rows then (s, None) else recs_Create e r s) refs)" and g: "g a = (b, x)"
    then obtain f where f: "f \<in> set refs" "g = (\<lambda>s. let r = adopt_row e d f (ds_recs s) in
          if rowKey (de_uni e) r \<in> rowKey (de_uni e) ` set rows then (s, None) else recs_Create e r s)" by auto
    have "b = a \<or> ds_recs b = ds_recs a @ [adopt_row e d f (ds_recs a)] \<and> same_zone_state a b"
      using g unfolding f(2) by (auto simp: Let_def recs_Create_def same_zone_state_def split: if_splits option.splits)
    then show "?P a b" using assms(2) f(1) by (auto simp: zone_in_scope_def adopt_row_def)
  qed (simp, meson same_zone_trans subset_trans)
  then show ?thesis using assms(3) by blast
qed

text \<open>Marking the rows outside the scope, and forgetting the marks inside it, on the whole table.\<close>

definition row_out :: "uni \<Rightarrow> dns_domain \<Rightarrow> dns_record \<Rightarrow> bool" where
  "row_out U d r \<longleftrightarrow> dr_HandedBackAt r = None \<and> dr_Zone r = dd_Name d \<and> \<not> InScope U d (dr_Name r)"

definition row_wide :: "uni \<Rightarrow> dns_domain \<Rightarrow> dns_record \<Rightarrow> bool" where
  "row_wide U d r \<longleftrightarrow> dr_HandedBackAt r \<noteq> None \<and> dr_Zone r = dd_Name d \<and> InScope U d (dr_Name r)"

lemma mark_rows_table:
  assumes "seq_ops (map (\<lambda>r. recs_Update e (r\<lparr>dr_HandedBackAt := t\<rparr>)) (filter P (ds_recs s))) s = (s', None)" "distinct (map dr_ID (ds_recs s))"
  shows "ds_recs s' = map (\<lambda>r. if P r then r\<lparr>dr_HandedBackAt := t\<rparr> else r) (ds_recs s)"
proof -
  have "distinct (map dr_ID (filter P (ds_recs s)))" using assms(2) by (rule distinct_map_filter)
  then have "ds_recs s' = map (\<lambda>o'. case find (\<lambda>r. dr_ID r = dr_ID o') (filter P (ds_recs s)) of Some r \<Rightarrow> r\<lparr>dr_HandedBackAt := t\<rparr> | None \<Rightarrow> o') (ds_recs s)"
    using update_all_rows [OF assms(1)] by simp
  also have "\<dots> = map (\<lambda>r. if P r then r\<lparr>dr_HandedBackAt := t\<rparr> else r) (ds_recs s)"
  proof (rule map_cong [OF refl])
    fix o' assume o': "o' \<in> set (ds_recs s)"
    have uniq: "r = o'" if "r \<in> set (ds_recs s)" "dr_ID r = dr_ID o'" for r
      using that o' assms(2) by (auto simp: distinct_map inj_on_def)
    show "(case find (\<lambda>r. dr_ID r = dr_ID o') (filter P (ds_recs s)) of Some r \<Rightarrow> r\<lparr>dr_HandedBackAt := t\<rparr> | None \<Rightarrow> o')
      = (if P o' then o'\<lparr>dr_HandedBackAt := t\<rparr> else o')"
    proof (cases "find (\<lambda>r. dr_ID r = dr_ID o') (filter P (ds_recs s))")
      case None
      then have "\<not> P o'" using o' by (auto simp: find_None_iff)
      then show ?thesis using None by simp
    next
      case (Some r)
      then have "r \<in> set (filter P (ds_recs s))" "dr_ID r = dr_ID o'" by (auto dest: find_found)
      then show ?thesis using Some uniq [of r] by auto
    qed
  qed
  finally show ?thesis .
qed

lemma delete_rows_table:
  assumes "seq_ops (map (\<lambda>r. recs_Delete e (dr_ID r)) (filter P (ds_recs s))) s = (s', None)" "distinct (map dr_ID (ds_recs s))"
  shows "ds_recs s' = filter (\<lambda>r. \<not> P r) (ds_recs s)"
  unfolding delete_all_rows [OF assms(1)]
proof (rule filter_cong [OF refl])
  fix x assume x: "x \<in> set (ds_recs s)"
  then have "y = x" if "y \<in> set (ds_recs s)" "dr_ID y = dr_ID x" for y using that assms(2) by (auto simp: distinct_map inj_on_def)
  then show "dr_ID x \<notin> dr_ID ` set (filter P (ds_recs s)) \<longleftrightarrow> \<not> P x" using x by (auto simp: image_iff)
qed

text \<open>
  C38: A change of scope hands back what falls outside. After it the domain has the scope that was asked for, of its zone every row stackr still acts on is at or under
  the scope and every row outside it is kept but marked handed back; no provider was called, so every record
  stays in the zone as it was, and no reconcile can write one outside any more.
\<close>

theorem Rescope_hands_back_outside:
  assumes "Rescope e i zone scope0 refs s = (s', None)" "distinct (map dr_ID (ds_recs s))"
  shows "\<exists>d scope. Scope (de_uni e) zone scope0 = Inr scope \<and> d \<in> set (ds_domains s') \<and> dd_Name d = Normal (de_uni e) zone \<and> dd_ConnectorID d = i
     \<and> dd_Scope d = scope \<and> zone_in_scope (de_uni e) d (ds_recs s') \<and> ds_calls s' = ds_calls s
     \<and> {dr_ID r |r. r \<in> set (ds_recs s) \<and> dr_HandedBackAt r = None} \<subseteq> dr_ID ` set (ds_recs s')"
proof -
  let ?U = "de_uni e"
  obtain scope d0 s1 where sc: "Scope ?U zone scope0 = Inr scope" and d0: "byName e s i zone = Inr d0"
    and upd: "domains_Update e (d0\<lparr>dd_Scope := scope\<rparr>) s = (s1, None)" and m: "mark_rows e (d0\<lparr>dd_Scope := scope\<rparr>) refs s1 = (s', None)"
    using assms(1) by (auto simp: Rescope_def Let_def split: sum.splits prod.splits option.splits)
  define d where "d = d0\<lparr>dd_Scope := scope\<rparr>"
  note 1 = upd [folded d_def]
  obtain rows s2 where rows: "recs_List e s1 = Inr rows"
    and 2: "seq_ops (map (\<lambda>r. recs_Update e (r\<lparr>dr_HandedBackAt := Some (de_now e)\<rparr>)) (HandBack ?U d rows)) s1 = (s2, None)"
    and dm: "drop_marks e d refs s2 = (s', None)"
    using m [folded d_def] by (auto simp: mark_rows_def split: sum.splits prod.splits option.splits)
  obtain marked s3 where marked: "recs_ListHandedBack e s2 = Inr marked"
    and 3: "seq_ops (map (\<lambda>r. recs_Delete e (dr_ID r)) (filter (\<lambda>r. dr_Zone r = dd_Name d \<and> InScope ?U d (dr_Name r)) marked)) s2 = (s3, None)"
    and 4: "adopt e d (filter (\<lambda>f. InScope ?U d (rf_Name f)) refs) s3 = (s', None)"
    using dm by (auto simp: drop_marks_def split: sum.splits prod.splits option.splits)
  let ?mark = "\<lambda>r. r\<lparr>dr_HandedBackAt := Some (de_now e)\<rparr>"
  have s1: "ds_recs s1 = ds_recs s" "ds_calls s1 = ds_calls s" "d \<in> set (ds_domains s1)"
    using 1 by (auto simp: domains_Update_def split: option.splits if_splits)
  have "rows = filter (\<lambda>r. dr_HandedBackAt r = None) (ds_recs s1)" using rows by (simp add: recs_List_def split: option.splits)
  then have hb: "HandBack ?U d rows = filter (row_out ?U d) (ds_recs s1)" by (auto simp: HandBack_def row_out_def intro: filter_cong)
  have s2: "ds_recs s2 = map (\<lambda>r. if row_out ?U d r then ?mark r else r) (ds_recs s)"
    using mark_rows_table [OF 2 [unfolded hb]] assms(2) by (simp add: s1)
  have z2: "same_zone_state s1 s2" using 2 by (rule seq_ops_same_zone) (auto intro: recs_same_zone)
  have "marked = filter (\<lambda>r. dr_HandedBackAt r \<noteq> None) (ds_recs s2)" using marked by (simp add: recs_ListHandedBack_def split: option.splits)
  then have bf: "filter (\<lambda>r. dr_Zone r = dd_Name d \<and> InScope ?U d (dr_Name r)) marked = filter (row_wide ?U d) (ds_recs s2)"
    by (auto simp: row_wide_def intro: filter_cong)
  have "map dr_ID (ds_recs s2) = map dr_ID (ds_recs s)" unfolding s2 by simp
  then have s3: "ds_recs s3 = filter (\<lambda>r. \<not> row_wide ?U d r) (ds_recs s2)" using delete_rows_table [OF 3 [unfolded bf]] assms(2) by simp
  have z3: "same_zone_state s2 s3" using 3 by (rule delete_rows_same_zone)
  have in3: "zone_in_scope ?U d (ds_recs s3)" unfolding s3 s2 by (auto simp: zone_in_scope_def row_wide_def row_out_def)
  have a: "zone_in_scope ?U d (ds_recs s')" "same_zone_state s3 s'" "set (ds_recs s3) \<subseteq> set (ds_recs s')"
    using adopt_in_scope [OF 4 _ in3] by auto
  have kept: "dr_ID r \<in> dr_ID ` set (ds_recs s')" if "r \<in> set (ds_recs s)" "dr_HandedBackAt r = None" for r
  proof -
    have "(if row_out ?U d r then ?mark r else r) \<in> set (ds_recs s3)" using that unfolding s3 s2 by (auto simp: row_wide_def row_out_def)
    then have "(if row_out ?U d r then ?mark r else r) \<in> set (ds_recs s')" using a(3) by blast
    then show ?thesis by (metis (no_types, lifting) dns_record.select_convs(1) dns_record.surjective dns_record.update_convs(13) image_eqI)
  qed
  have "d \<in> set (ds_domains s')" "ds_calls s' = ds_calls s" using s1 z2 z3 a(2) by (auto simp: same_zone_state_def)
  moreover have "dd_Name d = Normal ?U zone" "dd_ConnectorID d = i"
    using d0 by (auto simp: byName_def domains_ListByConnector_def d_def dest!: find_found split: sum.splits option.splits)
  ultimately show ?thesis using sc a(1) kept by (intro exI [of _ d] exI [of _ scope]) (auto simp: d_def)
qed

definition ex_wide :: dns_state where
  "ex_wide = \<lparr>ds_domains = [ex_domain\<lparr>dd_Scope := []\<rparr>], ds_recs = [ex_row ''r1'' ''app.s'' ''198.51.100.1'', ex_row ''r2'' ''www'' ''203.0.113.9''],
     ds_calls = [], ds_noMX = []\<rparr>"

theorem Rescope_hands_back_outside_witness:
  "map dr_HandedBackAt (ds_recs (fst (Rescope ex_dns_env ''c'' ''E.com'' ''s.e.com'' [] ex_wide))) = [None, Some 0]
   \<and> (\<exists>d. dd_Scope d = ''s.e.com'' \<and> zone_in_scope ex_uni d (ds_recs (fst (Rescope ex_dns_env ''c'' ''E.com'' ''s.e.com'' [] ex_wide))))"
proof
  show "map dr_HandedBackAt (ds_recs (fst (Rescope ex_dns_env ''c'' ''E.com'' ''s.e.com'' [] ex_wide))) = [None, Some 0]" by code_simp
  have "snd (Rescope ex_dns_env ''c'' ''E.com'' ''s.e.com'' [] ex_wide) = None" by code_simp
  then have r: "Rescope ex_dns_env ''c'' ''E.com'' ''s.e.com'' [] ex_wide = (fst (Rescope ex_dns_env ''c'' ''E.com'' ''s.e.com'' [] ex_wide), None)"
    by (simp add: prod_eq_iff)
  have d: "distinct (map dr_ID (ds_recs ex_wide))" by code_simp
  have u: "de_uni ex_dns_env = ex_uni" by (simp add: ex_dns_env_def)
  have sc: "Scope ex_uni ''E.com'' ''s.e.com'' = Inr ''s.e.com''" by code_simp
  show "\<exists>d. dd_Scope d = ''s.e.com'' \<and> zone_in_scope ex_uni d (ds_recs (fst (Rescope ex_dns_env ''c'' ''E.com'' ''s.e.com'' [] ex_wide)))"
    using Rescope_hands_back_outside [OF r d] unfolding u sc by blast
qed

section \<open>Forgetting a domain\<close>

text \<open>
  Forgetting a domain sends the provider one deletion at most. It names records of rows stackr made, never an adopted or a kept one, and it hits only records inside the scope that
  the table says are stackr's. When it succeeds the zone has no row left that stackr acts on.
\<close>

theorem Forget_deletes_only_its_own:
  assumes "Forget e zone keep s = (s', er)"
  shows "(ds_calls s' = ds_calls s \<or> (\<exists>del d live. ds_calls s' = ds_calls s @ [PDelete zone del] \<and> d \<in> set (ds_domains s) \<and> dd_Name d = zone \<and> de_get e zone = Inr live
        \<and> (\<forall>x \<in> set del. \<exists>r \<in> set (ds_recs s). dr_Zone r = zone \<and> dr_HandedBackAt r = None \<and> \<not> dr_Adopted r \<and> \<not> keep (lower (de_uni e) (dr_Name r)) \<and> x = row_rr r)
        \<and> (\<forall>x \<in> set live. in_rrs (de_uni e) del x \<longrightarrow> InScope (de_uni e) d (x_Name x)
             \<and> ours (de_uni e) x (filter (\<lambda>r. dr_HandedBackAt r = None \<and> dr_Zone r = zone) (ds_recs s)) zone)))
     \<and> (er = None \<longrightarrow> (\<forall>r \<in> set (ds_recs s'). dr_Zone r = zone \<longrightarrow> dr_HandedBackAt r \<noteq> None))"
proof -
  let ?U = "de_uni e"
  let ?rows = "filter (\<lambda>r. dr_Zone r = zone) (filter (\<lambda>r. dr_HandedBackAt r = None) (ds_recs s))"
  let ?del = "map row_rr (filter (\<lambda>r. \<not> dr_Adopted r \<and> \<not> keep (lower ?U (dr_Name r))) ?rows)"
  have ff: "filter (\<lambda>r. dr_HandedBackAt r = None \<and> dr_Zone r = zone) (ds_recs s) = ?rows" by (simp add: conj_commute)
  show ?thesis
  proof (cases "\<exists>all marked. recs_List e s = Inr all \<and> recs_ListHandedBack e s = Inr marked")
    case False
    then have "s' = s \<and> er \<noteq> None" using assms by (auto simp: Forget_def Let_def split: sum.splits)
    then show ?thesis by auto
  next
    case True
    then obtain marked where l: "recs_List e s = Inr (filter (\<lambda>r. dr_HandedBackAt r = None) (ds_recs s))" "recs_ListHandedBack e s = Inr marked"
      by (auto simp: recs_List_def split: option.splits)
    have mk: "marked = filter (\<lambda>r. dr_HandedBackAt r \<noteq> None) (ds_recs s)" using l(2) by (simp add: recs_ListHandedBack_def split: option.splits)
    obtain s1 x where 1: "seq_ops (map (\<lambda>r. recs_Delete e (dr_ID r)) (filter (\<lambda>r. dr_Zone r = zone) marked)) s = (s1, x)" by fastforce
    have z1: "same_zone_state s s1" by (rule delete_rows_same_zone [OF 1])
    show ?thesis
    proof (cases "x = None \<and> ?rows \<noteq> []")
      case False
      then have s': "s' = s1" "er = map_option DErr x" using assms l 1 by (auto simp: Forget_def Let_def split: option.splits)
      have "dr_HandedBackAt r \<noteq> None" if "x = None" "r \<in> set (ds_recs s1)" "dr_Zone r = zone" for r
        using that False delete_all_rows [OF 1 [unfolded \<open>x = None\<close>]] by (auto simp: filter_empty_conv)
      then show ?thesis using z1 s' by (auto simp: same_zone_state_def)
    next
      case go: True
      obtain s2 er2 where w2: "forget_zone e zone ?rows keep s1 = (s2, er2)" by fastforce
      have f: "(case er2 of Some x \<Rightarrow> (s2, Some x)
         | None \<Rightarrow> let (s3, er3) = seq_ops (map (\<lambda>r. recs_Delete e (dr_ID r)) ?rows) s2 in (s3, map_option DErr er3)) = (s', er)"
        using assms l 1 go w2 by (cases er2) (auto simp: Forget_def Let_def simp del: filter_filter)
      have s': "ds_calls s' = ds_calls s2" using f by (auto split: option.splits prod.splits dest!: delete_rows_same_zone simp: same_zone_state_def)
      have rows2: "ds_recs s2 = ds_recs s1" using w2 by (auto simp: forget_zone_def Let_def split: if_splits sum.splits option.splits)
      have "\<forall>r \<in> set (ds_recs s'). dr_Zone r = zone \<longrightarrow> dr_HandedBackAt r \<noteq> None" if "er = None"
      proof -
        have d: "seq_ops (map (\<lambda>r. recs_Delete e (dr_ID r)) ?rows) s2 = (s', None)" using f that by (auto split: option.splits prod.splits)
        have "set (ds_recs s1) \<subseteq> set (ds_recs s)" using delete_all_rows [OF 1 [unfolded conjunct1 [OF go]]] by simp
        then show ?thesis using delete_all_rows [OF d] rows2 by auto
      qed
      moreover have "ds_calls s2 = ds_calls s \<or> (\<exists>d live. ds_calls s2 = ds_calls s @ [PDelete zone ?del] \<and> d \<in> set (ds_domains s) \<and> dd_Name d = zone \<and> de_get e zone = Inr live
          \<and> checkWrite ?U d live ?del [] (\<lambda>x. ours ?U x ?rows zone) = None)"
        using w2 z1 by (auto simp: forget_zone_def Let_def same_zone_state_def domains_GetByName_def dest!: find_found split: if_splits sum.splits option.splits)
      ultimately show ?thesis unfolding s' ff checkWrite_None by fastforce
    qed
  qed
qed

section \<open>Two corners of custom records\<close>

text \<open>
  The empty text is refused before the quotes around a text are taken off: two quotes pass and are stored as the empty value, which
  \<^verbatim>\<open>acme.go\<close> keeps out because it matches every text record on a delete.
\<close>

theorem quoted_empty_text_is_stored:
  "CustomValue ex_uni ''TXT'' [] \<noteq> Inr (''TXT'', []) \<and> CustomValue ex_uni ''TXT'' [CHR 0x22, CHR 0x22] = Inr (''TXT'', [])"
proof
  show "CustomValue ex_uni ''TXT'' [] \<noteq> Inr (''TXT'', [])" by code_simp
  show "CustomValue ex_uni ''TXT'' [CHR 0x22, CHR 0x22] = Inr (''TXT'', [])" by code_simp
qed

text \<open>
  A custom CNAME that was edited by hand while another record stands at its name: putting it back clashes with the other record, so
  nothing is put, but the edited CNAME is in the deletions already.
\<close>

definition ex_cname_row :: dns_record where
  "ex_cname_row = (ex_row ''r'' ''shop'' ''a.net'')\<lparr>dr_Type := ''CNAME'', dr_Kind := RecordCustom\<rparr>"

definition ex_cname_want :: want where
  "ex_cname_want = (ex_want ''shop'' ''a.net'')\<lparr>wa_Type := ''CNAME'', wa_Kind := RecordCustom\<rparr>"

theorem clashing_put_back_deletes:
  "let cw = customs ex_uni ''e.com'' [mk_rr ''shop'' ''CNAME'' ''b.net'', mk_rr ''shop'' ''TXT'' ''hi''] [] [ex_cname_want] [ex_cname_row] []
   in cw_del cw = [mk_rr ''shop'' ''CNAME'' ''b.net''] \<and> cw_put cw = [] \<and> cw_back cw = []"
  unfolding Let_def
proof (intro conjI)
  show "cw_del (customs ex_uni ''e.com'' [mk_rr ''shop'' ''CNAME'' ''b.net'', mk_rr ''shop'' ''TXT'' ''hi''] [] [ex_cname_want] [ex_cname_row] [])
    = [mk_rr ''shop'' ''CNAME'' ''b.net'']" by code_simp
  show "cw_put (customs ex_uni ''e.com'' [mk_rr ''shop'' ''CNAME'' ''b.net'', mk_rr ''shop'' ''TXT'' ''hi''] [] [ex_cname_want] [ex_cname_row] []) = []" by code_simp
  show "cw_back (customs ex_uni ''e.com'' [mk_rr ''shop'' ''CNAME'' ''b.net'', mk_rr ''shop'' ''TXT'' ''hi''] [] [ex_cname_want] [ex_cname_row] []) = []" by code_simp
qed

end
