(* ===== verification/Dns_Manage.thy ===== *)
theory Dns_Manage
  imports Dns_Safety
begin

text \<open>
  The managed domains of \<^verbatim>\<open>internal/service/internal/leaf/dnscap\<close> (\<^verbatim>\<open>dnscap.go\<close>, \<^verbatim>\<open>acme.go\<close>, \<^verbatim>\<open>SetRecords\<close>): which domains of an account stackr
  manages, for whom, at and under which name, and which ACME challenges it lets through.

  Shown: whatever is managed, unmanaged, linked, rescoped or given records, a name is managed once, every scope lies under its
  domain and an org's domain is its org's alone; an ACME challenge is a text record of that name inside the scope.
\<close>

section \<open>Model\<close>

record zone_info =
  zn_Name :: string
  zn_OurDNS :: bool

definition Managed :: string where "Managed = ''managed''"
definition NotManaged :: string where "NotManaged = ''not_managed''"
definition Elsewhere :: string where "Elsewhere = ''dns_elsewhere''"
definition Taken_state :: string where "Taken_state = ''managed_elsewhere''"

record acct_domain =
  ad_Name :: string
  ad_State :: string
  ad_ShareAll :: bool
  ad_OrgIDs :: "string list"
  ad_Scope :: string

definition row_domain :: "dns_domain \<Rightarrow> acct_domain" where
  "row_domain r = \<lparr>ad_Name = dd_Name r, ad_State = Managed, ad_ShareAll = dd_ShareAll r, ad_OrgIDs = dd_OrgIDs r, ad_Scope = dd_Scope r\<rparr>"

text \<open>\<^verbatim>\<open>slices.Delete\<close> at the first row of the name.\<close>

fun drop_name :: "string \<Rightarrow> dns_domain list \<Rightarrow> dns_domain list" where
  "drop_name n [] = []"
| "drop_name n (r # rs) = (if dd_Name r = n then rs else r # drop_name n rs)"

fun merge :: "zone_info list \<Rightarrow> dns_domain list \<Rightarrow> acct_domain list" where
  "merge [] rows = map row_domain rows"
| "merge (z # zs) rows =
     (case find (\<lambda>r. dd_Name r = zn_Name z) rows of
        Some r \<Rightarrow> row_domain r # merge zs (drop_name (zn_Name z) rows)
      | None \<Rightarrow> \<lparr>ad_Name = zn_Name z, ad_State = (if zn_OurDNS z then NotManaged else Elsewhere), ad_ShareAll = False, ad_OrgIDs = [], ad_Scope = []\<rparr>
          # merge zs rows)"

definition States :: "zone_info list \<Rightarrow> acct_domain list" where
  "States zs = merge zs []"

definition Domains :: "dns_env \<Rightarrow> string \<Rightarrow> err + zone_info list \<Rightarrow> dns_state \<Rightarrow> err + acct_domain list" where
  "Domains e i zones s = (case zones of Inl x \<Rightarrow> Inl x
     | Inr zs \<Rightarrow> (case domains_List e s of Inl x \<Rightarrow> Inl x
        | Inr all \<Rightarrow> Inr (map (\<lambda>d. if ad_State d \<noteq> Managed \<and> (\<exists>r \<in> set all. dd_Name r = ad_Name d) then d\<lparr>ad_State := Taken_state\<rparr> else d)
            (merge zs (filter (\<lambda>r. dd_ConnectorID r = i) all)))))"

definition Managed_count :: "dns_env \<Rightarrow> string \<Rightarrow> dns_state \<Rightarrow> err + nat" where
  "Managed_count e i s = (case domains_ListByConnector e s i of Inl x \<Rightarrow> Inl x | Inr rows \<Rightarrow> Inr (length rows))"

definition account_zone :: "err + zone_info list \<Rightarrow> string \<Rightarrow> err + zone_info" where
  "account_zone zones name = (case zones of Inl x \<Rightarrow> Inl x
     | Inr zs \<Rightarrow> (case find (\<lambda>z. zn_Name z = name) zs of None \<Rightarrow> Inl (Invalidf ''domain'' ''%s is not on this account'' [name]) | Some z \<Rightarrow> Inr z))"

text \<open>A managed domain keeps its scope; the row's ids and time are parameters.\<close>

definition manage_again :: "dns_env \<Rightarrow> dns_domain \<Rightarrow> acct_domain \<Rightarrow> string list \<Rightarrow> dns_state \<Rightarrow> dns_state \<times> (err + acct_domain)" where
  "manage_again e r d orgIDs s =
     (if ad_Scope d \<noteq> [] \<and> ad_Scope d \<noteq> dd_Scope r
      then (s, Inl (Conflictf ''%s is already managed. Use Change scope to change what stackr manages.'' [ad_Name d]))
      else case domains_Update e (r\<lparr>dd_ShareAll := ad_ShareAll d, dd_OrgIDs := orgIDs\<rparr>) s of
        (s', Some x) \<Rightarrow> (s', Inl x) | (s', None) \<Rightarrow> (s', Inr (d\<lparr>ad_Scope := dd_Scope r\<rparr>)))"

definition manage_new :: "dns_env \<Rightarrow> string \<Rightarrow> string option \<Rightarrow> err + zone_info list \<Rightarrow> string \<Rightarrow> acct_domain \<Rightarrow> string list \<Rightarrow> dns_state
    \<Rightarrow> dns_state \<times> (err + acct_domain)" where
  "manage_new e i orgID zones uuid d orgIDs s =
     (case account_zone zones (ad_Name d) of Inl x \<Rightarrow> (s, Inl x)
      | Inr z \<Rightarrow>
        if \<not> zn_OurDNS z then (s, Inl (Conflictf ''%s uses DNS elsewhere; take over its DNS first'' [ad_Name d]))
        else case domains_Create e \<lparr>dd_ID = uuid, dd_ConnectorID = i, dd_OrgID = orgID, dd_Name = ad_Name d, dd_ShareAll = ad_ShareAll d, dd_OrgIDs = orgIDs,
            dd_ResourceID = None, dd_Scope = ad_Scope d, dd_CreatedAt = de_now e, dd_Records = []\<rparr> s of
          (s', None) \<Rightarrow> (s', Inr d)
        | (s', Some x) \<Rightarrow> (s', Inl (if IsConflict x \<noteq> None then Conflictf ''%s is managed through another connector'' [ad_Name d] else x)))"

definition Manage :: "dns_env \<Rightarrow> string \<Rightarrow> string option \<Rightarrow> err + zone_info list \<Rightarrow> string \<Rightarrow> string \<Rightarrow> string \<Rightarrow> string list \<Rightarrow> dns_state
    \<Rightarrow> dns_state \<times> (err + acct_domain)" where
  "Manage e i orgID zones uuid name0 scope0 orgIDs s =
     (let U = de_uni e; name = Normal U name0 in
      if orgID \<noteq> None \<and> orgIDs \<noteq> [] then (s, Inl (Invalidf ''org_ids'' ''An organization's connector serves that organization only'' []))
      else case Scope U name scope0 of Inl x \<Rightarrow> (s, Inl x)
      | Inr scope \<Rightarrow>
        let d = \<lparr>ad_Name = name, ad_State = Managed, ad_ShareAll = (orgID = None \<and> orgIDs = []), ad_OrgIDs = orgIDs, ad_Scope = scope\<rparr>
        in case domains_ListByConnector e s i of Inl x \<Rightarrow> (s, Inl x)
        | Inr rows \<Rightarrow> (case find (\<lambda>r. dd_Name r = name) rows of
            Some r \<Rightarrow> manage_again e r d orgIDs s
          | None \<Rightarrow> manage_new e i orgID zones uuid d orgIDs s))"

definition Unmanage :: "dns_env \<Rightarrow> string \<Rightarrow> string \<Rightarrow> dns_state \<Rightarrow> dns_state \<times> (err + dns_domain)" where
  "Unmanage e i name s = (case byName e s i name of Inl x \<Rightarrow> (s, Inl x)
     | Inr r \<Rightarrow> (case domains_Delete e (dd_ID r) s of (s', Some x) \<Rightarrow> (s', Inl x) | (s', None) \<Rightarrow> (s', Inr r)))"

definition Linked :: "dns_env \<Rightarrow> string \<Rightarrow> string \<Rightarrow> string \<Rightarrow> dns_state \<Rightarrow> dns_state \<times> error" where
  "Linked e i name resourceID s = (case byName e s i name of Inl x \<Rightarrow> (s, Some x)
     | Inr r \<Rightarrow> domains_Update e (r\<lparr>dd_ResourceID := optID resourceID\<rparr>) s)"

definition SetRecords :: "dns_env \<Rightarrow> string \<Rightarrow> custom_record list \<Rightarrow> dns_state \<Rightarrow> dns_state \<times> error" where
  "SetRecords e i rs s = (case domains_Get e s i of Inl x \<Rightarrow> (s, Some x) | Inr d \<Rightarrow> domains_Update e (d\<lparr>dd_Records := rs\<rparr>) s)"

definition TakeOver :: "uni \<Rightarrow> err + zone_info list \<Rightarrow> (string \<Rightarrow> error) \<Rightarrow> string \<Rightarrow> string \<Rightarrow> string \<Rightarrow> error" where
  "TakeOver U zones takeover label name0 confirm =
     (let name = Normal U name0 in
      if trim_space confirm \<noteq> name \<or> name = [] then Some (Invalidf ''confirm'' ''Type %s to confirm'' [name])
      else case account_zone zones name of Inl x \<Rightarrow> Some x
      | Inr z \<Rightarrow> if zn_OurDNS z then Some (Conflictf ''%s already uses %s DNS'' [name, label]) else takeover name)"

definition domains_ListFor :: "dns_env \<Rightarrow> dns_state \<Rightarrow> string \<Rightarrow> err + dns_domain list" where
  "domains_ListFor e s orgID = (case de_fault e (DomBy orgID) of Some x \<Rightarrow> Inl x
     | None \<Rightarrow> Inr (sort_key dd_Name (filter (\<lambda>d. dd_OrgID d = Some orgID \<or> dd_OrgID d = None \<and> (dd_ShareAll d \<or> (\<exists>x \<in> set (dd_OrgIDs d). x = orgID))) (ds_domains s))))"

definition Usable :: "dns_env \<Rightarrow> string \<Rightarrow> dns_state \<Rightarrow> err + dns_domain list" where
  "Usable e orgID s = domains_ListFor e s orgID"

definition NoMX :: "uni \<Rightarrow> dns_state \<Rightarrow> string \<Rightarrow> string" where
  "NoMX U s zone = (case map_of (ds_noMX s) (Normal U zone) of None \<Rightarrow> [] | Some why \<Rightarrow> why)"

definition Names :: "dns_env \<Rightarrow> dns_state \<Rightarrow> err + string list" where
  "Names e s = (case domains_List e s of Inl x \<Rightarrow> Inl x | Inr rows \<Rightarrow> Inr (map Under rows))"

definition acme_record :: "uni \<Rightarrow> rr \<Rightarrow> bool" where
  "acme_record U r \<longleftrightarrow> (x_Name r = ''_acme-challenge'' \<or> has_prefix ''_acme-challenge.'' (x_Name r) \<and> \<not> has_suffix ''.'' (x_Name r))
     \<and> eq_fold U (x_Type r) ''TXT'' \<and> x_Data r \<noteq> []"

definition Challenge :: "dns_env \<Rightarrow> dns_state \<Rightarrow> string \<Rightarrow> rr list \<Rightarrow> err + dns_domain" where
  "Challenge e s zone rs =
     (let U = de_uni e in
      if rs = [] then Inl (Invalidf ''records'' ''no records'' [])
      else case find (\<lambda>r. \<not> acme_record U r) rs of
        Some r \<Rightarrow> Inl (Invalidf ''records'' ''%s %s is not an ACME challenge record'' [x_Type r, x_Name r])
      | None \<Rightarrow> (case domains_GetByName e s (Normal U zone) of
          Inl x \<Rightarrow> if is_not_found x then Inl (Refusedf ''%s is not a managed domain'' [Normal U zone]) else Inl x
        | Inr row \<Rightarrow> (case find (\<lambda>r. \<not> InScope U row (x_Name r)) rs of
            Some r \<Rightarrow> Inl (Refusedf ''%s is outside %s, the part of %s stackr manages'' [fqdn (dd_Name row) (x_Name r), Under row, dd_Name row])
          | None \<Rightarrow> Inr row)))"

section \<open>Lemmas: a sound table of domains\<close>

text \<open>A row: its org is its connector's, an org's domain is shared with nobody, its scope lies under its name.\<close>

definition dom_row :: "(string \<Rightarrow> string option) \<Rightarrow> dns_domain \<Rightarrow> bool" where
  "dom_row org d \<longleftrightarrow> dd_OrgID d = org (dd_ConnectorID d) \<and> (dd_OrgID d \<noteq> None \<longrightarrow> \<not> dd_ShareAll d \<and> dd_OrgIDs d = [])
     \<and> (dd_Scope d = [] \<or> has_suffix (''.'' @ dd_Name d) (dd_Scope d))"

definition dom_inv :: "(string \<Rightarrow> string option) \<Rightarrow> dns_domain list \<Rightarrow> bool" where
  "dom_inv org ds \<longleftrightarrow> distinct (map dd_ID ds) \<and> distinct (map dd_Name ds) \<and> (\<forall>d \<in> set ds. dom_row org d)"

lemma distinct_map_replace:
  assumes "distinct (map f ds)" "distinct (map k ds)" "\<forall>x \<in> set ds. k x \<noteq> k d \<longrightarrow> f x \<noteq> f d"
  shows "distinct (map f (map (\<lambda>x. if k x = k d then d else x) ds))"
  using assms
proof (induction ds)
  case (Cons x xs)
  let ?g = "\<lambda>x. if k x = k d then d else x"
  have "f (?g x) \<notin> f ` ?g ` set xs"
  proof
    assume "f (?g x) \<in> f ` ?g ` set xs"
    then obtain y where y: "y \<in> set xs" "f (?g x) = f (?g y)" by blast
    have d: "f y \<noteq> f x \<and> k y \<noteq> k x" using Cons.prems(1,2) y(1) by (auto dest: image_eqI)
    show False using d y Cons.prems(3) by (cases "k x = k d"; cases "k y = k d") auto
  qed
  moreover have "distinct (map f (map ?g xs))" using Cons by simp
  ultimately show ?case by (simp only: list.map distinct.simps list.set_map) simp
qed simp

lemma update_inv: "domains_Update e d s = (s', x) \<Longrightarrow> dom_inv org (ds_domains s) \<Longrightarrow> dom_row org d \<Longrightarrow> dom_inv org (ds_domains s')"
proof -
  assume u: "domains_Update e d s = (s', x)" and i: "dom_inv org (ds_domains s)" and r: "dom_row org d"
  show ?thesis
  proof (cases "ds_domains s' = ds_domains s")
    case False
    then have s': "ds_domains s' = map (\<lambda>o'. if dd_ID o' = dd_ID d then d else o') (ds_domains s)"
      and n: "\<forall>o' \<in> set (ds_domains s). dd_ID o' \<noteq> dd_ID d \<longrightarrow> dd_Name o' \<noteq> dd_Name d"
      using u by (auto simp: domains_Update_def split: option.splits if_splits)
    have "distinct (map dd_ID (ds_domains s'))" "distinct (map dd_Name (ds_domains s'))"
      using i n unfolding s' dom_inv_def by (intro distinct_map_replace; simp)+
    moreover have "\<forall>y \<in> set (ds_domains s'). dom_row org y" using i r unfolding s' dom_inv_def by auto
    ultimately show ?thesis by (simp add: dom_inv_def)
  qed (use i in simp)
qed

lemma create_inv: "domains_Create e d s = (s', x) \<Longrightarrow> dom_inv org (ds_domains s) \<Longrightarrow> dom_row org d \<Longrightarrow> dom_inv org (ds_domains s')"
  by (fastforce simp: domains_Create_def dom_inv_def split: option.splits if_splits)

lemma delete_inv: "domains_Delete e i s = (s', x) \<Longrightarrow> dom_inv org (ds_domains s) \<Longrightarrow> dom_inv org (ds_domains s')"
  by (auto simp: domains_Delete_def dom_inv_def distinct_map_filter split: option.splits if_splits)

lemma byName_found: "byName e s i zone = Inr d \<Longrightarrow> d \<in> set (ds_domains s) \<and> dd_Name d = Normal (de_uni e) zone \<and> dd_ConnectorID d = i"
  by (auto simp: byName_def domains_ListByConnector_def dest!: find_found split: sum.splits option.splits)

lemma Scope_under: "Scope U zone scope0 = Inr sc \<Longrightarrow> sc = [] \<or> has_suffix (''.'' @ Normal U zone) sc"
  by (auto simp: Scope_def Let_def split: if_splits)

lemma adopt_same_zone: "adopt e d refs s = (s', x) \<Longrightarrow> same_zone_state s s'"
proof (cases "recs_List e s")
  case (Inr rows)
  assume "adopt e d refs s = (s', x)"
  then have "seq_ops (map (\<lambda>f s. let r = adopt_row e d f (ds_recs s) in
      if rowKey (de_uni e) r \<in> rowKey (de_uni e) ` set rows then (s, None) else recs_Create e r s) refs) s = (s', x)" using Inr by (simp add: adopt_def)
  then show ?thesis
  proof (rule seq_ops_same_zone)
    fix g a b y
    assume "g \<in> set (map (\<lambda>f s. let r = adopt_row e d f (ds_recs s) in
      if rowKey (de_uni e) r \<in> rowKey (de_uni e) ` set rows then (s, None) else recs_Create e r s) refs)" and "g a = (b, y)"
    then have "b = a \<or> (\<exists>r. recs_Create e r a = (b, y))" by (auto simp: Let_def split: if_splits)
    then show "same_zone_state a b" using recs_same_zone(1) by auto
  qed
qed (simp add: adopt_def)

lemma mark_rows_same_zone: "mark_rows e d refs s = (s', x) \<Longrightarrow> same_zone_state s s'"
proof -
  assume m: "mark_rows e d refs s = (s', x)"
  have dm: "same_zone_state a b" if "drop_marks e d refs a = (b, y)" for a b y
    using that unfolding drop_marks_def
    by (auto split: sum.splits prod.splits option.splits dest!: delete_rows_same_zone adopt_same_zone intro: same_zone_trans)
  have up: "same_zone_state a b" if "seq_ops (map (\<lambda>r. recs_Update e (g r)) rs) a = (b, y)" for a b y rs g
    using that by (rule seq_ops_same_zone) (auto intro: recs_same_zone)
  show ?thesis using m unfolding mark_rows_def
    by (auto split: sum.splits prod.splits option.splits dest!: up dm intro: same_zone_trans)
qed

lemma Rescope_inv:
  assumes r: "Rescope e i zone scope0 refs s = (s', x)" and inv: "dom_inv org (ds_domains s)"
  shows "dom_inv org (ds_domains s')"
proof (cases "\<exists>scope d0. Scope (de_uni e) zone scope0 = Inr scope \<and> byName e s i zone = Inr d0")
  case True
  then obtain scope d0 where sc: "Scope (de_uni e) zone scope0 = Inr scope" and d0: "byName e s i zone = Inr d0" by blast
  obtain s1 y where u: "domains_Update e (d0\<lparr>dd_Scope := scope\<rparr>) s = (s1, y)" by fastforce
  have "dom_row org (d0\<lparr>dd_Scope := scope\<rparr>)" using byName_found [OF d0] Scope_under [OF sc] inv by (auto simp: dom_inv_def dom_row_def)
  then have 1: "dom_inv org (ds_domains s1)" by (rule update_inv [OF u inv])
  show ?thesis
  proof (cases y)
    case None
    then have "mark_rows e (d0\<lparr>dd_Scope := scope\<rparr>) refs s1 = (s', x)" using r sc d0 u by (simp add: Rescope_def Let_def)
    then show ?thesis using mark_rows_same_zone 1 by (fastforce simp: same_zone_state_def)
  next
    case (Some z)
    then show ?thesis using r sc d0 u 1 by (simp add: Rescope_def Let_def)
  qed
next
  case False
  then have "s' = s" using r by (auto simp: Rescope_def Let_def split: sum.splits)
  then show ?thesis using inv by simp
qed

lemma Manage_inv:
  assumes m: "Manage e i (org i) zones uuid name scope orgIDs s = (s', x)" and inv: "dom_inv org (ds_domains s)"
    and z: "\<forall>zs z. zones = Inr zs \<longrightarrow> z \<in> set zs \<longrightarrow> Normal (de_uni e) (zn_Name z) = zn_Name z"
  shows "dom_inv org (ds_domains s')"
proof (cases "s' = s")
  case False
  let ?U = "de_uni e"
  obtain sc rows where sc: "Scope ?U (Normal ?U name) scope = Inr sc" and rows: "domains_ListByConnector e s i = Inr rows"
    and own: "org i = None \<or> orgIDs = []"
    using m False by (auto simp: Manage_def Let_def split: sum.splits if_splits)
  let ?d = "\<lparr>ad_Name = Normal ?U name, ad_State = Managed, ad_ShareAll = (org i = None \<and> orgIDs = []), ad_OrgIDs = orgIDs, ad_Scope = sc\<rparr>"
  have rs: "r \<in> set (ds_domains s) \<and> dd_ConnectorID r = i" if "r \<in> set rows" for r
    using rows that by (auto simp: domains_ListByConnector_def split: option.splits)
  show ?thesis
  proof (cases "find (\<lambda>r. dd_Name r = Normal ?U name) rows")
    case (Some r)
    then have r: "dom_row org r" "dd_ConnectorID r = i" using inv rs find_found [OF Some] by (auto simp: dom_inv_def)
    have "manage_again e r ?d orgIDs s = (s', x)" using m sc rows Some own by (auto simp: Manage_def Let_def)
    then obtain y where u: "domains_Update e (r\<lparr>dd_ShareAll := (org i = None \<and> orgIDs = []), dd_OrgIDs := orgIDs\<rparr>) s = (s', y)"
      using False by (auto simp: manage_again_def split: if_splits prod.splits option.splits)
    show ?thesis by (rule update_inv [OF u inv]) (use r own in \<open>auto simp: dom_row_def\<close>)
  next
    case None
    have n: "manage_new e i (org i) zones uuid ?d orgIDs s = (s', x)" using m sc rows None own by (auto simp: Manage_def Let_def)
    then obtain zn y where zn: "account_zone zones (Normal ?U name) = Inr zn"
      and c: "domains_Create e \<lparr>dd_ID = uuid, dd_ConnectorID = i, dd_OrgID = org i, dd_Name = Normal ?U name, dd_ShareAll = (org i = None \<and> orgIDs = []),
          dd_OrgIDs = orgIDs, dd_ResourceID = None, dd_Scope = sc, dd_CreatedAt = de_now e, dd_Records = []\<rparr> s = (s', y)"
      using False by (auto simp: manage_new_def split: sum.splits if_splits prod.splits option.splits)
    have "Normal ?U (Normal ?U name) = Normal ?U name"
      using zn z by (auto simp: account_zone_def dest!: find_found split: sum.splits option.splits)
    then show ?thesis using Scope_under [OF sc] own by (intro create_inv [OF c inv]) (auto simp: dom_row_def)
  qed
qed (use inv in simp)

section \<open>Properties: managed domains\<close>

text \<open>
  One operation on the domains or the records, with any arguments, any provider and any failures. A caller manages through a connector with that connector's org,
  and the account lists normal names.
\<close>

inductive dom_step :: "uni \<Rightarrow> (string \<Rightarrow> string option) \<Rightarrow> dns_state \<Rightarrow> dns_state \<Rightarrow> bool" for U org where
  manage: "de_uni e = U \<Longrightarrow> \<forall>zs z. zones = Inr zs \<longrightarrow> z \<in> set zs \<longrightarrow> Normal U (zn_Name z) = zn_Name z
    \<Longrightarrow> dom_step U org s (fst (Manage e i (org i) zones uuid name scope orgIDs s))"
| unmanage: "dom_step U org s (fst (Unmanage e i name s))"
| linked: "dom_step U org s (fst (Linked e i name resource s))"
| set_records: "dom_step U org s (fst (SetRecords e i rs s))"
| rescope: "de_uni e = U \<Longrightarrow> dom_step U org s (fst (Rescope e i zone scope refs s))"
| adopt: "dom_step U org s (fst (Adopt e i zone refs s))"
| reconcile: "dom_step U org s (fst (Reconcile e wants replace s))"
| forget: "dom_step U org s (fst (Forget e zone keep s))"

lemma same_zone_inv: "same_zone_state s s' \<Longrightarrow> dom_inv org (ds_domains s) \<Longrightarrow> dom_inv org (ds_domains s')"
  by (simp add: same_zone_state_def)

lemma Forget_domains: "Forget e zone keep s = (s', x) \<Longrightarrow> ds_domains s' = ds_domains s"
proof -
  have f: "ds_domains b = ds_domains a" if "forget_zone e zone rows keep a = (b, y)" for a b y rows
    using that by (auto simp: forget_zone_def Let_def split: if_splits sum.splits option.splits)
  have d: "ds_domains b = ds_domains a" if "seq_ops (map (\<lambda>r. recs_Delete e (dr_ID r)) rs) a = (b, y)" for a b y rs
    using delete_rows_same_zone [OF that] by (simp add: same_zone_state_def)
  show "Forget e zone keep s = (s', x) \<Longrightarrow> ds_domains s' = ds_domains s"
    unfolding Forget_def Let_def by (auto split: sum.splits prod.splits option.splits if_splits dest!: f d)
qed

lemma byName_row: "byName e s i name = Inr d \<Longrightarrow> dom_inv org (ds_domains s) \<Longrightarrow> dom_row org d"
  using byName_found by (auto simp: dom_inv_def)

lemma dom_step_inv: "dom_step U org s s' \<Longrightarrow> dom_inv org (ds_domains s) \<Longrightarrow> dom_inv org (ds_domains s')"
proof (induction rule: dom_step.induct)
  case (manage e zones s i uuid name scope orgIDs)
  then show ?case using Manage_inv [OF prod.collapse [symmetric]] by simp
next
  case (unmanage s e i name)
  then show ?case using delete_inv by (fastforce simp: Unmanage_def split: sum.splits prod.splits option.splits)
next
  case (linked s e i name resource)
  show ?case
  proof (cases "byName e s i name")
    case (Inr r)
    then have "dom_row org (r\<lparr>dd_ResourceID := optID resource\<rparr>)" using byName_row [OF Inr linked] by (simp add: dom_row_def)
    then show ?thesis using Inr update_inv [OF prod.collapse [symmetric] linked] by (simp add: Linked_def)
  qed (simp add: Linked_def linked)
next
  case (set_records s e i rs)
  show ?case
  proof (cases "domains_Get e s i")
    case (Inr d)
    then have "d \<in> set (ds_domains s)" by (auto simp: domains_Get_def dest!: find_found split: option.splits)
    then have "dom_row org (d\<lparr>dd_Records := rs\<rparr>)" using set_records by (simp add: dom_inv_def dom_row_def)
    then show ?thesis using Inr update_inv [OF prod.collapse [symmetric] set_records] by (simp add: SetRecords_def)
  qed (simp add: SetRecords_def set_records)
next
  case (rescope e s i zone scope refs)
  then show ?case using Rescope_inv [OF prod.collapse [symmetric]] by simp
next
  case (adopt s e i zone refs)
  have "same_zone_state s (fst (Adopt e i zone refs s))"
    using adopt_same_zone [OF prod.collapse [symmetric]] by (simp add: Adopt_def split: sum.split)
  then show ?case using adopt by (rule same_zone_inv)
next
  case (reconcile s e wants replace)
  then show ?case using Reconcile_domains [OF prod.collapse [symmetric]] by simp
next
  case (forget s e zone keep)
  then show ?case using Forget_domains [OF prod.collapse [symmetric]] by simp
qed

text \<open>
  C39: The table of managed domains stays sound. From an empty table, whatever is managed, managed again, unmanaged, linked, given records, rescoped,
  reconciled or forgotten, and wherever a store or provider call fails on the way: a name is managed once, every scope is its domain's or lies
  under it, and an organization's domain may be used by that organization alone.
\<close>

theorem managed_domains_stay_sound:
  assumes "(dom_step U org)\<^sup>*\<^sup>* s s'" "ds_domains s = []"
  shows "distinct (map dd_Name (ds_domains s'))
     \<and> (\<forall>d \<in> set (ds_domains s'). dd_Scope d = [] \<or> has_suffix (''.'' @ dd_Name d) (dd_Scope d))
     \<and> (\<forall>d \<in> set (ds_domains s'). \<forall>a b. org (dd_ConnectorID d) = Some a \<longrightarrow> (MayUse d b \<longleftrightarrow> b = a))"
proof -
  from assms have "dom_inv org (ds_domains s')"
    by (induction rule: rtranclp_induct) (simp add: dom_inv_def, blast intro: dom_step_inv)
  then show ?thesis by (auto simp: dom_inv_def dom_row_def MayUse_def)
qed

definition ex_managed :: dns_state where
  "ex_managed = fst (Manage ex_dns_env ''c'' (Some ''o'') (Inr [\<lparr>zn_Name = ''e.com'', zn_OurDNS = True\<rparr>]) ''d1'' ''E.com.'' ''s.e.com'' []
     \<lparr>ds_domains = [], ds_recs = [], ds_calls = [], ds_noMX = []\<rparr>)"

theorem managed_domains_stay_sound_witness:
  "map dd_Name (ds_domains ex_managed) = [''e.com''] \<and> distinct (map dd_Name (ds_domains ex_managed))"
proof -
  let ?z = "\<lparr>zn_Name = ''e.com'', zn_OurDNS = True\<rparr>"
  have n: "Normal ex_uni ''e.com'' = ''e.com''" by code_simp
  have "dom_step ex_uni (\<lambda>_. Some ''o'') \<lparr>ds_domains = [], ds_recs = [], ds_calls = [], ds_noMX = []\<rparr> ex_managed"
    unfolding ex_managed_def
    by (rule dom_step.manage [where org = "\<lambda>_. Some ''o''"]) (simp_all add: ex_dns_env_def n)
  then have "distinct (map dd_Name (ds_domains ex_managed))" using managed_domains_stay_sound [OF r_into_rtranclp] by simp
  moreover have "map dd_Name (ds_domains ex_managed) = [''e.com'']" by code_simp
  ultimately show ?thesis by blast
qed

text \<open>The domains an organization is offered are the ones \<open>MayUse\<close> lets it use.\<close>

theorem Usable_is_MayUse:
  "Usable e orgID s = Inr ds \<Longrightarrow> set ds = {d \<in> set (ds_domains s). MayUse d orgID} \<and> sorted (map dd_Name ds)"
  by (auto simp: Usable_def domains_ListFor_def MayUse_def split: option.splits)

text \<open>
  An ACME challenge that is let through names only text records of the challenge's name with a value, all inside the scope of the
  managed domain that answers, whose name is the zone of the call.
\<close>

theorem Challenge_only_acme:
  "Challenge e s zone rs = Inr d \<Longrightarrow> d \<in> set (ds_domains s) \<and> dd_Name d = Normal (de_uni e) zone \<and> rs \<noteq> []
     \<and> (\<forall>r \<in> set rs. acme_record (de_uni e) r \<and> InScope (de_uni e) d (x_Name r))"
  by (auto simp: Challenge_def Let_def domains_GetByName_def find_None_iff dest!: find_found split: if_splits option.splits sum.splits)

text \<open>An account's list has every domain of the account once and in its order, then the managed ones the account no longer lists.\<close>

theorem merge_lists_account_first:
  "map ad_Name (take (length zs) (merge zs rows)) = map zn_Name zs
     \<and> (\<forall>d \<in> set (drop (length zs) (merge zs rows)). ad_State d = Managed)"
  by (induction zs rows rule: merge.induct) (auto simp: row_domain_def dest!: find_found split: option.splits)

end
