(* ===== verification/Dns_Converge.thy ===== *)
theory Dns_Converge
  imports Dns_Safety
begin

text \<open>
  Reconciling address records converges: a reconcile that ends without an error leaves a table that matches the wants,
  and a reconcile over such a table calls no provider.  The custom records are left out, their zones are read every
  time on purpose.
\<close>

section \<open>A table that matches the wants\<close>

abbreviation live_rows :: "dns_state \<Rightarrow> dns_record list" where
  "live_rows s \<equiv> filter (\<lambda>r. dr_HandedBackAt r = None) (ds_recs s)"

abbreviation wanted_of :: "uni \<Rightarrow> want list \<Rightarrow> wanted" where
  "wanted_of U ws \<equiv> foldl (want_step U) \<lparr>wd_zones = [], wd_want = [], wd_held = [], wd_custom = []\<rparr> ws"

definition row_ok :: "uni \<Rightarrow> wanted \<Rightarrow> dns_record \<Rightarrow> bool" where
  "row_ok U a r \<longleftrightarrow> \<not> row_dropped U a r \<and> row_moved U a r = None"

definition has_key :: "uni \<Rightarrow> dns_record list \<Rightarrow> string \<Rightarrow> bool" where
  "has_key U rs k \<longleftrightarrow> (\<exists>r \<in> set rs. dr_HandedBackAt r = None \<and> rowKey U r = k)"

text \<open>No row is to be dropped or moved, and no want is without a row.\<close>

definition settled :: "uni \<Rightarrow> wanted \<Rightarrow> dns_record list \<Rightarrow> bool" where
  "settled U a rs \<longleftrightarrow> (\<forall>r \<in> set rs. dr_HandedBackAt r = None \<longrightarrow> dr_Kind r \<noteq> RecordCustom \<and> row_ok U a r)
     \<and> (\<forall>k w. map_of (wd_want a) k = Some w \<longrightarrow> has_key U rs k)"

text \<open>What the fold over the wants knows of them, when none is custom.\<close>

definition wants_ok :: "uni \<Rightarrow> want list \<Rightarrow> wanted \<Rightarrow> bool" where
  "wants_ok U ws a \<longleftrightarrow> wd_zones a = [] \<and> wd_custom a = []
     \<and> (\<forall>k w. map_of (wd_want a) k = Some w \<longrightarrow> k = want_key U w \<and> w \<in> set ws \<and> want_kind w \<noteq> RecordCustom \<and> \<not> wa_Hold w)"

lemma wants_fold_ok: "wants_ok U ws a \<Longrightarrow> \<forall>w \<in> set xs. want_kind w \<noteq> RecordCustom \<Longrightarrow> set xs \<subseteq> set ws \<Longrightarrow> wants_ok U ws (foldl (want_step U) a xs)"
proof (induction xs arbitrary: a)
  case (Cons x xs)
  have "wants_ok U ws (want_step U a x)" using Cons.prems by (auto simp: wants_ok_def want_step_def)
  then show ?case using Cons by simp
qed simp

lemma wanted_of_ok: "\<forall>w \<in> set ws. want_kind w \<noteq> RecordCustom \<Longrightarrow> wants_ok U ws (wanted_of U ws)"
  by (rule wants_fold_ok) (simp_all add: wants_ok_def)

text \<open>The loop over the rows when no row is to be dropped or moved: the plans stay as they are.\<close>

lemma row_loop_settled:
  "row_loop e a rs zs s = (s', Inr zs') \<Longrightarrow> \<forall>r \<in> set rs. row_ok (de_uni e) a r \<Longrightarrow> zs' = zs"
proof (induction rs arbitrary: zs s)
  case (Cons r rs)
  have "row_plan (de_uni e) a r zs = zs" using Cons.prems(2) by (simp add: row_plan_def row_ok_def)
  then show ?case using Cons by (auto simp: row_loop_Cons simp del: row_loop.simps split: option.splits prod.splits)
qed simp

lemma new_settled:
  "\<forall>k w. map_of (wd_want a) k = Some w \<longrightarrow> k \<in> set ks \<Longrightarrow> foldl (new_step U a ks) zs ws = zs"
  by (induction ws arbitrary: zs) (auto simp: new_step_def)

lemma Reconcile_settled:
  assumes "\<forall>w \<in> set wants. want_kind w \<noteq> RecordCustom" "settled (de_uni e) (wanted_of (de_uni e) wants) (ds_recs s)"
    and "Reconcile e wants replace s = (s', er)"
  shows "ds_calls s' = ds_calls s"
proof -
  let ?U = "de_uni e"
  define a where "a = wanted_of ?U wants"
  have a: "wants_ok ?U wants a" unfolding a_def by (rule wanted_of_ok [OF assms(1)])
  show ?thesis
  proof (cases "recs_List e s")
    case (Inl x)
    then show ?thesis using assms(3) by (simp add: Reconcile_def)
  next
    case (Inr rows)
    have rows: "rows = live_rows s" using Inr by (simp add: recs_List_def split: option.splits)
    define ks where "ks = map (rowKey ?U) (filter (\<lambda>r. dr_Kind r \<noteq> RecordCustom) rows)"
    obtain s1 x where l: "row_loop e a rows (wd_zones a) s = (s1, x)" by fastforce
    have ok: "\<forall>r \<in> set rows. row_ok ?U a r" using assms(2) unfolding rows a_def settled_def by simp
    have ks: "\<forall>k w. map_of (wd_want a) k = Some w \<longrightarrow> k \<in> set ks"
      using assms(2) unfolding rows ks_def a_def [symmetric] settled_def has_key_def by fastforce
    show ?thesis
    proof (cases x)
      case (Inl y)
      then have "s' = s1" using assms(3) Inr l by (simp add: Reconcile_def Let_def a_def [symmetric])
      then show ?thesis using row_loop_same_zone [OF l] by (simp add: same_zone_state_def)
    next
      case zs: (Inr zs)
      have "zs = []" using row_loop_settled [OF l [unfolded zs] ok] a by (simp add: wants_ok_def)
      then have "foldl (new_step ?U a ks) zs wants = []" using new_settled [OF ks] by blast
      then have "s' = s1" using assms(3) Inr l zs by (simp add: Reconcile_def Let_def a_def [symmetric] ks_def)
      then show ?thesis using row_loop_same_zone [OF l] by (simp add: same_zone_state_def)
    qed
  qed
qed

section \<open>Lemmas: what the plans hold\<close>

abbreviation sched :: "plan \<Rightarrow> dns_record list" where
  "sched p \<equiv> pl_drop p @ pl_move p"

text \<open>One plan: its rows are the ones to drop and to move in its zone, its adds are wants, and its domain is known when it adds.\<close>

definition plan_ok :: "uni \<Rightarrow> wanted \<Rightarrow> string set \<Rightarrow> string \<Rightarrow> plan \<Rightarrow> bool" where
  "plan_ok U a V z p \<longleftrightarrow> pl_custom p = [] \<and> pl_id p \<in> insert [] V \<and> (pl_add p \<noteq> [] \<longrightarrow> pl_id p \<in> V)
     \<and> (\<forall>d \<in> set (pl_drop p). dr_Zone d = z \<and> dr_HandedBackAt d = None \<and> row_dropped U a d)
     \<and> (\<forall>m \<in> set (pl_move p). dr_Zone m = z \<and> dr_HandedBackAt m = None \<and> (\<exists>w \<in> set (pl_add p). row_moved U a m = Some w))
     \<and> (\<forall>w \<in> set (pl_add p). map_of (wd_want a) (want_key U w) = Some w \<and> (wa_Zone w = z \<or> (\<exists>m \<in> set (pl_move p). rowKey U m = want_key U w)))"

definition plans_ok :: "uni \<Rightarrow> wanted \<Rightarrow> string set \<Rightarrow> plans \<Rightarrow> bool" where
  "plans_ok U a V zs \<longleftrightarrow> distinct (map fst zs) \<and> (\<forall>z p. map_of zs z = Some p \<longrightarrow> plan_ok U a V z p)"

definition covered :: "plans \<Rightarrow> dns_record \<Rightarrow> bool" where
  "covered zs r \<longleftrightarrow> (\<exists>p. map_of zs (dr_Zone r) = Some p \<and> r \<in> set (sched p))"

definition added :: "plans \<Rightarrow> want \<Rightarrow> bool" where
  "added zs w \<longleftrightarrow> (\<exists>z p. map_of zs z = Some p \<and> w \<in> set (pl_add p))"

definition plan_at :: "plans \<Rightarrow> string \<Rightarrow> string \<Rightarrow> plan" where
  "plan_at zs z i = (let p = (case map_of zs z of None \<Rightarrow> no_plan | Some p \<Rightarrow> p) in if i \<noteq> [] then p\<lparr>pl_id := i\<rparr> else p)"

lemma map_of_at_zone: "map_of (at_zone z i f zs) = (map_of zs)(z \<mapsto> f (plan_at zs z i))"
  by (simp add: at_zone_def plan_at_def Let_def update_conv')

lemma plan_at_ok: "plans_ok U a V zs \<Longrightarrow> i \<in> insert [] V \<Longrightarrow> plan_ok U a V z (plan_at zs z i)"
  by (auto simp: plans_ok_def plan_at_def Let_def plan_ok_def no_plan_def split: option.splits)

lemma at_zone_ok:
  assumes "plans_ok U a V zs" "plan_ok U a V z (f (plan_at zs z i))"
  shows "plans_ok U a V (at_zone z i f zs)"
  using assms by (auto simp: plans_ok_def map_of_at_zone) (simp add: at_zone_def Let_def distinct_update)

lemma at_zone_keeps:
  assumes "\<And>p. set (sched p) \<subseteq> set (sched (f p)) \<and> set (pl_add p) \<subseteq> set (pl_add (f p))"
  shows "covered zs r \<Longrightarrow> covered (at_zone z i f zs) r" "added zs w \<Longrightarrow> added (at_zone z i f zs) w"
proof -
  have p: "plan_at zs z i = q \<or> plan_at zs z i = q\<lparr>pl_id := i\<rparr>" if "map_of zs z = Some q" for q using that by (simp add: plan_at_def Let_def)
  show "covered zs r \<Longrightarrow> covered (at_zone z i f zs) r"
    using p assms [of "plan_at zs z i"] unfolding covered_def map_of_at_zone by (cases "dr_Zone r = z") fastforce+
  assume "added zs w"
  then obtain y q where q: "map_of zs y = Some q" "w \<in> set (pl_add q)" unfolding added_def by blast
  show "added (at_zone z i f zs) w"
  proof (cases "y = z")
    case True
    then have "w \<in> set (pl_add (f (plan_at zs z i)))" using p [of q] q assms [of "plan_at zs z i"] by auto
    then show ?thesis unfolding added_def map_of_at_zone by (intro exI [of _ z]) simp
  next
    case False
    then show ?thesis using q unfolding added_def map_of_at_zone by (intro exI [of _ y]) simp
  qed
qed

lemma plan_ok_drop:
  "plan_ok U a V z p \<Longrightarrow> dr_Zone r = z \<Longrightarrow> dr_HandedBackAt r = None \<Longrightarrow> row_dropped U a r \<Longrightarrow> plan_ok U a V z (p\<lparr>pl_drop := pl_drop p @ [r]\<rparr>)"
  unfolding plan_ok_def by (elim conjE, intro conjI) (simp, simp, simp, simp add: ball_Un, simp, simp)

lemma plan_ok_move:
  assumes "plan_ok U a V z p" "dr_Zone r = z" "dr_HandedBackAt r = None" "row_moved U a r = Some w" "map_of (wd_want a) (want_key U w) = Some w"
    "rowKey U r = want_key U w" "pl_id p \<in> V"
  shows "plan_ok U a V z (p\<lparr>pl_move := pl_move p @ [r], pl_add := pl_add p @ [w]\<rparr>)"
  using assms unfolding plan_ok_def
proof (elim conjE, intro conjI)
  assume m: "\<forall>m \<in> set (pl_move p). dr_Zone m = z \<and> dr_HandedBackAt m = None \<and> (\<exists>w \<in> set (pl_add p). row_moved U a m = Some w)"
    and w: "\<forall>w \<in> set (pl_add p). map_of (wd_want a) (want_key U w) = Some w \<and> (wa_Zone w = z \<or> (\<exists>m \<in> set (pl_move p). rowKey U m = want_key U w))"
  show "\<forall>m \<in> set (pl_move (p\<lparr>pl_move := pl_move p @ [r], pl_add := pl_add p @ [w]\<rparr>)). dr_Zone m = z \<and> dr_HandedBackAt m = None
      \<and> (\<exists>w \<in> set (pl_add (p\<lparr>pl_move := pl_move p @ [r], pl_add := pl_add p @ [w]\<rparr>)). row_moved U a m = Some w)"
    using m assms(2-4) by (simp add: ball_Un)
  show "\<forall>x \<in> set (pl_add (p\<lparr>pl_move := pl_move p @ [r], pl_add := pl_add p @ [w]\<rparr>)). map_of (wd_want a) (want_key U x) = Some x
      \<and> (wa_Zone x = z \<or> (\<exists>m \<in> set (pl_move (p\<lparr>pl_move := pl_move p @ [r], pl_add := pl_add p @ [w]\<rparr>)). rowKey U m = want_key U x))"
    using w assms(5,6) by simp blast
qed simp_all

lemma plan_ok_add:
  assumes "plan_ok U a V z p" "map_of (wd_want a) (want_key U w) = Some w" "wa_Zone w = z" "pl_id p \<in> V"
  shows "plan_ok U a V z (p\<lparr>pl_add := pl_add p @ [w]\<rparr>)"
  using assms unfolding plan_ok_def
proof (elim conjE, intro conjI)
  assume m: "\<forall>m \<in> set (pl_move p). dr_Zone m = z \<and> dr_HandedBackAt m = None \<and> (\<exists>w \<in> set (pl_add p). row_moved U a m = Some w)"
  show "\<forall>m \<in> set (pl_move (p\<lparr>pl_add := pl_add p @ [w]\<rparr>)). dr_Zone m = z \<and> dr_HandedBackAt m = None
      \<and> (\<exists>w \<in> set (pl_add (p\<lparr>pl_add := pl_add p @ [w]\<rparr>)). row_moved U a m = Some w)"
    using m by simp
qed simp_all

text \<open>A row's place in the plans, after its round of the loop.\<close>

lemma row_plan_ok:
  assumes ok: "plans_ok U a V zs" and r: "dr_HandedBackAt r = None" "deref (dr_DNSDomainID r) \<in> insert [] V"
    and a: "wants_ok U ws a" and v: "\<forall>w \<in> set ws. wa_DNSDomainID w \<in> V \<or> wa_Hold w" and nV: "[] \<notin> V"
  shows "plans_ok U a V (row_plan U a r zs)" "covered zs x \<Longrightarrow> covered (row_plan U a r zs) x"
    "\<not> row_ok U a r \<Longrightarrow> covered (row_plan U a r zs) r"
proof -
  consider "row_dropped U a r" | w where "\<not> row_dropped U a r" "row_moved U a r = Some w" | "row_ok U a r"
    by (cases "row_moved U a r") (auto simp: row_ok_def)
  then have "plans_ok U a V (row_plan U a r zs) \<and> (covered zs x \<longrightarrow> covered (row_plan U a r zs) x) \<and> (\<not> row_ok U a r \<longrightarrow> covered (row_plan U a r zs) r)"
  proof cases
    case 1
    then have e: "row_plan U a r zs = at_zone (dr_Zone r) (deref (dr_DNSDomainID r)) (\<lambda>p. p\<lparr>pl_drop := pl_drop p @ [r]\<rparr>) zs" by (simp add: row_plan_def)
    show ?thesis unfolding e
    proof (intro conjI impI)
      show "plans_ok U a V (at_zone (dr_Zone r) (deref (dr_DNSDomainID r)) (\<lambda>p. p\<lparr>pl_drop := pl_drop p @ [r]\<rparr>) zs)"
        by (rule at_zone_ok [OF ok]) (rule plan_ok_drop [OF plan_at_ok [OF ok r(2)] refl r(1) 1])
      show "covered (at_zone (dr_Zone r) (deref (dr_DNSDomainID r)) (\<lambda>p. p\<lparr>pl_drop := pl_drop p @ [r]\<rparr>) zs) x" if "covered zs x"
        by (rule at_zone_keeps(1) [OF _ that]) auto
      show "covered (at_zone (dr_Zone r) (deref (dr_DNSDomainID r)) (\<lambda>p. p\<lparr>pl_drop := pl_drop p @ [r]\<rparr>) zs) r"
        unfolding covered_def map_of_at_zone by simp
    qed
  next
    case (2 w)
    have w: "map_of (wd_want a) (rowKey U r) = Some w" using 2(2) by (auto simp: row_moved_def split: if_splits option.splits)
    then have k: "rowKey U r = want_key U w" "wa_DNSDomainID w \<in> V" using a v unfolding wants_ok_def by blast+
    have e: "row_plan U a r zs = at_zone (dr_Zone r) (wa_DNSDomainID w) (\<lambda>p. p\<lparr>pl_move := pl_move p @ [r], pl_add := pl_add p @ [w]\<rparr>) zs"
      using 2 by (simp add: row_plan_def)
    have n: "wa_DNSDomainID w \<noteq> []" using k(2) nV by auto
    then have id: "pl_id (plan_at zs (dr_Zone r) (wa_DNSDomainID w)) \<in> V" using k(2) by (simp add: plan_at_def Let_def)
    have p: "plan_ok U a V (dr_Zone r) (plan_at zs (dr_Zone r) (wa_DNSDomainID w))" by (rule plan_at_ok [OF ok]) (simp add: k(2))
    show ?thesis unfolding e
    proof (intro conjI impI)
      show "plans_ok U a V (at_zone (dr_Zone r) (wa_DNSDomainID w) (\<lambda>p. p\<lparr>pl_move := pl_move p @ [r], pl_add := pl_add p @ [w]\<rparr>) zs)"
        by (rule at_zone_ok [OF ok]) (rule plan_ok_move [OF p refl r(1) 2(2) w [unfolded k(1)] k(1) id])
      show "covered (at_zone (dr_Zone r) (wa_DNSDomainID w) (\<lambda>p. p\<lparr>pl_move := pl_move p @ [r], pl_add := pl_add p @ [w]\<rparr>) zs) x" if "covered zs x"
        by (rule at_zone_keeps(1) [OF _ that]) auto
      show "covered (at_zone (dr_Zone r) (wa_DNSDomainID w) (\<lambda>p. p\<lparr>pl_move := pl_move p @ [r], pl_add := pl_add p @ [w]\<rparr>) zs) r"
        unfolding covered_def map_of_at_zone by simp
    qed
  next
    case 3
    then have "row_plan U a r zs = zs" by (simp add: row_plan_def row_ok_def)
    then show ?thesis using ok 3 by simp
  qed
  then show "plans_ok U a V (row_plan U a r zs)" "covered zs x \<Longrightarrow> covered (row_plan U a r zs) x"
    "\<not> row_ok U a r \<Longrightarrow> covered (row_plan U a r zs) r" by blast+
qed

lemma new_step_ok:
  assumes "plans_ok U a V zs" "w \<in> set ws" "\<forall>w \<in> set ws. wa_DNSDomainID w \<in> V \<or> wa_Hold w" "[] \<notin> V"
  shows "plans_ok U a V (new_step U a ks zs w)" "covered zs r \<Longrightarrow> covered (new_step U a ks zs w) r" "added zs x \<Longrightarrow> added (new_step U a ks zs w) x"
    "map_of (wd_want a) (want_key U w) = Some w \<Longrightarrow> want_kind w \<noteq> RecordCustom \<Longrightarrow> \<not> wa_Hold w \<Longrightarrow> want_key U w \<in> set ks \<or> added (new_step U a ks zs w) w"
proof -
  let ?new = "want_key U w \<notin> set ks \<and> \<not> wa_Hold w \<and> want_kind w \<noteq> RecordCustom \<and> map_of (wd_want a) (want_key U w) = Some w"
  have "plans_ok U a V (new_step U a ks zs w) \<and> (covered zs r \<longrightarrow> covered (new_step U a ks zs w) r) \<and> (added zs x \<longrightarrow> added (new_step U a ks zs w) x)
     \<and> (?new \<longrightarrow> added (new_step U a ks zs w) w)"
  proof (cases ?new)
    case True
    then have v: "wa_DNSDomainID w \<in> V" using assms(2,3) by blast
    then have n: "wa_DNSDomainID w \<noteq> []" using assms(4) by auto
    have e: "new_step U a ks zs w = at_zone (wa_Zone w) (wa_DNSDomainID w) (\<lambda>p. p\<lparr>pl_add := pl_add p @ [w]\<rparr>) zs" using True by (simp add: new_step_def)
    have id: "pl_id (plan_at zs (wa_Zone w) (wa_DNSDomainID w)) = wa_DNSDomainID w" using n by (simp add: plan_at_def Let_def)
    show ?thesis unfolding e
    proof (intro conjI impI)
      show "plans_ok U a V (at_zone (wa_Zone w) (wa_DNSDomainID w) (\<lambda>p. p\<lparr>pl_add := pl_add p @ [w]\<rparr>) zs)"
        by (rule at_zone_ok [OF assms(1)]) (rule plan_ok_add [OF plan_at_ok [OF assms(1)]], use v True id in simp_all)
      show "added (at_zone (wa_Zone w) (wa_DNSDomainID w) (\<lambda>p. p\<lparr>pl_add := pl_add p @ [w]\<rparr>) zs) w"
        unfolding added_def map_of_at_zone by (intro exI [of _ "wa_Zone w"]) simp
      show "covered (at_zone (wa_Zone w) (wa_DNSDomainID w) (\<lambda>p. p\<lparr>pl_add := pl_add p @ [w]\<rparr>) zs) r" if "covered zs r"
        by (rule at_zone_keeps(1) [OF _ that]) auto
      show "added (at_zone (wa_Zone w) (wa_DNSDomainID w) (\<lambda>p. p\<lparr>pl_add := pl_add p @ [w]\<rparr>) zs) x" if "added zs x"
        by (rule at_zone_keeps(2) [OF _ that]) auto
    qed
  qed (use assms(1) in \<open>auto simp: new_step_def\<close>)
  then show "plans_ok U a V (new_step U a ks zs w)" "covered zs r \<Longrightarrow> covered (new_step U a ks zs w) r" "added zs x \<Longrightarrow> added (new_step U a ks zs w) x"
    "map_of (wd_want a) (want_key U w) = Some w \<Longrightarrow> want_kind w \<noteq> RecordCustom \<Longrightarrow> \<not> wa_Hold w \<Longrightarrow> want_key U w \<in> set ks \<or> added (new_step U a ks zs w) w" by blast+
qed

section \<open>Lemmas: the table while the plans are made\<close>

text \<open>The rows still to be looked at are \<open>rs\<close>; every other live row that is not as wanted is in the plans, and planned rows are in the table.\<close>

definition table_ok :: "uni \<Rightarrow> wanted \<Rightarrow> plans \<Rightarrow> dns_record list \<Rightarrow> dns_record list \<Rightarrow> bool" where
  "table_ok U a zs rs T \<longleftrightarrow> distinct (map dr_ID T) \<and> (\<forall>r \<in> set T. dr_HandedBackAt r = None \<longrightarrow> dr_Kind r \<noteq> RecordCustom)
     \<and> (\<forall>r \<in> set T. dr_HandedBackAt r = None \<longrightarrow> \<not> row_ok U a r \<longrightarrow> r \<in> set rs \<or> covered zs r)
     \<and> (\<forall>z p. map_of zs z = Some p \<longrightarrow> set (sched p) \<subseteq> set T)"

lemma same_id: "distinct (map dr_ID T) \<Longrightarrow> x \<in> set T \<Longrightarrow> y \<in> set T \<Longrightarrow> dr_ID x = dr_ID y \<Longrightarrow> x = y"
  by (auto simp: distinct_map inj_on_def)

lemma sched_not_ok: "plan_ok U a V z p \<Longrightarrow> r \<in> set (sched p) \<Longrightarrow> \<not> row_ok U a r \<and> dr_Zone r = z \<and> dr_HandedBackAt r = None"
  by (auto simp: plan_ok_def row_ok_def)

lemma row_link_Some:
  assumes "row_link U a r = Some r'" "wants_ok U ws a"
  shows "row_ok U a r \<and> row_ok U a r' \<and> dr_ID r' = dr_ID r \<and> rowKey U r' = rowKey U r \<and> dr_HandedBackAt r' = dr_HandedBackAt r \<and> dr_Kind r' \<noteq> RecordCustom"
proof -
  obtain w where w: "dr_Kind r \<noteq> RecordCustom" "map_of (wd_want a) (rowKey U r) = Some w" "wa_Value w = dr_Value r"
    "r' = r\<lparr>dr_DomainID := optID (wa_DomainID w), dr_Kind := want_kind w\<rparr>"
    using assms(1) by (auto simp: row_link_def split: if_splits option.splits)
  have "want_kind w \<noteq> RecordCustom" using w(2) assms(2) unfolding wants_ok_def by blast
  then show ?thesis using w by (simp add: row_ok_def row_dropped_def row_moved_def rowKey_def)
qed

lemma replace_row:
  assumes "distinct (map dr_ID T)" "r \<in> set T" "dr_ID r' = dr_ID r" "T' = map (\<lambda>o'. if dr_ID o' = dr_ID r' then r' else o') T"
  shows "map dr_ID T' = map dr_ID T" "set T' = insert r' (set T - {r})"
proof -
  show "map dr_ID T' = map dr_ID T" using assms(4) by simp
  have "(dr_ID x = dr_ID r') = (x = r)" if "x \<in> set T" for x using that same_id [OF assms(1) that assms(2)] assms(3) by auto
  then show "set T' = insert r' (set T - {r})" using assms(2,4) by force
qed

lemma has_key_replace:
  "set T' = insert r' (set T - {r}) \<Longrightarrow> r \<in> set T \<Longrightarrow> rowKey U r' = rowKey U r \<Longrightarrow> dr_HandedBackAt r' = dr_HandedBackAt r \<Longrightarrow> has_key U T' k = has_key U T k"
proof -
  assume T': "set T' = insert r' (set T - {r})" and r: "r \<in> set T" "rowKey U r' = rowKey U r" "dr_HandedBackAt r' = dr_HandedBackAt r"
  let ?P = "\<lambda>x. dr_HandedBackAt x = None \<and> rowKey U x = k"
  have "(\<exists>x \<in> set T'. ?P x) \<longleftrightarrow> ?P r' \<or> (\<exists>x \<in> set T - {r}. ?P x)" unfolding T' by blast
  also have "\<dots> \<longleftrightarrow> (\<exists>x \<in> set T. ?P x)" using r by auto
  finally show ?thesis unfolding has_key_def .
qed

lemma row_loop_table:
  assumes "row_loop e a rs zs s = (s', Inr zs')" "plans_ok (de_uni e) a V zs" "table_ok (de_uni e) a zs rs (ds_recs s)"
    and "set rs \<subseteq> set (live_rows s)" "distinct rs" "\<forall>r \<in> set rs. deref (dr_DNSDomainID r) \<in> insert [] V"
    and a: "wants_ok (de_uni e) ws a" "\<forall>w \<in> set ws. wa_DNSDomainID w \<in> V \<or> wa_Hold w" "[] \<notin> V"
  shows "plans_ok (de_uni e) a V zs' \<and> table_ok (de_uni e) a zs' [] (ds_recs s') \<and> (\<forall>k. has_key (de_uni e) (ds_recs s') k = has_key (de_uni e) (ds_recs s) k)"
  using assms(1-6)
proof (induction rs arbitrary: zs s)
  case (Cons r rs)
  let ?U = "de_uni e"
  have r: "r \<in> set (ds_recs s)" "dr_HandedBackAt r = None" "r \<notin> set rs" using Cons.prems(4,5) by auto
  show ?case
  proof (cases "row_link ?U a r")
    case None
    have l: "row_loop e a rs (row_plan ?U a r zs) s = (s', Inr zs')" using Cons.prems(1) None by (simp add: row_loop_Cons del: row_loop.simps)
    note rp = row_plan_ok [OF Cons.prems(2) r(2) _ a]
    have fk: "deref (dr_DNSDomainID r) \<in> insert [] V" using Cons.prems(6) by simp
    have sub: "set (sched p) \<subseteq> set (ds_recs s)" if "map_of (row_plan ?U a r zs) z = Some p" for z p
    proof
      fix x assume x: "x \<in> set (sched p)"
      have old: "set (sched q) \<subseteq> set (ds_recs s)" if "map_of zs y = Some q" for y q using that Cons.prems(3) by (simp add: table_ok_def)
      have at: "set (sched (plan_at zs y i)) \<subseteq> set (ds_recs s)" for y i
        using old by (auto simp: plan_at_def Let_def no_plan_def split: option.splits)
      show "x \<in> set (ds_recs s)" using that x old at r(1)
        by (auto simp: row_plan_def map_of_at_zone split: if_splits option.splits) blast+
    qed
    have "table_ok ?U a (row_plan ?U a r zs) rs (ds_recs s)"
      using Cons.prems(3) rp(2) [OF fk] rp(3) [OF fk] sub unfolding table_ok_def by auto
    then show ?thesis using Cons.IH [OF l rp(1) [OF fk]] Cons.prems(4-6) by simp
  next
    case (Some r')
    obtain s1 where u: "recs_Update e r' s = (s1, None)" and l: "row_loop e a rs zs s1 = (s', Inr zs')"
      using Cons.prems(1) Some by (auto simp: row_loop_Cons simp del: row_loop.simps split: prod.splits option.splits)
    note rl = row_link_Some [OF Some a(1)]
    have d: "distinct (map dr_ID (ds_recs s))" using Cons.prems(3) by (simp add: table_ok_def)
    note T = replace_row [OF d r(1) conjunct1 [OF conjunct2 [OF conjunct2 [OF rl]]] recs_Update_rows [OF u]]
    have other: "x \<noteq> r" if "\<not> row_ok ?U a x" for x using that rl by blast
    have sub: "set (sched p) \<subseteq> set (ds_recs s1)" if p: "map_of zs z = Some p" for z p
    proof
      fix x assume x: "x \<in> set (sched p)"
      have "plan_ok ?U a V z p" using Cons.prems(2) p by (simp add: plans_ok_def)
      then have "x \<noteq> r" using sched_not_ok [OF _ x] other by blast
      moreover have "x \<in> set (ds_recs s)" using Cons.prems(3) p x unfolding table_ok_def by blast
      ultimately show "x \<in> set (ds_recs s1)" unfolding T(2) by blast
    qed
    have "table_ok ?U a zs rs (ds_recs s1)"
      unfolding table_ok_def
    proof (intro conjI ballI impI allI sub)
      show "distinct (map dr_ID (ds_recs s1))" using T(1) d by simp
      fix x assume x: "x \<in> set (ds_recs s1)" "dr_HandedBackAt x = None"
      then have c: "x = r' \<or> x \<in> set (ds_recs s)" unfolding T(2) by blast
      then show "dr_Kind x \<noteq> RecordCustom" using rl Cons.prems(3) x(2) unfolding table_ok_def by blast
      assume n: "\<not> row_ok ?U a x"
      then have "x \<in> set (ds_recs s)" "x \<noteq> r" using c rl other by blast+
      then show "x \<in> set rs \<or> covered zs x" using Cons.prems(3) x(2) n unfolding table_ok_def by auto
    qed
    moreover have "set rs \<subseteq> set (live_rows s1)" using Cons.prems(4,5) T(2) by auto
    ultimately show ?thesis
      using Cons.IH [OF l Cons.prems(2)] Cons.prems(5,6) has_key_replace [OF T(2) r(1)] rl by simp
  qed
qed simp

lemma new_steps_ok:
  assumes "plans_ok U a V zs" "set xs \<subseteq> set ws" "\<forall>w \<in> set ws. wa_DNSDomainID w \<in> V \<or> wa_Hold w" "[] \<notin> V"
  shows "plans_ok U a V (foldl (new_step U a ks) zs xs)" "covered zs r \<Longrightarrow> covered (foldl (new_step U a ks) zs xs) r"
    "added zs x \<Longrightarrow> added (foldl (new_step U a ks) zs xs) x"
    "w \<in> set xs \<Longrightarrow> map_of (wd_want a) (want_key U w) = Some w \<Longrightarrow> want_kind w \<noteq> RecordCustom \<Longrightarrow> \<not> wa_Hold w \<Longrightarrow> want_key U w \<in> set ks
       \<or> added (foldl (new_step U a ks) zs xs) w"
proof -
  have "plans_ok U a V (foldl (new_step U a ks) zs xs) \<and> (covered zs r \<longrightarrow> covered (foldl (new_step U a ks) zs xs) r)
    \<and> (added zs x \<longrightarrow> added (foldl (new_step U a ks) zs xs) x)
    \<and> (w \<in> set xs \<longrightarrow> map_of (wd_want a) (want_key U w) = Some w \<longrightarrow> want_kind w \<noteq> RecordCustom \<longrightarrow> \<not> wa_Hold w \<longrightarrow> want_key U w \<in> set ks
       \<or> added (foldl (new_step U a ks) zs xs) w)" if "plans_ok U a V zs" "set xs \<subseteq> set ws" for zs x w
    using that
  proof (induction xs arbitrary: zs x w)
    case (Cons y ys)
    have y: "y \<in> set ws" using Cons.prems(2) by simp
    note n = new_step_ok [OF Cons.prems(1) y assms(3,4)]
    have ys: "set ys \<subseteq> set ws" using Cons.prems(2) by simp
    have ok: "plans_ok U a V (new_step U a ks zs y)" by (rule n(1))
    note ih = Cons.IH [OF ok ys]
    show ?case unfolding foldl_Cons
    proof (intro conjI impI)
      show "plans_ok U a V (foldl (new_step U a ks) (new_step U a ks zs y) ys)" using ih by blast
      show "covered (foldl (new_step U a ks) (new_step U a ks zs y) ys) r" if "covered zs r" using ih n(2) [OF that] by blast
      show "added (foldl (new_step U a ks) (new_step U a ks zs y) ys) x" if "added zs x" using ih [of x] n(3) [OF that] by blast
      assume w: "w \<in> set (y # ys)" "map_of (wd_want a) (want_key U w) = Some w" "want_kind w \<noteq> RecordCustom" "\<not> wa_Hold w"
      show "want_key U w \<in> set ks \<or> added (foldl (new_step U a ks) (new_step U a ks zs y) ys) w"
      proof (cases "w = y")
        case True
        then have "want_key U w \<in> set ks \<or> added (new_step U a ks zs y) w" using n(4) w by blast
        then show ?thesis using ih [of w] by blast
      next
        case False
        then show ?thesis using ih [of w w] w by auto
      qed
    qed
  qed simp
  then show "plans_ok U a V (foldl (new_step U a ks) zs xs)" "covered zs r \<Longrightarrow> covered (foldl (new_step U a ks) zs xs) r"
    "added zs x \<Longrightarrow> added (foldl (new_step U a ks) zs xs) x"
    "w \<in> set xs \<Longrightarrow> map_of (wd_want a) (want_key U w) = Some w \<Longrightarrow> want_kind w \<noteq> RecordCustom \<Longrightarrow> \<not> wa_Hold w \<Longrightarrow> want_key U w \<in> set ks
       \<or> added (foldl (new_step U a ks) zs xs) w" using assms(1,2) by blast+
qed

text \<open>The second pass adds wants and leaves the planned rows as they are.\<close>

lemma new_steps_sched:
  "map_of (foldl (new_step U a ks) zs xs) z = Some p \<Longrightarrow> set (sched p) \<subseteq> (case map_of zs z of None \<Rightarrow> {} | Some q \<Rightarrow> set (sched q))"
proof (induction xs arbitrary: zs)
  case (Cons x xs)
  have "set (sched q) \<subseteq> (case map_of zs z of None \<Rightarrow> {} | Some q \<Rightarrow> set (sched q))" if "map_of (new_step U a ks zs x) z = Some q" for q
    using that by (auto simp: new_step_def map_of_at_zone plan_at_def Let_def no_plan_def split: if_splits option.splits)
  then show ?case using Cons.IH [of "new_step U a ks zs x"] Cons.prems by (fastforce split: option.splits)
qed simp

section \<open>Lemmas: one zone\<close>

lemma add_steps_all:
  "ar_taken (foldl (add_step U z live rows rep) a ws) = [] \<Longrightarrow> ar_taken a = [] \<and> ar_made (foldl (add_step U z live rows rep) a ws) = ar_made a @ ws"
proof (induction ws arbitrary: a)
  case (Cons w ws)
  have ih: "ar_taken (add_step U z live rows rep a w) = []"
    "ar_made (foldl (add_step U z live rows rep) (add_step U z live rows rep a w) ws) = ar_made (add_step U z live rows rep a w) @ ws"
    using Cons.IH [of "add_step U z live rows rep a w"] Cons.prems by simp_all
  then have "ar_taken a = [] \<and> ar_made (add_step U z live rows rep a w) = ar_made a @ [w]"
    by (auto simp: add_step_def Let_def split: if_splits)
  then show ?case using ih(2) by simp
qed simp

lemma zone_adds_all: "ar_taken (zone_adds U z zw rows rep live) = [] \<Longrightarrow> ar_made (zone_adds U z zw rows rep live) = zw_add zw"
  unfolding zone_adds_def Let_def by (drule add_steps_all) simp

lemma customs_none: "customs U z live del [] rows n = no_work"
  by (simp add: customs_def Let_def)

lemma customRows_none: "customRows e d no_work s = (s, None)"
  by (simp add: customRows_def no_work_def)

text \<open>What holds of the table before a zone is written, with \<open>ps\<close> the plans still to come.\<close>

definition zone_inv :: "uni \<Rightarrow> wanted \<Rightarrow> plans \<Rightarrow> dns_record list \<Rightarrow> bool" where
  "zone_inv U a ps T \<longleftrightarrow> table_ok U a ps [] T \<and> (\<forall>z p. map_of ps z = Some p \<longrightarrow> inj_on (rowKey U) (set (pl_move p)))
     \<and> (\<forall>k w. map_of (wd_want a) k = Some w \<longrightarrow> has_key U T k \<or> added ps w)"

text \<open>The same while the rows of one zone are written; \<open>ws\<close> are the wants still to come.\<close>

definition move_there :: "uni \<Rightarrow> string \<Rightarrow> dns_record list \<Rightarrow> dns_record \<Rightarrow> bool" where
  "move_there U z T m \<longleftrightarrow> (\<exists>x \<in> set T. dr_ID x = dr_ID m \<and> dr_Zone x = z \<and> dr_HandedBackAt x = None \<and> rowKey U x = rowKey U m)"

definition rows_inv :: "uni \<Rightarrow> wanted \<Rightarrow> plans \<Rightarrow> string \<Rightarrow> dns_record list \<Rightarrow> want list \<Rightarrow> dns_record list \<Rightarrow> bool" where
  "rows_inv U a ps z mv ws T \<longleftrightarrow> distinct (map dr_ID T) \<and> (\<forall>r \<in> set T. dr_HandedBackAt r = None \<longrightarrow> dr_Kind r \<noteq> RecordCustom)
     \<and> (\<forall>y q. map_of ps y = Some q \<longrightarrow> set (sched q) \<subseteq> set T)
     \<and> (\<forall>r \<in> set T. dr_HandedBackAt r = None \<longrightarrow> \<not> row_ok U a r \<longrightarrow> covered ps r \<or> r \<in> set mv \<and> (\<exists>w \<in> set ws. row_moved U a r = Some w))
     \<and> (\<forall>k w. map_of (wd_want a) k = Some w \<longrightarrow> has_key U T k \<or> added ps w \<or> w \<in> set ws)
     \<and> (\<forall>m \<in> set mv. move_there U z T m)"

text \<open>The zone's drops are deleted.\<close>

lemma drops_inv:
  assumes inv: "zone_inv U a ((z, p) # ps) T" and ok: "plans_ok U a V ((z, p) # ps)"
    and T': "T' = filter (\<lambda>x. dr_ID x \<notin> dr_ID ` set (pl_drop p)) T"
  shows "rows_inv U a ps z (pl_move p) (pl_add p) T'"
proof -
  have p: "plan_ok U a V z p" and nz: "map_of ps z = None" using ok by (auto simp: plans_ok_def map_of_eq_None_iff)
  have up: "map_of ((z, p) # ps) y = Some q" if "map_of ps y = Some q" for y q using that nz by auto
  have q: "plan_ok U a V y q" if "map_of ps y = Some q" for y q using ok up [OF that] by (simp add: plans_ok_def)
  have t: "table_ok U a ((z, p) # ps) [] T" using inv by (simp add: zone_inv_def)
  have d: "distinct (map dr_ID T)" using t by (simp add: table_ok_def)
  have sub: "set (sched p) \<subseteq> set T"
  proof -
    have "map_of ((z, p) # ps) z = Some p" by simp
    then show ?thesis using t unfolding table_ok_def by blast
  qed
  have keep: "x \<in> set T'" if "x \<in> set T" "x \<notin> set (pl_drop p)" for x
  proof -
    have "dr_ID x \<noteq> dr_ID y" if "y \<in> set (pl_drop p)" for y using same_id [OF d \<open>x \<in> set T\<close>, of y] sub that \<open>x \<notin> set (pl_drop p)\<close> by auto
    then show ?thesis using that by (auto simp: T')
  qed
  have gone: "x \<in> set T" "x \<notin> set (pl_drop p)" if "x \<in> set T'" for x using that by (auto simp: T')
  have drop: "row_dropped U a x" "dr_Zone x = z" if "x \<in> set (pl_drop p)" for x using p that by (auto simp: plan_ok_def)
  show ?thesis unfolding rows_inv_def
  proof (intro conjI ballI allI impI)
    show "distinct (map dr_ID T')" unfolding T' using d by (rule distinct_map_filter)
    show "dr_Kind r \<noteq> RecordCustom" if "r \<in> set T'" "dr_HandedBackAt r = None" for r using that gone t unfolding table_ok_def by blast
    show "set (sched q) \<subseteq> set T'" if m: "map_of ps y = Some q" for y q
    proof
      fix x assume x: "x \<in> set (sched q)"
      have "y \<noteq> z" using m nz by auto
      then have "x \<notin> set (pl_drop p)" using sched_not_ok [OF q [OF m] x] drop(2) by blast
      moreover have "x \<in> set T" using t up [OF m] x unfolding table_ok_def by blast
      ultimately show "x \<in> set T'" by (rule keep [rotated])
    qed
    show "covered ps r \<or> r \<in> set (pl_move p) \<and> (\<exists>w \<in> set (pl_add p). row_moved U a r = Some w)"
      if r: "r \<in> set T'" "dr_HandedBackAt r = None" "\<not> row_ok U a r" for r
    proof -
      have "covered ((z, p) # ps) r" using t gone(1) [OF r(1)] r(2,3) unfolding table_ok_def by auto
      then consider "dr_Zone r = z" "r \<in> set (sched p)" | "covered ps r" by (auto simp: covered_def split: if_splits)
      then show ?thesis
      proof cases
        case 1
        then have "r \<in> set (pl_move p)" using gone(2) [OF r(1)] by simp
        then show ?thesis using p by (auto simp: plan_ok_def)
      qed simp
    qed
    show "has_key U T' k \<or> added ps w \<or> w \<in> set (pl_add p)" if w: "map_of (wd_want a) k = Some w" for k w
    proof (cases "has_key U T k")
      case True
      then obtain x where x: "x \<in> set T" "dr_HandedBackAt x = None" "rowKey U x = k" by (auto simp: has_key_def)
      have "dr_Kind x \<noteq> RecordCustom" using t x(1,2) by (simp add: table_ok_def)
      then have "x \<notin> set (pl_drop p)" using drop(1) [of x] x(3) w by (auto simp: row_dropped_def)
      then show ?thesis using keep [OF x(1)] x unfolding has_key_def by blast
    next
      case False
      then have "added ((z, p) # ps) w" using inv w by (auto simp: zone_inv_def)
      then show ?thesis by (auto simp: added_def split: if_splits)
    qed
    show "move_there U z T' m" if m: "m \<in> set (pl_move p)" for m
    proof -
      obtain w where "row_moved U a m = Some w" using p m unfolding plan_ok_def by blast
      then have "\<not> row_dropped U a m" by (auto simp: row_moved_def row_dropped_def split: if_splits option.splits)
      then have "m \<in> set T'" using keep [of m] drop(1) [of m] sub m by auto
      then show ?thesis using sched_not_ok [OF p, of m] m unfolding move_there_def by auto
    qed
  qed
qed

text \<open>One want of the zone is written: a moved row takes its value, or a row is made.\<close>

lemma has_key_one: "x \<in> set T \<Longrightarrow> dr_HandedBackAt x = None \<Longrightarrow> has_key U T (rowKey U x)"
  by (auto simp: has_key_def)

lemma wanted_row_ok:
  "map_of (wd_want a) (rowKey U x) = Some w \<Longrightarrow> dr_Value x = wa_Value w \<Longrightarrow> dr_Kind x \<noteq> RecordCustom \<Longrightarrow> row_ok U a x"
  by (simp add: row_ok_def row_dropped_def row_moved_def)

lemma moved_key: "row_moved U a r = Some w \<Longrightarrow> wants_ok U wants a \<Longrightarrow> map_of (wd_want a) (rowKey U r) = Some w \<and> rowKey U r = want_key U w \<and> dr_Kind r \<noteq> RecordCustom"
  by (auto simp: row_moved_def wants_ok_def split: if_splits option.splits)

lemma made_row_inv:
  assumes inv: "rows_inv U a ps z mv (w # ws) (ds_recs s)" and U: "U = de_uni e" and m: "made_row e d z mv w s = (s', None)"
    and a: "wants_ok U wants a" "map_of (wd_want a) (want_key U w) = Some w" "wa_Zone w = z \<or> (\<exists>m \<in> set mv. rowKey U m = want_key U w)"
    and mv: "inj_on (rowKey U) (set mv)" "\<forall>m \<in> set mv. dr_Zone m = z \<and> dr_HandedBackAt m = None \<and> (\<exists>w. row_moved U a m = Some w)"
    and ps: "\<forall>y q. map_of ps y = Some q \<longrightarrow> y \<noteq> z \<and> (\<forall>x \<in> set (sched q). dr_Zone x = y)"
  shows "rows_inv U a ps z mv ws (ds_recs s')"
proof -
  let ?T = "ds_recs s" and ?T' = "ds_recs s'"
  have kind: "want_kind w \<noteq> RecordCustom" using a(1,2) unfolding wants_ok_def by blast
  have d: "distinct (map dr_ID ?T)" using inv by (simp add: rows_inv_def)
  \<comment> \<open>Both branches put one row \<open>n\<close> in place of at most one other row \<open>x\<close> of the zone with the same key.\<close>
  obtain n X where n: "dr_HandedBackAt n = None" "rowKey U n = want_key U w" "dr_Value n = wa_Value w" "dr_Kind n \<noteq> RecordCustom" "dr_Zone n = z"
    and T': "set ?T' = insert n (set ?T - X)" "distinct (map dr_ID ?T')" "dr_ID ` set ?T \<subseteq> dr_ID ` set ?T'"
    and X: "\<forall>x \<in> X. x \<in> set ?T \<and> dr_Zone x = z \<and> rowKey U x = want_key U w \<and> dr_ID x = dr_ID n"
    and hit: "\<forall>r \<in> set mv. rowKey U r = want_key U w \<longrightarrow> (\<forall>x \<in> set ?T. dr_ID x = dr_ID r \<longrightarrow> x \<in> X)"
  proof (cases "find (\<lambda>r. rowKey U r = want_key U w) mv")
    case (Some r)
    define n where "n = r\<lparr>dr_Value := wa_Value w, dr_DomainID := optID (wa_DomainID w)\<rparr>"
    have r: "r \<in> set mv" "rowKey U r = want_key U w" using find_found [OF Some] by auto
    have u: "recs_Update e n s = (s', None)" using m Some unfolding made_row_def U n_def by simp
    have n: "dr_HandedBackAt n = None" "rowKey U n = want_key U w" "dr_Value n = wa_Value w" "dr_ID n = dr_ID r" "dr_Zone n = dr_Zone r" "dr_Kind n = dr_Kind r"
      using r mv(2) by (simp_all add: n_def rowKey_def)
    obtain v where "row_moved U a r = Some v" using r mv(2) by blast
    then have k: "dr_Kind n \<noteq> RecordCustom" using moved_key [OF _ a(1)] n(6) by simp
    obtain x where x: "x \<in> set ?T" "dr_ID x = dr_ID r" "dr_Zone x = z" "rowKey U x = rowKey U r"
      using inv r(1) unfolding rows_inv_def move_there_def by blast
    have z: "dr_Zone n = z" using n(5) r(1) mv(2) by simp
    note T = replace_row [OF d x(1) _ recs_Update_rows [OF u]]
    have i: "dr_ID n = dr_ID x" using n(4) x(2) by simp
    show ?thesis
    proof (rule that [OF n(1-3) k z, of "{x}"])
      show "set ?T' = insert n (set ?T - {x})" using T(2) i by simp
      show "distinct (map dr_ID ?T')" using T(1) i d by simp
      show "dr_ID ` set ?T \<subseteq> dr_ID ` set ?T'" using T(1) i by (metis equalityE list.set_map)
      show "\<forall>y \<in> {x}. y \<in> set ?T \<and> dr_Zone y = z \<and> rowKey U y = want_key U w \<and> dr_ID y = dr_ID n" using x r(2) i by simp
      show "\<forall>m \<in> set mv. rowKey U m = want_key U w \<longrightarrow> (\<forall>y \<in> set ?T. dr_ID y = dr_ID m \<longrightarrow> y \<in> {x})"
      proof (intro ballI impI)
        fix m y assume y: "m \<in> set mv" "rowKey U m = want_key U w" "y \<in> set ?T" "dr_ID y = dr_ID m"
        have "m = r" using inj_onD [OF mv(1) _ y(1) r(1)] y(2) r(2) by simp
        then show "y \<in> {x}" using same_id [OF d y(3) x(1)] y(4) x(2) by simp
      qed
    qed
  next
    case None
    then have none: "\<forall>r \<in> set mv. rowKey U r \<noteq> want_key U w" by (simp add: find_None_iff)
    then have z: "wa_Zone w = z" using a(3) by blast
    define n where "n = \<lparr>dr_ID = de_uuid e (ds_recs s), dr_DNSDomainID = Some (dd_ID d), dr_Zone = z, dr_Name = wa_Name w,
            dr_Type = wa_Type w, dr_Value = wa_Value w, dr_TTL = TTL, dr_DomainID = optID (wa_DomainID w), dr_Adopted = False,
            dr_CreatedAt = de_now e, dr_Kind = want_kind w, dr_PutBackAt = None, dr_HandedBackAt = None\<rparr>"
    have c: "recs_Create e n s = (s', None)" using m None unfolding made_row_def U n_def by simp
    have n: "dr_HandedBackAt n = None" "rowKey U n = want_key U w" "dr_Value n = wa_Value w" "dr_Kind n \<noteq> RecordCustom" "dr_Zone n = z"
      using kind z by (simp_all add: n_def rowKey_def want_key_def)
    have T: "?T' = ?T @ [n]" "dr_ID n \<notin> dr_ID ` set ?T" using recs_Create_rows [OF c] by auto
    show ?thesis by (rule that [OF n, of "{}"]) (use T d none in auto)
  qed
  have ok: "row_ok U a n" by (rule wanted_row_ok [where w = w]) (use a(2) n in simp_all)
  have old: "x \<in> set ?T" "x \<notin> X" if "x \<in> set ?T'" "x \<noteq> n" for x using that T'(1) by auto
  have kept: "x \<in> set ?T'" if "x \<in> set ?T" "x \<notin> X" for x using that T'(1) by auto
  show ?thesis unfolding rows_inv_def
  proof (intro conjI ballI allI impI)
    show "distinct (map dr_ID ?T')" by (rule T'(2))
    show "dr_Kind r \<noteq> RecordCustom" if "r \<in> set ?T'" "dr_HandedBackAt r = None" for r
      using that n(4) old(1) inv unfolding rows_inv_def by (cases "r = n") auto
    show "set (sched q) \<subseteq> set ?T'" if q: "map_of ps y = Some q" for y q
    proof
      fix x assume x: "x \<in> set (sched q)"
      have "dr_Zone x = y" "y \<noteq> z" using ps q x by blast+
      then have "x \<notin> X" using X by auto
      moreover have "x \<in> set ?T" using inv q x unfolding rows_inv_def by blast
      ultimately show "x \<in> set ?T'" using kept by blast
    qed
    show "covered ps r \<or> r \<in> set mv \<and> (\<exists>w \<in> set ws. row_moved U a r = Some w)"
      if r: "r \<in> set ?T'" "dr_HandedBackAt r = None" "\<not> row_ok U a r" for r
    proof -
      have "r \<noteq> n" using ok r(3) by blast
      note o = old [OF r(1) this]
      have "row_moved U a r \<noteq> Some w" if "r \<in> set mv"
      proof
        assume "row_moved U a r = Some w"
        then have "rowKey U r = want_key U w" using moved_key [OF _ a(1)] by blast
        then show False using that hit o by blast
      qed
      then show ?thesis using inv o(1) r(2,3) unfolding rows_inv_def by auto
    qed
    show "has_key U ?T' k \<or> added ps v \<or> v \<in> set ws" if v: "map_of (wd_want a) k = Some v" for k v
    proof (cases "k = want_key U w")
      case True
      have "n \<in> set ?T'" using T'(1) by simp
      then show ?thesis using has_key_one [OF _ n(1), of ?T' U] n(2) True by simp
    next
      case False
      then have "v \<noteq> w" using v a(1) unfolding wants_ok_def by blast
      moreover have "has_key U ?T k \<or> added ps v \<or> v \<in> set (w # ws)" using inv v unfolding rows_inv_def by blast
      ultimately consider "has_key U ?T k" | "added ps v \<or> v \<in> set ws" by auto
      then show ?thesis
      proof cases
        case 1
        then obtain x where x: "x \<in> set ?T" "dr_HandedBackAt x = None" "rowKey U x = k" by (auto simp: has_key_def)
        then have "x \<notin> X" using X False by blast
        then show ?thesis using has_key_one [OF kept [OF x(1)] x(2), of U] unfolding x(3) by blast
      qed blast
    qed
    show "move_there U z ?T' r" if r: "r \<in> set mv" for r
    proof -
      obtain x where x: "x \<in> set ?T" "dr_ID x = dr_ID r" "dr_Zone x = z" "dr_HandedBackAt x = None" "rowKey U x = rowKey U r"
        using inv r unfolding rows_inv_def move_there_def by blast
      show ?thesis
      proof (cases "x \<in> X")
        case True
        then have "rowKey U x = want_key U w" "dr_ID n = dr_ID x" using X by auto
        then show ?thesis using x n T'(1) unfolding move_there_def by (intro bexI [of _ n]) auto
      next
        case False
        then show ?thesis using kept [OF x(1)] x unfolding move_there_def by blast
      qed
    qed
  qed
qed

lemma made_rows_inv:
  assumes "seq_ops (map (made_row e d z mv) ws) s = (s', None)" "rows_inv U a ps z mv ws (ds_recs s)" and U: "U = de_uni e"
    and "\<forall>w \<in> set ws. map_of (wd_want a) (want_key U w) = Some w \<and> (wa_Zone w = z \<or> (\<exists>m \<in> set mv. rowKey U m = want_key U w))"
    and a: "wants_ok U wants a"
    and mv: "inj_on (rowKey U) (set mv)" "\<forall>m \<in> set mv. dr_Zone m = z \<and> dr_HandedBackAt m = None \<and> (\<exists>w. row_moved U a m = Some w)"
    and ps: "\<forall>y q. map_of ps y = Some q \<longrightarrow> y \<noteq> z \<and> (\<forall>x \<in> set (sched q). dr_Zone x = y)"
  shows "rows_inv U a ps z mv [] (ds_recs s')"
  using assms(1,2,4)
proof (induction ws arbitrary: s)
  case (Cons w ws)
  obtain s1 where m: "made_row e d z mv w s = (s1, None)" and l: "seq_ops (map (made_row e d z mv) ws) s1 = (s', None)"
    using Cons.prems(1) by (auto simp only: list.map seq_ops_None_Cons)
  have w: "map_of (wd_want a) (want_key U w) = Some w" "wa_Zone w = z \<or> (\<exists>m \<in> set mv. rowKey U m = want_key U w)" using Cons.prems(3) by simp_all
  have "rows_inv U a ps z mv ws (ds_recs s1)" by (rule made_row_inv [OF Cons.prems(2) U m a w mv ps])
  then show ?case using Cons.IH [OF l] Cons.prems(3) by simp
qed simp

lemma rows_inv_done: "rows_inv U a ps z mv [] T \<Longrightarrow> \<forall>y q. map_of ps y = Some q \<longrightarrow> inj_on (rowKey U) (set (pl_move q)) \<Longrightarrow> zone_inv U a ps T"
  unfolding rows_inv_def zone_inv_def table_ok_def by auto

text \<open>A store fault that looks like a missing row is the one thing \<^verbatim>\<open>apply\<close> cannot tell from a domain that is gone.\<close>

definition honest_faults :: "dns_env \<Rightarrow> bool" where
  "honest_faults e \<longleftrightarrow> (\<forall>i x. de_fault e (DomGet i) = Some x \<longrightarrow> \<not> is_not_found x)"

lemma known_domain: "honest_faults e \<Longrightarrow> i \<in> dd_ID ` set (ds_domains s) \<Longrightarrow> domains_Get e s i = Inl x \<Longrightarrow> \<not> is_not_found x"
  by (auto simp: honest_faults_def domains_Get_def find_None_iff split: option.splits)

lemma tail_plan: "map_of ps z = None \<Longrightarrow> map_of ps y = Some q \<Longrightarrow> map_of ((z, p) # ps) y = Some q"
  by auto

lemma map_of_head: "map_of ((z, p) # ps) z = Some p"
  by simp

lemma plans_ok_tail: "plans_ok U a V ((z, p) # ps) \<Longrightarrow> plans_ok U a V ps"
proof -
  assume ok: "plans_ok U a V ((z, p) # ps)"
  then have "map_of ps z = None" by (simp add: plans_ok_def map_of_eq_None_iff)
  then show ?thesis using ok tail_plan [of ps z _ _ p] unfolding plans_ok_def by simp
qed

lemma zone_rows_inv:
  assumes r: "zone_rows e d z (plan_work p) (pl_add p) no_work s = (s', None)" and U: "U = de_uni e"
    and inv: "zone_inv U a ((z, p) # ps) (ds_recs s)" and ok: "plans_ok U a V ((z, p) # ps)" and a: "wants_ok U wants a"
  shows "zone_inv U a ps (ds_recs s')"
proof -
  have p: "plan_ok U a V z p" and nz: "map_of ps z = None" using ok by (auto simp: plans_ok_def map_of_eq_None_iff)
  have ps: "\<forall>y q. map_of ps y = Some q \<longrightarrow> y \<noteq> z \<and> plan_ok U a V y q"
  proof (intro allI impI conjI)
    fix y q assume y: "map_of ps y = Some q"
    show "y \<noteq> z" using y nz by auto
    then have "map_of ((z, p) # ps) y = Some q" using y by simp
    then show "plan_ok U a V y q" using ok by (simp add: plans_ok_def)
  qed
  have inj: "\<forall>y q. map_of ps y = Some q \<longrightarrow> inj_on (rowKey U) (set (pl_move q))" "inj_on (rowKey U) (set (pl_move p))"
    using inv tail_plan [OF nz] map_of_head [of z p ps] unfolding zone_inv_def by blast+
  have ps': "\<forall>y q. map_of ps y = Some q \<longrightarrow> y \<noteq> z \<and> (\<forall>x \<in> set (sched q). dr_Zone x = y)" using ps sched_not_ok by blast
  obtain s1 s2 where 1: "seq_ops (map (\<lambda>r. recs_Delete e (dr_ID r)) (pl_drop p)) s = (s1, None)"
    and 2: "seq_ops (map (made_row e d z (pl_move p)) (pl_add p)) s1 = (s2, None)"
    and 3: "seq_ops (map (\<lambda>r. recs_Delete e (dr_ID r)) (filter (\<lambda>r. \<not> (\<exists>w \<in> set (pl_add p). want_key U w = rowKey U r)) (pl_move p))) s2 = (s', None)"
    using r unfolding zone_rows_def U by (auto simp: plan_work_def seq_ops_None_append seq_ops_None_Cons customRows_none simp del: seq_ops.simps(2))
  have mv: "\<forall>m \<in> set (pl_move p). dr_Zone m = z \<and> dr_HandedBackAt m = None \<and> (\<exists>w \<in> set (pl_add p). row_moved U a m = Some w)"
    using p by (simp add: plan_ok_def)
  have "\<exists>w \<in> set (pl_add p). want_key U w = rowKey U m" if "m \<in> set (pl_move p)" for m
    using mv that moved_key [OF _ a, of m] by fastforce
  then have "filter (\<lambda>r. \<not> (\<exists>w \<in> set (pl_add p). want_key U w = rowKey U r)) (pl_move p) = []" by (auto simp: filter_empty_conv)
  then have s': "s' = s2" using 3 by simp
  have "rows_inv U a ps z (pl_move p) (pl_add p) (ds_recs s1)" using drops_inv [OF inv ok delete_all_rows [OF 1]] .
  then have "rows_inv U a ps z (pl_move p) [] (ds_recs s2)"
    by (rule made_rows_inv [OF 2 _ U _ a inj(2) _ ps']) (use p mv in \<open>auto simp: plan_ok_def\<close>)
  then show ?thesis unfolding s' by (rule rows_inv_done [OF _ inj(1)])
qed

lemma zone_step_inv:
  assumes z: "apply_zone e z (pl_id p) (plan_work p) rows rep s = (s', [], None)" and U: "U = de_uni e"
    and inv: "zone_inv U a ((z, p) # ps) (ds_recs s)" and ok: "plans_ok U a V ((z, p) # ps)" and a: "wants_ok U wants a"
    and V: "V \<subseteq> dd_ID ` set (ds_domains s)" "[] \<notin> V" "honest_faults e"
  shows "zone_inv U a ps (ds_recs s')"
proof -
  have p: "plan_ok U a V z p" using ok by (auto simp: plans_ok_def)
  show ?thesis
  proof (cases "pl_id p = []")
    case True
    then have add: "pl_add p = []" using p V(2) by (auto simp: plan_ok_def)
    have move: "pl_move p = []" using p add unfolding plan_ok_def by (metis empty_iff last_in_set list.set(1))
    have "zone_rows e d z (plan_work p) (pl_add p) no_work s = (s', None)" for d
      using z True unfolding zone_rows_def add
      by (auto simp: apply_zone_def plan_work_def move seq_ops_None_append customRows_none split: sum.splits prod.splits)
    then show ?thesis by (rule zone_rows_inv [OF _ U inv ok a])
  next
    case False
    then have i: "pl_id p \<in> dd_ID ` set (ds_domains s)" using p V(1) by (auto simp: plan_ok_def)
    obtain d live n where w: "write_zone e d z (plan_work p) rows rep live n (s\<lparr>ds_noMX := AList.update (Normal (de_uni e) z) n (ds_noMX s)\<rparr>) = (s', [], None)"
      using z False known_domain [OF V(3) i] by (auto simp: apply_zone_def split: sum.splits option.splits prod.splits if_splits)
    from w show ?thesis
    proof (cases rule: write_zone_cases)
      case (written b cw s1 er2)
      have cw: "cw = no_work" using written(2) p by (simp add: plan_work_def plan_ok_def customs_none)
      have made: "ar_made b = pl_add p" using written(1,6) zone_adds_all [of U z "plan_work p" rows rep live] by (simp add: U plan_work_def)
      have er2: "er2 = None" using written(7) by (simp split: option.splits)
      have "ds_recs s1 = ds_recs s" using provider_write_calls [OF written(4)] by simp
      then show ?thesis using zone_rows_inv [OF written(5) [unfolded cw made er2] U _ ok a] inv by simp
    qed simp_all
  qed
qed

lemma zone_loop_inv:
  assumes "zone_loop e ps rows rep s = (s', [], [])" "zone_inv (de_uni e) a ps (ds_recs s)" "plans_ok (de_uni e) a V ps" "V \<subseteq> dd_ID ` set (ds_domains s)"
    and a: "wants_ok (de_uni e) wants a" "[] \<notin> V" "honest_faults e"
  shows "zone_inv (de_uni e) a [] (ds_recs s')"
  using assms(1-4)
proof (induction ps arbitrary: s)
  case (Cons zp ps)
  obtain z p where zp: "zp = (z, p)" by fastforce
  obtain s1 where 1: "apply_zone e z (pl_id p) (plan_work p) rows rep s = (s1, [], None)" and l: "zone_loop e ps rows rep s1 = (s', [], [])"
    using Cons.prems(1) unfolding zp by (auto simp: Let_def split: prod.splits option.splits)
  have inv: "zone_inv (de_uni e) a ps (ds_recs s1)"
    by (rule zone_step_inv [OF 1 refl _ _ a(1) Cons.prems(4) a(2,3)]) (use Cons.prems(2,3) zp in simp_all)
  have d: "V \<subseteq> dd_ID ` set (ds_domains s1)" using apply_zone_calls [OF 1] Cons.prems(4) by simp
  have ok: "plans_ok (de_uni e) a V ps" using Cons.prems(3) unfolding zp by (rule plans_ok_tail)
  show ?case by (rule Cons.IH [OF l inv ok d])
qed simp

section \<open>A reconcile without an error settles the table\<close>

lemma row_loop_moves:
  "row_loop e a rs zs s = (s', Inr zs') \<Longrightarrow> plans_all (\<lambda>p. set (pl_move p) \<subseteq> R) zs \<Longrightarrow> set rs \<subseteq> R \<Longrightarrow> plans_all (\<lambda>p. set (pl_move p) \<subseteq> R) zs'"
proof (induction rs arbitrary: zs s)
  case (Cons r rs)
  have "plans_all (\<lambda>p. set (pl_move p) \<subseteq> R) (row_plan (de_uni e) a r zs)"
    using Cons.prems(2,3) by (auto simp: row_plan_def no_plan_def intro!: at_zone_all split: option.split)
  then show ?case using Cons
    by (auto simp: row_loop_Cons simp del: row_loop.simps split: option.splits prod.splits)
qed simp

lemma new_steps_moves:
  "plans_all (\<lambda>p. set (pl_move p) \<subseteq> R) zs \<Longrightarrow> plans_all (\<lambda>p. set (pl_move p) \<subseteq> R) (foldl (new_step U a ks) zs xs)"
proof (induction xs arbitrary: zs)
  case (Cons x xs)
  have "plans_all (\<lambda>p. set (pl_move p) \<subseteq> R) (new_step U a ks zs x)"
    using Cons.prems by (auto simp: new_step_def no_plan_def intro!: at_zone_all)
  then show ?case using Cons.IH by simp
qed simp

text \<open>
  What the tables and the wants are when reconciling starts: only address records, one live row per key, and every want and row of a
  domain that is there (the foreign key of the table).
\<close>

definition fit_tables :: "uni \<Rightarrow> want list \<Rightarrow> dns_state \<Rightarrow> bool" where
  "fit_tables U wants s \<longleftrightarrow> (\<forall>w \<in> set wants. want_kind w \<noteq> RecordCustom) \<and> (\<forall>r \<in> set (live_rows s). dr_Kind r \<noteq> RecordCustom)
     \<and> distinct (map dr_ID (ds_recs s)) \<and> distinct (map (rowKey U) (live_rows s)) \<and> [] \<notin> dd_ID ` set (ds_domains s)
     \<and> (\<forall>w \<in> set wants. wa_DNSDomainID w \<in> dd_ID ` set (ds_domains s) \<or> wa_Hold w)
     \<and> (\<forall>r \<in> set (live_rows s). deref (dr_DNSDomainID r) \<in> insert [] (dd_ID ` set (ds_domains s)))"

lemma sorted_plans:
  assumes "distinct (map fst zs)"
  shows "distinct (map fst (sort_key fst zs))" "map_of (sort_key fst zs) = map_of zs"
proof -
  show d: "distinct (map fst (sort_key fst zs))" using assms by (simp add: distinct_map)
  show "map_of (sort_key fst zs) = map_of zs" using map_of_inject_set [OF d assms] by simp
qed

lemma Reconcile_settles:
  assumes run: "Reconcile e wants rep s = (s', None)" and fit: "fit_tables (de_uni e) wants s" and h: "honest_faults e"
  shows "settled (de_uni e) (wanted_of (de_uni e) wants) (ds_recs s')"
proof -
  let ?U = "de_uni e" and ?V = "dd_ID ` set (ds_domains s)"
  define a where "a = wanted_of ?U wants"
  define ks where "ks = map (rowKey ?U) (filter (\<lambda>r. dr_Kind r \<noteq> RecordCustom) (live_rows s))"
  have nc: "\<forall>w \<in> set wants. want_kind w \<noteq> RecordCustom" and nr: "\<forall>r \<in> set (live_rows s). dr_Kind r \<noteq> RecordCustom"
    and ids: "distinct (map dr_ID (ds_recs s))" and keys: "distinct (map (rowKey ?U) (live_rows s))" and nV: "[] \<notin> ?V"
    and wV: "\<forall>w \<in> set wants. wa_DNSDomainID w \<in> ?V \<or> wa_Hold w" and rV: "\<forall>r \<in> set (live_rows s). deref (dr_DNSDomainID r) \<in> insert [] ?V"
    using fit by (simp_all add: fit_tables_def)
  have a: "wants_ok ?U wants a" unfolding a_def by (rule wanted_of_ok [OF nc])
  then have z0: "wd_zones a = []" by (simp add: wants_ok_def)
  obtain s1 zs where l: "row_loop e a (live_rows s) [] s = (s1, Inr zs)"
    and z: "(let (s2, taken, ers) = zone_loop e (sort_key fst (foldl (new_step ?U a ks) zs wants)) (live_rows s) rep s1
       in (s2, dns_Join (ers @ (if taken \<noteq> [] then [RecordTaken (sort taken)] else [])))) = (s', None)"
    using run z0 by (auto simp: Reconcile_def recs_List_def Let_def a_def ks_def split: option.splits prod.splits sum.splits)
  define ps where "ps = sort_key fst (foldl (new_step ?U a ks) zs wants)"
  have zl: "zone_loop e ps (live_rows s) rep s1 = (s', [], [])"
    using z unfolding ps_def [symmetric] by (auto simp: dns_Join_def split: prod.splits if_splits)
  have p0: "plans_ok ?U a ?V []" by (simp add: plans_ok_def)
  have t0: "table_ok ?U a [] (live_rows s) (ds_recs s)" using ids nr by (auto simp: table_ok_def)
  have dr: "distinct (live_rows s)" using keys by (simp add: distinct_map)
  have 1: "plans_ok ?U a ?V zs" "table_ok ?U a zs [] (ds_recs s1)" "\<And>k. has_key ?U (ds_recs s1) k = has_key ?U (ds_recs s) k"
    using row_loop_table [OF l p0 t0 order_refl dr rV a wV nV] by auto
  note n = new_steps_ok [OF 1(1) order_refl wV nV, where ks = ks]
  have m: "map_of ps = map_of (foldl (new_step ?U a ks) zs wants)" and dps: "distinct (map fst ps)"
    using sorted_plans n(1) unfolding ps_def plans_ok_def by blast+
  have ok: "plans_ok ?U a ?V ps" using n(1) m dps unfolding plans_ok_def by simp
  have cov: "covered ps r" if "covered zs r" for r using n(2) [OF that] m by (simp add: covered_def)
  have add: "added ps w = added (foldl (new_step ?U a ks) zs wants) w" for w using m by (simp add: added_def)
  have "table_ok ?U a ps [] (ds_recs s1)"
    unfolding table_ok_def
  proof (intro conjI allI impI ballI)
    show "set (sched p) \<subseteq> set (ds_recs s1)" if "map_of ps z = Some p" for z p
    proof -
      have "set (sched q) \<subseteq> set (ds_recs s1)" if "map_of zs z = Some q" for q using 1(2) that unfolding table_ok_def by blast
      then have "(case map_of zs z of None \<Rightarrow> {} | Some q \<Rightarrow> set (sched q)) \<subseteq> set (ds_recs s1)" by (simp split: option.split)
      then show ?thesis using new_steps_sched [of ?U a ks zs wants z p] that m by (metis subset_trans)
    qed
  qed (use 1(2) cov in \<open>auto simp: table_ok_def\<close>)
  moreover have "inj_on (rowKey ?U) (set (pl_move p))" if p: "map_of ps z = Some p" for z p
  proof -
    have "plans_all (\<lambda>p. set (pl_move p) \<subseteq> set (live_rows s)) (foldl (new_step ?U a ks) zs wants)"
      by (rule new_steps_moves, rule row_loop_moves [OF l]) (simp_all add: plans_all_def)
    then have "set (pl_move p) \<subseteq> set (live_rows s)" using p m by (auto simp: plans_all_def dest: map_of_SomeD)
    then show ?thesis using keys by (auto simp: distinct_map intro: inj_on_subset)
  qed
  moreover have "has_key ?U (ds_recs s1) k \<or> added ps w" if w: "map_of (wd_want a) k = Some w" for k w
  proof -
    have k: "k = want_key ?U w" "w \<in> set wants" "want_kind w \<noteq> RecordCustom" "\<not> wa_Hold w" using a w unfolding wants_ok_def by blast+
    have "k \<in> set ks \<Longrightarrow> has_key ?U (ds_recs s) k" unfolding ks_def has_key_def by auto
    then show ?thesis using n(4) [OF k(2) _ k(3,4)] w k(1) 1(3) add by blast
  qed
  ultimately have inv: "zone_inv ?U a ps (ds_recs s1)" by (simp add: zone_inv_def)
  have d: "?V \<subseteq> dd_ID ` set (ds_domains s1)" using row_loop_same_zone [OF l] by (simp add: same_zone_state_def)
  have "zone_inv ?U a [] (ds_recs s')" by (rule zone_loop_inv [OF zl inv ok d a nV h])
  then show ?thesis unfolding a_def [symmetric] by (auto simp: zone_inv_def table_ok_def settled_def covered_def added_def)
qed

lemma wanted_keeps: "map_of (wd_want a) k = Some v \<Longrightarrow> map_of (wd_want (foldl (want_step U) a xs)) k = Some v"
proof (induction xs arbitrary: a)
  case (Cons x xs)
  have "map_of (wd_want (want_step U a x)) k = Some v" using Cons.prems by (auto simp: want_step_def)
  then show ?case using Cons.IH by simp
qed simp

lemma wanted_has:
  "\<forall>w \<in> set xs. want_kind w \<noteq> RecordCustom \<Longrightarrow> w \<in> set xs \<Longrightarrow> \<not> wa_Hold w \<Longrightarrow> \<exists>v. map_of (wd_want (foldl (want_step U) a xs)) (want_key U w) = Some v"
proof (induction xs arbitrary: a)
  case (Cons x xs)
  show ?case
  proof (cases "w = x")
    case True
    have "\<exists>v. map_of (wd_want (want_step U a x)) (want_key U w) = Some v"
      using Cons.prems True by (cases "map_of (wd_want a) (want_key U x)") (auto simp: want_step_def)
    then show ?thesis using wanted_keeps by (metis foldl_Cons)
  qed (use Cons in auto)
qed simp

lemma held_fold: "h \<in> set (wd_held (foldl (want_step U) a xs)) \<Longrightarrow> h \<in> set (wd_held a) \<or> (\<exists>w \<in> set xs. hold_key U (wa_Zone w) (wa_Name w) = h)"
proof (induction xs arbitrary: a)
  case (Cons x xs)
  have "h \<in> set (wd_held (want_step U a x)) \<Longrightarrow> h \<in> set (wd_held a) \<or> hold_key U (wa_Zone x) (wa_Name x) = h"
    by (auto simp: want_step_def split: if_splits)
  then show ?case using Cons.IH [of "want_step U a x"] Cons.prems by auto
qed simp

lemma held_wants: "h \<in> set (wd_held (wanted_of U ws)) \<Longrightarrow> \<exists>w \<in> set ws. hold_key U (wa_Zone w) (wa_Name w) = h"
  using held_fold by fastforce

section \<open>Property: reconciling converges\<close>

text \<open>
  C12: Reconciling converges. A reconcile of address records that ends without an error leaves, for every wanted host that is not
  held, one live row with its key and its value, and no row of a host nobody wants, unless it was adopted or is held;
  so the next reconcile with the same wants sends no write to any provider, whatever the zones hold by then.
\<close>

theorem Reconcile_converges:
  assumes "Reconcile e wants rep s = (s', None)" "fit_tables (de_uni e) wants s" "honest_faults e"
  shows "(\<forall>w \<in> set wants. \<not> wa_Hold w \<longrightarrow> (\<exists>r \<in> set (live_rows s'). \<exists>v \<in> set wants. rowKey (de_uni e) r = want_key (de_uni e) w
       \<and> want_key (de_uni e) v = want_key (de_uni e) w \<and> dr_Value r = wa_Value v))
     \<and> (\<forall>r \<in> set (live_rows s'). dr_Adopted r \<or> (\<exists>w \<in> set wants. want_key (de_uni e) w = rowKey (de_uni e) r
          \<or> hold_key (de_uni e) (wa_Zone w) (wa_Name w) = hold_key (de_uni e) (dr_Zone r) (dr_Name r)))
     \<and> (de_uni e2 = de_uni e \<longrightarrow> ds_calls (fst (Reconcile e2 wants rep2 s')) = ds_calls s')"
proof -
  let ?U = "de_uni e"
  define a where "a = wanted_of ?U wants"
  have nc: "\<forall>w \<in> set wants. want_kind w \<noteq> RecordCustom" using assms(2) by (simp add: fit_tables_def)
  note st = Reconcile_settles [OF assms, folded a_def]
  have a: "wants_ok ?U wants a" unfolding a_def by (rule wanted_of_ok [OF nc])
  have row: "dr_Value r = wa_Value v" if "r \<in> set (live_rows s')" "map_of (wd_want a) (rowKey ?U r) = Some v" for r v
  proof -
    have "dr_Kind r \<noteq> RecordCustom" "row_moved ?U a r = None" using st that(1) by (auto simp: settled_def row_ok_def)
    then show ?thesis using that(2) by (auto simp: row_moved_def split: if_splits)
  qed
  show ?thesis
  proof (intro conjI ballI impI)
    fix w assume w: "w \<in> set wants" "\<not> wa_Hold w"
    obtain v where v: "map_of (wd_want a) (want_key ?U w) = Some v" using wanted_has [OF nc w] unfolding a_def by blast
    then have "want_key ?U v = want_key ?U w" "v \<in> set wants" using a unfolding wants_ok_def by metis+
    moreover obtain r where r: "r \<in> set (live_rows s')" "rowKey ?U r = want_key ?U w"
      using st v unfolding settled_def has_key_def by fastforce
    ultimately show "\<exists>r \<in> set (live_rows s'). \<exists>v \<in> set wants. rowKey ?U r = want_key ?U w \<and> want_key ?U v = want_key ?U w \<and> dr_Value r = wa_Value v"
      using row [OF r(1)] v by metis
  next
    fix r assume r: "r \<in> set (live_rows s')"
    then have k: "dr_Kind r \<noteq> RecordCustom" "\<not> row_dropped ?U a r" using st by (auto simp: settled_def row_ok_def)
    then consider "dr_Adopted r" | w where "map_of (wd_want a) (rowKey ?U r) = Some w" | "hold_key ?U (dr_Zone r) (dr_Name r) \<in> set (wd_held a)"
      by (auto simp: row_dropped_def)
    then show "dr_Adopted r \<or> (\<exists>w \<in> set wants. want_key ?U w = rowKey ?U r
          \<or> hold_key ?U (wa_Zone w) (wa_Name w) = hold_key ?U (dr_Zone r) (dr_Name r))"
    proof cases
      case (2 w)
      then show ?thesis using a unfolding wants_ok_def by metis
    next
      case 3
      then show ?thesis using held_wants [of _ ?U wants] unfolding a_def by metis
    qed simp
  next
    assume u: "de_uni e2 = ?U"
    show "ds_calls (fst (Reconcile e2 wants rep2 s')) = ds_calls s'"
      by (rule Reconcile_settled [OF nc, where er = "snd (Reconcile e2 wants rep2 s')"]) (use st u a_def in simp_all)
  qed
qed

text \<open>A host that moved to another node: the first reconcile writes, the second finds nothing to do.\<close>

theorem Reconcile_converges_witness:
  "ds_calls (fst (Reconcile ex_dns_env [ex_want ''app.s'' ''198.51.100.2''] (\<lambda>_. True)
       (fst (Reconcile ex_dns_env [ex_want ''app.s'' ''198.51.100.2''] (\<lambda>_. False) ex_dns))))
     = [PDelete ''e.com'' [mk_rr ''app.s'' ''A'' ''198.51.100.1''], PAppend ''e.com'' [mk_rr ''app.s'' ''A'' ''198.51.100.2'']]"
proof -
  have f: "fit_tables (de_uni ex_dns_env) [ex_want ''app.s'' ''198.51.100.2''] ex_dns" by code_simp
  have h: "honest_faults ex_dns_env" by (simp add: honest_faults_def ex_dns_env_def)
  show ?thesis using Reconcile_converges [OF ex_reconcile f h, of ex_dns_env "\<lambda>_. True"] by (simp add: ex_reconcile)
qed

end
