(* ===== verification/Dns_Wants.thy ===== *)
theory Dns_Wants
  imports Dns_Manage Dns_Converge
begin

text \<open>
  The wants of a reconcile: \<^verbatim>\<open>dnsWants\<close>, \<^verbatim>\<open>addrWants\<close>, \<^verbatim>\<open>nameWants\<close>, \<^verbatim>\<open>nodeAddrs\<close> and \<^verbatim>\<open>reconcileDNS\<close> of \<^verbatim>\<open>internal/service/dnsrecords.go\<close> and
  \<^verbatim>\<open>customWants\<close> of \<^verbatim>\<open>internal/service/dnscustom.go\<close>.  The hosts of tiles, the nodes, and what the placement and the mesh answer about them are parameters.

  Shown: every record that is wanted lies in the scope of a managed domain, a tile's one in a domain its organization may use; and
  what the wants are is what reconciling needs to converge.
\<close>

section \<open>Model\<close>

text \<open>The columns of hosts and nodes that the wants read.\<close>

record tile_host =
  th_ID :: string
  th_Host :: string
  th_TileID :: string
  th_Records :: "custom_record list"

record node_row =
  nr_ID :: string
  nr_Name :: string
  nr_PublicIP :: string
  nr_Role :: string
  nr_Address :: string
  nr_Status :: string

text \<open>
  What the rest of the service answers: hosts and nodes of the store, the org and the ingress node of a tile, the default ingress, the addresses a
  node reports, the held hosts, the panel's host and the setting of IPv6.
\<close>

record want_env =
  we_uni :: uni
  we_zones :: "err + dns_domain list"
  we_hosts :: "err + tile_host list"
  we_nodes :: "err + node_row list"
  we_node :: "string \<Rightarrow> err + node_row"
  we_org :: "string \<Rightarrow> err + string"
  we_ingress :: "string \<Rightarrow> err + string"
  we_default :: "err + string"
  we_facts :: "node_row \<Rightarrow> addr list"
  we_held :: "string list"
  we_panel :: string
  we_ipv6 :: bool

definition nodeAddrs :: "want_env \<Rightarrow> string \<Rightarrow> err + (addr option \<times> addr option \<times> string)" where
  "nodeAddrs W i = (case we_node W i of Inl x \<Rightarrow> Inl x
     | Inr n \<Rightarrow> let as = (case ParseAddr (nr_PublicIP n) of Some a \<Rightarrow> [a] | None \<Rightarrow> we_facts W n)
         in Inr (find Is4 as, if we_ipv6 W then find (\<lambda>a. Is6 a \<and> \<not> Is4In6 a) as else None, nr_Name n))"

definition addrWants :: "want \<Rightarrow> addr option \<Rightarrow> addr option \<Rightarrow> want list" where
  "addrWants w v4 v6 =
     (case v4 of None \<Rightarrow> [] | Some a \<Rightarrow> [w\<lparr>wa_Type := ''A'', wa_Value := addr_String a\<rparr>])
     @ (case v6 of None \<Rightarrow> [] | Some a \<Rightarrow> [w\<lparr>wa_Type := ''AAAA'', wa_Value := addr_String a\<rparr>])"

definition no_want :: want where
  "no_want = \<lparr>wa_DNSDomainID = [], wa_Zone = [], wa_Name = [], wa_Type = [], wa_Value = [], wa_DomainID = [], wa_Kind = [], wa_Hold = False\<rparr>"

record no_public_ip =
  np_NodeID :: string
  np_Node :: string
  np_Hosts :: "string list"

definition tile_facts :: "want_env \<Rightarrow> string \<Rightarrow> string \<Rightarrow> err + (string \<times> string)" where
  "tile_facts W def t = (case we_org W t of Inl x \<Rightarrow> Inl x
     | Inr org \<Rightarrow> (case we_ingress W t of Inl x \<Rightarrow> Inl x | Inr n \<Rightarrow> Inr (org, if n = [] then def else n)))"

definition no_ip_at :: "(string \<times> no_public_ip) list \<Rightarrow> string \<Rightarrow> string \<Rightarrow> string \<Rightarrow> (string \<times> no_public_ip) list" where
  "no_ip_at m i name host =
     (let n = (case map_of m i of Some n \<Rightarrow> n | None \<Rightarrow> \<lparr>np_NodeID = i, np_Node = name, np_Hosts = []\<rparr>)
      in AList.update i (n\<lparr>np_Hosts := np_Hosts n @ [host]\<rparr>) m)"

text \<open>One host: its wants, and the nodes without an address so far.\<close>

definition host_wants :: "want_env \<Rightarrow> string \<Rightarrow> dns_domain list \<Rightarrow> tile_host \<Rightarrow> (string \<times> no_public_ip) list
    \<Rightarrow> err + (want list \<times> (string \<times> no_public_ip) list)" where
  "host_wants W def zones d m =
     (let U = we_uni W in
      if has_prefix ''*.'' (th_Host d) then Inr ([], m)
      else case ZoneOf U (th_Host d) zones of None \<Rightarrow> Inr ([], m)
      | Some z \<Rightarrow>
        let hold = no_want\<lparr>wa_Zone := dd_Name z, wa_Name := Name U (th_Host d) (dd_Name z), wa_Hold := True\<rparr> in
        if th_Host d \<in> set (we_held W) then Inr ([hold], m)
        else case tile_facts W def (th_TileID d) of Inl x \<Rightarrow> Inl x
        | Inr (org, node) \<Rightarrow>
          if \<not> MayUse z org then Inr ([], m)
          else case nodeAddrs W node of Inl x \<Rightarrow> Inl x
          | Inr (v4, v6, name) \<Rightarrow>
            if v4 = None \<and> v6 = None then Inr ([hold], no_ip_at m node name (th_Host d))
            else Inr (addrWants (no_want\<lparr>wa_DNSDomainID := dd_ID z, wa_Zone := dd_Name z, wa_Name := Name U (th_Host d) (dd_Name z),
              wa_DomainID := th_ID d\<rparr>) v4 v6, m))"

fun hosts_wants :: "want_env \<Rightarrow> string \<Rightarrow> dns_domain list \<Rightarrow> tile_host list \<Rightarrow> (string \<times> no_public_ip) list
    \<Rightarrow> err + (want list \<times> (string \<times> no_public_ip) list)" where
  "hosts_wants W def zones [] m = Inr ([], m)"
| "hosts_wants W def zones (d # ds) m = (case host_wants W def zones d m of Inl x \<Rightarrow> Inl x
     | Inr (ws, m1) \<Rightarrow> (case hosts_wants W def zones ds m1 of Inl x \<Rightarrow> Inl x | Inr (ws', m2) \<Rightarrow> Inr (ws @ ws', m2)))"

text \<open>The panel's and the nodes' own names, with the node that serves each.\<close>

definition own_names :: "want_env \<Rightarrow> err + (string \<times> string) list" where
  "own_names W =
     (let nodes = (case we_nodes W of Inl x \<Rightarrow> Inl x
        | Inr ns \<Rightarrow> Inr (map (\<lambda>n. (nr_Address n, nr_ID n)) (filter (\<lambda>n. nr_Address n \<noteq> [] \<and> nr_Status n \<noteq> ''pending'') ns)))
      in if we_panel W = [] then nodes
         else case we_default W of Inl x \<Rightarrow> Inl x
         | Inr def \<Rightarrow> (case nodes of Inl x \<Rightarrow> Inl x | Inr ns \<Rightarrow> Inr ((we_panel W, def) # ns)))"

fun names_wants :: "want_env \<Rightarrow> dns_domain list \<Rightarrow> (string \<times> string) list \<Rightarrow> err + want list" where
  "names_wants W zones [] = Inr []"
| "names_wants W zones ((host, node) # xs) =
     (case ZoneOf (we_uni W) host zones of None \<Rightarrow> names_wants W zones xs
      | Some z \<Rightarrow>
        if node = [] then names_wants W zones xs
        else case nodeAddrs W node of Inl x \<Rightarrow> Inl x
        | Inr (v4, v6, _) \<Rightarrow>
          let w = no_want\<lparr>wa_DNSDomainID := dd_ID z, wa_Zone := dd_Name z, wa_Name := Name (we_uni W) host (dd_Name z), wa_Kind := RecordName\<rparr>;
              ws = (if v4 = None \<and> v6 = None then [w\<lparr>wa_Hold := True\<rparr>] else addrWants w v4 v6)
          in case names_wants W zones xs of Inl x \<Rightarrow> Inl x | Inr ws' \<Rightarrow> Inr (ws @ ws'))"

definition nameWants :: "want_env \<Rightarrow> dns_domain list \<Rightarrow> err + want list" where
  "nameWants W zones = (if zones = [] then Inr []
     else case own_names W of Inl x \<Rightarrow> Inl x | Inr xs \<Rightarrow> names_wants W zones xs)"

definition custom_want :: "dns_domain \<Rightarrow> string \<Rightarrow> custom_record \<Rightarrow> string \<Rightarrow> want" where
  "custom_want z name r domainID = no_want\<lparr>wa_DNSDomainID := dd_ID z, wa_Zone := dd_Name z, wa_Name := name, wa_Type := cr_Type r, wa_Value := cr_Value r,
     wa_DomainID := domainID, wa_Kind := RecordCustom\<rparr>"

text \<open>The records declared at a tile's host, for the tile's org, and at a managed domain.\<close>

definition host_customs :: "uni \<Rightarrow> dns_domain list \<Rightarrow> string \<Rightarrow> tile_host \<Rightarrow> want list" where
  "host_customs U zones org d = concat (map (\<lambda>r. let host = CustomFQDN U (cr_Name r) (th_Host d) in
     case ZoneOf U host zones of None \<Rightarrow> []
     | Some z \<Rightarrow> if MayUse z org then [custom_want z (Name U host (dd_Name z)) r (th_ID d)] else []) (th_Records d))"

definition zone_customs :: "uni \<Rightarrow> dns_domain \<Rightarrow> want list" where
  "zone_customs U z = concat (map (\<lambda>r. let name = Name U (CustomFQDN U (cr_Name r) (dd_Name z)) (dd_Name z) in
     if InScope U z name then [custom_want z name r []] else []) (dd_Records z))"

fun hosts_customs :: "want_env \<Rightarrow> dns_domain list \<Rightarrow> tile_host list \<Rightarrow> err + want list" where
  "hosts_customs W zones [] = Inr []"
| "hosts_customs W zones (d # ds) =
     (if th_Records d = [] \<or> has_prefix ''*.'' (th_Host d) then hosts_customs W zones ds
      else case we_org W (th_TileID d) of Inl x \<Rightarrow> Inl x
      | Inr org \<Rightarrow> (case hosts_customs W zones ds of Inl x \<Rightarrow> Inl x | Inr ws \<Rightarrow> Inr (host_customs (we_uni W) zones org d @ ws)))"

definition customWants :: "want_env \<Rightarrow> dns_domain list \<Rightarrow> err + want list" where
  "customWants W zones = (case we_hosts W of Inl x \<Rightarrow> Inl x
     | Inr ds \<Rightarrow> (case hosts_customs W zones ds of Inl x \<Rightarrow> Inl x | Inr ws \<Rightarrow> Inr (ws @ concat (map (zone_customs (we_uni W)) zones))))"

definition dnsWants :: "want_env \<Rightarrow> err + (want list \<times> no_public_ip list)" where
  "dnsWants W = (case we_zones W of Inl x \<Rightarrow> Inl x
     | Inr zones \<Rightarrow>
       if zones = [] then Inr ([], [])
       else case we_hosts W of Inl x \<Rightarrow> Inl x
       | Inr ds \<Rightarrow> (case we_default W of Inl x \<Rightarrow> Inl x
       | Inr def \<Rightarrow> (case hosts_wants W def zones ds [] of Inl x \<Rightarrow> Inl x
       | Inr (out, m) \<Rightarrow> (case nameWants W zones of Inl x \<Rightarrow> Inl x
       | Inr names \<Rightarrow> (case customWants W zones of Inl x \<Rightarrow> Inl x
       | Inr custom \<Rightarrow> Inr (out @ names @ custom, map snd m))))))"

text \<open>The reconcile of the service; the first argument is what releasing held hosts ends with.\<close>

definition reconcileDNS :: "error \<Rightarrow> want_env \<Rightarrow> dns_env \<Rightarrow> (string \<Rightarrow> bool) \<Rightarrow> dns_state \<Rightarrow> dns_state \<times> no_public_ip list \<times> dns_error" where
  "reconcileDNS release W e replace s =
     (case release of Some x \<Rightarrow> (s, [], Some (DErr x))
      | None \<Rightarrow> (case dnsWants W of Inl x \<Rightarrow> (s, [], Some (DErr x))
        | Inr (wants, bad) \<Rightarrow> let (s', er) = Reconcile e wants replace s in (s', bad, er)))"

definition managedZone :: "want_env \<Rightarrow> string \<Rightarrow> string \<Rightarrow> err + dns_domain option" where
  "managedZone W orgID host = (case we_zones W of Inl x \<Rightarrow> Inl x
     | Inr zones \<Rightarrow> (case ZoneOf (we_uni W) host zones of None \<Rightarrow> Inr None
       | Some z \<Rightarrow> if MayUse z orgID then Inr (Some z)
           else Inl (Conflictf ''%s is managed by stackr for another organization; pick one of yours'' [dd_Name z])))"

definition ManagedHost :: "uni \<Rightarrow> string \<Rightarrow> string \<Rightarrow> string" where
  "ManagedHost U domain sub = (let s = trim_set ''.'' (lower U (trim_space sub)) in if s = [] then Normal U domain else s @ ''.'' @ Normal U domain)"

section \<open>Lemmas: where a want comes from\<close>

text \<open>A want of a host: in the zone of the host, and of that zone's domain, or held and of none.\<close>

definition want_of_host :: "uni \<Rightarrow> dns_domain list \<Rightarrow> string \<Rightarrow> dns_domain \<Rightarrow> want \<Rightarrow> bool" where
  "want_of_host U zones host z w \<longleftrightarrow> ZoneOf U host zones = Some z \<and> wa_Zone w = dd_Name z \<and> wa_Name w = Name U host (dd_Name z)
     \<and> (wa_Hold w \<and> wa_DNSDomainID w = [] \<or> wa_DNSDomainID w = dd_ID z)"

text \<open>A want for a tile, which its org may have; a held one, which asks for no record, names no tile.\<close>

definition want_of_tile :: "want_env \<Rightarrow> tile_host list \<Rightarrow> dns_domain \<Rightarrow> want \<Rightarrow> bool" where
  "want_of_tile W ds z w \<longleftrightarrow> (wa_Hold w \<and> wa_DomainID w = [])
     \<or> (\<exists>d \<in> set ds. wa_DomainID w = th_ID d \<and> (\<exists>org. we_org W (th_TileID d) = Inr org \<and> MayUse z org))"

lemma addrWants_mem: "w \<in> set (addrWants v v4 v6) \<Longrightarrow> \<exists>t x. w = v\<lparr>wa_Type := t, wa_Value := x\<rparr>"
  by (auto simp: addrWants_def split: option.splits)


lemma host_wants_mem:
  assumes "host_wants W def zones d m = Inr (ws, m')" "w \<in> set ws"
  shows "\<exists>z. want_of_host (we_uni W) zones (th_Host d) z w \<and> want_of_tile W [d] z w \<and> want_kind w = RecordApp"
proof -
  obtain z where z: "ZoneOf (we_uni W) (th_Host d) zones = Some z"
    using assms by (auto simp: host_wants_def Let_def split: if_splits option.splits)
  let ?hold = "no_want\<lparr>wa_Zone := dd_Name z, wa_Name := Name (we_uni W) (th_Host d) (dd_Name z), wa_Hold := True\<rparr>"
  consider "w = ?hold" | org node v4 v6 where "tile_facts W def (th_TileID d) = Inr (org, node)" "MayUse z org"
      "w \<in> set (addrWants (no_want\<lparr>wa_DNSDomainID := dd_ID z, wa_Zone := dd_Name z, wa_Name := Name (we_uni W) (th_Host d) (dd_Name z),
              wa_DomainID := th_ID d\<rparr>) v4 v6)"
    using assms z by (auto simp: host_wants_def Let_def split: if_splits sum.splits prod.splits)
  then show ?thesis
  proof cases
    case 1
    then show ?thesis using z by (intro exI [of _ z]) (simp add: want_of_host_def want_of_tile_def want_kind_def no_want_def)
  next
    case (2 org node v4 v6)
    have "we_org W (th_TileID d) = Inr org" using 2(1) by (auto simp: tile_facts_def split: sum.splits)
    moreover obtain t x where "w = no_want\<lparr>wa_DNSDomainID := dd_ID z, wa_Zone := dd_Name z, wa_Name := Name (we_uni W) (th_Host d) (dd_Name z),
        wa_DomainID := th_ID d, wa_Type := t, wa_Value := x\<rparr>" using addrWants_mem [OF 2(3)] by auto
    ultimately show ?thesis using z 2(2) by (intro exI [of _ z]) (simp add: want_of_host_def want_of_tile_def want_kind_def no_want_def)
  qed
qed

lemma hosts_wants_mem:
  "hosts_wants W def zones ds m = Inr (ws, m') \<Longrightarrow> w \<in> set ws
     \<Longrightarrow> \<exists>d \<in> set ds. \<exists>z. want_of_host (we_uni W) zones (th_Host d) z w \<and> want_of_tile W [d] z w \<and> want_kind w = RecordApp"
proof (induction ds arbitrary: m ws)
  case (Cons d ds)
  obtain w1 m1 w2 where 1: "host_wants W def zones d m = Inr (w1, m1)" and 2: "hosts_wants W def zones ds m1 = Inr (w2, m')" and ws: "ws = w1 @ w2"
    using Cons.prems(1) by (auto split: sum.splits prod.splits)
  show ?case
  proof (cases "w \<in> set w1")
    case True
    then show ?thesis using host_wants_mem [OF 1] by auto
  next
    case False
    then show ?thesis using Cons.IH [OF 2] Cons.prems(2) ws by auto
  qed
qed simp

lemma names_wants_mem:
  "names_wants W zones xs = Inr ws \<Longrightarrow> w \<in> set ws
     \<Longrightarrow> \<exists>x \<in> set xs. \<exists>z. want_of_host (we_uni W) zones (fst x) z w \<and> wa_DomainID w = [] \<and> want_kind w = RecordName"
proof (induction xs arbitrary: ws)
  case (Cons x xs)
  obtain host node where x: "x = (host, node)" by fastforce
  consider "names_wants W zones xs = Inr ws" | z v4 v6 ws' where "ZoneOf (we_uni W) host zones = Some z" "names_wants W zones xs = Inr ws'"
      "ws = (let w = no_want\<lparr>wa_DNSDomainID := dd_ID z, wa_Zone := dd_Name z, wa_Name := Name (we_uni W) host (dd_Name z), wa_Kind := RecordName\<rparr>
         in (if v4 = None \<and> v6 = None then [w\<lparr>wa_Hold := True\<rparr>] else addrWants w v4 v6)) @ ws'"
    using Cons.prems(1) unfolding x names_wants.simps Let_def
    by (cases "ZoneOf (we_uni W) host zones"; cases "nodeAddrs W node"; cases "names_wants W zones xs"; cases "node = []") auto
  then show ?case
  proof cases
    case 1
    then show ?thesis using Cons by auto
  next
    case (2 z v4 v6 ws')
    have "w \<in> set ws' \<or> want_of_host (we_uni W) zones host z w \<and> wa_DomainID w = [] \<and> want_kind w = RecordName"
      using Cons.prems(2) 2(1,3)
      by (auto simp: Let_def want_of_host_def want_kind_def no_want_def RecordName_def dest!: addrWants_mem split: if_splits)
    then show ?thesis using Cons.IH [OF 2(2)] unfolding x by auto
  qed
qed simp

lemma host_customs_mem:
  "w \<in> set (host_customs U zones org d) \<Longrightarrow> \<exists>r \<in> set (th_Records d). \<exists>z. want_of_host U zones (CustomFQDN U (cr_Name r) (th_Host d)) z w
     \<and> MayUse z org \<and> wa_DomainID w = th_ID d"
proof -
  assume "w \<in> set (host_customs U zones org d)"
  then obtain r where r: "r \<in> set (th_Records d)" and w: "w \<in> set (case ZoneOf U (CustomFQDN U (cr_Name r) (th_Host d)) zones of None \<Rightarrow> []
      | Some z \<Rightarrow> if MayUse z org then [custom_want z (Name U (CustomFQDN U (cr_Name r) (th_Host d)) (dd_Name z)) r (th_ID d)] else [])"
    by (auto simp: host_customs_def Let_def)
  then obtain z where "ZoneOf U (CustomFQDN U (cr_Name r) (th_Host d)) zones = Some z" "MayUse z org"
    "w = custom_want z (Name U (CustomFQDN U (cr_Name r) (th_Host d)) (dd_Name z)) r (th_ID d)" by (cases "ZoneOf U (CustomFQDN U (cr_Name r) (th_Host d)) zones") (auto split: if_splits)
  then show ?thesis using r by (intro bexI [of _ r] exI [of _ z]) (simp_all add: want_of_host_def custom_want_def)
qed

lemma hosts_customs_mem:
  "hosts_customs W zones ds = Inr ws \<Longrightarrow> w \<in> set ws
     \<Longrightarrow> \<exists>d \<in> set ds. \<exists>r \<in> set (th_Records d). \<exists>z. want_of_host (we_uni W) zones (CustomFQDN (we_uni W) (cr_Name r) (th_Host d)) z w \<and> want_of_tile W [d] z w"
proof (induction ds arbitrary: ws)
  case (Cons d ds)
  show ?case
  proof (cases "th_Records d = [] \<or> has_prefix ''*.'' (th_Host d)")
    case True
    then show ?thesis using Cons by auto
  next
    case False
    then obtain org ws' where o: "we_org W (th_TileID d) = Inr org" and r: "hosts_customs W zones ds = Inr ws'"
      and ws: "ws = host_customs (we_uni W) zones org d @ ws'" using Cons.prems(1) by (auto split: sum.splits)
    show ?thesis
    proof (cases "w \<in> set ws'")
      case True
      then show ?thesis using Cons.IH [OF r] by auto
    next
      case n: False
      then obtain rc z where "rc \<in> set (th_Records d)" "want_of_host (we_uni W) zones (CustomFQDN (we_uni W) (cr_Name rc) (th_Host d)) z w"
        "MayUse z org" "wa_DomainID w = th_ID d" using host_customs_mem Cons.prems(2) ws by (metis Un_iff set_append)
      then show ?thesis using o unfolding want_of_tile_def by (intro bexI [of _ d] bexI [of _ rc] exI [of _ z]) auto
    qed
  qed
qed simp

lemma zone_customs_mem:
  "w \<in> set (zone_customs U z) \<Longrightarrow> wa_Zone w = dd_Name z \<and> wa_DNSDomainID w = dd_ID z \<and> InScope U z (wa_Name w) \<and> wa_DomainID w = []
     \<and> want_kind w = RecordCustom \<and> (\<exists>r \<in> set (dd_Records z). cr_Type r = wa_Type w \<and> cr_Value r = wa_Value w)"
  by (auto simp: zone_customs_def Let_def custom_want_def no_want_def want_kind_def RecordCustom_def split: if_splits)

section \<open>Lemmas: wants and scopes\<close>






lemma dnsWants_split:
  assumes "dnsWants W = Inr (ws, bad)" "w \<in> set ws"
  obtains zones ds where "we_zones W = Inr zones" "we_hosts W = Inr ds"
    "(\<exists>d \<in> set ds. \<exists>z. want_of_host (we_uni W) zones (th_Host d) z w \<and> want_of_tile W [d] z w \<and> want_kind w = RecordApp)
     \<or> (\<exists>xs. own_names W = Inr xs \<and> (\<exists>x \<in> set xs. \<exists>z. want_of_host (we_uni W) zones (fst x) z w \<and> wa_DomainID w = [] \<and> want_kind w = RecordName))
     \<or> (\<exists>d \<in> set ds. \<exists>r \<in> set (th_Records d). \<exists>z. want_of_host (we_uni W) zones (CustomFQDN (we_uni W) (cr_Name r) (th_Host d)) z w \<and> want_of_tile W [d] z w)
     \<or> (\<exists>z \<in> set zones. w \<in> set (zone_customs (we_uni W) z))"
proof -
  obtain zones where z: "we_zones W = Inr zones" "zones \<noteq> []" using assms by (auto simp: dnsWants_def split: sum.splits if_splits)
  obtain ds def out m names custom where d: "we_hosts W = Inr ds" "hosts_wants W def zones ds [] = Inr (out, m)"
    "nameWants W zones = Inr names" "customWants W zones = Inr custom" "ws = out @ names @ custom"
    using assms(1) z by (auto simp: dnsWants_def split: sum.splits prod.splits)
  obtain xs where xs: "own_names W = Inr xs" "names_wants W zones xs = Inr names" using d(3) z(2) by (auto simp: nameWants_def split: sum.splits)
  obtain hc where hc: "hosts_customs W zones ds = Inr hc" "custom = hc @ concat (map (zone_customs (we_uni W)) zones)"
    using d(1,4) by (auto simp: customWants_def split: sum.splits)
  consider "w \<in> set out" | "w \<in> set names" | "w \<in> set hc" | z where "z \<in> set zones" "w \<in> set (zone_customs (we_uni W) z)"
    using assms(2) d(5) hc(2) by auto
  then show thesis
  proof cases
    case 1
    then show thesis using that [OF z(1) d(1)] hosts_wants_mem [OF d(2)] by blast
  next
    case 2
    then show thesis using that [OF z(1) d(1)] names_wants_mem [OF xs(2)] xs(1) by blast
  next
    case 3
    then show thesis using that [OF z(1) d(1)] hosts_customs_mem [OF hc(1)] by blast
  next
    case 4
    then show thesis using that [OF z(1) d(1)] by blast
  qed
qed

lemma no_records_no_customs:
  assumes "dnsWants W = Inr (ws, bad)" "we_zones W = Inr zones" "we_hosts W = Inr ds"
    and "\<forall>d \<in> set ds. th_Records d = []" "\<forall>z \<in> set zones. dd_Records z = []" "w \<in> set ws"
  shows "want_kind w \<noteq> RecordCustom \<and> (\<exists>z \<in> set zones. wa_Hold w \<or> wa_DNSDomainID w = dd_ID z)"
proof (rule dnsWants_split [OF assms(1,6)])
  fix zones' ds'
  assume "we_zones W = Inr zones'" "we_hosts W = Inr ds'" and c:
    "(\<exists>d \<in> set ds'. \<exists>z. want_of_host (we_uni W) zones' (th_Host d) z w \<and> want_of_tile W [d] z w \<and> want_kind w = RecordApp)
     \<or> (\<exists>xs. own_names W = Inr xs \<and> (\<exists>x \<in> set xs. \<exists>z. want_of_host (we_uni W) zones' (fst x) z w \<and> wa_DomainID w = [] \<and> want_kind w = RecordName))
     \<or> (\<exists>d \<in> set ds'. \<exists>r \<in> set (th_Records d). \<exists>z. want_of_host (we_uni W) zones' (CustomFQDN (we_uni W) (cr_Name r) (th_Host d)) z w \<and> want_of_tile W [d] z w)
     \<or> (\<exists>z \<in> set zones'. w \<in> set (zone_customs (we_uni W) z))"
  then have "zones' = zones" "ds' = ds" using assms(2,3) by simp_all
  then have "\<exists>h z. want_of_host (we_uni W) zones h z w \<and> (want_kind w = RecordApp \<or> want_kind w = RecordName)"
    using c assms(4,5) by (auto simp: zone_customs_def)
  then obtain h z where h: "want_of_host (we_uni W) zones h z w" "want_kind w = RecordApp \<or> want_kind w = RecordName" by blast
  then have "z \<in> set zones" using ZoneOf_Some by (auto simp: want_of_host_def)
  then show ?thesis using h by (auto simp: want_of_host_def RecordApp_def RecordName_def RecordCustom_def)
qed


text \<open>The links of the wants to the domains are right, as a reconcile relies on.\<close>

lemma dnsWants_linked:
  assumes "dnsWants W = Inr (ws, bad)" "we_zones W = Inr zones"
    and "distinct (map dd_ID zones)" "[] \<notin> dd_ID ` set zones" "\<forall>z \<in> set zones. CHR ''|'' \<notin> set (dd_Name z)"
  shows "links_match zones ws []"
proof -
  have l: "\<exists>z \<in> set zones. wa_Zone w = dd_Name z \<and> (wa_DNSDomainID w = [] \<or> wa_DNSDomainID w = dd_ID z)" if w: "w \<in> set ws" for w
  proof (rule dnsWants_split [OF assms(1) w])
    fix zones' ds'
    assume "we_zones W = Inr zones'" and c: "(\<exists>d \<in> set ds'. \<exists>z. want_of_host (we_uni W) zones' (th_Host d) z w \<and> want_of_tile W [d] z w \<and> want_kind w = RecordApp)
     \<or> (\<exists>xs. own_names W = Inr xs \<and> (\<exists>x \<in> set xs. \<exists>z. want_of_host (we_uni W) zones' (fst x) z w \<and> wa_DomainID w = [] \<and> want_kind w = RecordName))
     \<or> (\<exists>d \<in> set ds'. \<exists>r \<in> set (th_Records d). \<exists>z. want_of_host (we_uni W) zones' (CustomFQDN (we_uni W) (cr_Name r) (th_Host d)) z w \<and> want_of_tile W [d] z w)
     \<or> (\<exists>z \<in> set zones'. w \<in> set (zone_customs (we_uni W) z))"
    then have e: "zones' = zones" using assms(2) by simp
    from c consider h z where "want_of_host (we_uni W) zones h z w" | z where "z \<in> set zones" "w \<in> set (zone_customs (we_uni W) z)"
      unfolding e by blast
    then show ?thesis
    proof cases
      case (1 h z)
      then show ?thesis using ZoneOf_Some [of "we_uni W" h zones z] by (auto simp: want_of_host_def)
    next
      case (2 z)
      then show ?thesis using zone_customs_mem [OF 2(2)] by blast
    qed
  qed
  have same: "y = z" if "y \<in> set zones" "z \<in> set zones" "dd_ID y = dd_ID z" for y z
    using that assms(3) by (auto simp: distinct_map inj_on_def)
  have "wa_Zone w = dd_Name d" if "w \<in> set ws" "d \<in> set zones" "wa_DNSDomainID w = dd_ID d" for w d
    using l [OF that(1)] that(2,3) same assms(4) by (metis imageI)
  moreover have "CHR ''|'' \<notin> set (wa_Zone w)" if "w \<in> set ws" for w using l [OF that] assms(5) by auto
  ultimately show ?thesis by (simp add: links_match_def)
qed

section \<open>Properties\<close>


text \<open>What the table's own constraints say of the rows: one live row per key, rows of domains that are there.\<close>

definition fit_rows :: "uni \<Rightarrow> dns_state \<Rightarrow> bool" where
  "fit_rows U s \<longleftrightarrow> (\<forall>r \<in> set (live_rows s). dr_Kind r \<noteq> RecordCustom) \<and> distinct (map dr_ID (ds_recs s)) \<and> distinct (map (rowKey U) (live_rows s))
     \<and> [] \<notin> dd_ID ` set (ds_domains s) \<and> (\<forall>r \<in> set (live_rows s). deref (dr_DNSDomainID r) \<in> insert [] (dd_ID ` set (ds_domains s)))"

text \<open>
  The sync settles: when nobody declared records, a sync over the managed domains of the table that ends without an error from
  the records (nodes without an address are reported and held) leaves nothing to do, so the next one over the same hosts and nodes calls no provider.
\<close>

theorem synced_twice_is_quiet:
  assumes "reconcileDNS release W e rep s = (s', bad, None)" "we_zones W = domains_List e s" "we_hosts W = Inr ds" "we_uni W = de_uni e"
    and "\<forall>d \<in> set ds. th_Records d = []" "\<forall>z \<in> set (ds_domains s). dd_Records z = []" "fit_rows (de_uni e) s" "honest_faults e" "de_uni e2 = de_uni e"
  shows "ds_calls (fst (reconcileDNS release2 W e2 rep2 s')) = ds_calls s'"
proof -
  obtain wants where w: "dnsWants W = Inr (wants, bad)" and r: "Reconcile e wants rep s = (s', None)"
    using assms(1) by (auto simp: reconcileDNS_def split: option.splits sum.splits prod.splits)
  obtain zones where z: "we_zones W = Inr zones" using w by (auto simp: dnsWants_def split: sum.splits)
  then have zs: "set zones = set (ds_domains s)" using assms(2) by (auto simp: domains_List_def split: option.splits)
  have k: "want_kind v \<noteq> RecordCustom \<and> (\<exists>z \<in> set zones. wa_Hold v \<or> wa_DNSDomainID v = dd_ID z)" if "v \<in> set wants" for v
    by (rule no_records_no_customs [OF w z assms(3,5) _ that]) (use assms(6) zs in blast)
  then have f: "fit_tables (de_uni e) wants s" using assms(7) zs unfolding fit_tables_def fit_rows_def by blast
  have nc: "\<forall>v \<in> set wants. want_kind v \<noteq> RecordCustom" using k by blast
  have st: "settled (de_uni e2) (wanted_of (de_uni e2) wants) (ds_recs s')" using Reconcile_settles [OF r f assms(8)] by (simp add: assms(9))
  have q: "ds_calls (fst (Reconcile e2 wants rep2 s')) = ds_calls s'" using Reconcile_settled [OF nc st, of rep2 "fst (Reconcile e2 wants rep2 s')"] by (simp add: prod_eq_iff)
  then show ?thesis using w by (auto simp: reconcileDNS_def split: option.split prod.split)
qed

text \<open>
  The service's sync relies on less: the wants it makes are linked right, so only the rows have to be. Every write of a sync is judged by the
  scope of the managed domain whose zone it goes to.
\<close>

theorem sync_touches_only_its_own:
  assumes "reconcileDNS release W e rep s = (s', bad, er)" "we_zones W = domains_List e s"
    and "distinct (map dd_ID (ds_domains s))" "[] \<notin> dd_ID ` set (ds_domains s)" "\<forall>d \<in> set (ds_domains s). CHR ''|'' \<notin> set (dd_Name d)"
    and "links_match (ds_domains s) [] (live_rows s)"
  shows "\<exists>wants cs. ds_calls s' = ds_calls s @ cs
     \<and> (\<forall>c \<in> set cs. \<exists>d \<in> set (ds_domains s). \<exists>live noMX. dd_Name d = pcall_zone c \<and> readZone e (pcall_zone c) = Inr (live, noMX)
          \<and> call_ok (de_uni e) d live (live_rows s) wants rep c)"
proof (cases "release = None \<and> (\<exists>ws b. dnsWants W = Inr (ws, b))")
  case False
  then have "s' = s" using assms(1) by (auto simp: reconcileDNS_def split: option.splits sum.splits)
  then show ?thesis by (intro exI [of _ "[]"]) simp
next
  case True
  then obtain ws b where w: "dnsWants W = Inr (ws, b)" by blast
  then obtain zones where z: "we_zones W = Inr zones" by (auto simp: dnsWants_def split: sum.splits)
  obtain x where r: "Reconcile e ws rep s = (s', x)" using assms(1) True w by (auto simp: reconcileDNS_def split: prod.splits)
  have zs: "zones = sort_key dd_Name (ds_domains s)" using z assms(2) by (auto simp: domains_List_def split: option.splits)
  have "distinct (map dd_ID zones)" using assms(3) unfolding zs by (simp add: distinct_map)
  then have "links_match zones ws []" using dnsWants_linked [OF w z] assms(4,5) zs by simp
  then have "links_match (ds_domains s) ws (live_rows s)" using assms(6) zs unfolding links_match_def by simp
  then show ?thesis using Reconcile_calls [OF r] by blast
qed

definition ex_node :: node_row where
  "ex_node = \<lparr>nr_ID = ''n1'', nr_Name = ''one'', nr_PublicIP = ''198.51.100.2'', nr_Role = ''worker'', nr_Address = [], nr_Status = ''online''\<rparr>"

definition ex_host :: tile_host where
  "ex_host = \<lparr>th_ID = ''t'', th_Host = ''app.s.e.com'', th_TileID = ''tile'', th_Records = []\<rparr>"

definition ex_want_env :: want_env where
  "ex_want_env = \<lparr>we_uni = ex_uni, we_zones = Inr [ex_domain], we_hosts = Inr [ex_host], we_nodes = Inr [ex_node], we_node = (\<lambda>i. Inr ex_node),
     we_org = (\<lambda>t. Inr ''o''), we_ingress = (\<lambda>t. Inr []), we_default = Inr ''n1'', we_facts = (\<lambda>n. []), we_held = [], we_panel = [], we_ipv6 = True\<rparr>"

lemma ex_host_wants:
  "host_wants ex_want_env ''n1'' [ex_domain] ex_host [] = Inr ([(ex_want ''app.s'' ''198.51.100.2'')\<lparr>wa_Kind := []\<rparr>], [])"
  by code_simp

lemma ex_dnsWants: "dnsWants ex_want_env = Inr ([(ex_want ''app.s'' ''198.51.100.2'')\<lparr>wa_Kind := []\<rparr>], [])"
proof -
  have "we_zones ex_want_env = Inr [ex_domain]" "we_hosts ex_want_env = Inr [ex_host]" "we_default ex_want_env = Inr ''n1''" by (simp_all add: ex_want_env_def)
  moreover have "nameWants ex_want_env [ex_domain] = Inr []" by (simp add: nameWants_def own_names_def ex_want_env_def ex_node_def)
  moreover have "customWants ex_want_env [ex_domain] = Inr []"
    by (simp add: customWants_def zone_customs_def ex_want_env_def ex_host_def ex_domain_def)
  ultimately show ?thesis using ex_host_wants by (simp add: dnsWants_def)
qed



text \<open>The host's record is repointed by the first sync and left alone by the second.\<close>

lemma ex_synced_twice:
  "ds_calls (fst (reconcileDNS None ex_want_env ex_dns_env (\<lambda>_. True) (fst (reconcileDNS None ex_want_env ex_dns_env (\<lambda>_. False) ex_dns))))
     = ds_calls (fst (reconcileDNS None ex_want_env ex_dns_env (\<lambda>_. False) ex_dns))"
proof -
  have "snd (Reconcile ex_dns_env [(ex_want ''app.s'' ''198.51.100.2'')\<lparr>wa_Kind := []\<rparr>] (\<lambda>_. False) ex_dns) = None" by code_simp
  then have r: "snd (reconcileDNS None ex_want_env ex_dns_env (\<lambda>_. False) ex_dns) = ([], None)"
    by (auto simp: reconcileDNS_def ex_dnsWants split: prod.splits)
  have z: "we_zones ex_want_env = domains_List ex_dns_env ex_dns" by code_simp
  have f: "fit_rows (de_uni ex_dns_env) ex_dns" by code_simp
  show ?thesis
    by (rule synced_twice_is_quiet [where release = None and W = ex_want_env and e = ex_dns_env and rep = "\<lambda>_. False" and s = ex_dns and bad = "[]" and ds = "[ex_host]"])
      (use r z f in \<open>simp_all add: prod_eq_iff ex_want_env_def ex_dns_env_def ex_dns_def ex_domain_def ex_host_def honest_faults_def\<close>)
qed

end
