(* ===== verification/Spec2Isabelle.thy ===== *)
theory Spec2Isabelle
  imports Authz Address Slug Errs Mesh Exits_Ladder Vip Jobs_Pass Planfile Schedule Move_Rows Hostgrant Route Tier Release Dns_Wants
begin

text \<open>
  A verification library for stackr, a self-hosted deployment platform written in Go. The panel
  (\<^verbatim>\<open>stackrd\<close>) keeps organisations, stacks, environments and tiles in a database, runs durable jobs
  that build and swap containers, wires nodes into a WireGuard mesh, routes outgoing traffic through
  exits and gives tiles virtual addresses behind a node firewall. The library models the parts that
  decide: who may do what, what a name or a reference means, which job runs when, which rules a
  kernel is given. The definitions keep the names of the source.

  \<^bold>\<open>The theories, the code they model, and what they show.\<close>

  \<^item> \<open>Go_Prelude\<close>: what the Go code uses of \<^verbatim>\<open>strings\<close>, \<^verbatim>\<open>strconv\<close> and \<^verbatim>\<open>slices\<close> (splitting, trimming with Unicode
    spaces, numbers, 64-bit wrap-around), with the lemmas the components share.
  \<^item> \<open>Errs\<close>: \<^verbatim>\<open>internal/service/errs\<close>. An error is a value with its format and arguments; \<^verbatim>\<open>errors.As\<close> and \<^verbatim>\<open>errors.Is\<close> walk it.
  \<^item> \<open>Authz\<close>: \<^verbatim>\<open>internal/authz\<close>. \<open>Can\<close> refines a policy stated as a set of allowed triples; other orgs look absent;
    a key never adds rights.
  \<^item> \<open>Slug\<close>, \<open>Address\<close>: \<^verbatim>\<open>internal/service/internal/slug\<close> and \<^verbatim>\<open>address\<close>. Names as a language, patterns as globs, allow lists
    that never cross an org. The locale \<open>segments\<close> is what joining names with a separator needs.
  \<^item> \<open>Params_Ref\<close>: \<^verbatim>\<open>internal/service/internal/leaf/params/ref.go\<close>. Scanning, parsing and resolving references; parsing decides the
    language of references; a value has one reading as text and references, stated without the scanner, and expansion substitutes
    along it or gives the first error; domains do not depend on secrets; server params stay in the server file.
  \<^item> \<open>Planfile\<close>: \<^verbatim>\<open>internal/service/internal/planfile\<close> and \<^verbatim>\<open>internal/service/approve.go\<close>. Plans, the gate of an approval, what an apply
    walks, and what a file may hold. The diffs that make the rows of a plan are not modelled.
  \<^item> \<open>Settings\<close>, \<open>Schedule\<close>: \<^verbatim>\<open>internal/service/internal/leaf/settings\<close> and \<^verbatim>\<open>flow/schedule\<close>. The catalogue, the cascade whose limits are
    ceilings, all-or-nothing saves, and which schedules are registered.
  \<^item> \<open>Job\<close>, \<open>Jobs_Runner\<close>, \<open>Jobs_Safety\<close>, \<open>Jobs_Pass\<close>: \<^verbatim>\<open>internal/service/internal/leaf/job\<close>, the job rows of \<^verbatim>\<open>store/jobs.go\<close>, and
    \<^verbatim>\<open>flow/jobs/jobs.go\<close>. The rows are a list behind the locale \<open>job_store\<close>. The runner's state is a record; each
    piece of code under its mutex is one operation, and \<open>rstep\<close> lets the operations happen in any order
    with any arguments while any store call may fail. Every reachable state satisfies \<open>runner_inv\<close>; from it
    come mutual exclusion of lock sets, order per tile, final rows that stay, swaps that are not aborted
    and a hook that runs once. A job that is superseded while it runs has its context cancelled; one that locks nothing is superseded only by a job that takes everything. A pass is shown to start all it may and never to stall.
  \<^item> \<open>Netip\<close>, \<open>Sha1\<close>: \<^verbatim>\<open>net/netip\<close> and the hash the names of interfaces use, as far as the code needs them.
  \<^item> \<open>Mesh\<close>: \<^verbatim>\<open>internal/mesh\<close>. Address plan, peers that partition the networks, and next hops that deliver by a
    shortest way.
  \<^item> \<open>Netfilter\<close>: the verdict of a chain of rules, with jumps and returns; the locale for packet matches.
  \<^item> \<open>Exits_Plan\<close>, \<open>Exits_Rules\<close>, \<open>Exits_Ladder\<close>: \<^verbatim>\<open>internal/exits\<close>. The commands of links, serving sides, subjects and
    the fence, the verdicts those rules give, and the health ladder as a state machine.
  \<^item> \<open>Vip_Filter\<close>, \<open>Vip\<close>: \<^verbatim>\<open>internal/service/internal/vip\<close>. The node's chains refine a policy stated on packets; the table is checked
    at all times and an apply commits or keeps.

  \<^item> \<open>Move\<close>, \<open>Move_Safety\<close>, \<open>Move_Rows\<close>: \<^verbatim>\<open>internal/service/internal/flow/move\<close> and \<^verbatim>\<open>store/moves.go\<close>. The state is the trace of the calls
    the flow makes, newest first; a \<open>world\<close> answers each call by the whole history, so failures and answers
    are arbitrary, and a process that dies leaves a suffix of the trace. A recorded phase promises
    something about the trace (\<open>phase_inv\<close>), and \<open>path\<close> says that the promises hold after every call. Shown: the target
    starts from a full copy, the source is removed last, a finished move runs somewhere, an interrupted one gets done,
    an env whose begins do not overlap has one unfinished move. \<open>Move_Rows\<close> splits a begin into its check and its insert, between which the code holds
    nothing off: two begins of one env that overlap leave two unfinished moves, which an example shows.
    A rollback whose row is not written is the one way out of the first; an example shows it.
  \<^item> \<open>Data_Refinement\<close>: the locale \<open>refinement\<close>, operations on rows that implement operations on an abstract value.
  \<^item> \<open>Hostgrant\<close>: \<^verbatim>\<open>internal/service/internal/leaf/hostgrant\<close>. The table of grants implements sets of lines per stack; approving what a
    refusal asks for makes the check pass.
  \<^item> \<open>Tier\<close>: \<^verbatim>\<open>internal/service/internal/leaf/tier\<close>. The rows of an org implement a list of names.
  \<^item> \<open>Route\<close>: \<^verbatim>\<open>internal/service/internal/leaf/route\<close> and the host grammar of \<^verbatim>\<open>internal/installspec\<close>. The overlap test decides whether two hosts
    share a name; every name has one route at most; a stored target is a plain host and port.

  \<^item> \<open>Release\<close>: \<^verbatim>\<open>internal/service/internal/leaf/release\<close> and \<^verbatim>\<open>store/releases.go\<close>. The tables are lists of rows. Numbers have no gap,
    pins stay as they were cut, a derived release runs its base with the swapped pins, \<open>Diff\<close> lists what differs.
  \<^item> \<open>Dns_Zone\<close>, \<open>Dns_Records\<close>, \<open>Dns_Safety\<close>, \<open>Dns_Converge\<close>, \<open>Dns_Manage\<close>: \<^verbatim>\<open>internal/service/internal/leaf/dnscap\<close> with \<^verbatim>\<open>store/dns_records.go\<close>
    and \<^verbatim>\<open>store/dns_domains.go\<close>. \<open>Dns_Zone\<close> has names, scopes, values and \<open>checkWrite\<close>; \<open>Dns_Records\<close> the operations on a state of two tables
    and the calls sent to providers; \<open>Dns_Manage\<close> the table of managed domains and the ACME check. Shown: a reconcile, whatever the zones hold and
    whatever fails, takes only records that are stackr's and writes to a zone only inside the scope of that zone's domain, given that the links of wants and
    rows name the domain of their zone; one that ends without an error leaves a table
    that matches the wants, so that the next one calls no provider; a change of scope hands back what falls outside; a name is managed once.

  \<^item> \<open>Dns_Wants\<close>: \<^verbatim>\<open>internal/service/dnsrecords.go\<close> and the wants of \<^verbatim>\<open>dnscustom.go\<close>. For hosts and domains stored in normal form, a want lies in
    the scope of a managed domain, a tile's in one its org may use unless it is held; the wants are linked as \<open>Dns_Safety\<close> relies on and
    are what \<open>Dns_Converge\<close> needs, so a sync that ends without an error is followed by a quiet one.

  \<^bold>\<open>How the parts meet.\<close> \<open>Errs\<close> and \<open>Slug\<close> are under every service package. The runner's number of workers is the
  setting \<^verbatim>\<open>workers\<close>, read before every pass: a property below joins the two components. A move runs as
  a job: its locks (\<open>moveLocks\<close>) keep two moves of one env apart, which is why the runs of a move follow each
  other in \<open>Move_Safety\<close>. Files
  (\<open>Planfile\<close>) hold references (\<open>Params_Ref\<close>); the settings' schedules are what \<open>Schedule\<close> registers; mesh addresses,
  exits and the firewall share \<open>Netip\<close> and \<open>Netfilter\<close>. What \<open>Dns_Wants\<close> computes is what \<open>Dns_Records\<close> reconciles, over the domains of \<open>Dns_Manage\<close>.

  \<^bold>\<open>Modelling choices.\<close> Code outside the repository is a parameter: the database's failures and orders,
  the clock, ids, hooks and handlers of the runner (\<open>env\<close>), kernel commands of exits and virtual addresses,
  number, cron and JSON libraries (\<open>set_env\<close>). What a zone holds, what a provider answers and Unicode's case tables are parameters too (\<open>dns_env\<close>, \<open>uni\<close>). Goroutines are interleavings of operations; what a handler
  does inside is arbitrary; so is every answer to a move (\<open>world\<close>). A Go map visited in an unspecified order is the list of its entries in some
  order. Loops are structural or have a termination proof; the loop of the firewall's first jump, which
  retries while the kernel's answers ask for it, is an option, \<open>None\<close> when it does not return, and is shown
  to return. Log polling is bounded by the number of chunks of a log plus one.

  \<^bold>\<open>Not modelled.\<close> The user interface and its generated templates, HTTP handlers, the commands, the
  database layer beside the modelled tables, docker, git, registries, object storage and connectors are input
  and output. The promote, deploy and backup flows, placements and the cluster's nodes, the rows of tile hosts and domain
  resources (\<open>Dns_Wants\<close> reads them as lists), tile rows and their checks, and the diffs of the server
  and org files are program logic the library does not cover.
\<close>

section \<open>Workers and the queue\<close>

text \<open>The wiring of \<^verbatim>\<open>internal/service/orchestrator.go\<close>: a pass asks the settings for its workers.\<close>

definition Workers :: "set_leaf \<Rightarrow> err + int" where
  "Workers l = Leaf_Int l ''workers''"

lemma atoi_itoa: "0 < n \<Longrightarrow> n < 2 ^ 63 \<Longrightarrow> atoi (itoa n) = Some n"
  using atoi_nat_str [of "nat n"] by (simp add: itoa_def)

lemma saved_workers_positive:
  assumes boot: "sl_boot l = bootSettings cfg" "bc_Workers cfg < 2 ^ 63" and save: "Leaf_Set e l ''workers'' raw = (l', None)"
  shows "\<exists>n > 0. Workers l' = Inr n"
proof -
  obtain k where k: "knob_lookup ''workers'' = Some k" "\<not> k_EmptyOff k" "k_Default k = ''2''" using workers_knob by blast
  have two: "atoi ''2'' = Some 2" by code_simp
  have c: "flat_Check e ''workers'' raw = None" using save by (auto simp: Leaf_Set_def split: option.splits)
  have g: "Leaf_Get l' ''workers'' = Inr (if trim_space raw \<noteq> [] then trim_space raw
      else case bootSettings cfg ''workers'' of Some b \<Rightarrow> b | None \<Rightarrow> ''2'')"
    using Leaf_Set_Get [OF save k(1)] k boot(1) by (simp split: option.splits)
  show ?thesis
  proof (cases "trim_space raw = []")
    case True
    then show ?thesis using g two boot(2) atoi_itoa [of "bc_Workers cfg"]
      by (cases "bc_Workers cfg > 0") (simp_all add: Workers_def Leaf_Int_def bootSettings_workers)
  next
    case False
    then obtain n where "atoi (trim_space raw) = Some n" "1 \<le> n" using workers_check [OF c] by blast
    then show ?thesis using g False by (simp add: Workers_def Leaf_Int_def)
  qed
qed

text \<open>
  C30: No number of workers that can be saved stops the queue: after any accepted save of the setting (an
  empty one too, which falls back to the boot value or the default), a pass with the workers the settings
  give starts the oldest queued job when nothing runs, the store answers and nothing holds the queue.
\<close>

theorem saved_workers_keep_queue_moving:
  assumes boot: "sl_boot l = bootSettings cfg" "bc_Workers cfg < 2 ^ 63" and save: "Leaf_Set se l ''workers'' raw = (l', None)"
    and s: "Jobs_Safety.reachable e s" "r_running s = []" "j \<in> set (r_rows s)" "j_State j = Queued"
    and env: "\<forall>m. \<not> e_hold e m" "\<forall>m. \<not> e_fault e m"
  shows "\<exists>k \<in> set (r_rows s). j_State k = Queued \<and> map_of (r_running (fst (Jobs_Runner.pass e (Workers l') s))) (j_ID k) \<noteq> None
     \<and> (\<forall>o' \<in> set (r_rows s). j_State o' = Queued \<longrightarrow> j_CreatedAt k \<le> j_CreatedAt o')"
proof -
  obtain n where "n > 0" and w: "Workers l' = Inr n" using saved_workers_positive [OF boot save] by blast
  then show ?thesis unfolding w using pass_starts_oldest [OF s(1,2) _ s(3,4) env] by blast
qed

definition ex_cfg :: boot_config where
  "ex_cfg = \<lparr>bc_Workers = 0, bc_ImageWatchInterval = 0, bc_OrphanRetentionDays = 0, bc_PanelDomain = [], bc_RootDomain = [], bc_ACMEEmail = [], bc_TrustedProxies = []\<rparr>"

definition ex_leaf :: set_leaf where
  "ex_leaf = \<lparr>sl_rows = Map.empty, sl_boot = bootSettings ex_cfg, sl_fault = None\<rparr>"

theorem saved_workers_keep_queue_moving_witness:
  "\<exists>k \<in> set (r_rows ex_queued). j_State k = Queued
     \<and> map_of (r_running (fst (Jobs_Runner.pass ex_renv (Workers (fst (Leaf_Set ex_set_env ex_leaf ''workers'' ''1''))) ex_queued))) (j_ID k) \<noteq> None
     \<and> (\<forall>o' \<in> set (r_rows ex_queued). j_State o' = Queued \<longrightarrow> j_CreatedAt k \<le> j_CreatedAt o')"
proof -
  let ?j = "hd (r_rows ex_queued)"
  have "snd (Leaf_Set ex_set_env ex_leaf ''workers'' ''1'') = None" by code_simp
  then have save: "Leaf_Set ex_set_env ex_leaf ''workers'' ''1'' = (fst (Leaf_Set ex_set_env ex_leaf ''workers'' ''1''), None)" by (simp add: prod_eq_iff)
  have q: "r_running ex_queued = []" "?j \<in> set (r_rows ex_queued)" "j_State ?j = Queued" by code_simp+
  have b: "sl_boot ex_leaf = bootSettings ex_cfg" "bc_Workers ex_cfg < 2 ^ 63" by (simp_all add: ex_leaf_def ex_cfg_def)
  show ?thesis by (rule saved_workers_keep_queue_moving [OF b save ex_reachable(2) q]) (simp_all add: ex_renv_ok)
qed

section \<open>Moves and the queue\<close>

text \<open>
  The locks of a move's job (\<^verbatim>\<open>moveLocks\<close> of \<^verbatim>\<open>internal/service/move.go\<close>): the env, its tiles and, for a live move, the
  target node, whose helpers publish fixed ports.
\<close>

definition moveLocks :: "env_move \<Rightarrow> string list \<Rightarrow> string list" where
  "moveLocks m tileIDs = (''env:'' @ mv_EnvID m) # tileIDs @ (if mv_Live m then [''rsync-target:'' @ mv_ToNode m] else [])"

lemma moveLocks_overlap:
  "mv_EnvID m = mv_EnvID m' \<or> mv_Live m \<and> mv_Live m' \<and> mv_ToNode m = mv_ToNode m' \<Longrightarrow> Overlaps (LockSet (moveLocks m ts)) (LockSet (moveLocks m' ts'))"
proof -
  assume "mv_EnvID m = mv_EnvID m' \<or> mv_Live m \<and> mv_Live m' \<and> mv_ToNode m = mv_ToNode m'"
  then have "\<exists>t. t \<in> set (moveLocks m ts) \<and> t \<in> set (moveLocks m' ts')" unfolding moveLocks_def by (elim disjE) auto
  moreover have "set (LockSet xs) = set xs" for xs by (simp add: LockSet_def)
  ultimately show ?thesis by (auto simp: Overlaps_def list_ex_iff)
qed

text \<open>
  C35: Two moves of one env never run at the same time, and neither do two live moves onto one node, whose helpers
  would publish the same ports: in every state the runner reaches, two different running jobs that hold the locks of moves are moves
  of different envs and, when both are live, to different nodes.
\<close>

theorem moves_run_apart:
  assumes "Jobs_Safety.reachable e s" "map_of (r_running s) i = Some a" "map_of (r_running s) k = Some b" "i \<noteq> k"
    and "a_lock a = LockSet (moveLocks m ts)" "a_lock b = LockSet (moveLocks m' ts')"
  shows "mv_EnvID m \<noteq> mv_EnvID m' \<and> (mv_Live m \<and> mv_Live m' \<longrightarrow> mv_ToNode m \<noteq> mv_ToNode m')"
proof -
  have "\<not> Overlaps (a_lock a) (a_lock b)"
    using reachable_inv [OF assms(1)] assms(2-4) by (auto simp: runner_inv_def core_def disjoint_locks_def)
  then show ?thesis using moveLocks_overlap [of m m' ts ts'] assms(5,6) by auto
qed

definition ex_mover :: "string \<Rightarrow> string \<Rightarrow> env_move" where
  "ex_mover env node = ex_move\<lparr>mv_EnvID := env, mv_ToNode := node\<rparr>"

definition ex_moving :: runner where
  "ex_moving = fst (Jobs_Runner.pass ex_renv (Inr 2)
     (fst (Enqueue ex_renv ''move-env'' (moveLocks (ex_mover ''e2'' ''c'') [''t2'']) ''{}'' None ([], [])
       (fst (Enqueue ex_renv ''move-env'' (moveLocks (ex_mover ''e1'' ''b'') [''t1'']) ''{}'' None ([], []) ex_boot)))))"

theorem moves_run_apart_witness:
  "map_of (r_running ex_moving) ''2'' \<noteq> None \<and> map_of (r_running ex_moving) ''4'' \<noteq> None \<and> mv_ToNode (ex_mover ''e1'' ''b'') \<noteq> mv_ToNode (ex_mover ''e2'' ''c'')"
proof -
  have r: "Jobs_Safety.reachable ex_renv ex_moving" unfolding ex_moving_def
    by (rule reachable.step [OF reachable.step [OF reachable.step [OF ex_reachable(1) rstep.enqueue] rstep.enqueue] rstep.pass])
  have run: "map_of (r_running ex_moving) ''2'' \<noteq> None" "map_of (r_running ex_moving) ''4'' \<noteq> None" "''2'' \<noteq> ''4''" by code_simp+
  have "a_lock (the (map_of (r_running ex_moving) ''2'')) = LockSet (moveLocks (ex_mover ''e1'' ''b'') [''t1''])"
    "a_lock (the (map_of (r_running ex_moving) ''4'')) = LockSet (moveLocks (ex_mover ''e2'' ''c'') [''t2''])" by code_simp+
  moreover obtain a b where ab: "map_of (r_running ex_moving) ''2'' = Some a" "map_of (r_running ex_moving) ''4'' = Some b" using run by blast
  ultimately have "mv_Live (ex_mover ''e1'' ''b'') \<and> mv_Live (ex_mover ''e2'' ''c'') \<longrightarrow> mv_ToNode (ex_mover ''e1'' ''b'') \<noteq> mv_ToNode (ex_mover ''e2'' ''c'')"
    using moves_run_apart [OF r ab run(3)] by simp
  then show ?thesis using run by (simp add: ex_mover_def ex_move_def)
qed

end
